(* ===== verification/Mix_Prelude.thy ===== *)
theory Mix_Prelude
  imports Main "HOL-Library.Word"
begin

unbundle bit_operations_syntax

text \<open>
  The prelude of the development: the machine integer types of \<^verbatim>\<open>include/types.h\<close>, the
  outcome of a kernel operation as a value, C's truncating remainder, the search of a fixed-size
  table for its first fitting slot, the one interface every reference-counted table of the kernel
  shares, and the collections the component theories add their facts to.
\<close>

named_theorems c_defs \<open>definitions of one-line C macros and constants\<close>
named_theorems frame_simps \<open>what an operation leaves unchanged\<close>

section \<open>Machine integers\<close>

type_synonym u8 = "8 word"
type_synonym u16 = "16 word"
type_synonym u32 = "32 word"

text \<open>C's \<^verbatim>\<open>%\<close> on signed operands takes the sign of the dividend.\<close>

definition c_rem :: "int \<Rightarrow> int \<Rightarrow> int" where
  "c_rem a b = (if 0 \<le> a then a mod \<bar>b\<bar> else - ((- a) mod \<bar>b\<bar>))"

lemma c_rem_nonneg [simp]: "0 \<le> a \<Longrightarrow> 0 < b \<Longrightarrow> c_rem a b = a mod b"
  by (simp add: c_rem_def)

text \<open>String literals of the code are byte lists here.\<close>

definition lit :: "string \<Rightarrow> u8 list" where
  "lit cs = map of_char cs"

lemma lit_simps [simp]: "lit [] = []" "lit (c # cs) = of_char c # lit cs"
  by (simp_all add: lit_def)

section \<open>Outcomes\<close>

text \<open>
  A kernel operation either returns or stops. \<open>Panic\<close> is a call of \<^verbatim>\<open>panic\<close> (which never
  returns), \<open>Fault\<close> is an access the code has no right to (a null pointer, an index past an
  array, a loop counter past its type), \<open>Blocked\<close> is a wait no pending interrupt ends, and
  \<open>Switched p\<close> says that control passed to the process in slot \<open>p\<close> of the process table.
\<close>

datatype halt = Panic string | Fault string | Blocked | Switched nat

type_synonym 'a res = "halt + 'a"

definition bnd :: "'a res \<Rightarrow> ('a \<Rightarrow> 'b res) \<Rightarrow> 'b res" where
  "bnd m f = (case m of Inl e \<Rightarrow> Inl e | Inr x \<Rightarrow> f x)"

lemma bnd_Inl [simp]: "bnd (Inl e) f = Inl e"
  by (simp add: bnd_def)

lemma bnd_Inr [simp]: "bnd (Inr x) f = f x"
  by (simp add: bnd_def)

lemma bnd_Inr_right [simp]: "bnd m Inr = m"
  by (cases m) auto

lemma bnd_eq_Inr_iff: "bnd m f = Inr y \<longleftrightarrow> (\<exists>x. m = Inr x \<and> f x = Inr y)"
  by (cases m) auto

lemma bndE: "bnd m f = Inr y \<Longrightarrow> (\<And>x. m = Inr x \<Longrightarrow> f x = Inr y \<Longrightarrow> P) \<Longrightarrow> P"
  by (cases m) auto

lemma bnd_assoc: "bnd (bnd m f) g = bnd m (\<lambda>x. bnd (f x) g)"
  by (cases m) auto

lemma bnd_cong [fundef_cong]:
  "m = m' \<Longrightarrow> (\<And>x. m' = Inr x \<Longrightarrow> f x = f' x) \<Longrightarrow> bnd m f = bnd m' f'"
  by (cases m') auto

lemma bnd_if: "bnd (if b then m else m') f = (if b then bnd m f else bnd m' f)"
  by simp

section \<open>Fixed-size tables\<close>

text \<open>
  The kernel's tables (processes, open files, inodes, buffers) are arrays that every allocation
  scans from index 0 for the first entry that satisfies a test.
\<close>

fun find_idx :: "('a \<Rightarrow> bool) \<Rightarrow> 'a list \<Rightarrow> nat option" where
  "find_idx P [] = None"
| "find_idx P (x # xs) = (if P x then Some 0 else map_option Suc (find_idx P xs))"

lemma find_idx_None_iff: "find_idx P xs = None \<longleftrightarrow> (\<forall>x \<in> set xs. \<not> P x)"
  by (induction xs) auto

lemma find_idx_Some_iff:
  "find_idx P xs = Some i \<longleftrightarrow> i < length xs \<and> P (xs ! i) \<and> (\<forall>j < i. \<not> P (xs ! j))"
proof (induction xs arbitrary: i)
  case Nil
  show ?case by simp
next
  case (Cons x xs)
  show ?case
  proof (cases i)
    case 0
    then show ?thesis by auto
  next
    case (Suc k)
    have "(\<forall>j < Suc k. \<not> P ((x # xs) ! j)) \<longleftrightarrow> \<not> P x \<and> (\<forall>j < k. \<not> P (xs ! j))"
      by (auto simp: less_Suc_eq_0_disj)
    with Suc Cons.IH show ?thesis by auto
  qed
qed

lemma find_idx_SomeD:
  assumes "find_idx P xs = Some i"
  shows "i < length xs" and "P (xs ! i)"
  using assms by (simp_all add: find_idx_Some_iff)

lemma find_idx_exists:
  assumes "x \<in> set xs" and "P x"
  shows "\<exists>i. find_idx P xs = Some i"
  using assms find_idx_None_iff [of P xs] by (cases "find_idx P xs") auto

text \<open>Updating one entry of a table; out of range it is the identity (the callers check).\<close>

definition upd_at :: "nat \<Rightarrow> ('a \<Rightarrow> 'a) \<Rightarrow> 'a list \<Rightarrow> 'a list" where
  "upd_at i f xs = xs[i := f (xs ! i)]"

lemma length_upd_at [simp]: "length (upd_at i f xs) = length xs"
  by (simp add: upd_at_def)

lemma nth_upd_at: "j < length xs \<Longrightarrow> upd_at i f xs ! j = (if i = j then f (xs ! j) else xs ! j)"
  by (simp add: upd_at_def nth_list_update)

lemma nth_upd_at_same [simp]: "i < length xs \<Longrightarrow> upd_at i f xs ! i = f (xs ! i)"
  by (simp add: nth_upd_at)

lemma nth_upd_at_other [simp]: "i \<noteq> j \<Longrightarrow> upd_at i f xs ! j = xs ! j"
  by (simp add: upd_at_def)

lemma upd_at_upd_at [simp]: "upd_at i f (upd_at i g xs) = upd_at i (f \<circ> g) xs"
  by (cases "i < length xs") (simp_all add: upd_at_def list_update_beyond)

lemma upd_at_id: "(\<And>x. f x = x) \<Longrightarrow> upd_at i f xs = xs"
  by (simp add: upd_at_def)

section \<open>Facts on words the components share\<close>

lemma unat32_lt: "unat (a :: u32) < 4294967296"
  using unsigned_less [of a] by simp

lemma unat32_le: "unat (a :: u32) \<le> 2 ^ 32"
  using unat32_lt [of a] by simp

lemma unat_add_small: "unat (a :: u32) + n < 2 ^ 32 \<Longrightarrow> unat (a + of_nat n) = unat a + n"
  by (simp add: unat_word_ariths unat_of_nat)

lemma unat32_cases4:
  assumes "unat (y :: u32) < 4"
  obtains "y = 0" | "y = 1" | "y = 2" | "y = 3"
proof -
  have y: "y = of_nat (unat y)" by simp
  from assms consider "unat y = 0" | "unat y = 1" | "unat y = 2" | "unat y = 3" by linarith
  then show thesis using y that by cases auto
qed

lemma unat_of_nat32: "n < 2 ^ 32 \<Longrightarrow> unat (of_nat n :: u32) = n"
  by (simp add: unat_of_nat)

lemma unat_diff_1: "(x :: u32) \<noteq> 0 \<Longrightarrow> unat (x - 1) = unat x - 1"
  by (rule unat_minus_one)

lemma word_neq0_unat: "(x :: u32) \<noteq> 0 \<longleftrightarrow> 0 < unat x"
  by (simp add: unat_gt_0)

end
