(* ===== verification/Mix_Memory.thy ===== *)
theory Mix_Memory
  imports Mix_Prelude
begin

text \<open>
  Physical memory as the C code sees it: bytes at 32-bit addresses, little-endian 16 and 32 bit
  accesses, and \<^verbatim>\<open>lib/string.c\<close> on top of the string instructions of \<^verbatim>\<open>include/x86/asm.h\<close>.
\<close>

type_synonym memory = "u32 \<Rightarrow> u8"

section \<open>Loads and stores\<close>

definition le32 :: "u8 \<Rightarrow> u8 \<Rightarrow> u8 \<Rightarrow> u8 \<Rightarrow> u32" where
  "le32 b0 b1 b2 b3 =
     ucast b0 OR push_bit 8 (ucast b1) OR push_bit 16 (ucast b2) OR push_bit 24 (ucast b3)"

definition byte_of :: "nat \<Rightarrow> u32 \<Rightarrow> u8" where
  "byte_of i v = ucast (drop_bit (8 * i) v)"

definition load32 :: "memory \<Rightarrow> u32 \<Rightarrow> u32" where
  "load32 m a = le32 (m a) (m (a + 1)) (m (a + 2)) (m (a + 3))"

definition store32 :: "memory \<Rightarrow> u32 \<Rightarrow> u32 \<Rightarrow> memory" where
  "store32 m a v = m(a := byte_of 0 v, a + 1 := byte_of 1 v, a + 2 := byte_of 2 v, a + 3 := byte_of 3 v)"

definition load16 :: "memory \<Rightarrow> u32 \<Rightarrow> u16" where
  "load16 m a = ucast (m a) OR push_bit 8 (ucast (m (a + 1)))"

definition store16 :: "memory \<Rightarrow> u32 \<Rightarrow> u16 \<Rightarrow> memory" where
  "store16 m a v = m(a := ucast v, a + 1 := ucast (drop_bit 8 v))"

lemma le32_bytes [simp]: "le32 (byte_of 0 v) (byte_of 1 v) (byte_of 2 v) (byte_of 3 v) = v"
proof (rule bit_eqI)
  fix n
  assume "possible_bit TYPE(u32) n"
  then have "n < 32" by simp
  then show "bit (le32 (byte_of 0 v) (byte_of 1 v) (byte_of 2 v) (byte_of 3 v)) n = bit v n"
    unfolding le32_def byte_of_def
    by (cases "n < 8"; cases "n < 16"; cases "n < 24") (auto simp: bit_simps)
qed

lemmas le32_bytes_Suc [simp] = le32_bytes [unfolded One_nat_def]

lemma byte_of_le32 [simp]:
  "byte_of 0 (le32 a b c d) = a" "byte_of 1 (le32 a b c d) = b"
  "byte_of 2 (le32 a b c d) = c" "byte_of 3 (le32 a b c d) = d"
  unfolding le32_def byte_of_def
  by (rule bit_eqI; auto simp: bit_simps dest: bit_imp_le_length)+


lemma addr_neq [simp]:
  "(a :: u32) + 1 \<noteq> a" "a \<noteq> a + 1" "a + 2 \<noteq> a" "a \<noteq> a + 2" "a + 3 \<noteq> a" "a \<noteq> a + 3"
  "a + 2 \<noteq> a + 1" "a + 1 \<noteq> a + 2" "a + 3 \<noteq> a + 1" "a + 1 \<noteq> a + 3" "a + 3 \<noteq> a + 2" "a + 2 \<noteq> a + 3"
  by simp_all

lemma load32_store32 [simp]: "load32 (store32 m a v) a = v"
  by (simp add: load32_def store32_def)

lemma load32_cong:
  "(\<And>i. i < 4 \<Longrightarrow> m (a + of_nat i) = m' (a + of_nat i)) \<Longrightarrow> load32 m a = load32 m' a"
proof -
  assume h: "\<And>i. i < 4 \<Longrightarrow> m (a + of_nat i) = m' (a + of_nat i)"
  have "m a = m' a" "m (a + 1) = m' (a + 1)" "m (a + 2) = m' (a + 2)" "m (a + 3) = m' (a + 3)"
    using h [of 0] h [of 1] h [of 2] h [of 3] by simp_all
  then show ?thesis by (simp add: load32_def)
qed

lemma store32_eq:
  "store32 m a v x = (if unat (x - a) < 4 then byte_of (unat (x - a)) v else m x)"
proof (cases "unat (x - a) < 4")
  case True
  moreover obtain y where y: "x = a + y" by (metis add_diff_cancel_left' diff_add_cancel add.commute)
  ultimately have "unat y < 4" by simp
  then show ?thesis using y by (cases rule: unat32_cases4) (simp_all add: store32_def)
next
  case False
  then have "x \<noteq> a" "x \<noteq> a + 1" "x \<noteq> a + 2" "x \<noteq> a + 3" by auto
  with False show ?thesis by (simp add: store32_def)
qed

lemma store32_outside: "4 \<le> unat (x - a) \<Longrightarrow> store32 m a v x = m x"
  by (simp add: store32_eq)

text \<open>Addresses that are a multiple of four: an access to one word never touches another.\<close>

definition al4 :: "u32 \<Rightarrow> bool" where
  "al4 a \<longleftrightarrow> 4 dvd unat a"

lemma al4_unat_add:
  assumes "al4 a" and "i < 4"
  shows "unat (a + of_nat i) = unat a + i"
proof -
  have "unat a + i < 4294967296" using unat32_lt [of a] assms unfolding al4_def by (auto elim!: dvdE)
  then show ?thesis by (intro unat_add_small) simp
qed

lemma load32_store32_other [simp]:
  assumes "al4 a" and "al4 b" and "a \<noteq> b"
  shows "load32 (store32 m a v) b = load32 m b"
proof (rule load32_cong)
  fix i :: nat
  assume i: "i < 4"
  have "4 \<le> unat (b + of_nat i - a)"
  proof (rule ccontr)
    assume "\<not> 4 \<le> unat (b + of_nat i - a)"
    then obtain j where j: "j < 4" "j = unat (b + of_nat i - a)" by auto
    then have "of_nat j = b + of_nat i - a" by simp
    then have "a + of_nat j = b + of_nat i" by (simp add: algebra_simps)
    then have "unat a + j = unat b + i"
      using al4_unat_add [OF assms(1) j(1)] al4_unat_add [OF assms(2) i] by simp
    with assms i j have "unat a = unat b" unfolding al4_def by (auto elim!: dvdE)
    with assms(3) show False by (simp add: word_unat_eq_iff)
  qed
  then show "store32 m a v (b + of_nat i) = m (b + of_nat i)" by (rule store32_outside)
qed

lemma load16_store16 [simp]: "load16 (store16 m a v) a = v"
proof (rule bit_eqI)
  fix n
  assume "possible_bit TYPE(u16) n"
  then show "bit (load16 (store16 m a v) a) n = bit v n"
    unfolding load16_def store16_def by (cases "n < 8") (auto simp: bit_simps)
qed

lemma load16_cong: "m a = m' a \<Longrightarrow> m (a + 1) = m' (a + 1) \<Longrightarrow> load16 m a = load16 m' a"
  by (simp add: load16_def)

section \<open>The string instructions\<close>

text \<open>
  \<^verbatim>\<open>rep stosb\<close> stores one byte \<open>n\<close> times upwards, \<^verbatim>\<open>rep movsb\<close> copies \<open>n\<close> bytes upwards, one at
  a time, so that an overlapping copy reads what it has just written.
\<close>

fun stosb :: "u32 \<Rightarrow> u8 \<Rightarrow> nat \<Rightarrow> memory \<Rightarrow> memory" where
  "stosb addr d 0 m = m"
| "stosb addr d (Suc n) m = stosb (addr + 1) d n (m(addr := d))"

fun movsb :: "u32 \<Rightarrow> u32 \<Rightarrow> nat \<Rightarrow> memory \<Rightarrow> memory" where
  "movsb src dst 0 m = m"
| "movsb src dst (Suc n) m = movsb (src + 1) (dst + 1) n (m(dst := m src))"

text \<open>\<^verbatim>\<open>void memset(void *addr, int data, int count)\<close>, with the byte \<^verbatim>\<open>stosb\<close> takes from \<^verbatim>\<open>al\<close>.\<close>

definition memset :: "u32 \<Rightarrow> u32 \<Rightarrow> u32 \<Rightarrow> memory \<Rightarrow> memory" where
  "memset addr data count m = stosb addr (ucast data) (unat count) m"

text \<open>\<^verbatim>\<open>void memmove(void *src, void *dst, uint32_t count)\<close>: the source comes first here.\<close>

definition memmove :: "u32 \<Rightarrow> u32 \<Rightarrow> u32 \<Rightarrow> memory \<Rightarrow> memory" where
  "memmove src dst count m = movsb src dst (unat count) m"

lemma offset_Suc:
  assumes "n < 2 ^ 32"
  shows "unat ((x :: u32) - a) < Suc n \<longleftrightarrow> x = a \<or> unat (x - (a + 1)) < n"
proof (cases "x = a")
  case True
  then show ?thesis by simp
next
  case False
  have "unat (x - (a + 1)) = unat ((x - a) - 1)" by (simp add: algebra_simps)
  also have "\<dots> = unat (x - a) - 1" using False by (intro unat_diff_1) simp
  finally have "unat (x - (a + 1)) = unat (x - a) - 1" .
  moreover have "0 < unat (x - a)" using False by (simp add: unat_gt_0)
  ultimately show ?thesis using False by auto
qed

lemma stosb_eq:
  "n \<le> 2 ^ 32 \<Longrightarrow> stosb a d n m x = (if unat (x - a) < n then d else m x)"
proof (induction n arbitrary: a m)
  case 0
  then show ?case by simp
next
  case (Suc n)
  then have "n < 2 ^ 32" by simp
  note offset_Suc [OF this, of x a]
  with Suc show ?case by auto
qed

lemma memset_eq: "memset a d c m x = (if x - a < c then ucast d else m x)"
  using unat32_le [of c] by (simp add: memset_def stosb_eq word_less_nat_alt)

lemma load32_memset_outside:
  "(\<And>i. i < 4 \<Longrightarrow> \<not> a + of_nat i - p < c) \<Longrightarrow> load32 (memset p d c m) a = load32 m a"
  by (rule load32_cong) (simp add: memset_eq)

text \<open>
  The upward copy is a copy of the old contents as long as no byte is read after it was
  overwritten: the destination is the source itself, or lies at least \<open>n\<close> bytes above it,
  counted around the address space (so a destination below the source is fine).
\<close>

lemma movsb_eq:
  assumes "n \<le> 2 ^ 32" and "dst = src \<or> n \<le> unat (dst - src)"
  shows "movsb src dst n m x = (if unat (x - dst) < n then m (src + (x - dst)) else m x)"
  using assms
proof (induction n arbitrary: src dst m)
  case 0
  then show ?case by simp
next
  case (Suc n)
  let ?m = "m(dst := m src)"
  have n: "n < 2 ^ 32" using Suc.prems(1) by simp
  have "movsb src dst (Suc n) m x = (if unat (x - (dst + 1)) < n
      then ?m (src + 1 + (x - (dst + 1))) else ?m x)"
  proof -
    have "n \<le> 2 ^ 32" "dst + 1 = src + 1 \<or> n \<le> unat (dst + 1 - (src + 1))"
      using Suc.prems by auto
    from Suc.IH [OF this] show ?thesis by simp
  qed
  also have "\<dots> = (if unat (x - (dst + 1)) < n then ?m (src + (x - dst)) else ?m x)"
    by (simp add: algebra_simps)
  also have "\<dots> = (if unat (x - dst) < Suc n then m (src + (x - dst)) else m x)"
  proof (cases "dst = src")
    case True
    then show ?thesis using offset_Suc [OF n, of x dst] by auto
  next
    case False
    then have "Suc n \<le> unat (dst - src)" using Suc.prems(2) by simp
    then have "unat (x - dst) < Suc n \<Longrightarrow> src + (x - dst) \<noteq> dst"
      by (metis add_diff_cancel_left' not_le)
    then show ?thesis using offset_Suc [OF n, of x dst] by auto
  qed
  finally show ?case .
qed

lemma memmove_eq:
  assumes "dst = src \<or> c \<le> dst - src"
  shows "memmove src dst c m x = (if x - dst < c then m (src + (x - dst)) else m x)"
proof -
  have "dst = src \<or> unat c \<le> unat (dst - src)" using assms by (simp add: word_le_nat_alt)
  with unat32_le [of c] show ?thesis
    by (simp add: memmove_def movsb_eq word_less_nat_alt)
qed


section \<open>Strings\<close>

text \<open>
  \<^verbatim>\<open>strcmp\<close> and \<^verbatim>\<open>strlen\<close> of \<^verbatim>\<open>lib/string.c\<close>. A \<^verbatim>\<open>const char *\<close> is the function from the offset to
  the byte read there. The first operand of \<^verbatim>\<open>strcmp\<close> and the operand of \<^verbatim>\<open>strlen\<close> may be user
  pointers, so each of their reads may fault; the order of the reads is the code's.
\<close>

fun strcmp :: "(nat \<Rightarrow> u8 res) \<Rightarrow> (nat \<Rightarrow> u8) \<Rightarrow> nat \<Rightarrow> int res" where
  "strcmp p q 0 = bnd (p 0) (\<lambda>_. Inr 1)"
| "strcmp p q (Suc limit) = bnd (p 0) (\<lambda>c.
     if c \<noteq> 0 then
       (if c \<noteq> q 0 then Inr 0 else strcmp (\<lambda>i. p (Suc i)) (\<lambda>i. q (Suc i)) limit)
     else if q 0 \<noteq> 0 then Inr 0
     else Inr 1)"

text \<open>
  \<^verbatim>\<open>int cnt\<close> overflows after \<open>2 ^ 31 - 1\<close> increments, which is what the first argument counts.
\<close>

fun strlen_from :: "nat \<Rightarrow> (nat \<Rightarrow> u8 res) \<Rightarrow> nat \<Rightarrow> nat res" where
  "strlen_from 0 s cnt = Inl (Fault ''strlen: int overflow'')"
| "strlen_from (Suc n) s cnt =
     bnd (s cnt) (\<lambda>c. if c \<noteq> 0 then strlen_from n s (Suc cnt) else Inr (Suc cnt))"

definition strlen :: "(nat \<Rightarrow> u8 res) \<Rightarrow> nat res" where
  "strlen s = strlen_from (2 ^ 31 - 1) s 0"

text \<open>The string a pointer denotes, cut after \<open>n\<close> characters.\<close>

definition cstr :: "nat \<Rightarrow> (nat \<Rightarrow> u8) \<Rightarrow> u8 list" where
  "cstr n p = takeWhile (\<lambda>c. c \<noteq> 0) (map p [0..<n])"

lemma cstr_0 [simp]: "cstr 0 p = []"
  by (simp add: cstr_def)

lemma cstr_Suc: "cstr (Suc n) p = (if p 0 = 0 then [] else p 0 # cstr n (\<lambda>i. p (Suc i)))"
proof -
  have "map p [0..<Suc n] = p 0 # map (\<lambda>i. p (Suc i)) [0..<n]"
    by (simp add: map_upt_Suc del: upt_Suc)
  then show ?thesis by (simp add: cstr_def)
qed

lemma strcmp_total:
  "strcmp (\<lambda>i. Inr (p i)) q n = Inr (if cstr n p = cstr n q then 1 else 0)"
proof (induction n arbitrary: p q)
  case 0
  then show ?case by simp
next
  case (Suc n)
  then show ?case by (auto simp: cstr_Suc)
qed

lemma strlen_from_eq:
  assumes "\<And>i. i < n \<Longrightarrow> \<exists>c. f (cnt + i) = Inr c \<and> c \<noteq> 0" and "f (cnt + n) = Inr 0" and "n < k"
  shows "strlen_from k f cnt = Inr (cnt + n + 1)"
  using assms
proof (induction k arbitrary: cnt n)
  case 0
  then show ?case by simp
next
  case (Suc k)
  show ?case
  proof (cases n)
    case 0
    with Suc.prems show ?thesis by simp
  next
    case (Suc n')
    have "strlen_from k f (Suc cnt) = Inr (Suc cnt + n' + 1)"
    proof (rule Suc.IH)
      show "\<exists>c. f (Suc cnt + i) = Inr c \<and> c \<noteq> 0" if "i < n'" for i
        using Suc.prems(1) [of "Suc i"] that Suc by simp
    qed (use Suc.prems Suc in simp_all)
    moreover have "\<exists>c. f cnt = Inr c \<and> c \<noteq> 0" using Suc.prems(1) [of 0] Suc by simp
    ultimately show ?thesis using Suc by auto
  qed
qed

lemma strlen_eq:
  assumes "\<And>i. i < n \<Longrightarrow> f i \<noteq> 0" and "f n = 0" and "n < 2 ^ 31 - 1"
  shows "strlen (\<lambda>i. Inr (f i)) = Inr (n + 1)"
  unfolding strlen_def using strlen_from_eq [of n "\<lambda>i. Inr (f i)" 0] assms by simp

section \<open>Little-endian structures\<close>

text \<open>
  Reading the fields of a C structure from the bytes of a disk block, and writing them.
\<close>

definition get16 :: "u8 list \<Rightarrow> nat \<Rightarrow> u16" where
  "get16 bs i = ucast (bs ! i) OR push_bit 8 (ucast (bs ! (i + 1)))"

definition get32 :: "u8 list \<Rightarrow> nat \<Rightarrow> u32" where
  "get32 bs i = le32 (bs ! i) (bs ! (i + 1)) (bs ! (i + 2)) (bs ! (i + 3))"

definition put16 :: "u16 \<Rightarrow> u8 list" where
  "put16 v = [ucast v, ucast (drop_bit 8 v)]"

definition put32 :: "u32 \<Rightarrow> u8 list" where
  "put32 v = [byte_of 0 v, byte_of 1 v, byte_of 2 v, byte_of 3 v]"

lemma length_put [simp]: "length (put16 w) = 2" "length (put32 v) = 4"
  by (simp_all add: put16_def put32_def)

lemma get32_append:
  "get32 (xs @ put32 v @ ys) (length xs) = v"
  by (simp add: get32_def put32_def nth_append)

lemma get16_append:
  "get16 (xs @ put16 v @ ys) (length xs) = v"
proof -
  have "(ucast (ucast v :: u8) OR push_bit 8 (ucast (ucast (drop_bit 8 v) :: u8)) :: u16) = v"
  proof (rule bit_eqI)
    fix n
    assume "possible_bit TYPE(u16) n"
    then show "bit (ucast (ucast v :: u8) OR push_bit 8 (ucast (ucast (drop_bit 8 v) :: u8)) :: u16) n
      = bit v n"
      by (cases "n < 8") (auto simp: bit_simps)
  qed
  then show ?thesis by (simp add: get16_def put16_def nth_append)
qed

section \<open>Properties\<close>

lemma movsb_repeat:
  assumes "n < 2 ^ 32"
  shows "movsb a (a + 1) n m x = (if unat (x - (a + 1)) < n then m a else m x)"
  using assms
proof (induction n arbitrary: a m)
  case 0
  then show ?case by simp
next
  case (Suc n)
  let ?m = "m(a + 1 := m a)"
  have "movsb a (a + 1) (Suc n) m x = movsb (a + 1) (a + 1 + 1) n ?m x" by simp
  also have "\<dots> = (if unat (x - (a + 1 + 1)) < n then ?m (a + 1) else ?m x)"
    by (rule Suc.IH) (use Suc.prems in simp)
  also have "\<dots> = (if unat (x - (a + 1)) < Suc n then m a else m x)"
    using offset_Suc [of n x "a + 1"] Suc.prems by auto
  finally show ?case .
qed

text \<open>
  \<^verbatim>\<open>memmove\<close> copies upwards, whatever the overlap. When the destination does not lie inside the
  source behind its start, the result is the old contents; one byte above the source it is the first
  byte, repeated.
\<close>

theorem memmove_overlap:
  "(dst = src \<or> n \<le> dst - src \<longrightarrow>
      (\<forall>x. memmove src dst n m x = (if x - dst < n then m (src + (x - dst)) else m x)))
   \<and> (\<forall>x. memmove src (src + 1) n m x = (if x - (src + 1) < n then m src else m x))"
  using memmove_eq [of dst src n m] unat32_lt [of n]
  by (auto simp: memmove_def movsb_repeat word_less_nat_alt)

theorem memmove_overlap_witness:
  "memmove 0x1000 0x800 0x1000 (\<lambda>a. ucast (drop_bit 8 a)) 0x900 = (0x11 :: u8)
   \<and> memmove 0x1000 0x1001 0x1000 (\<lambda>a. ucast (drop_bit 8 a)) 0x1F00 = (0x10 :: u8)"
proof -
  have a: "memmove 0x1000 0x800 0x1000 m 0x900 = m 0x1100" for m :: memory
    using memmove_overlap [of "0x800" "0x1000" "0x1000" m] by simp
  have b: "memmove 0x1000 0x1001 0x1000 m 0x1F00 = m 0x1000" for m :: memory
    using memmove_overlap [of "0x800" "0x1000" "0x1000" m, THEN conjunct2, THEN spec, of "0x1F00"] by simp
  show ?thesis unfolding a b by simp
qed

lemma strcmp_cut:
  "strcmp (\<lambda>i. if i \<le> length (cstr n p) then Inr (p i) else Inl (Fault e)) q n
    = Inr (if cstr n p = cstr n q then 1 else 0)"
proof (induction n arbitrary: p q)
  case 0
  then show ?case by simp
next
  case (Suc n)
  show ?case
  proof (cases "p 0 = 0")
    case True
    then show ?thesis by (auto simp: cstr_Suc)
  next
    case False
    have "(\<lambda>i. if Suc i \<le> length (cstr (Suc n) p) then Inr (p (Suc i)) else Inl (Fault e))
      = (\<lambda>i. if i \<le> length (cstr n (\<lambda>i. p (Suc i))) then Inr (p (Suc i)) else Inl (Fault e))"
      using False by (auto simp: cstr_Suc fun_eq_iff)
    then show ?thesis using False Suc.IH [of "\<lambda>i. p (Suc i)" "\<lambda>i. q (Suc i)"] by (auto simp: cstr_Suc)
  qed
qed


definition ex_str :: "nat \<Rightarrow> u8" where
  "ex_str i = (if i < 2 then 97 else 0)"


end
