(* ===== verification/Mix_Layout.thy ===== *)
theory Mix_Layout
  imports Mix_Memory
begin

text \<open>
  The memory map of \<^verbatim>\<open>include/mm/map.h\<close> and the paging macros of \<^verbatim>\<open>kernel/mm/vm.h\<close>: constants,
  rounding to pages, and the split of a virtual address and of a page table entry.
\<close>

section \<open>Constants\<close>

definition CGAADDR :: u32 where [simp]: "CGAADDR = 0xB8000"
definition EXTMEM :: u32 where [simp]: "EXTMEM = 0x100000"
definition KERNEND :: u32 where [simp]: "KERNEND = 0x40000000"
definition USEREND :: u32 where [simp]: "USEREND = 0xFFC00000"
definition MEMSIZE :: u32 where [simp]: "MEMSIZE = 0x20000000"
definition PAGESIZE :: u32 where [simp]: "PAGESIZE = 0x1000"
definition STACKSIZE :: u32 where [simp]: "STACKSIZE = 0x1000"
definition SECTSIZE :: u32 where [simp]: "SECTSIZE = 512"
definition DISKSIZE :: u32 where [simp]: "DISKSIZE = 0x400000"
definition NSECTOR :: u32 where [simp]: "NSECTOR = DISKSIZE div SECTSIZE"

definition PTE_P :: u32 where [simp]: "PTE_P = 0x001"
definition PTE_W :: u32 where [simp]: "PTE_W = 0x002"
definition PTE_U :: u32 where [simp]: "PTE_U = 0x004"

section \<open>Macros\<close>

definition PGROUNDUP :: "u32 \<Rightarrow> u32" where
  "PGROUNDUP sz = (sz + PAGESIZE - 1) AND NOT (PAGESIZE - 1)"

definition PGROUNDDOWN :: "u32 \<Rightarrow> u32" where
  "PGROUNDDOWN a = a AND NOT (PAGESIZE - 1)"

definition PDX :: "u32 \<Rightarrow> u32" where
  "PDX va = drop_bit 22 va AND 0x3FF"

definition PTX :: "u32 \<Rightarrow> u32" where
  "PTX va = drop_bit 12 va AND 0x3FF"

definition PGADDR :: "u32 \<Rightarrow> u32 \<Rightarrow> u32 \<Rightarrow> u32" where
  "PGADDR d t o' = push_bit 22 d OR push_bit 12 t OR o'"

definition PTE_ADDR :: "u32 \<Rightarrow> u32" where
  "PTE_ADDR pte = pte AND NOT 0xFFF"

definition PTE_FLAGS :: "u32 \<Rightarrow> u32" where
  "PTE_FLAGS pte = pte AND 0xFFF"

section \<open>Pages\<close>

text \<open>\<open>pgal a\<close>: the address is a multiple of the page size.\<close>

definition pgal :: "u32 \<Rightarrow> bool" where
  "pgal a \<longleftrightarrow> 4096 dvd unat a"

lemma mask12: "(0xFFF :: u32) = mask 12"
  by (simp add: mask_eq_exp_minus_1)

lemma mask10: "(0x3FF :: u32) = mask 10"
  by (simp add: mask_eq_exp_minus_1)

lemma and_not_fff: "(x :: u32) AND - 4096 = push_bit 12 (drop_bit 12 x)"
proof -
  have "(- 4096 :: u32) = NOT (mask 12)" by (simp add: mask_eq_exp_minus_1)
  moreover have "x AND NOT (mask 12) = push_bit 12 (drop_bit 12 x)"
    by (rule bit_eqI) (auto simp: bit_simps)
  ultimately show ?thesis by simp
qed

lemma unat_page_down: "unat ((x :: u32) AND - 4096) = unat x div 4096 * 4096"
proof -
  have "unat x div 4096 * 4096 < 2 ^ 32" using unat32_lt [of x] by simp
  moreover have "(x AND - 4096) = (x div 4096) * 4096"
    by (simp add: and_not_fff push_bit_eq_mult drop_bit_eq_div)
  ultimately show ?thesis
    by (simp add: unat_word_ariths unat_div_distrib)
qed

lemma unat_PGROUNDDOWN: "unat (PGROUNDDOWN x) = unat x div 4096 * 4096"
  by (simp add: PGROUNDDOWN_def unat_page_down)

lemma unat_PTE_ADDR: "unat (PTE_ADDR x) = unat x div 4096 * 4096"
  by (simp add: PTE_ADDR_def unat_page_down)

lemma unat_and_mask: "unat ((x :: u32) AND mask n) = unat x mod 2 ^ n"
  by (simp only: take_bit_eq_mask [symmetric] unsigned_take_bit_eq) (simp add: take_bit_eq_mod)

lemma unat_PTE_FLAGS: "unat (PTE_FLAGS x) = unat x mod 4096"
  by (simp only: PTE_FLAGS_def mask12 unat_and_mask) simp

lemma unat_PDX: "unat (PDX va) = unat va div 4194304"
proof -
  have "unat (PDX va) = unat va div 2 ^ 22 mod 2 ^ 10"
    by (simp only: PDX_def mask10 unat_and_mask drop_bit_eq_div unat_div_distrib) simp
  with unat32_lt [of va] show ?thesis by simp
qed

lemma unat_PTX: "unat (PTX va) = unat va div 4096 mod 1024"
  by (simp only: PTX_def mask10 unat_and_mask drop_bit_eq_div unat_div_distrib) simp

lemma PDX_less: "unat (PDX va) < 1024"
  using unat32_lt [of va] by (simp add: unat_PDX)

lemma PTX_less: "unat (PTX va) < 1024"
  by (simp add: unat_PTX)

lemma pgal_PTE_ADDR [simp]: "pgal (PTE_ADDR x)"
  by (simp add: pgal_def unat_PTE_ADDR)

lemma pgal_PGROUNDDOWN [simp]: "pgal (PGROUNDDOWN x)"
  by (simp add: pgal_def unat_PGROUNDDOWN)

text \<open>Rounding up is right below the last page and wraps to 0 inside it.\<close>

lemma unat_PGROUNDUP:
  assumes "unat sz \<le> 0xFFFFF000"
  shows "unat (PGROUNDUP sz) = (unat sz + 4095) div 4096 * 4096"
proof -
  have "unat (4095 + sz) = unat sz + 4095"
    using unat_add_small [of sz 4095] assms by (simp add: add.commute)
  then show ?thesis by (simp add: PGROUNDUP_def unat_page_down)
qed

lemma mod_eq_sub_one: "(m :: nat) \<le> a \<Longrightarrow> a < 2 * m \<Longrightarrow> a mod m = a - m"
  by (subst le_mod_geq) simp_all

lemma PGROUNDUP_wraps:
  assumes "0xFFFFF000 < unat sz"
  shows "PGROUNDUP sz = 0"
proof -
  have "unat (4095 + sz) = (unat sz + 4095) mod 4294967296"
    by (subst add.commute) (simp add: unat_word_ariths)
  also have "\<dots> = unat sz + 4095 - 4294967296"
    using assms unat32_lt [of sz] by (intro mod_eq_sub_one) simp_all
  finally have "unat (4095 + sz) < 4096" using unat32_lt [of sz] by simp
  then have "unat (PGROUNDUP sz) = 0" by (simp add: PGROUNDUP_def unat_page_down)
  then show ?thesis by (simp add: unat_eq_0)
qed

lemma pgal_PGROUNDUP [simp]: "pgal (PGROUNDUP x)"
  by (simp add: pgal_def PGROUNDUP_def unat_page_down)

text \<open>A virtual address is its two indexes and its offset.\<close>

lemma PGADDR_split: "PGADDR (PDX va) (PTX va) (va AND 0xFFF) = va"
  unfolding PGADDR_def PDX_def PTX_def mask10 mask12
proof (rule bit_eqI)
  fix n
  assume "possible_bit TYPE(u32) n"
  then show "bit (push_bit 22 (drop_bit 22 va AND mask 10) OR push_bit 12 (drop_bit 12 va AND mask 10)
      OR va AND mask 12) n = bit va n"
    by (cases "n < 12"; cases "n < 22") (auto simp: bit_simps)
qed

text \<open>A page table entry is its address and its flags.\<close>

lemma PTE_split: "PTE_ADDR pte OR PTE_FLAGS pte = pte"
  unfolding PTE_FLAGS_def PTE_ADDR_def mask12
  by (rule bit_eqI) (auto simp: bit_simps)

lemma pgal_and_not: "pgal a \<Longrightarrow> a AND - 4096 = a"
  using unat_page_down [of a] by (simp add: pgal_def word_unat_eq_iff div_mult_mod_eq mult.commute)

lemma PTE_ADDR_pgal: "pgal a \<Longrightarrow> PTE_ADDR a = a"
  by (simp add: PTE_ADDR_def pgal_and_not)

lemma PTE_ADDR_or:
  assumes "pgal a" and "unat f < 4096"
  shows "PTE_ADDR (a OR f) = a"
proof -
  have "unat (PTE_ADDR f) = 0" using assms(2) by (simp add: unat_PTE_ADDR)
  then have "PTE_ADDR f = 0" by (simp add: unat_eq_0)
  moreover have "PTE_ADDR (a OR f) = PTE_ADDR a OR PTE_ADDR f"
    by (simp add: PTE_ADDR_def bit_eq_iff bit_simps) blast
  ultimately show ?thesis using assms(1) by (simp add: PTE_ADDR_pgal)
qed

lemma pgal_FLAGS: "pgal a \<Longrightarrow> PTE_FLAGS a = 0"
  using unat_PTE_FLAGS [of a] by (simp add: pgal_def unat_eq_0)

lemma PTE_FLAGS_or:
  assumes "pgal a" and "unat f < 4096"
  shows "PTE_FLAGS (a OR f) = f"
proof -
  have "PTE_FLAGS (a OR f) = PTE_FLAGS a OR PTE_FLAGS f"
    by (simp add: PTE_FLAGS_def bit_eq_iff bit_simps) blast
  moreover have "unat (PTE_FLAGS f) = unat f" using assms(2) by (simp add: unat_PTE_FLAGS)
  ultimately show ?thesis using assms(1) by (simp add: pgal_FLAGS word_unat_eq_iff)
qed

text \<open>Two page-aligned addresses are equal or their pages are disjoint.\<close>

lemma pgal_unat_add:
  assumes "pgal a" and "i < 4096"
  shows "unat (a + of_nat i) = unat a + i"
proof -
  have "unat a + i < 4294967296" using unat32_lt [of a] assms unfolding pgal_def by (auto elim!: dvdE)
  then show ?thesis by (intro unat_add_small) simp
qed

lemma pgal_disjoint:
  assumes "pgal a" and "pgal b" and "a \<noteq> b" and "i < 4096"
  shows "\<not> a + of_nat i - b < 0x1000"
proof
  assume "a + of_nat i - b < 0x1000"
  then have j: "unat (a + of_nat i - b) < 4096" (is "?j < _") by (simp add: word_less_nat_alt)
  have "b + of_nat ?j = a + of_nat i" by (simp add: algebra_simps)
  then have "unat b + ?j = unat a + i"
    using pgal_unat_add [OF assms(2) j] pgal_unat_add [OF assms(1,4)] by metis
  with j assms(1,2,4) have "unat a = unat b" unfolding pgal_def by (auto elim!: dvdE)
  with assms(3) show False by (simp add: word_unat_eq_iff)
qed

lemma pgal_al4: "pgal a \<Longrightarrow> al4 a"
  unfolding pgal_def al4_def by (auto elim!: dvdE)

end
