(* ===== verification/Mix_Cpu.thy ===== *)
theory Mix_Cpu
  imports Mix_Layout
begin

text \<open>
  The processor state the C code touches through \<^verbatim>\<open>include/x86/asm.h\<close> (the interrupt flag, memory,
  output ports) and the nested interrupt-disabling sections of \<^verbatim>\<open>kernel/lock.c\<close>. Every later
  component extends the record \<open>machine\<close>, so its operations run on the one kernel state.
\<close>

section \<open>Registers, memory, ports\<close>

text \<open>
  \<open>outlog\<close> is the sequence of \<^verbatim>\<open>outb\<close>s, the latest first; \<open>ncli\<close> and \<open>intena\<close> are the
  \<^verbatim>\<open>uint16_t\<close> fields of \<^verbatim>\<open>struct user\<close> in \<^verbatim>\<open>include/kernel/proc.h\<close>.
\<close>

record machine =
  eflags :: u32
  mem :: memory
  outlog :: "(u16 \<times> u8) list"
  ncli :: u16
  intena :: u16

definition FL_IF :: u32 where [simp]: "FL_IF = 0x00000200"

definition cli :: "'a machine_scheme \<Rightarrow> 'a machine_scheme" where
  "cli s = s\<lparr>eflags := eflags s AND NOT FL_IF\<rparr>"

definition sti :: "'a machine_scheme \<Rightarrow> 'a machine_scheme" where
  "sti s = s\<lparr>eflags := eflags s OR FL_IF\<rparr>"

definition leflags :: "'a machine_scheme \<Rightarrow> u32" where
  "leflags s = eflags s"

definition outb :: "u16 \<Rightarrow> u8 \<Rightarrow> 'a machine_scheme \<Rightarrow> 'a machine_scheme" where
  "outb port data s = s\<lparr>outlog := (port, data) # outlog s\<rparr>"

text \<open>The value a device register was last given.\<close>

definition port_val :: "'a machine_scheme \<Rightarrow> u16 \<Rightarrow> u8" where
  "port_val s port = (case map_of (outlog s) port of None \<Rightarrow> 0 | Some v \<Rightarrow> v)"

abbreviation interruptible :: "'a machine_scheme \<Rightarrow> bool" where
  "interruptible s \<equiv> eflags s AND FL_IF \<noteq> 0"

section \<open>\<open>pushcli\<close> and \<open>popcli\<close>\<close>

definition pushcli :: "'a machine_scheme \<Rightarrow> 'a machine_scheme" where
  "pushcli s =
     (let fl = leflags s;
          s = cli s;
          s = (if ncli s = 0 then s\<lparr>intena := ucast (fl AND FL_IF)\<rparr> else s)
      in s\<lparr>ncli := ncli s + 1\<rparr>)"

text \<open>
  \<^verbatim>\<open>user.ncli < 0\<close> compares a \<^verbatim>\<open>uint16_t\<close> promoted to \<^verbatim>\<open>int\<close>: the test is kept as it is written,
  and never holds.
\<close>

definition popcli :: "'a machine_scheme \<Rightarrow> 'a machine_scheme res" where
  "popcli s =
     (let s = s\<lparr>ncli := ncli s - 1\<rparr> in
      if leflags s AND FL_IF \<noteq> 0 then Inl (Panic ''popcli - interruptible'')
      else if uint (ncli s) < 0 then Inl (Panic ''popcli'')
      else if ncli s = 0 \<and> intena s \<noteq> 0 then Inr (sti (s\<lparr>intena := 0\<rparr>))
      else Inr s)"

text \<open>
  What the nesting keeps true: outside every section nothing is remembered, inside one interrupts
  are off, and the counter has not run out.
\<close>

definition cli_ok :: "'a machine_scheme \<Rightarrow> bool" where
  "cli_ok s \<longleftrightarrow> (ncli s = 0 \<longrightarrow> intena s = 0) \<and> (ncli s \<noteq> 0 \<longrightarrow> \<not> interruptible s)
     \<and> ncli s \<noteq> 0xFFFF"

definition in_cli :: "'a machine_scheme \<Rightarrow> bool" where
  "in_cli s \<longleftrightarrow> ncli s \<noteq> 0 \<and> \<not> interruptible s"

lemma and_not_FL_IF [simp]: "(e AND NOT FL_IF) AND FL_IF = 0"
  by (rule bit_eqI) (auto simp: bit_simps)

lemma bit_FL_IF: "bit (512 :: int) n \<longleftrightarrow> n = 9"
proof -
  have "bit (2 ^ 9 :: int) n \<longleftrightarrow> n = 9" by (simp only: bit_exp_iff) auto
  then show ?thesis by simp
qed

lemma and_not_512 [simp]: "((e :: u32) AND - 513) AND 512 = 0"
  using and_not_FL_IF [of e] by simp

lemma ucast_and_FL_IF: "(ucast ((e :: u32) AND FL_IF) :: u16) = 0 \<longleftrightarrow> e AND FL_IF = 0"
proof
  assume h: "(ucast (e AND FL_IF) :: u16) = 0"
  have "bit (e AND FL_IF) n = False" for n
  proof (cases "n < 16")
    case True
    have "bit (ucast (e AND FL_IF) :: u16) n = False" using h by simp
    with True show ?thesis by (simp add: bit_simps)
  next
    case False
    then show ?thesis by (auto simp: bit_simps bit_FL_IF)
  qed
  then show "e AND FL_IF = 0" by (intro bit_eqI) simp
qed simp

lemma restore_FL_IF: "e AND FL_IF \<noteq> 0 \<Longrightarrow> (e AND NOT FL_IF) OR FL_IF = e"
proof -
  assume h: "e AND FL_IF \<noteq> 0"
  have "bit e 9"
  proof (rule ccontr)
    assume "\<not> bit e 9"
    then have "e AND FL_IF = 0" by (intro bit_eqI) (auto simp: bit_simps bit_FL_IF)
    with h show False by simp
  qed
  moreover have "(- 513 :: u32) = NOT 512" by simp
  ultimately show ?thesis by (intro bit_eqI) (auto simp: bit_simps bit_FL_IF)
qed

lemma keep_FL_IF: "e AND FL_IF = 0 \<Longrightarrow> e AND NOT FL_IF = e"
proof -
  assume h: "e AND FL_IF = 0"
  have "bit e n \<Longrightarrow> \<not> bit FL_IF n" for n
    using h by (metis bit_and_iff bit_0_eq bot_apply bot_bool_def)
  then show ?thesis by (intro bit_eqI) (auto simp: bit_simps)
qed

lemma pushcli_upd:
  "pushcli s = s\<lparr>eflags := eflags s AND NOT FL_IF, ncli := ncli s + 1,
     intena := (if ncli s = 0 then ucast (eflags s AND FL_IF) else intena s)\<rparr>"
  by (simp add: pushcli_def cli_def leflags_def Let_def)

lemma pushcli_sel [simp]:
  "eflags (pushcli s) = eflags s AND NOT FL_IF" "ncli (pushcli s) = ncli s + 1"
  "mem (pushcli s) = mem s" "outlog (pushcli s) = outlog s"
  "machine.more (pushcli s) = machine.more s"
  by (simp_all add: pushcli_upd)

text \<open>
  The rule every critical section of the kernel is verified with: whatever the section did to the
  rest of the state stays, and the interrupt state is the one at entry.
\<close>

lemma popcli_after_pushcli:
  assumes "cli_ok s"
    and "eflags t = eflags (pushcli s)" "ncli t = ncli (pushcli s)" "intena t = intena (pushcli s)"
  shows "popcli t = Inr (t\<lparr>eflags := eflags s, ncli := ncli s, intena := intena s\<rparr>)"
proof (cases "ncli s = 0")
  case True
  then have i: "intena s = 0" using assms(1) by (simp add: cli_ok_def)
  show ?thesis
  proof (cases "interruptible s")
    case True
    then have "(ucast (eflags s AND FL_IF) :: u16) \<noteq> 0" by (simp only: ucast_and_FL_IF) simp
    with True \<open>ncli s = 0\<close> i assms(2-4) restore_FL_IF [OF True] show ?thesis
      by (simp add: popcli_def pushcli_upd leflags_def sti_def Let_def)
  next
    case False
    then have "(ucast (eflags s AND FL_IF) :: u16) = 0" by simp
    with False \<open>ncli s = 0\<close> i assms(2-4) keep_FL_IF [of "eflags s"] show ?thesis
      by (simp add: popcli_def pushcli_upd leflags_def Let_def)
  qed
next
  case False
  with assms keep_FL_IF [of "eflags s"] show ?thesis
    by (simp add: popcli_def pushcli_upd leflags_def Let_def cli_ok_def)
qed

lemma popcli_pushcli: "cli_ok s \<Longrightarrow> popcli (pushcli s) = Inr s"
  by (simp add: popcli_after_pushcli pushcli_upd)

section \<open>Nesting\<close>

text \<open>
  The interface of a nestable section: leaving undoes entering as long as there is room for one
  more level. Its client lemma is about any depth.
\<close>

fun leave_n :: "('s \<Rightarrow> 's res) \<Rightarrow> nat \<Rightarrow> 's \<Rightarrow> 's res" where
  "leave_n leave 0 s = Inr s"
| "leave_n leave (Suc n) s = bnd (leave s) (leave_n leave n)"

lemma leave_0 [simp]: "leave_n leave 0 = Inr"
  by (rule ext) simp

lemma leave_n_last: "leave_n leave (Suc n) t = bnd (leave_n leave n t) leave"
proof (induction n arbitrary: t)
  case 0
  show ?case by simp
next
  case (Suc n)
  then show ?case by (cases "leave t") simp_all
qed

locale nesting =
  fixes enter :: "'s \<Rightarrow> 's"
    and leave :: "'s \<Rightarrow> 's res"
    and room :: "nat \<Rightarrow> 's \<Rightarrow> bool"
  assumes room_enter: "room (Suc n) s \<Longrightarrow> room n (enter s)"
    and leave_enter: "room (Suc n) s \<Longrightarrow> leave (enter s) = Inr s"
begin

lemma nested: "room n s \<Longrightarrow> leave_n leave n ((enter ^^ n) s) = Inr s"
proof (induction n arbitrary: s)
  case 0
  then show ?case by simp
next
  case (Suc n)
  have "(enter ^^ Suc n) s = (enter ^^ n) (enter s)" by (simp add: funpow_swap1)
  moreover have "leave_n leave n ((enter ^^ n) (enter s)) = Inr (enter s)"
    using Suc.IH room_enter Suc.prems by blast
  ultimately show ?case
    using leave_enter [OF Suc.prems] leave_n_last [of leave n] by simp
qed

end

definition cli_room :: "nat \<Rightarrow> 'a machine_scheme \<Rightarrow> bool" where
  "cli_room n s \<longleftrightarrow> (n = 0 \<or> cli_ok s) \<and> unat (ncli s) + n \<le> 0xFFFF"

lemma unat16_Suc: "unat (x :: u16) < 0xFFFF \<Longrightarrow> unat (x + 1) = unat x + 1"
  by (simp add: unat_word_ariths)

lemma cli_room_pushcli:
  assumes "cli_room (Suc n) s"
  shows "cli_room n (pushcli s)"
proof -
  have k: "unat (ncli s) < 0xFFFF" using assms by (simp add: cli_room_def)
  note unat16_Suc [OF this]
  moreover have "n \<noteq> 0 \<Longrightarrow> ncli s + 1 \<noteq> 0xFFFF"
    using assms k unat16_Suc [OF k] by (auto simp: cli_room_def word_unat_eq_iff)
  moreover have "ncli s + 1 \<noteq> 0"
    using unat16_Suc [OF k] by (auto simp: word_unat_eq_iff)
  ultimately show ?thesis
    using assms by (auto simp: cli_room_def cli_ok_def)
qed

interpretation cli_nest: nesting pushcli popcli cli_room
proof unfold_locales
  show "cli_room n (pushcli s)" if "cli_room (Suc n) s" for n and s :: "'a machine_scheme"
    using that by (rule cli_room_pushcli)
  show "popcli (pushcli s) = Inr s" if "cli_room (Suc n) s" for n and s :: "'a machine_scheme"
    using that by (intro popcli_pushcli) (simp add: cli_room_def)
qed

lemma pushcli_n_masked: "\<not> interruptible ((pushcli ^^ Suc n) s)"
  by simp

text \<open>
  C32: critical sections nest. Up to 65535 \<^verbatim>\<open>pushcli\<close> calls keep interrupts masked, and as many
  \<^verbatim>\<open>popcli\<close> calls bring back the interrupt flag, the counter and the saved flag of the first entry.
\<close>

theorem critical_sections_nest:
  assumes "cli_ok s" and "unat (ncli s) + Suc n \<le> 0xFFFF"
  shows "\<not> interruptible ((pushcli ^^ Suc n) s) \<and> leave_n popcli (Suc n) ((pushcli ^^ Suc n) s) = Inr s"
  using pushcli_n_masked cli_nest.nested [of "Suc n" s] assms by (simp add: cli_room_def)

definition ex_cpu :: machine where
  "ex_cpu = \<lparr>eflags = 0x202, mem = (\<lambda>_. 0), outlog = [], ncli = 0, intena = 0\<rparr>"

theorem critical_sections_nest_witness:
  "leave_n popcli 3 ((pushcli ^^ 3) ex_cpu) = Inr ex_cpu"
proof -
  have "cli_ok ex_cpu" by (simp add: cli_ok_def ex_cpu_def)
  then show ?thesis
    using critical_sections_nest [of ex_cpu 2] by (simp add: ex_cpu_def numeral_3_eq_3)
qed

lemma popcli_masked:
  assumes "\<not> interruptible s" and "ncli s \<noteq> 1"
  shows "popcli s = Inr (s\<lparr>ncli := ncli s - 1\<rparr>)"
  using assms by (simp add: popcli_def leflags_def Let_def)

lemma leave_popcli_wrap:
  assumes "\<not> interruptible s" and "n < unat (ncli s)"
  shows "leave_n popcli n s = Inr (s\<lparr>ncli := ncli s - of_nat n\<rparr>)"
  using assms
proof (induction n arbitrary: s)
  case 0
  then show ?case by simp
next
  case (Suc n)
  have "ncli s \<noteq> 1" using Suc.prems(2) by auto
  then have "popcli s = Inr (s\<lparr>ncli := ncli s - 1\<rparr>)" using popcli_masked Suc.prems(1) by blast
  moreover have "unat (ncli s - 1) = unat (ncli s) - 1"
    using Suc.prems(2) by (intro unat_minus_one) auto
  ultimately show ?case
    using Suc.IH [of "s\<lparr>ncli := ncli s - 1\<rparr>"] Suc.prems by (simp add: algebra_simps)
qed


end
