(* ===== verification/Mix_Format.thy ===== *)
theory Mix_Format
  imports Mix_Prelude
begin

text \<open>
  What \<^verbatim>\<open>printn\<close> and \<^verbatim>\<open>printf\<close> print, as pure functions, and the interface their two
  implementations (\<^verbatim>\<open>dev/console.c\<close> onto the screen, \<^verbatim>\<open>usr/lib/uprf.c\<close> into a write buffer) share.
\<close>

section \<open>Positional notation\<close>

text \<open>\<^verbatim>\<open>static char digits[] = "0123456789ABCDEF"\<close>, with its terminating zero.\<close>

definition digits :: "u8 list" where
  "digits = lit ''0123456789ABCDEF'' @ [0]"

lemma length_digits [simp]: "length digits = 17"
  by (simp add: digits_def lit_def)

fun digs :: "nat \<Rightarrow> nat \<Rightarrow> nat list" where
  "digs b n = (if b < 2 \<or> n < b then [n] else digs b (n div b) @ [n mod b])"

declare digs.simps [simp del]

lemma digs_not_Nil: "digs b n \<noteq> []"
  by (subst digs.simps) simp

lemma digs_less: "2 \<le> b \<Longrightarrow> d \<in> set (digs b n) \<Longrightarrow> d < b"
proof (induction b n rule: digs.induct)
  case (1 b n)
  then show ?case by (cases "n < b") (auto simp: digs.simps [of b n])
qed

text \<open>Reading a digit string back.\<close>

definition from_digs :: "nat \<Rightarrow> nat list \<Rightarrow> nat" where
  "from_digs b ds = foldl (\<lambda>a d. a * b + d) 0 ds"

lemma from_digs_digs: "2 \<le> b \<Longrightarrow> from_digs b (digs b n) = n"
proof (induction b n rule: digs.induct)
  case (1 b n)
  show ?case
  proof (cases "n < b")
    case True
    then show ?thesis by (simp add: digs.simps [of b n] from_digs_def)
  next
    case False
    with 1 have "foldl (\<lambda>a d. a * b + d) 0 (digs b (n div b)) = n div b"
      by (simp add: from_digs_def)
    with 1 False show ?thesis by (simp add: digs.simps [of b n] from_digs_def)
  qed
qed

lemma digs_leading: "2 \<le> b \<Longrightarrow> 0 < n \<Longrightarrow> hd (digs b n) \<noteq> 0"
proof (induction b n rule: digs.induct)
  case (1 b n)
  show ?case
  proof (cases "n < b")
    case True
    with 1 show ?thesis by (simp add: digs.simps [of b n])
  next
    case False
    with 1 have "hd (digs b (n div b)) \<noteq> 0" by (simp add: div_greater_zero_iff)
    with 1 False show ?thesis by (simp add: digs.simps [of b n] digs_not_Nil)
  qed
qed

text \<open>The characters \<^verbatim>\<open>printn\<close> prints for \<open>n\<close> in base \<open>b\<close>.\<close>

definition num_chars :: "nat \<Rightarrow> u32 \<Rightarrow> u8 list" where
  "num_chars b n = map (\<lambda>d. digits ! d) (digs b (unat n))"

definition digit_val :: "u8 \<Rightarrow> nat" where
  "digit_val c = (case find_idx (\<lambda>x. x = c) digits of Some i \<Rightarrow> i | None \<Rightarrow> 0)"

lemma digit_val_digits: "d < 16 \<Longrightarrow> digit_val (digits ! d) = d"
proof -
  assume "d < 16"
  then have "d \<in> set [0..<16]" by simp
  moreover have "\<forall>d \<in> set [0..<16]. digit_val (digits ! d) = d"
    by (simp add: digit_val_def digits_def upt_rec)
  ultimately show ?thesis by blast
qed

text \<open>Parsing what was printed gives the number back.\<close>

lemma num_chars_roundtrip:
  assumes "2 \<le> b" and "b \<le> 16"
  shows "from_digs b (map digit_val (num_chars b n)) = unat n"
proof -
  have "map digit_val (num_chars b n) = digs b (unat n)"
    unfolding num_chars_def map_map
    by (rule map_idI) (use digs_less [OF assms(1)] assms(2) in \<open>fastforce simp: digit_val_digits\<close>)
  then show ?thesis using assms(1) by (simp add: from_digs_digs)
qed

section \<open>The interface of a number printer\<close>

fun emit :: "('c \<Rightarrow> 's \<Rightarrow> 's res) \<Rightarrow> 'c list \<Rightarrow> 's \<Rightarrow> 's res" where
  "emit put [] s = Inr s"
| "emit put (c # cs) s = bnd (put c s) (emit put cs)"

lemma emit_Nil [simp]: "emit put [] = Inr"
  by (rule ext) simp

lemma emit_append: "emit put (xs @ ys) s = bnd (emit put xs s) (emit put ys)"
proof (induction xs arbitrary: s)
  case Nil
  show ?case by simp
next
  case (Cons x xs)
  then show ?case by (cases "put x s") simp_all
qed

lemma emit_snoc: "emit put (xs @ [c]) s = bnd (emit put xs s) (put c)"
  by (simp add: emit_append) (cases "emit put xs s"; simp)

lemma emit_map: "emit put (map f xs) s = emit (\<lambda>c. put (f c)) xs s"
  by (induction xs arbitrary: s) (auto intro!: bnd_cong)

text \<open>
  \<open>put\<close> prints one character, \<open>pn\<close> prints a number; the law is the code's recursion, the client
  lemma says which characters come out and in which order.
\<close>

locale number_printer =
  fixes put :: "u8 \<Rightarrow> 's \<Rightarrow> 's res"
    and pn :: "u32 \<Rightarrow> u32 \<Rightarrow> 's \<Rightarrow> 's res"
  assumes pn_rec: "2 \<le> unat b \<Longrightarrow> unat b \<le> 16 \<Longrightarrow>
    pn n b s = bnd (if n div b \<noteq> 0 then pn (n div b) b s else Inr s) (put (digits ! unat (n mod b)))"
begin

lemma pn_prints:
  assumes "2 \<le> unat b" and "unat b \<le> 16"
  shows "pn n b s = emit put (num_chars (unat b) n) s"
proof (induction "unat n" arbitrary: n s rule: less_induct)
  case less
  let ?m = "n div b"
  have m: "unat ?m = unat n div unat b" and r: "unat (n mod b) = unat n mod unat b"
    by (simp_all add: unat_div_distrib unat_mod_distrib)
  show ?case
  proof (cases "unat n < unat b")
    case True
    then have "?m = 0" using m by (simp add: unat_eq_0)
    moreover have "digs (unat b) (unat n) = [unat n]" using True by (simp add: digs.simps)
    ultimately show ?thesis
      using pn_rec [OF assms, of n s] r True by (simp add: num_chars_def)
  next
    case False
    then have "?m \<noteq> 0" using m assms by (auto simp: word_unat_eq_iff div_eq_0_iff)
    moreover have "unat ?m < unat n" using m assms False by simp
    moreover have "num_chars (unat b) n = num_chars (unat b) ?m @ [digits ! unat (n mod b)]"
      using False assms m r by (simp add: num_chars_def digs.simps [of "unat b" "unat n"])
    ultimately show ?thesis
      using pn_rec [OF assms, of n s] less [of ?m s] by (simp add: emit_snoc)
  qed
qed

end

section \<open>Format strings\<close>

text \<open>
  The characters a format string stands for, each the \<^verbatim>\<open>int\<close> that is passed on (a \<^verbatim>\<open>char\<close> is
  sign-extended). An argument is the word \<^verbatim>\<open>*argv++\<close> reads from the stack; \<open>str a\<close> is the string
  the non-null pointer argument \<open>a\<close> denotes, if it denotes one. \<open>fmt_text\<close> is \<open>None\<close> where the
  code leaves its loop early (an unknown conversion) or reads past its arguments.
\<close>

definition sx :: "u8 \<Rightarrow> u32" where
  "sx c = scast c"

definition conv_text :: "(u32 \<Rightarrow> u8 list option) \<Rightarrow> u8 \<Rightarrow> u32 \<Rightarrow> u32 list option" where
  "conv_text str k a =
     (if k = 100 then Some (map sx (num_chars 10 a))
      else if k = 120 \<or> k = 112 then Some (map sx (lit ''0x'' @ num_chars 16 a))
      else if k = 111 then Some (map sx (lit ''0o'' @ num_chars 8 a))
      else if k = 99 then Some [a]
      else if k = 115 then map_option (map sx) (if a = 0 then Some (lit ''(null)'') else str a)
      else None)"

fun fmt_text :: "(u32 \<Rightarrow> u8 list option) \<Rightarrow> u8 list \<Rightarrow> u32 list \<Rightarrow> u32 list option" where
  "fmt_text str [] args = Some []"
| "fmt_text str [c] args = (if c \<noteq> 37 then Some [sx c] else None)"
| "fmt_text str (c # k # fmt) args =
     (if c \<noteq> 37 then map_option ((#) (sx c)) (fmt_text str (k # fmt) args)
      else (case args of
        [] \<Rightarrow> None
      | a # as \<Rightarrow>
          (case conv_text str k a of
            None \<Rightarrow> None
          | Some t \<Rightarrow> map_option ((@) t) (fmt_text str fmt as))))"

end
