(* ===== verification/Mix_Console.thy ===== *)
theory Mix_Console
  imports Mix_Cpu Mix_Format
begin

text \<open>
  The text screen of \<^verbatim>\<open>dev/console.c\<close>: \<^verbatim>\<open>putchar\<close> writes 16-bit cells into the CGA memory, scrolls
  and moves the hardware cursor; \<^verbatim>\<open>printn\<close> and \<^verbatim>\<open>printf\<close> print through it. The keyboard side of
  the file is in \<open>Mix_Input\<close>, since it wakes processes.
\<close>

section \<open>State\<close>

text \<open>
  \<open>cursor\<close> is the static \<^verbatim>\<open>int\<close>; \<open>inbuf\<close> and \<open>inindex\<close> are the fields of \<^verbatim>\<open>struct input\<close>;
  \<open>kbdflags\<close> is the static \<^verbatim>\<open>flags\<close> of \<^verbatim>\<open>dev/kbd.c\<close>.
\<close>

record console = machine +
  cursor :: int
  inbuf :: "u8 list"
  inindex :: u32
  kbdflags :: u8

definition SCREEN_X :: int where [simp]: "SCREEN_X = 80"
definition SCREEN_Y :: int where [simp]: "SCREEN_Y = 25"

text \<open>The address of \<^verbatim>\<open>screen[i]\<close>.\<close>

definition scr :: "int \<Rightarrow> u32" where
  "scr i = CGAADDR + 2 * of_int i"

section \<open>\<open>putchar\<close>\<close>

definition put_glyph :: "u32 \<Rightarrow> 'a console_scheme \<Rightarrow> 'a console_scheme" where
  "put_glyph c s =
     (if c = 10 then s\<lparr>cursor := cursor s + (SCREEN_X - c_rem (cursor s) SCREEN_X)\<rparr>
      else if c = 8 then
        (let s = (if cursor s > 0 then s\<lparr>cursor := cursor s - 1\<rparr> else s)
         in s\<lparr>mem := store16 (mem s) (scr (cursor s)) 0\<rparr>)
      else
        s\<lparr>mem := store16 (mem s) (scr (cursor s)) (0x0A00 OR ucast (0xFF AND c)),
          cursor := cursor s + 1\<rparr>)"

definition scroll_up :: "'a console_scheme \<Rightarrow> 'a console_scheme" where
  "scroll_up s =
     (let m = memmove (scr SCREEN_X) (scr 0) (2 * of_int ((SCREEN_Y - 2) * SCREEN_X)) (mem s);
          cur = cursor s - SCREEN_X;
          m = memset (scr cur) 0 (2 * of_int ((SCREEN_Y - 1) * SCREEN_X - cur)) m
      in s\<lparr>mem := m, cursor := cur\<rparr>)"

definition put_cursor :: "'a console_scheme \<Rightarrow> 'a console_scheme" where
  "put_cursor s =
     (let s = outb 0x3D4 0x0E s;
          s = outb 0x3D5 (ucast (drop_bit 8 (of_int (cursor s) :: u32) AND 0xFF)) s;
          s = outb 0x3D4 0x0F s;
          s = outb 0x3D5 (ucast ((of_int (cursor s) :: u32) AND 0xFF)) s
      in s\<lparr>mem := store16 (mem s) (scr (cursor s)) (0x20 OR 0x0A00)\<rparr>)"

definition putchar :: "u32 \<Rightarrow> 'a console_scheme \<Rightarrow> 'a console_scheme res" where
  "putchar c s =
     (let s = put_glyph c s in
      if cursor s < 0 \<or> cursor s > SCREEN_Y * SCREEN_X then
        Inl (Panic ''cursor under/overflow'')
      else
        (let s = (if cursor s div SCREEN_X \<ge> SCREEN_Y - 1 then scroll_up s else s)
         in Inr (put_cursor s)))"

section \<open>\<open>printn\<close> and \<open>printf\<close>\<close>

text \<open>
  Base 0 would trap and base 1 would recurse for ever; the code only passes 8, 10 and 16. A digit
  past the table is an out-of-bounds read.
\<close>

definition put_digit :: "u32 \<Rightarrow> 'a console_scheme \<Rightarrow> 'a console_scheme res" where
  "put_digit d s =
     (if unat d < length digits then putchar (sx (digits ! unat d)) s
      else Inl (Fault ''printn: digits''))"

function printn :: "u32 \<Rightarrow> u32 \<Rightarrow> 'a console_scheme \<Rightarrow> 'a console_scheme res" where
  "printn n base s =
     (if unat base < 2 then Inl (Fault ''printn: base'')
      else bnd (if n div base \<noteq> 0 then printn (n div base) base s else Inr s)
             (put_digit (n mod base)))"
  by pat_completeness auto
termination
proof (relation "measure (\<lambda>(n, base, s). unat n)")
  fix n base :: u32 and s :: "'a console_scheme"
  assume h: "\<not> unat base < 2" "n div base \<noteq> 0"
  have "unat (n div base) = unat n div unat base" by (simp add: unat_div_distrib)
  moreover from h(2) have "unat n \<noteq> 0" by (auto simp: unat_eq_0)
  ultimately show "((n div base, base, s), (n, base, s)) \<in> measure (\<lambda>(n, base, s). unat n)"
    using h(1) by simp
qed simp

declare printn.simps [simp del]

text \<open>\<^verbatim>\<open>while ((c = *s++)) putchar(c);\<close>, with a bound on the length of the address space.\<close>

fun put_str :: "nat \<Rightarrow> u32 \<Rightarrow> 'a console_scheme \<Rightarrow> 'a console_scheme res" where
  "put_str 0 a s = Inl (Fault ''printf: unterminated string'')"
| "put_str (Suc n) a s =
     (if mem s a \<noteq> 0 then bnd (putchar (sx (mem s a)) s) (put_str n (a + 1)) else Inr s)"

text \<open>
  The nested calls \<^verbatim>\<open>printf("0x")\<close>, \<^verbatim>\<open>printf("0o")\<close> and \<^verbatim>\<open>printf("(null)")\<close> print their literal, and
  \<^verbatim>\<open>printf("Unknown format %c", c)\<close> its literal and the character.
\<close>

definition puts_lit :: "string \<Rightarrow> 'a console_scheme \<Rightarrow> 'a console_scheme res" where
  "puts_lit cs = emit putchar (map sx (lit cs))"

text \<open>One conversion of \<^verbatim>\<open>printf\<close>: the \<^verbatim>\<open>switch\<close> of its loop, on an argument already fetched.\<close>

definition is_conv :: "u8 \<Rightarrow> bool" where
  "is_conv k \<longleftrightarrow> k \<in> {100, 120, 112, 111, 99, 115}"

definition print_conv :: "u8 \<Rightarrow> u32 \<Rightarrow> 'a console_scheme \<Rightarrow> 'a console_scheme res" where
  "print_conv k a s =
     (if k = 100 then printn a 10 s
      else if k = 120 \<or> k = 112 then bnd (puts_lit ''0x'' s) (printn a 16)
      else if k = 111 then bnd (puts_lit ''0o'' s) (printn a 8)
      else if k = 99 then putchar a s
      else if a = 0 then puts_lit ''(null)'' s
      else put_str (2 ^ 32) a s)"

fun printf :: "u8 list \<Rightarrow> u32 list \<Rightarrow> 'a console_scheme \<Rightarrow> 'a console_scheme res" where
  "printf [] args s = Inr s"
| "printf [c] args s =
     (if c \<noteq> 37 then putchar (sx c) s
      else bnd (puts_lit ''Unknown format '' s) (putchar 0))"
| "printf (c # k # fmt) args s =
     (if c \<noteq> 37 then bnd (putchar (sx c) s) (printf (k # fmt) args)
      else if \<not> is_conv k then
        bnd (puts_lit ''Unknown format '' s) (putchar (sx k))
      else (case args of
        [] \<Rightarrow> Inl (Fault ''printf: no argument'')
      | a # as \<Rightarrow> bnd (print_conv k a s) (printf fmt as)))"

text \<open>
  \<^verbatim>\<open>panic\<close> on a message in memory, up to its endless loop. Where a component calls it, its result is
  \<open>Panic\<close> with the message.
\<close>

definition panic :: "u32 \<Rightarrow> 'a console_scheme \<Rightarrow> 'a console_scheme res" where
  "panic str s = printf (lit ''panic: %s'' @ [10]) [str] (cli s)"

section \<open>Cells\<close>

definition cell :: "memory \<Rightarrow> nat \<Rightarrow> u16" where
  "cell m i = load16 m (scr (int i))"

lemma unat_scr: "i < 100000 \<Longrightarrow> unat (scr (int i)) = 0xB8000 + 2 * i"
proof -
  assume i: "i < 100000"
  have "scr (int i) = of_nat (0xB8000 + 2 * i)" by (simp add: scr_def)
  moreover have "0xB8000 + 2 * i < 2 ^ 32" using i by simp
  ultimately show ?thesis by (simp only: unat_of_nat32)
qed

lemma scr_inj: "i < 100000 \<Longrightarrow> j < 100000 \<Longrightarrow> scr (int i) = scr (int j) \<longleftrightarrow> i = j"
  using unat_scr [of i] unat_scr [of j] by (auto simp: word_unat_eq_iff)

lemma unat_scr_Suc: "i < 100000 \<Longrightarrow> unat (scr (int i) + 1) = 0xB8001 + 2 * i"
  using unat_add_small [of "scr (int i)" 1] by (simp add: unat_scr)

lemma cell_store16:
  assumes "i < 100000" "j < 100000"
  shows "cell (store16 m (scr (int j)) v) i = (if i = j then v else cell m i)"
proof (cases "i = j")
  case True
  then show ?thesis by (simp add: cell_def)
next
  case False
  have "scr (int i) \<noteq> scr (int j)" "scr (int i) \<noteq> scr (int j) + 1"
    "scr (int i) + 1 \<noteq> scr (int j)" "scr (int i) + 1 \<noteq> scr (int j) + 1"
    using False unat_scr [OF assms(1)] unat_scr [OF assms(2)] unat_scr_Suc [OF assms(1)]
      unat_scr_Suc [OF assms(2)] by (auto simp: word_unat_eq_iff)
  with False show ?thesis
    unfolding cell_def by (simp add: store16_def load16_def)
qed


lemma scr_shift: "scr (int i) = scr 0 + 2 * of_nat i"
  by (simp add: scr_def)

text \<open>The offset of one screen cell from another.\<close>

lemma scr_offset:
  assumes "i < 100000" "j \<le> i" "e < 2"
  shows "unat (scr (int i) + of_nat e - scr (int j)) = 2 * (i - j) + e"
proof -
  have "scr (int i) + of_nat e - scr (int j) = of_nat (2 * (i - j) + e)"
    using assms(2) by (simp add: scr_def of_nat_diff algebra_simps)
  moreover have "2 * (i - j) + e < 2 ^ 32" using assms by simp
  ultimately show ?thesis by (simp only: unat_of_nat32)
qed

lemma scr_offset_below:
  assumes "i < j" "j < 100000" "e < 2"
  shows "200000 \<le> unat (scr (int i) + of_nat e - scr (int j))"
proof -
  let ?k = "2 ^ 32 + 2 * i + e - 2 * j"
  have "int ?k = 2 ^ 32 + 2 * int i + int e - 2 * int j" using assms by (simp add: of_nat_diff)
  then have "(of_int (int ?k) :: u32) = scr (int i) + of_nat e - scr (int j)"
    by (simp add: scr_def)
  then have "scr (int i) + of_nat e - scr (int j) = of_nat ?k" by simp
  moreover have "?k < 2 ^ 32" using assms by simp
  ultimately have "unat (scr (int i) + of_nat e - scr (int j)) = ?k" by (simp only: unat_of_nat32)
  with assms show ?thesis by simp
qed

lemma cell_memset:
  assumes "i < 100000" "j < 100000" "n < 50000"
  shows "cell (memset (scr (int j)) 0 (2 * of_nat n) m) i =
    (if j \<le> i \<and> i < j + n then 0 else cell m i)"
proof -
  have c: "unat (2 * of_nat n :: u32) = 2 * n"
  proof -
    have "(2 * of_nat n :: u32) = of_nat (2 * n)" by simp
    moreover have "2 * n < 2 ^ 32" using assms(3) by simp
    ultimately show ?thesis by (simp only: unat_of_nat32)
  qed
  have "scr (int i) + of_nat e - scr (int j) < 2 * of_nat n \<longleftrightarrow> j \<le> i \<and> i < j + n"
    if "e < 2" for e
    using scr_offset [OF assms(1) _ that, of j] scr_offset_below [OF _ assms(2) that, of i] assms(3)
      that by (cases "j \<le> i") (auto simp: word_less_nat_alt c)
  from this [of 0] this [of 1] show ?thesis
    by (simp add: cell_def load16_def memset_eq)
qed

lemma cell_scroll:
  assumes "i < 1920"
  shows "cell (memmove (scr 80) (scr 0) 3680 m) i = (if i < 1840 then cell m (i + 80) else cell m i)"
proof -
  have far: "3680 \<le> scr 0 - scr 80" by (simp add: scr_def word_le_nat_alt)
  have "scr (int i) + of_nat e - scr (int 0) < 3680 \<longleftrightarrow> i < 1840" if "e < 2" for e
    using scr_offset [of i 0 e] assms that by (auto simp: word_less_nat_alt)
  from this [of 0] this [of 1] have "scr (int i) - scr 0 < 3680 \<longleftrightarrow> i < 1840"
    "scr (int i) + 1 - scr 0 < 3680 \<longleftrightarrow> i < 1840" by simp_all
  moreover have e0: "scr 80 + (scr (int i) - scr 0) = scr (int i + 80)"
    and e1: "scr 80 + (scr (int i) + 1 - scr 0) = scr (int i + 80) + 1"
    by (simp_all add: scr_def algebra_simps)
  ultimately show ?thesis
    using far by (simp add: cell_def load16_def memmove_eq e0 e1)
qed

section \<open>The screen as a terminal\<close>

text \<open>
  The contract of the screen: a terminal of 24 rows of 80 cells (row 25 of the hardware stays
  unused) and a cursor, with what one character does to it.
\<close>

record terminal =
  cells :: "u16 list"
  tcur :: nat

definition t_glyph :: "u32 \<Rightarrow> terminal \<Rightarrow> terminal" where
  "t_glyph c t =
     (if c = 10 then t\<lparr>tcur := (tcur t div 80 + 1) * 80\<rparr>
      else if c = 8 then t\<lparr>cells := (cells t)[tcur t - 1 := 0], tcur := tcur t - 1\<rparr>
      else t\<lparr>cells := (cells t)[tcur t := 0x0A00 OR ucast (0xFF AND c)], tcur := tcur t + 1\<rparr>)"

definition t_scroll :: "terminal \<Rightarrow> terminal" where
  "t_scroll t = (if tcur t < 1920 then t
     else t\<lparr>cells := drop 80 (cells t) @ replicate 80 0, tcur := 1840\<rparr>)"

definition t_cursor :: "terminal \<Rightarrow> terminal" where
  "t_cursor t = t\<lparr>cells := (cells t)[tcur t := 0x0A20]\<rparr>"

definition t_put :: "u32 \<Rightarrow> terminal \<Rightarrow> terminal" where
  "t_put c t = t_cursor (t_scroll (t_glyph c t))"

definition term_of :: "'a console_scheme \<Rightarrow> terminal" where
  "term_of s = \<lparr>cells = map (cell (mem s)) [0..<1920], tcur = nat (cursor s)\<rparr>"

definition con_ok :: "'a console_scheme \<Rightarrow> bool" where
  "con_ok s \<longleftrightarrow> 0 \<le> cursor s \<and> cursor s < 1920"

lemma con_okE:
  assumes "con_ok s"
  obtains k where "cursor s = int k" and "k < 1920"
proof
  show "cursor s = int (nat (cursor s))" "nat (cursor s) < 1920"
    using assms by (auto simp: con_ok_def)
qed


lemma put_glyph_refines:
  assumes "con_ok s"
  shows "term_of (put_glyph c s) = t_glyph c (term_of s)"
    and "0 \<le> cursor (put_glyph c s)" and "cursor (put_glyph c s) \<le> 1920"
proof -
  obtain k where k: "cursor s = int k" "k < 1920"
    using con_okE [OF assms(1)] by blast
  have upd: "map (cell (store16 m (scr (int j)) v)) [0..<1920] = (map (cell m) [0..<1920])[j := v]"
    if "j < 100000" for m j v
    using that by (intro nth_equalityI) (auto simp: cell_store16 nth_list_update)
  have row: "int k + (80 - int k mod 80) = int ((k div 80 + 1) * 80)"
    by (simp add: minus_mod_eq_div_mult [symmetric] of_nat_mod)
  consider "c = 10" | "c = 8" "k = 0" | "c = 8" "k \<noteq> 0" | "c \<noteq> 10" "c \<noteq> 8" by blast
  then show "term_of (put_glyph c s) = t_glyph c (term_of s)"
  proof cases
    case 1
    then show ?thesis using k row by (simp add: put_glyph_def t_glyph_def term_of_def)
  next
    case 2
    then show ?thesis using k upd [of 0] by (simp add: put_glyph_def t_glyph_def term_of_def)
  next
    case 3
    then obtain j where j: "k = Suc j" by (cases k) auto
    then have "cursor s - 1 = int j" "0 < cursor s" "nat (1 + int j) = Suc j" using k by simp_all
    then show ?thesis
      using 3 j k upd [of j "mem s" 0] by (simp add: put_glyph_def t_glyph_def term_of_def)
  next
    case 4
    then show ?thesis
      using k upd [of k] by (simp add: put_glyph_def t_glyph_def term_of_def nat_add_distrib)
  qed
  have "(k div 80 + 1) * 80 \<le> 1920" using k(2) by simp
  then have "int ((k div 80 + 1) * 80) \<le> 1920" by (metis of_nat_le_iff of_nat_numeral)
  then show "0 \<le> cursor (put_glyph c s)" "cursor (put_glyph c s) \<le> 1920"
    using k row by (auto simp: put_glyph_def)
qed

lemma scroll_up_refines:
  assumes "cursor s = 1920"
  shows "term_of (scroll_up s) = t_scroll (term_of s)" and "cursor (scroll_up s) = 1840"
proof -
  have c: "cell (memset (scr 1840) 0 160 m) i = (if 1840 \<le> i \<and> i < 1920 then 0 else cell m i)"
    if "i < 1920" for m i
    using cell_memset [of i 1840 80 m] that by simp
  have "map (cell (memset (scr 1840) 0 160 (memmove (scr 80) (scr 0) 3680 (mem s)))) [0..<1920]
      = drop 80 (map (cell (mem s)) [0..<1920]) @ replicate 80 0"
    by (intro nth_equalityI) (auto simp: c cell_scroll nth_append add.commute)
  then show "term_of (scroll_up s) = t_scroll (term_of s)"
    using assms by (simp add: term_of_def scroll_up_def t_scroll_def Let_def)
  show "cursor (scroll_up s) = 1840" using assms by (simp add: scroll_up_def Let_def)
qed

lemma put_cursor_refines:
  assumes "con_ok s"
  shows "term_of (put_cursor s) = t_cursor (term_of s)" and "cursor (put_cursor s) = cursor s"
proof -
  obtain k where k: "cursor s = int k" "k < 1920"
    using con_okE [OF assms(1)] by blast
  have "map (cell (store16 (mem s) (scr (int k)) 0xA20)) [0..<1920] = (map (cell (mem s)) [0..<1920])[k := 0xA20]"
    using k(2) by (intro nth_equalityI) (auto simp: cell_store16 nth_list_update)
  then show "term_of (put_cursor s) = t_cursor (term_of s)"
    using k by (simp add: put_cursor_def t_cursor_def term_of_def outb_def Let_def)
  show "cursor (put_cursor s) = cursor s" by (simp add: put_cursor_def outb_def Let_def)
qed

text \<open>
  One character: \<^verbatim>\<open>putchar\<close> never panics on a valid cursor, keeps it valid and does to the CGA
  memory what the terminal does.
\<close>

lemma putchar_refines:
  assumes "con_ok s"
  obtains s' where "putchar c s = Inr s'" and "con_ok s'" and "term_of s' = t_put c (term_of s)"
proof -
  let ?g = "put_glyph c s"
  note g = put_glyph_refines [OF assms, of c]
  let ?h = "if cursor ?g div 80 \<ge> 24 then scroll_up ?g else ?g"
  have h: "term_of ?h = t_scroll (term_of ?g)" "0 \<le> cursor ?h" "cursor ?h < 1920"
  proof -
    show "term_of ?h = t_scroll (term_of ?g)"
    proof (cases "cursor ?g = 1920")
      case True
      then show ?thesis using scroll_up_refines [of ?g] by simp
    next
      case False
      then have "cursor ?g < 1920" using g(3) by simp
      then have "cursor ?g div 80 < 24" "nat (cursor ?g) < 1920" using g(2) by auto
      then show ?thesis by (simp add: t_scroll_def term_of_def)
    qed
    show "0 \<le> cursor ?h" "cursor ?h < 1920"
      using g(2,3) scroll_up_refines(2) [of ?g] by (cases "cursor ?g = 1920"; auto)+
  qed
  then have ok: "con_ok ?h" by (simp add: con_ok_def)
  show ?thesis
  proof
    show "putchar c s = Inr (put_cursor ?h)"
      using g(2,3) by (simp add: putchar_def Let_def)
    show "con_ok (put_cursor ?h)" using ok put_cursor_refines(2) [OF ok] by (simp add: con_ok_def)
    show "term_of (put_cursor ?h) = t_put c (term_of s)"
      using put_cursor_refines(1) [OF ok] h(1) g(1) by (simp add: t_put_def)
  qed
qed


section \<open>What printing leaves alone\<close>

text \<open>
  \<open>con_only s s'\<close>: only the cursor, the port log and bytes of the screen differ.
\<close>

definition on_screen :: "u32 \<Rightarrow> bool" where
  "on_screen a \<longleftrightarrow> unat (a - CGAADDR) < 4000"

definition con_only :: "'a console_scheme \<Rightarrow> 'a console_scheme \<Rightarrow> bool" where
  "con_only s s' \<longleftrightarrow> (\<exists>k l m. s' = s\<lparr>cursor := k, outlog := l, mem := m\<rparr>
     \<and> (\<forall>a. \<not> on_screen a \<longrightarrow> m a = mem s a))"

lemma con_onlyI:
  "s' = s\<lparr>cursor := k, outlog := l, mem := m\<rparr> \<Longrightarrow> (\<And>a. \<not> on_screen a \<Longrightarrow> m a = mem s a) \<Longrightarrow>
    con_only s s'"
  unfolding con_only_def by blast

lemma con_only_refl [simp]: "con_only s s"
  by (rule con_onlyI [where k = "cursor s" and l = "outlog s" and m = "mem s"]) simp_all

lemma con_only_trans: "con_only s t \<Longrightarrow> con_only t u \<Longrightarrow> con_only s u"
proof -
  assume "con_only s t" "con_only t u"
  then obtain k l m k' l' m' where
    t: "t = s\<lparr>cursor := k, outlog := l, mem := m\<rparr>" "\<And>a. \<not> on_screen a \<Longrightarrow> m a = mem s a"
    and u: "u = t\<lparr>cursor := k', outlog := l', mem := m'\<rparr>" "\<And>a. \<not> on_screen a \<Longrightarrow> m' a = mem t a"
    unfolding con_only_def by blast
  from t u show "con_only s u"
    by (intro con_onlyI [where k = k' and l = l' and m = m']) simp_all
qed

lemma con_only_sel:
  assumes "con_only s s'"
  shows "eflags s' = eflags s" "ncli s' = ncli s" "intena s' = intena s"
    "inbuf s' = inbuf s" "inindex s' = inindex s" "kbdflags s' = kbdflags s"
    "console.more s' = console.more s"
  using assms unfolding con_only_def by auto

lemma con_only_mem: "con_only s s' \<Longrightarrow> \<not> on_screen a \<Longrightarrow> mem s' a = mem s a"
  unfolding con_only_def by auto

lemma on_screen_scr: "i < 1999 \<Longrightarrow> on_screen (scr (int i))" "i < 1999 \<Longrightarrow> on_screen (scr (int i) + 1)"
  using scr_offset [of i 0 0] scr_offset [of i 0 1] by (simp_all add: on_screen_def scr_def)

lemma store16_on_screen:
  "i < 1999 \<Longrightarrow> \<not> on_screen a \<Longrightarrow> store16 m (scr (int i)) v a = m a"
  using on_screen_scr [of i] by (auto simp: store16_def)

lemma con_only_cell:
  assumes "cursor s = int k" "k < 1999"
  shows "con_only s (s\<lparr>mem := store16 (mem s) (scr (cursor s)) v, cursor := j\<rparr>)"
  using assms by (intro con_onlyI [where k = j and l = "outlog s" and m = "store16 (mem s) (scr (cursor s)) v"])
    (simp_all add: store16_on_screen)

lemma putchar_con_only:
  assumes "con_ok s" and "putchar c s = Inr s'"
  shows "con_only s s'"
proof -
  obtain k where k: "cursor s = int k" "k < 1920"
    using con_okE [OF assms(1)] by blast
  let ?g = "put_glyph c s"
  note g = put_glyph_refines [OF assms(1), of c]
  have 1: "con_only s ?g"
  proof (cases "c = 8 \<and> k \<noteq> 0")
    case True
    then obtain j where "k = Suc j" by (cases k) auto
    with k True show ?thesis
      by (intro con_onlyI [where k = "int j" and l = "outlog s" and m = "store16 (mem s) (scr (int j)) 0"])
         (simp_all add: put_glyph_def store16_on_screen)
  next
    case False
    then consider "c = 10" | "c = 8" "k = 0" | "c \<noteq> 10" "c \<noteq> 8" by blast
    then show ?thesis
    proof cases
      case 1
      then show ?thesis by (intro con_onlyI [where k = "cursor ?g" and l = "outlog s" and m = "mem s"])
        (simp_all add: put_glyph_def)
    next
      case 2
      then show ?thesis using k store16_on_screen [of 0]
        by (intro con_onlyI [where k = "cursor s" and l = "outlog s" and m = "mem ?g"]) (simp_all add: put_glyph_def)
    next
      case 3
      then show ?thesis using k
        by (intro con_onlyI [where k = "cursor ?g" and l = "outlog s" and m = "mem ?g"])
           (simp_all add: put_glyph_def store16_on_screen)
    qed
  qed
  have 2: "con_only t (scroll_up t)" if "cursor t = 1920" for t :: "'a console_scheme"
  proof (rule con_onlyI [where k = 1840 and l = "outlog t" and m = "mem (scroll_up t)"])
    fix a
    assume a: "\<not> on_screen a"
    then have "\<not> a - scr 0 < 3680" "\<not> a - scr 1840 < 160"
      by (auto simp: on_screen_def scr_def word_less_nat_alt) (unat_arith)
    moreover have "3680 \<le> scr 0 - scr 80" by (simp add: scr_def word_le_nat_alt)
    ultimately show "mem (scroll_up t) a = mem t a"
      using that by (simp add: scroll_up_def memset_eq memmove_eq)
  qed (use that in \<open>simp add: scroll_up_def Let_def\<close>)
  have 3: "con_only t (put_cursor t)" if t: "con_ok t" for t :: "'a console_scheme"
  proof -
    obtain j where "cursor t = int j" "j < 1920"
      using con_okE [OF t] by blast
    then show ?thesis
      by (intro con_onlyI [where k = "cursor t" and l = "outlog (put_cursor t)" and m = "mem (put_cursor t)"])
         (simp_all add: put_cursor_def outb_def store16_on_screen)
  qed
  let ?h = "if cursor ?g div 80 \<ge> 24 then scroll_up ?g else ?g"
  have "con_only s ?h \<and> con_ok ?h"
  proof (cases "cursor ?g = 1920")
    case True
    then have "?h = scroll_up ?g" by simp
    moreover have "con_only s (scroll_up ?g)" using 1 2 [OF True] by (rule con_only_trans)
    ultimately show ?thesis using scroll_up_refines(2) [OF True] by (simp add: con_ok_def)
  next
    case False
    then have "cursor ?g < 1920" using g(3) by simp
    then have "?h = ?g" by simp
    with 1 \<open>cursor ?g < 1920\<close> g(2) show ?thesis by (simp add: con_ok_def)
  qed
  moreover have "s' = put_cursor ?h"
    using assms(2) g(2,3) by (simp add: putchar_def Let_def)
  ultimately show ?thesis using 3 [of ?h] con_only_trans by metis
qed


section \<open>Printing text\<close>

fun t_puts :: "u32 list \<Rightarrow> terminal \<Rightarrow> terminal" where
  "t_puts [] t = t"
| "t_puts (c # cs) t = t_puts cs (t_put c t)"

lemma emit_putchar:
  assumes "con_ok s"
  obtains s' where "emit putchar cs s = Inr s'" and "con_ok s'" and "con_only s s'"
    and "term_of s' = t_puts cs (term_of s)"
  using assms
proof (induction cs arbitrary: s thesis)
  case Nil
  then show ?case by simp
next
  case (Cons c cs)
  obtain t where t: "putchar c s = Inr t" "con_ok t" "term_of t = t_put c (term_of s)"
    using putchar_refines [OF Cons.prems(2)] by blast
  obtain s' where s': "emit putchar cs t = Inr s'" "con_ok s'" "con_only t s'"
      "term_of s' = t_puts cs (term_of t)"
    using Cons.IH [OF _ t(2)] by blast
  show ?case
  proof (rule Cons.prems(1))
    show "con_only s s'" using putchar_con_only [OF Cons.prems(2) t(1)] s'(3) by (rule con_only_trans)
  qed (use t s' in simp_all)
qed

lemma unat_mod16: "2 \<le> unat b \<Longrightarrow> unat b \<le> 16 \<Longrightarrow> unat (n mod b :: u32) < 16"
  using unat_mod_distrib [of n b] mod_less_divisor [of "unat b" "unat n"] by linarith

interpretation console_numbers: number_printer "\<lambda>c. putchar (sx c)" printn
proof unfold_locales
  fix b n :: u32 and s :: "'a console_scheme"
  assume b: "2 \<le> unat b" "unat b \<le> 16"
  then have "unat (n mod b) < 17" using unat_mod16 [OF b, of n] by simp
  then show "printn n b s = bnd (if n div b \<noteq> 0 then printn (n div b) b s else Inr s)
      (\<lambda>s. putchar (sx (digits ! unat (n mod b))) s)"
    using b by (subst printn.simps) (auto simp: put_digit_def intro!: bnd_cong)
qed

lemma printn_emit:
  "b \<in> {8, 10, 16} \<Longrightarrow> printn n b s = emit putchar (map sx (num_chars (unat b) n)) s"
  using console_numbers.pn_prints [of b n s] by (auto simp: emit_map)

text \<open>The string a kernel pointer denotes: its bytes up to the first zero, none of them on the screen.\<close>

definition is_str :: "memory \<Rightarrow> u32 \<Rightarrow> u8 list \<Rightarrow> bool" where
  "is_str m a t \<longleftrightarrow> length t < 2 ^ 32 \<and> (\<forall>i < length t. m (a + of_nat i) = t ! i \<and> t ! i \<noteq> 0)
     \<and> m (a + of_nat (length t)) = 0 \<and> (\<forall>i \<le> length t. \<not> on_screen (a + of_nat i))"

lemma is_str_con_only: "con_only s s' \<Longrightarrow> is_str (mem s) a t \<Longrightarrow> is_str (mem s') a t"
  unfolding is_str_def by (auto simp: con_only_mem)

lemma is_str_Cons:
  assumes "is_str m a (c # t)"
  shows "m a = c" "c \<noteq> 0" "is_str m (a + 1) t"
proof -
  have h: "m (a + of_nat i) = (c # t) ! i \<and> (c # t) ! i \<noteq> 0" if "i < Suc (length t)" for i
    using assms that by (auto simp: is_str_def)
  have g: "\<not> on_screen (a + of_nat i)" if "i \<le> Suc (length t)" for i
    using assms that by (auto simp: is_str_def)
  show "m a = c" "c \<noteq> 0" using h [of 0] by simp_all
  have "m (a + 1 + of_nat i) = t ! i \<and> t ! i \<noteq> 0" if "i < length t" for i
    using h [of "Suc i"] that by (simp add: add.assoc)
  moreover have "\<not> on_screen (a + 1 + of_nat i)" if "i \<le> length t" for i
    using g [of "Suc i"] that by (simp add: add.assoc)
  moreover have "m (a + 1 + of_nat (length t)) = 0"
    using assms by (simp add: is_str_def add.assoc)
  ultimately show "is_str m (a + 1) t" using assms by (simp add: is_str_def)
qed

lemma put_str_emit:
  assumes "con_ok s" and "is_str (mem s) a t" and "length t < n"
  shows "put_str n a s = emit putchar (map sx t) s"
  using assms
proof (induction t arbitrary: n a s)
  case Nil
  then show ?case by (cases n) (simp_all add: is_str_def)
next
  case (Cons c t)
  then obtain k where n: "n = Suc k" by (cases n) auto
  note c = is_str_Cons [OF Cons.prems(2)]
  obtain s' where s': "putchar (sx c) s = Inr s'" "con_ok s'"
    using putchar_refines [OF Cons.prems(1)] by blast
  have "is_str (mem s') (a + 1) t"
    using is_str_con_only putchar_con_only [OF Cons.prems(1) s'(1)] c(3) by blast
  then have "put_str k (a + 1) s' = emit putchar (map sx t) s'"
    using Cons.IH s'(2) Cons.prems(3) n by simp
  then show ?case using c s'(1) n by simp
qed


definition strs_ok :: "(u32 \<Rightarrow> u8 list option) \<Rightarrow> 'a console_scheme \<Rightarrow> bool" where
  "strs_ok str s \<longleftrightarrow> (\<forall>a t. str a = Some t \<longrightarrow> is_str (mem s) a t)"

lemma strs_okD: "strs_ok str s \<Longrightarrow> str a = Some t \<Longrightarrow> is_str (mem s) a t"
  by (simp add: strs_ok_def)

lemma strs_ok_con_only: "con_only s s' \<Longrightarrow> strs_ok str s \<Longrightarrow> strs_ok str s'"
  unfolding strs_ok_def using is_str_con_only by blast

lemma emit_then:
  assumes "con_ok s" and "strs_ok str s"
    and "\<And>s'. con_ok s' \<Longrightarrow> strs_ok str s' \<Longrightarrow> k s' = emit putchar ys s'"
  shows "bnd (emit putchar xs s) k = emit putchar (xs @ ys) s"
proof -
  obtain s' where s': "emit putchar xs s = Inr s'" "con_ok s'" "con_only s s'"
    using emit_putchar [OF assms(1)] by blast
  moreover have "strs_ok str s'" using s'(3) assms(2) by (rule strs_ok_con_only)
  ultimately show ?thesis using assms(3) by (simp add: emit_append)
qed

lemma emit_then1:
  assumes "con_ok s" and "strs_ok str s"
    and "\<And>s'. con_ok s' \<Longrightarrow> strs_ok str s' \<Longrightarrow> k s' = emit putchar ys s'"
  shows "bnd (putchar c s) k = emit putchar (c # ys) s"
  using emit_then [OF assms, where xs = "[c]"] by simp

lemma print_conv_emit:
  assumes "con_ok s" and "strs_ok str s" and "conv_text str k a = Some t"
  shows "print_conv k a s = emit putchar t s" and "is_conv k"
proof -
  have z: "bnd (puts_lit cs s) (printn a b) = emit putchar (map sx (lit cs @ num_chars (unat b) a)) s"
    if "b \<in> {8, 16}" for b cs
    unfolding puts_lit_def map_append
    by (rule emit_then [OF assms(1,2)]) (use that printn_emit in auto)
  have p: "put_str (2 ^ 32) a s = emit putchar (map sx u) s" if "str a = Some u" for u
  proof (rule put_str_emit [OF assms(1)])
    show "is_str (mem s) a u" using assms(2) that by (rule strs_okD)
    then show "length u < 2 ^ 32" by (simp add: is_str_def)
  qed
  show "is_conv k" using assms(3) by (auto simp: conv_text_def is_conv_def split: if_splits)
  show "print_conv k a s = emit putchar t s"
    using assms(3) z [of 16 "''0x''"] z [of 8 "''0o''"] p
    by (auto simp: conv_text_def print_conv_def printn_emit puts_lit_def split: if_splits)
qed

text \<open>
  Every format string prints exactly its text: the loop over conversions, the nested calls and the
  recursion of \<^verbatim>\<open>printn\<close> amount to one \<^verbatim>\<open>putchar\<close> per character, in order.
\<close>

lemma printf_emit:
  assumes "con_ok s" and "strs_ok str s" and "fmt_text str fmt args = Some t"
  shows "printf fmt args s = emit putchar t s"
  using assms
proof (induction str fmt args arbitrary: s t rule: fmt_text.induct)
  case (1 str args)
  then show ?case by simp
next
  case (2 str c args)
  then show ?case by (auto split: if_splits)
next
  case (3 str c k fmt args)
  show ?case
  proof (cases "c = 37")
    case False
    with 3 obtain u where u: "fmt_text str (k # fmt) args = Some u" "t = sx c # u" by auto
    have "bnd (putchar (sx c) s) (printf (k # fmt) args) = emit putchar (sx c # u) s"
      by (rule emit_then1 [OF "3.prems"(1,2)]) (rule "3.IH"(1) [OF False _ _ u(1)])
    with False u(2) show ?thesis by simp
  next
    case True
    with "3.prems"(3) obtain a as v u where args: "args = a # as"
      and v: "conv_text str k a = Some v" and u: "fmt_text str fmt as = Some u" "t = v @ u"
      by (auto split: list.splits option.splits)
    have "bnd (emit putchar v s) (printf fmt as) = emit putchar t s"
      unfolding u(2)
      by (rule emit_then [OF "3.prems"(1,2)]) (rule "3.IH"(2) [OF _ args v _ _ u(1)], use True in simp_all)
    with True args print_conv_emit [OF "3.prems"(1,2) v] show ?thesis by simp
  qed
qed

lemma panic_prints:
  assumes "con_ok s" and "is_str (mem s) a t" and "a \<noteq> 0"
  shows "\<exists>s'. panic a s = Inr s' \<and> \<not> interruptible s'
    \<and> term_of s' = t_puts (map sx (lit ''panic: '' @ t @ [10])) (term_of s)"
proof -
  have c: "con_ok (cli s)" "term_of (cli s) = term_of s" "mem (cli s) = mem s" "\<not> interruptible (cli s)"
    using assms(1) by (simp_all add: cli_def con_ok_def term_of_def)
  have st: "strs_ok (\<lambda>x. if x = a then Some t else None) (cli s)"
    using assms(2) c(3) by (simp add: strs_ok_def)
  have "fmt_text (\<lambda>x. if x = a then Some t else None) (lit ''panic: %s'' @ [10]) [a]
      = Some (map sx (lit ''panic: '' @ t @ [10]))"
    using assms(3) by (simp add: conv_text_def)
  then have "panic a s = emit putchar (map sx (lit ''panic: '' @ t @ [10])) (cli s)"
    unfolding panic_def by (rule printf_emit [OF c(1) st])
  moreover obtain s' where "emit putchar (map sx (lit ''panic: '' @ t @ [10])) (cli s) = Inr s'"
      "con_only (cli s) s'" "term_of s' = t_puts (map sx (lit ''panic: '' @ t @ [10])) (term_of (cli s))"
    using emit_putchar [OF c(1)] by metis
  ultimately show ?thesis using c(2,4) by (auto simp: con_only_def)
qed

section \<open>Properties\<close>

definition ex_con :: console where
  "ex_con = \<lparr>eflags = 0x202, mem = (\<lambda>_. 0), outlog = [], ncli = 0, intena = 0, cursor = 1919,
     inbuf = replicate 128 0, inindex = 0, kbdflags = 0\<rparr>"

lemma ex_con_ok: "con_ok ex_con" "strs_ok (\<lambda>_. None) ex_con"
  by (simp_all add: ex_con_def con_ok_def strs_ok_def)

text \<open>
  C29: one character on the screen. With the cursor in the first 24 rows \<^verbatim>\<open>putchar\<close> never panics,
  leaves the cursor there, and does to the CGA memory what the terminal does: newline, backspace with
  erasure, glyph, scrolling by one line, cursor mark. It writes no byte outside the screen.
\<close>

theorem putchar_terminal:
  assumes "con_ok s"
  shows "\<exists>s'. putchar c s = Inr s' \<and> con_ok s' \<and> term_of s' = t_put c (term_of s) \<and> con_only s s'"
  using putchar_refines [OF assms, of c] putchar_con_only [OF assms, of c] by metis

theorem putchar_terminal_witness:
  "\<exists>s'. putchar 65 ex_con = Inr s' \<and> tcur (term_of s') = 1840"
proof -
  obtain s' where "putchar 65 ex_con = Inr s'" "term_of s' = t_put 65 (term_of ex_con)"
    using putchar_terminal [OF ex_con_ok(1)] by blast
  moreover have "tcur (t_put 65 (term_of ex_con)) = 1840"
    by (simp add: t_put_def t_glyph_def t_scroll_def t_cursor_def term_of_def ex_con_def)
  ultimately show ?thesis by auto
qed

text \<open>
  C28: \<^verbatim>\<open>printf\<close>. Whatever the format, if its conversions are known, its arguments are there and its
  string arguments are strings, \<^verbatim>\<open>printf\<close> puts exactly the text of the format on the terminal, character
  by character, and nothing else changes but the screen.
\<close>

theorem printf_prints:
  assumes "con_ok s" and "strs_ok str s" and "fmt_text str fmt args = Some t"
  shows "\<exists>s'. printf fmt args s = Inr s' \<and> con_ok s' \<and> con_only s s' \<and> term_of s' = t_puts t (term_of s)"
  using emit_putchar [OF assms(1), of t] printf_emit [OF assms] by metis

theorem printf_prints_witness:
  "\<exists>s'. printf (lit ''pid:%d'' @ [10]) [64] ex_con = Inr s'
    \<and> term_of s' = t_puts (map sx (lit ''pid:64'' @ [10])) (term_of ex_con)"
proof -
  have "num_chars 10 64 = lit ''64''"
    by (simp add: num_chars_def digs.simps digits_def)
  then have "fmt_text (\<lambda>_. None) (lit ''pid:%d'' @ [10]) [64] = Some (map sx (lit ''pid:64'' @ [10]))"
    by (simp add: conv_text_def)
  then show ?thesis using printf_prints [OF ex_con_ok] by blast
qed

text \<open>
  C31: numbers. In the bases \<^verbatim>\<open>printf\<close> uses, \<^verbatim>\<open>printn\<close> prints a string that has no leading zero and
  reads back, digit by digit, as the number.
\<close>

theorem printn_reads_back:
  assumes "b \<in> {8, 10, 16}"
  shows "\<exists>cs. printn n b s = emit putchar (map sx cs) s
    \<and> from_digs (unat b) (map digit_val cs) = unat n \<and> cs \<noteq> [] \<and> (n \<noteq> 0 \<longrightarrow> digit_val (hd cs) \<noteq> 0)"
proof (intro exI conjI impI)
  show "printn n b s = emit putchar (map sx (num_chars (unat b) n)) s" using assms by (rule printn_emit)
  have b: "2 \<le> unat b" "unat b \<le> 16" using assms by auto
  show "from_digs (unat b) (map digit_val (num_chars (unat b) n)) = unat n"
    using b by (rule num_chars_roundtrip)
  have ne: "digs (unat b) (unat n) \<noteq> []" using b digs_not_Nil by blast
  then show "num_chars (unat b) n \<noteq> []" by (simp add: num_chars_def)
  assume "n \<noteq> 0"
  then have "hd (digs (unat b) (unat n)) \<noteq> 0" using b digs_leading by (simp add: unat_gt_0)
  moreover have "hd (digs (unat b) (unat n)) < 16" using ne b digs_less [OF b(1)] by (meson hd_in_set order_less_le_trans)
  ultimately show "digit_val (hd (num_chars (unat b) n)) \<noteq> 0"
    using ne by (simp add: num_chars_def hd_map digit_val_digits)
qed

theorem printn_reads_back_witness:
  "\<exists>cs. printn 0xB8000 16 ex_con = emit putchar (map sx cs) ex_con \<and> from_digs 16 (map digit_val cs) = 0xB8000"
  using printn_reads_back [of 16 "0xB8000" ex_con] by auto

end
