(* ===== verification/Mix_Kalloc.thy ===== *)
theory Mix_Kalloc
  imports Mix_Console
begin

text \<open>
  The physical page allocator of \<^verbatim>\<open>kernel/mm/kalloc.c\<close>: a free list threaded through the free
  pages themselves. Its contract is the interface \<open>page_allocator\<close>, a stack of distinct pages.
\<close>

section \<open>State\<close>

text \<open>
  \<open>coremap\<close> is the head of the list, and \<open>kernel_end\<close> and \<open>rodata_end\<close> are the symbols
  \<^verbatim>\<open>kernel.ls\<close> provides: addresses fixed when the kernel is linked, which no operation writes.
\<close>

record kmem = console +
  coremap :: u32
  kernel_end :: u32
  rodata_end :: u32

section \<open>Operations\<close>

definition kalloc :: "'a kmem_scheme \<Rightarrow> (u32 \<times> 'a kmem_scheme) res" where
  "kalloc s =
     (let s = pushcli s;
          r = coremap s;
          s = (if r \<noteq> 0 then s\<lparr>coremap := load32 (mem s) r\<rparr> else s)
      in bnd (popcli s) (\<lambda>s. Inr (r, s)))"

definition kfree :: "u32 \<Rightarrow> 'a kmem_scheme \<Rightarrow> 'a kmem_scheme res" where
  "kfree addr s =
     (if addr mod PAGESIZE \<noteq> 0 \<or> addr < kernel_end s \<or> addr \<ge> MEMSIZE then Inl (Panic ''kfree'')
      else
        (let s = s\<lparr>mem := memset addr 0 PAGESIZE (mem s)\<rparr>;
             s = pushcli s;
             r = addr;
             s = s\<lparr>mem := store32 (mem s) r (coremap s)\<rparr>;
             s = s\<lparr>coremap := r\<rparr>
         in popcli s))"

function kinit_loop :: "u32 \<Rightarrow> 'a kmem_scheme \<Rightarrow> 'a kmem_scheme res" where
  "kinit_loop p s =
     (if p < MEMSIZE then bnd (kfree p s) (kinit_loop (p + PAGESIZE)) else Inr s)"
  by pat_completeness auto
termination
proof (relation "measure (\<lambda>(p, s). unat MEMSIZE - unat p)")
  fix p :: u32 and s s' :: "'a kmem_scheme"
  assume "p < MEMSIZE"
  then have p: "unat p < 0x20000000" by (simp add: word_less_nat_alt)
  then have "unat (p + 0x1000) = unat p + 0x1000" using unat_add_small [of p "0x1000"] by simp
  with p show "((p + PAGESIZE, s'), (p, s)) \<in> measure (\<lambda>(p, s). unat MEMSIZE - unat p)" by simp
qed simp

declare kinit_loop.simps [simp del]

definition kinit :: "'a kmem_scheme \<Rightarrow> 'a kmem_scheme res" where
  "kinit s =
     bnd (printf (lit ''Kernel Size is %p'' @ [10]) [kernel_end s] s) (\<lambda>s.
     bnd (printf (lit ''Memory Size is %x'' @ [10]) [MEMSIZE] s) (\<lambda>s.
     kinit_loop (PGROUNDUP (kernel_end s)) s))"

section \<open>The interface of a page allocator\<close>

text \<open>
  \<open>inv s xs\<close>: the allocator is consistent and its free pages are \<open>xs\<close>, the next one first.
\<close>

fun alloc_n :: "('s \<Rightarrow> (u32 \<times> 's) res) \<Rightarrow> nat \<Rightarrow> 's \<Rightarrow> (u32 list \<times> 's) res" where
  "alloc_n alloc 0 s = Inr ([], s)"
| "alloc_n alloc (Suc n) s =
     bnd (alloc s) (\<lambda>(x, s). bnd (alloc_n alloc n s) (\<lambda>(xs, s). Inr (x # xs, s)))"

fun free_all :: "(u32 \<Rightarrow> 's \<Rightarrow> 's res) \<Rightarrow> u32 list \<Rightarrow> 's \<Rightarrow> 's res" where
  "free_all free [] s = Inr s"
| "free_all free (x # xs) s = bnd (free x s) (free_all free xs)"

locale page_allocator =
  fixes alloc :: "'s \<Rightarrow> (u32 \<times> 's) res"
    and free :: "u32 \<Rightarrow> 's \<Rightarrow> 's res"
    and page :: "'s \<Rightarrow> u32 \<Rightarrow> bool"
    and inv :: "'s \<Rightarrow> u32 list \<Rightarrow> bool"
  assumes inv_pages: "inv s xs \<Longrightarrow> distinct xs \<and> 0 \<notin> set xs \<and> (\<forall>x \<in> set xs. page s x)"
    and alloc_empty: "inv s [] \<Longrightarrow> alloc s = Inr (0, s)"
    and alloc_some: "inv s (x # xs) \<Longrightarrow> \<exists>s'. alloc s = Inr (x, s') \<and> inv s' xs \<and> page s' = page s"
    and free_page: "inv s xs \<Longrightarrow> page s x \<Longrightarrow> x \<notin> set xs \<Longrightarrow>
      \<exists>s'. free x s = Inr s' \<and> inv s' (x # xs) \<and> page s' = page s"
begin

lemma alloc_n_some:
  assumes "inv s xs" and "n \<le> length xs"
  shows "\<exists>s'. alloc_n alloc n s = Inr (take n xs, s') \<and> inv s' (drop n xs) \<and> page s' = page s"
  using assms
proof (induction n arbitrary: s xs)
  case 0
  then show ?case by simp
next
  case (Suc n)
  then obtain x ys where xs: "xs = x # ys" by (cases xs) auto
  obtain s1 where s1: "alloc s = Inr (x, s1)" "inv s1 ys" "page s1 = page s"
    using alloc_some Suc.prems(1) xs by blast
  obtain s2 where "alloc_n alloc n s1 = Inr (take n ys, s2)" "inv s2 (drop n ys)" "page s2 = page s1"
    using Suc.IH [OF s1(2)] Suc.prems(2) xs by auto
  with s1 xs show ?case by simp
qed

lemma free_all_pages:
  assumes "inv s xs" and "distinct ys" and "set ys \<inter> set xs = {}" and "\<forall>y \<in> set ys. page s y"
  shows "\<exists>s'. free_all free ys s = Inr s' \<and> inv s' (rev ys @ xs) \<and> page s' = page s"
  using assms
proof (induction ys arbitrary: s xs)
  case Nil
  then show ?case by simp
next
  case (Cons y ys)
  obtain s1 where s1: "free y s = Inr s1" "inv s1 (y # xs)" "page s1 = page s"
    using free_page [OF Cons.prems(1), of y] Cons.prems(3,4) by auto
  obtain s2 where "free_all free ys s1 = Inr s2" "inv s2 (rev ys @ y # xs)" "page s2 = page s1"
    using Cons.IH [OF s1(2)] Cons.prems s1(3) by auto
  with s1 show ?case by simp
qed

text \<open>Pages handed out and returned in the opposite order leave the allocator as it was.\<close>

lemma alloc_free_roundtrip:
  assumes "inv s xs" and "n \<le> length xs"
  shows "\<exists>s' s''. alloc_n alloc n s = Inr (take n xs, s')
    \<and> free_all free (rev (take n xs)) s' = Inr s'' \<and> inv s'' xs"
proof -
  obtain s' where s': "alloc_n alloc n s = Inr (take n xs, s')" "inv s' (drop n xs)" "page s' = page s"
    using alloc_n_some [OF assms] by blast
  have d: "distinct xs" "\<forall>x \<in> set xs. page s x" using inv_pages [OF assms(1)] by simp_all
  have "set (take n xs) \<inter> set (drop n xs) = {}" using d(1) by (rule set_take_disj_set_drop_if_distinct) simp
  then obtain s'' where "free_all free (rev (take n xs)) s' = Inr s''"
      "inv s'' (rev (rev (take n xs)) @ drop n xs)"
    using free_all_pages [OF s'(2), of "rev (take n xs)"] d s'(3) by (auto dest: in_set_takeD)
  with s' show ?thesis by simp
qed

lemma alloc_n_distinct:
  assumes "inv s xs" and "n \<le> length xs" and "alloc_n alloc n s = Inr (ys, s')"
  shows "distinct ys" and "set ys \<inter> set (drop n xs) = {}" and "0 \<notin> set ys"
proof -
  have ys: "ys = take n xs" using alloc_n_some [OF assms(1,2)] assms(3) by auto
  have d: "distinct xs" "0 \<notin> set xs" using inv_pages [OF assms(1)] by simp_all
  then show "distinct ys" "0 \<notin> set ys" using ys by (auto dest: in_set_takeD)
  show "set ys \<inter> set (drop n xs) = {}"
    unfolding ys using d(1) by (rule set_take_disj_set_drop_if_distinct) simp
qed

end

section \<open>The free list\<close>

fun flist :: "memory \<Rightarrow> u32 \<Rightarrow> u32 list \<Rightarrow> bool" where
  "flist m r [] \<longleftrightarrow> r = 0"
| "flist m r (x # xs) \<longleftrightarrow> r = x \<and> x \<noteq> 0 \<and> flist m (load32 m x) xs"

definition page_ok :: "'a kmem_scheme \<Rightarrow> u32 \<Rightarrow> bool" where
  "page_ok s a \<longleftrightarrow> pgal a \<and> kernel_end s \<le> a \<and> a < MEMSIZE"

text \<open>
  \<^verbatim>\<open>kernel.ls\<close> puts the kernel at \<open>0x100000\<close>, so every free page lies above the screen.
\<close>

definition kern_ok :: "'a kmem_scheme \<Rightarrow> bool" where
  "kern_ok s \<longleftrightarrow> EXTMEM \<le> kernel_end s \<and> kernel_end s \<le> MEMSIZE"

definition kmem_inv :: "'a kmem_scheme \<Rightarrow> u32 list \<Rightarrow> bool" where
  "kmem_inv s xs \<longleftrightarrow> flist (mem s) (coremap s) xs \<and> distinct xs \<and> (\<forall>x \<in> set xs. page_ok s x)
     \<and> kern_ok s \<and> cli_ok s"

lemma flist_cong:
  "(\<And>x. x \<in> set xs \<Longrightarrow> load32 m' x = load32 m x) \<Longrightarrow> flist m' r xs = flist m r xs"
  by (induction xs arbitrary: r) auto

lemma flist_not_0: "flist m r xs \<Longrightarrow> 0 \<notin> set xs"
  by (induction xs arbitrary: r) auto

lemma page_ok_not_0: "kern_ok s \<Longrightarrow> page_ok s a \<Longrightarrow> a \<noteq> 0"
  by (auto simp: kern_ok_def page_ok_def word_le_nat_alt)

lemma page_mod: "(a :: u32) mod 0x1000 = 0 \<longleftrightarrow> pgal a"
proof -
  have "a mod 0x1000 = 0 \<longleftrightarrow> unat a mod 4096 = 0"
    using unat_mod_distrib [of a "0x1000"] by (auto simp: word_unat_eq_iff)
  then show ?thesis by (simp add: pgal_def dvd_eq_mod_eq_0)
qed

lemma load32_other_page:
  assumes "pgal a" "pgal b" "a \<noteq> b"
    and "\<And>x. \<not> x - a < 0x1000 \<Longrightarrow> m' x = m x"
  shows "load32 m' b = load32 m b"
  by (rule load32_cong) (use assms pgal_disjoint [of b a] in simp)

lemma store32_in_page: "\<not> x - a < 0x1000 \<Longrightarrow> store32 m a v x = m x"
  by (simp add: store32_eq word_less_nat_alt)


section \<open>The allocator implements the interface\<close>

lemma kalloc_eq:
  assumes "cli_ok s"
  shows "kalloc s = Inr (coremap s,
    if coremap s = 0 then s else s\<lparr>coremap := load32 (mem s) (coremap s)\<rparr>)"
  using assms
  by (simp add: kalloc_def popcli_after_pushcli pushcli_upd Let_def)

lemma kfree_eq:
  assumes "cli_ok s" and "page_ok s a"
  shows "kfree a s = Inr (s\<lparr>mem := store32 (memset a 0 0x1000 (mem s)) a (coremap s), coremap := a\<rparr>)"
proof -
  let ?t = "s\<lparr>mem := memset a 0 0x1000 (mem s)\<rparr>"
  have "cli_ok ?t" using assms(1) by (simp add: cli_ok_def)
  note pop = popcli_after_pushcli [OF this]
  from assms(2) show ?thesis
    by (simp add: kfree_def page_ok_def page_mod pop Let_def not_le not_less) (simp add: pushcli_upd)
qed

lemma kfree_bad_address:
  "\<not> page_ok s a \<Longrightarrow> kfree a s = Inl (Panic ''kfree'')"
  by (auto simp: kfree_def page_ok_def page_mod)

text \<open>What freeing a page does to memory: zeroes and the link, inside that page only.\<close>

lemma kfree_mem_other:
  "\<not> x - a < 0x1000 \<Longrightarrow> store32 (memset a 0 0x1000 m) a v x = m x"
  by (simp add: store32_in_page memset_eq)

lemma kmem_inv_kfree:
  assumes "kmem_inv s xs" and "page_ok s a" and "a \<notin> set xs"
  shows "kmem_inv (s\<lparr>mem := store32 (memset a 0 0x1000 (mem s)) a (coremap s), coremap := a\<rparr>) (a # xs)"
proof -
  have inv: "flist (mem s) (coremap s) xs" "distinct xs" "\<forall>x \<in> set xs. page_ok s x" "kern_ok s" "cli_ok s"
    using assms(1) by (simp_all add: kmem_inv_def)
  have "flist (store32 (memset a 0 0x1000 (mem s)) a (coremap s)) (coremap s) xs"
  proof (subst flist_cong [where m = "mem s"])
    fix x
    assume "x \<in> set xs"
    then have "pgal x" "x \<noteq> a" using inv(3) assms(3) by (auto simp: page_ok_def)
    with assms(2) show "load32 (store32 (memset a 0 0x1000 (mem s)) a (coremap s)) x = load32 (mem s) x"
      by (intro load32_other_page [of a]) (auto simp: page_ok_def kfree_mem_other)
  qed (rule inv(1))
  moreover have "a \<noteq> 0" using inv(4) assms(2) by (rule page_ok_not_0)
  ultimately show ?thesis
    using inv assms(2,3) by (auto simp: kmem_inv_def page_ok_def kern_ok_def cli_ok_def)
qed

lemma kmem_inv_kalloc:
  assumes "kmem_inv s (x # xs)"
  shows "coremap s = x" "x \<noteq> 0" "kmem_inv (s\<lparr>coremap := load32 (mem s) x\<rparr>) xs" "page_ok s x" "x \<notin> set xs"
  using assms by (auto simp: kmem_inv_def page_ok_def kern_ok_def cli_ok_def)

lemma kmem_inv_Nil: "kmem_inv s [] \<Longrightarrow> coremap s = 0"
  by (simp add: kmem_inv_def)

interpretation kpages: page_allocator kalloc kfree page_ok kmem_inv
proof unfold_locales
  fix s :: "'a kmem_scheme" and x xs
  show "distinct xs \<and> 0 \<notin> set xs \<and> (\<forall>x \<in> set xs. page_ok s x)" if "kmem_inv s xs"
    using that flist_not_0 by (auto simp: kmem_inv_def)
  show "kalloc s = Inr (0, s)" if "kmem_inv s []"
    using that kmem_inv_Nil [OF that] by (simp add: kalloc_eq kmem_inv_def)
  show "\<exists>s'. kalloc s = Inr (x, s') \<and> kmem_inv s' xs \<and> page_ok s' = page_ok s"
    if "kmem_inv s (x # xs)"
    using kmem_inv_kalloc [OF that] that by (simp add: kalloc_eq kmem_inv_def page_ok_def fun_eq_iff)
  show "\<exists>s'. kfree x s = Inr s' \<and> kmem_inv s' (x # xs) \<and> page_ok s' = page_ok s"
    if "kmem_inv s xs" "page_ok s x" "x \<notin> set xs"
    using that kmem_inv_kfree [OF that] by (simp add: kfree_eq kmem_inv_def page_ok_def fun_eq_iff)
qed

text \<open>A page just allocated keeps its bytes, the link in its first word included.\<close>

lemma kalloc_mem: "cli_ok s \<Longrightarrow> kalloc s = Inr (x, s') \<Longrightarrow> mem s' = mem s"
  by (auto simp: kalloc_eq split: if_splits)

section \<open>\<open>kinit\<close>\<close>

text \<open>The pages from \<open>p\<close> to the end of memory, in the order \<^verbatim>\<open>kinit\<close> frees them.\<close>

definition page_count :: "u32 \<Rightarrow> nat" where
  "page_count p = (unat MEMSIZE - unat p) div 4096"

definition pages_from :: "u32 \<Rightarrow> u32 list" where
  "pages_from p = map (\<lambda>i. p + of_nat (4096 * i)) [0..<page_count p]"

lemma pages_from_rec:
  assumes "pgal p"
  shows "pages_from p = (if p < MEMSIZE then p # pages_from (p + PAGESIZE) else [])"
proof (cases "p < MEMSIZE")
  case False
  then show ?thesis by (simp add: pages_from_def page_count_def word_less_nat_alt)
next
  case True
  then have lt: "unat p < 0x20000000" by (simp add: word_less_nat_alt)
  then have s: "unat (p + 0x1000) = unat p + 0x1000" using unat_add_small [of p "0x1000"] by simp
  obtain k where k: "unat p = 4096 * k" using assms by (auto simp: pgal_def)
  have "page_count p = Suc (page_count (p + 0x1000))"
    using s lt k by (simp add: page_count_def)
  then have "pages_from p = p # map (\<lambda>i. p + of_nat (4096 * Suc i)) [0..<page_count (p + 0x1000)]"
    by (simp add: pages_from_def map_upt_Suc del: upt_Suc)
  also have "map (\<lambda>i. p + of_nat (4096 * Suc i)) [0..<page_count (p + 0x1000)] = pages_from (p + 0x1000)"
    by (simp add: pages_from_def algebra_simps)
  finally show ?thesis using True by simp
qed

lemma pgal_add_page: "pgal p \<Longrightarrow> pgal (p + 0x1000)"
proof -
  assume "pgal p"
  then obtain k where k: "unat p = 4096 * k" by (auto simp: pgal_def)
  have "unat (p + 0x1000) = (4096 * k + 4096) mod 4294967296" using k by (simp add: unat_word_ariths)
  then show ?thesis unfolding pgal_def by (simp add: dvd_mod)
qed

lemma kinit_loop_free_all: "pgal p \<Longrightarrow> kinit_loop p s = free_all kfree (pages_from p) s"
proof (induction p s rule: kinit_loop.induct)
  case (1 p s)
  show ?case
  proof (cases "p < MEMSIZE")
    case True
    with 1 have "bnd (kfree p s) (kinit_loop (p + PAGESIZE))
        = bnd (kfree p s) (free_all kfree (pages_from (p + PAGESIZE)))"
      by (intro bnd_cong) (simp_all add: pgal_add_page)
    with True 1(2) show ?thesis by (subst kinit_loop.simps) (simp add: pages_from_rec [of p])
  next
    case False
    with 1(2) show ?thesis by (subst kinit_loop.simps) (simp add: pages_from_rec [of p])
  qed
qed

lemma pages_from_nth:
  assumes "pgal p" and "i < page_count p"
  shows "unat (p + of_nat (4096 * i)) = unat p + 4096 * i" and "unat p + 4096 * i < 0x20000000"
proof -
  have "4096 * i < unat MEMSIZE - unat p"
    using assms(2) unfolding page_count_def by linarith
  then show "unat p + 4096 * i < 0x20000000" by simp
  then show "unat (p + of_nat (4096 * i)) = unat p + 4096 * i" by (intro unat_add_small) simp
qed

lemma pages_from_ok:
  assumes "pgal p" and "kernel_end s \<le> p"
  shows "distinct (pages_from p)" and "\<forall>x \<in> set (pages_from p). page_ok s x"
proof -
  show "distinct (pages_from p)"
    unfolding pages_from_def distinct_map
    using pages_from_nth(1) [OF assms(1)] by (auto intro!: inj_onI) (metis add_left_cancel mult_cancel1 zero_neq_numeral)
  show "\<forall>x \<in> set (pages_from p). page_ok s x"
  proof
    fix x
    assume "x \<in> set (pages_from p)"
    then obtain i where "i < page_count p" "x = p + of_nat (4096 * i)" by (auto simp: pages_from_def)
    with pages_from_nth [OF assms(1)] have "unat x = unat p + 4096 * i" "unat x < 0x20000000" by auto
    with assms show "page_ok s x"
      by (auto simp: page_ok_def pgal_def word_le_nat_alt word_less_nat_alt)
  qed
qed


lemma printf_then:
  assumes "con_ok s" and "fmt_text (\<lambda>_. None) fmt args = Some t"
  obtains s' where "printf fmt args s = Inr s'" and "con_ok s'" and "con_only s s'"
proof -
  have "strs_ok (\<lambda>_. None) s" by (simp add: strs_ok_def)
  then have "printf fmt args s = emit putchar t s" using assms by (intro printf_emit)
  then show thesis using emit_putchar [OF assms(1), of t] that by metis
qed

lemma con_only_kmem:
  assumes "con_only s s'"
  shows "coremap s' = coremap s" "kernel_end s' = kernel_end s" "rodata_end s' = rodata_end s"
    "kmem.more s' = kmem.more s" "cli_ok s' = cli_ok s" "kern_ok s' = kern_ok s" "page_ok s' = page_ok s"
  using assms unfolding con_only_def by (auto simp: cli_ok_def kern_ok_def page_ok_def fun_eq_iff)

lemma screen_below_pages: "on_screen a \<Longrightarrow> unat a < 0xB9000"
proof -
  assume "on_screen a"
  then obtain j where j: "j < 4000" "a - CGAADDR = of_nat j" by (auto simp: on_screen_def intro: that)
  then have "a = CGAADDR + of_nat j" by (simp add: algebra_simps)
  moreover have "unat (CGAADDR + of_nat j) = unat CGAADDR + j"
    using j(1) by (intro unat_add_small) simp
  ultimately show ?thesis using j(1) by simp
qed

lemma con_only_kmem_inv:
  assumes "con_only s s'"
  shows "kmem_inv s' xs = kmem_inv s xs"
proof -
  have "flist (mem s') r xs = flist (mem s) r xs" if "\<forall>x \<in> set xs. page_ok s x" "kern_ok s" for r
  proof (rule flist_cong)
    fix x
    assume "x \<in> set xs"
    then have x: "pgal x" "0x100000 \<le> unat x"
      using that by (auto simp: page_ok_def kern_ok_def word_le_nat_alt)
    show "load32 (mem s') x = load32 (mem s) x"
    proof (rule load32_cong)
      fix i :: nat
      assume "i < 4"
      then have "unat (x + of_nat i) = unat x + i" using pgal_unat_add [OF x(1), of i] by simp
      then have "\<not> on_screen (x + of_nat i)" using x(2) screen_below_pages by fastforce
      then show "mem s' (x + of_nat i) = mem s (x + of_nat i)" by (rule con_only_mem [OF assms])
    qed
  qed
  then show ?thesis unfolding kmem_inv_def con_only_kmem [OF assms] by auto
qed

section \<open>Properties\<close>

text \<open>Two concrete states for the witnesses: at boot, and with two free pages.\<close>

definition ex_boot :: kmem where
  "ex_boot = \<lparr>eflags = 0x202, mem = (\<lambda>_. 0), outlog = [], ncli = 0, intena = 0, cursor = 0,
     inbuf = replicate 128 0, inindex = 0, kbdflags = 0, coremap = 0, kernel_end = 0x110000,
     rodata_end = 0x108000\<rparr>"

definition ex_two :: kmem where
  "ex_two = ex_boot\<lparr>mem := store32 (\<lambda>_. 0) 0x201000 0x200000, coremap := 0x201000\<rparr>"

lemma ex_boot_ok: "con_ok ex_boot" "cli_ok ex_boot" "kern_ok ex_boot" "coremap ex_boot = 0"
  by (simp_all add: ex_boot_def con_ok_def cli_ok_def kern_ok_def)

lemma ex_two_inv: "kmem_inv ex_two [0x201000, 0x200000]"
proof -
  have "load32 (store32 (\<lambda>_. 0) 0x201000 0x200000) 0x200000 = (0 :: u32)"
    by (simp add: load32_store32_other al4_def) (simp add: load32_def le32_def)
  then show ?thesis
    by (simp add: ex_two_def ex_boot_def kmem_inv_def page_ok_def kern_ok_def cli_ok_def pgal_def)
qed

text \<open>
  C33: booting. From the empty allocator \<^verbatim>\<open>kinit\<close> returns, and its free list is exactly the pages
  between the end of the kernel and the end of memory, each once, the highest first.
\<close>

theorem kinit_frees_all_memory:
  assumes "con_ok s" and "cli_ok s" and "kern_ok s" and "coremap s = 0"
  shows "\<exists>s'. kinit s = Inr s' \<and> kmem_inv s' (rev (pages_from (PGROUNDUP (kernel_end s))))"
proof -
  have f: "\<exists>t. fmt_text (\<lambda>_. None) (lit cs @ [10]) [a] = Some t"
    if "cs \<in> {''Kernel Size is %p'', ''Memory Size is %x''}" for cs a
    using that by (auto simp: conv_text_def)
  obtain s1 where s1: "printf (lit ''Kernel Size is %p'' @ [10]) [kernel_end s] s = Inr s1" "con_ok s1" "con_only s s1"
    using printf_then [OF assms(1)] f [of "''Kernel Size is %p''"] by blast
  obtain s2 where s2: "printf (lit ''Memory Size is %x'' @ [10]) [MEMSIZE] s1 = Inr s2" "con_ok s2" "con_only s1 s2"
    using printf_then [OF s1(2)] f [of "''Memory Size is %x''"] by blast
  have c: "con_only s s2" using s1(3) s2(3) by (rule con_only_trans)
  let ?p = "PGROUNDUP (kernel_end s)"
  have k: "unat (kernel_end s) \<le> 0x20000000" using assms(3) by (simp add: kern_ok_def word_le_nat_alt)
  then have "kernel_end s \<le> ?p" using unat_PGROUNDUP [of "kernel_end s"] by (simp add: word_le_nat_alt)
  then have p: "distinct (pages_from ?p)" "\<forall>x \<in> set (pages_from ?p). page_ok s x"
    using pages_from_ok [OF pgal_PGROUNDUP] by blast+
  have "kmem_inv s []" using assms by (simp add: kmem_inv_def)
  then have "kmem_inv s2 []" using con_only_kmem_inv [OF c] by blast
  then obtain s3 where "free_all kfree (pages_from ?p) s2 = Inr s3" "kmem_inv s3 (rev (pages_from ?p))"
    using kpages.free_all_pages [of s2 "[]" "pages_from ?p"] p con_only_kmem(7) [OF c] by auto
  then show ?thesis
    using s1(1) s2(1) con_only_kmem(2) [OF c] by (simp add: kinit_def kinit_loop_free_all)
qed

theorem kinit_frees_all_memory_witness:
  "\<exists>s'. kinit ex_boot = Inr s' \<and> kmem_inv s' (rev (pages_from (PGROUNDUP (kernel_end ex_boot))))"
  using kinit_frees_all_memory [OF ex_boot_ok] .

text \<open>
  What an allocation returns. With free pages \<open>x # xs\<close>, \<^verbatim>\<open>kalloc\<close> returns \<open>x\<close>, a page-aligned
  address inside free memory that is no longer free, changes no byte of memory, and leaves \<open>xs\<close>;
  with none it returns 0 and changes nothing.
\<close>

theorem kalloc_pops:
  assumes "kmem_inv s free"
  shows "case free of
      [] \<Rightarrow> kalloc s = Inr (0, s)
    | x # xs \<Rightarrow> \<exists>s'. kalloc s = Inr (x, s') \<and> kmem_inv s' xs \<and> x \<notin> set xs \<and> page_ok s x \<and> mem s' = mem s"
proof (cases free)
  case Nil
  then show ?thesis using assms kpages.alloc_empty by simp
next
  case (Cons x xs)
  with assms obtain s' where "kalloc s = Inr (x, s')" "kmem_inv s' xs" using kpages.alloc_some by blast
  moreover have "mem s' = mem s" using calculation(1) assms by (auto simp: kmem_inv_def intro: kalloc_mem)
  ultimately show ?thesis using Cons kmem_inv_kalloc [of s x xs] assms by simp
qed

theorem kalloc_pops_witness:
  "\<exists>s'. kalloc ex_two = Inr (0x201000, s') \<and> kmem_inv s' [0x200000] \<and> mem s' = mem ex_two"
  using kalloc_pops [OF ex_two_inv] by auto

text \<open>
  C34: what freeing does. A page of free memory that is not on the list is zeroed (but for the link
  in its first word), becomes the next page to be handed out, and no byte outside it changes; any
  other address panics.
\<close>

theorem kfree_pushes:
  assumes "kmem_inv s xs"
  shows "if page_ok s a
    then a \<notin> set xs \<longrightarrow> (\<exists>s'. kfree a s = Inr s' \<and> kmem_inv s' (a # xs)
      \<and> (\<forall>x. 4 \<le> unat (x - a) \<longrightarrow> mem s' x = (if unat (x - a) < 4096 then 0 else mem s x)))
    else kfree a s = Inl (Panic ''kfree'')"
proof (cases "page_ok s a")
  case True
  then have "kfree a s = Inr (s\<lparr>mem := store32 (memset a 0 0x1000 (mem s)) a (coremap s), coremap := a\<rparr>)"
    using assms by (intro kfree_eq) (simp_all add: kmem_inv_def)
  moreover have "store32 (memset a 0 0x1000 (mem s)) a (coremap s) x = (if unat (x - a) < 4096 then 0 else mem s x)"
    if "4 \<le> unat (x - a)" for x
    using that by (simp add: store32_outside memset_eq word_less_nat_alt)
  ultimately show ?thesis using True kmem_inv_kfree [OF assms True] by simp
next
  case False
  then show ?thesis by (simp add: kfree_bad_address)
qed

theorem kfree_pushes_witness:
  "\<exists>s'. kfree 0x202000 ex_two = Inr s' \<and> kmem_inv s' [0x202000, 0x201000, 0x200000]"
proof -
  have "page_ok ex_two 0x202000"
    by (simp add: page_ok_def pgal_def ex_two_def ex_boot_def)
  then show ?thesis using kfree_pushes [OF ex_two_inv, of "0x202000"] by auto
qed

text \<open>
  A double free is not detected. Freeing the page at the head of the list again makes its link
  point to itself, and from then on every allocation returns that one page.
\<close>

theorem kfree_twice:
  assumes "kmem_inv s (a # xs)"
  shows "\<exists>s'. kfree a s = Inr s' \<and> kalloc s' = Inr (a, s')"
proof -
  have a: "page_ok s a" "coremap s = a" "a \<noteq> 0" using kmem_inv_kalloc [OF assms] by simp_all
  have c: "cli_ok s" using assms by (simp add: kmem_inv_def)
  let ?t = "s\<lparr>mem := store32 (memset a 0 0x1000 (mem s)) a a, coremap := a\<rparr>"
  have "kfree a s = Inr ?t" using kfree_eq [OF c a(1)] a(2) by simp
  moreover have "cli_ok ?t" using c by (simp add: cli_ok_def)
  then have "kalloc ?t = Inr (a, ?t)" using a(3) by (simp add: kalloc_eq)
  ultimately show ?thesis by blast
qed

theorem kfree_twice_witness:
  "\<exists>s'. kfree 0x201000 ex_two = Inr s' \<and> kalloc s' = Inr (0x201000, s')"
  using kfree_twice [OF ex_two_inv] .

text \<open>
  Pages taken from the allocator and given back in the opposite order leave it with the same
  free list, whatever their number.
\<close>

theorem alloc_free_restores:
  assumes "kmem_inv s xs" and "n \<le> length xs"
  shows "\<exists>s' s''. alloc_n kalloc n s = Inr (take n xs, s')
    \<and> free_all kfree (rev (take n xs)) s' = Inr s'' \<and> kmem_inv s'' xs"
  using assms by (rule kpages.alloc_free_roundtrip)


theorem alloc_free_restores_witness:
  "\<exists>s' s''. alloc_n kalloc 2 ex_two = Inr ([0x201000, 0x200000], s')
    \<and> free_all kfree [0x200000, 0x201000] s' = Inr s'' \<and> kmem_inv s'' [0x201000, 0x200000]"
  using alloc_free_restores [OF ex_two_inv, of 2] by (simp add: numeral_2_eq_2)

end
