(* ===== verification/Mix_Vm.thy ===== *)
theory Mix_Vm
  imports Mix_Kalloc
begin

text \<open>
  The page tables of \<^verbatim>\<open>kernel/mm/vm.c\<close>: walking and filling a page directory, building the kernel
  part of an address space, growing, shrinking, copying and freeing its user part. Page directories
  and page tables are words of the modelled memory, found through the same pointers as in the code.
\<close>

section \<open>State\<close>

record kmap =
  kstart :: u32
  kend :: u32
  kflags :: u32

text \<open>
  \<open>kmaps\<close> is the static table \<^verbatim>\<open>kmap[3]\<close>; \<open>cr3\<close> is the register \<^verbatim>\<open>scr3\<close> loads.
\<close>

record vm = kmem +
  kmaps :: "kmap list"
  cr3 :: u32

section \<open>Walking a page directory\<close>

text \<open>\<^verbatim>\<open>&pgdir[PDX(va)]\<close> and \<^verbatim>\<open>&pte[PTX(va)]\<close>.\<close>

definition pde_ptr :: "u32 \<Rightarrow> u32 \<Rightarrow> u32" where
  "pde_ptr pgdir va = pgdir + 4 * PDX va"

definition pte_slot :: "u32 \<Rightarrow> u32 \<Rightarrow> u32" where
  "pte_slot pt va = pt + 4 * PTX va"

definition walkpgdir :: "u32 \<Rightarrow> u32 \<Rightarrow> bool \<Rightarrow> 'a vm_scheme \<Rightarrow> (u32 \<times> 'a vm_scheme) res" where
  "walkpgdir pgdir va isalloc s =
     (if pgdir = 0 then Inl (Panic ''walkpgdir'')
      else
        (let pde = pde_ptr pgdir va in
         if load32 (mem s) pde AND PTE_P \<noteq> 0 then
           Inr (pte_slot (PTE_ADDR (load32 (mem s) pde)) va, s)
         else if \<not> isalloc then Inr (0, s)
         else bnd (kalloc s) (\<lambda>(pte, s).
           if pte = 0 then Inr (0, s)
           else
             (let s = s\<lparr>mem := memset pte 0 PAGESIZE (mem s)\<rparr>;
                  s = s\<lparr>mem := store32 (mem s) pde (pte OR PTE_P OR PTE_W OR PTE_U)\<rparr>
              in Inr (pte_slot pte va, s)))))"

text \<open>
  The loop of \<^verbatim>\<open>mappages\<close> stops after the page \<open>lst\<close>, or panics on a page that is mapped already;
  the bound is one more than the number of pages there are, so a loop that would go round the
  address space has met one of its own mappings by then.
\<close>

fun mappages_loop ::
  "nat \<Rightarrow> u32 \<Rightarrow> u32 \<Rightarrow> u32 \<Rightarrow> u32 \<Rightarrow> u32 \<Rightarrow> 'a vm_scheme \<Rightarrow> (int \<times> 'a vm_scheme) res" where
  "mappages_loop 0 pgdir a lst pa flags s = Inl (Fault ''mappages: does not return'')"
| "mappages_loop (Suc n) pgdir a lst pa flags s =
     (if a \<le> lst then
        bnd (walkpgdir pgdir a True s) (\<lambda>(pte, s).
          if pte = 0 then Inr (- 1, s)
          else if load32 (mem s) pte AND PTE_P \<noteq> 0 then Inl (Panic ''mappages'')
          else mappages_loop n pgdir (a + PAGESIZE) lst (pa + PAGESIZE) flags
                 (s\<lparr>mem := store32 (mem s) pte (pa OR flags OR PTE_P)\<rparr>))
      else Inr (0, s))"

definition n_pages :: nat where
  "n_pages = 2 ^ 20"

definition mappages ::
  "u32 \<Rightarrow> u32 \<Rightarrow> u32 \<Rightarrow> u32 \<Rightarrow> u32 \<Rightarrow> 'a vm_scheme \<Rightarrow> (int \<times> 'a vm_scheme) res" where
  "mappages pgdir va sz pa flags s =
     (if pgdir = 0 then Inl (Panic ''mappages'')
      else mappages_loop (Suc n_pages) pgdir (PGROUNDDOWN va) (PGROUNDDOWN (va + sz - 1)) pa flags s)"

section \<open>Shrinking and freeing\<close>

text \<open>A missing page table is skipped to the end of its directory entry.\<close>

fun deallocuvm_loop :: "nat \<Rightarrow> u32 \<Rightarrow> u32 \<Rightarrow> u32 \<Rightarrow> 'a vm_scheme \<Rightarrow> 'a vm_scheme res" where
  "deallocuvm_loop 0 pgdir va old s = Inl (Fault ''deallocuvm: does not return'')"
| "deallocuvm_loop (Suc n) pgdir va old s =
     (if va < old then
        bnd (walkpgdir pgdir va False s) (\<lambda>(pte, s).
          if pte = 0 then
            deallocuvm_loop n pgdir (PGADDR (PDX va + 1) 0 0 - PAGESIZE + PAGESIZE) old s
          else if load32 (mem s) pte AND PTE_P \<noteq> 0 then
            (let pa = PTE_ADDR (load32 (mem s) pte) in
             if pa = 0 then Inl (Panic ''deallocuvm'')
             else bnd (kfree pa s) (\<lambda>s.
               deallocuvm_loop n pgdir (va + PAGESIZE) old (s\<lparr>mem := store32 (mem s) pte 0\<rparr>)))
          else deallocuvm_loop n pgdir (va + PAGESIZE) old s)
      else Inr s)"

definition deallocuvm :: "u32 \<Rightarrow> u32 \<Rightarrow> u32 \<Rightarrow> 'a vm_scheme \<Rightarrow> (u32 \<times> 'a vm_scheme) res" where
  "deallocuvm pgdir old new s =
     (if new \<ge> old then Inr (old, s)
      else bnd (deallocuvm_loop (Suc n_pages) pgdir (PGROUNDUP new) old s) (\<lambda>s. Inr (new, s)))"

text \<open>\<^verbatim>\<open>for (int i = 256; i < NPDENT; i++)\<close> of \<^verbatim>\<open>freevm\<close>, over the indexes left.\<close>

fun freevm_loop :: "u32 \<Rightarrow> nat list \<Rightarrow> 'a vm_scheme \<Rightarrow> 'a vm_scheme res" where
  "freevm_loop pgdir [] s = Inr s"
| "freevm_loop pgdir (i # is) s =
     (let pde = load32 (mem s) (pgdir + 4 * of_nat i) in
      bnd (if pde AND PTE_P \<noteq> 0 then kfree (PTE_ADDR pde) s else Inr s) (freevm_loop pgdir is))"

definition NPDENT :: nat where [simp]: "NPDENT = 1024"

definition freevm :: "u32 \<Rightarrow> 'a vm_scheme \<Rightarrow> 'a vm_scheme res" where
  "freevm pgdir s =
     (if pgdir = 0 then Inl (Panic ''freevm: no pgdir'')
      else bnd (deallocuvm pgdir USEREND KERNEND s) (\<lambda>(_, s).
        bnd (freevm_loop pgdir [256..<NPDENT] s) (\<lambda>s.
        kfree pgdir s)))"

section \<open>The kernel part\<close>

definition kmapinit :: "nat \<Rightarrow> u32 \<Rightarrow> u32 \<Rightarrow> u32 \<Rightarrow> 'a vm_scheme \<Rightarrow> 'a vm_scheme" where
  "kmapinit i start fin flags s =
     s\<lparr>kmaps := (kmaps s)[i := \<lparr>kstart = start, kend = fin, kflags = flags\<rparr>]\<rparr>"

definition kvminit :: "'a vm_scheme \<Rightarrow> 'a vm_scheme" where
  "kvminit s =
     (let s = kmapinit 0 0 EXTMEM PTE_W s;
          s = kmapinit 1 EXTMEM (rodata_end s) 0 s
      in kmapinit 2 (rodata_end s) MEMSIZE PTE_W s)"

fun setupkvm_loop :: "u32 \<Rightarrow> kmap list \<Rightarrow> 'a vm_scheme \<Rightarrow> (u32 \<times> 'a vm_scheme) res" where
  "setupkvm_loop pgdir [] s = Inr (pgdir, s)"
| "setupkvm_loop pgdir (k # ks) s =
     bnd (mappages pgdir (kstart k) (kend k - kstart k) (kstart k) (kflags k) s) (\<lambda>(r, s).
       if r < 0 then bnd (freevm pgdir s) (\<lambda>s. Inr (0, s))
       else setupkvm_loop pgdir ks s)"

definition setupkvm :: "'a vm_scheme \<Rightarrow> (u32 \<times> 'a vm_scheme) res" where
  "setupkvm s =
     bnd (kalloc s) (\<lambda>(pgdir, s).
       if pgdir = 0 then Inr (0, s)
       else setupkvm_loop pgdir (kmaps s) (s\<lparr>mem := memset pgdir 0 PAGESIZE (mem s)\<rparr>))"

section \<open>Growing and copying\<close>

text \<open>
  \<^verbatim>\<open>inituvm\<close> does not test the result of \<^verbatim>\<open>kalloc\<close>: with no page left it clears and maps page 0.
  The source of its copy is kernel data, which the caller passes as bytes.
\<close>

fun store_bytes :: "u32 \<Rightarrow> u8 list \<Rightarrow> memory \<Rightarrow> memory" where
  "store_bytes a [] m = m"
| "store_bytes a (b # bs) m = store_bytes (a + 1) bs (m(a := b))"

definition inituvm :: "u32 \<Rightarrow> u8 list \<Rightarrow> 'a vm_scheme \<Rightarrow> 'a vm_scheme res" where
  "inituvm pgdir start s =
     bnd (kalloc s) (\<lambda>(pa, s).
     bnd (mappages pgdir KERNEND PAGESIZE pa (PTE_W OR PTE_U)
            (s\<lparr>mem := memset pa 0 PAGESIZE (mem s)\<rparr>)) (\<lambda>(_, s).
     Inr (s\<lparr>mem := store_bytes pa start (mem s)\<rparr>)))"

fun allocuvm_loop :: "nat \<Rightarrow> u32 \<Rightarrow> u32 \<Rightarrow> u32 \<Rightarrow> u32 \<Rightarrow> 'a vm_scheme \<Rightarrow> (u32 \<times> 'a vm_scheme) res" where
  "allocuvm_loop 0 pgdir va old new s = Inl (Fault ''allocuvm: does not return'')"
| "allocuvm_loop (Suc n) pgdir va old new s =
     (if va < new then
        bnd (kalloc s) (\<lambda>(pa, s).
          if pa = 0 then
            bnd (printf (lit ''allocuvm out of memory'' @ [10]) [] s) (\<lambda>s.
            bnd (deallocuvm pgdir new old s) (\<lambda>(_, s).
            Inr (0, s)))
          else
            bnd (mappages pgdir va PAGESIZE pa (PTE_W OR PTE_U)
                   (s\<lparr>mem := memset pa 0 PAGESIZE (mem s)\<rparr>)) (\<lambda>(r, s).
              if r < 0 then
                bnd (printf (lit ''allocuvm out of memory (2)'' @ [10]) [] s) (\<lambda>s.
                bnd (deallocuvm pgdir new old s) (\<lambda>(_, s).
                bnd (kfree pa s) (\<lambda>s.
                Inr (0, s))))
              else allocuvm_loop n pgdir (va + PAGESIZE) old new s))
      else Inr (new, s))"

definition allocuvm :: "u32 \<Rightarrow> u32 \<Rightarrow> u32 \<Rightarrow> 'a vm_scheme \<Rightarrow> (u32 \<times> 'a vm_scheme) res" where
  "allocuvm pgdir old new s =
     (if new \<ge> USEREND then Inr (0, s)
      else if new < old then Inr (old, s)
      else allocuvm_loop (Suc n_pages) pgdir (PGROUNDUP old) old new s)"

definition ustack :: "u32 \<Rightarrow> u32 \<Rightarrow> 'a vm_scheme \<Rightarrow> (u32 \<times> 'a vm_scheme) res" where
  "ustack pgdir start s =
     (let va = PGROUNDUP start in
      bnd (allocuvm pgdir va (va + 2 * PAGESIZE) s) (\<lambda>(r, s).
        if r = 0 then Inr (0, s)
        else bnd (walkpgdir pgdir va False s) (\<lambda>(pte, s).
          Inr (va + 2 * PAGESIZE,
               s\<lparr>mem := store32 (mem s) pte (load32 (mem s) pte AND NOT PTE_U)\<rparr>))))"

text \<open>The exit \<^verbatim>\<open>bad:\<close> of \<^verbatim>\<open>copyuvm\<close>.\<close>

definition copyuvm_bad :: "u32 \<Rightarrow> u32 \<Rightarrow> 'a vm_scheme \<Rightarrow> (u32 \<times> 'a vm_scheme) res" where
  "copyuvm_bad pa new s =
     bnd (if pa \<noteq> 0 then kfree pa s else Inr s) (\<lambda>s.
     bnd (if new \<noteq> 0 then freevm new s else Inr s) (\<lambda>s.
     Inr (0, s)))"

fun copyuvm_loop :: "nat \<Rightarrow> u32 \<Rightarrow> u32 \<Rightarrow> u32 \<Rightarrow> u32 \<Rightarrow> 'a vm_scheme \<Rightarrow> (u32 \<times> 'a vm_scheme) res" where
  "copyuvm_loop 0 pgdir new va fin s = Inl (Fault ''copyuvm: does not return'')"
| "copyuvm_loop (Suc n) pgdir new va fin s =
     (if va < fin then
        bnd (walkpgdir pgdir va False s) (\<lambda>(pte, s).
          if pte = 0 then Inl (Panic ''copyuvm: pte should exist'')
          else if load32 (mem s) pte AND PTE_P = 0 then Inl (Panic ''page not present'')
          else
            (let pa = PTE_ADDR (load32 (mem s) pte);
                 flags = PTE_FLAGS (load32 (mem s) pte)
             in bnd (kalloc s) (\<lambda>(pg, s).
               if pg = 0 then copyuvm_bad pg new s
               else bnd (mappages new va PAGESIZE pg flags
                           (s\<lparr>mem := memmove pa pg PAGESIZE (mem s)\<rparr>)) (\<lambda>(r, s).
                 if r < 0 then copyuvm_bad pg new s
                 else copyuvm_loop n pgdir new (va + PAGESIZE) fin s))))
      else Inr (new, s))"

definition copyuvm :: "u32 \<Rightarrow> u32 \<Rightarrow> 'a vm_scheme \<Rightarrow> (u32 \<times> 'a vm_scheme) res" where
  "copyuvm pgdir sz s =
     bnd (setupkvm s) (\<lambda>(new, s).
       if new = 0 then Inr (0, s)
       else copyuvm_loop (Suc n_pages) pgdir new KERNEND (KERNEND + sz) s)"

section \<open>Virtual addresses\<close>

text \<open>
  What the memory management unit does with a directory: the entry of a virtual address (0 where
  there is no page table), and the physical address, if the page is present. The kernel runs with
  \<^verbatim>\<open>CR0.WP\<close> clear, so its own accesses need the present bit only.
\<close>

definition pte_at :: "memory \<Rightarrow> u32 \<Rightarrow> u32 \<Rightarrow> u32" where
  "pte_at m pgdir va =
     (let pde = load32 m (pde_ptr pgdir va) in
      if pde AND PTE_P \<noteq> 0 then load32 m (pte_slot (PTE_ADDR pde) va) else 0)"

definition translate :: "memory \<Rightarrow> u32 \<Rightarrow> u32 \<Rightarrow> u32 option" where
  "translate m pgdir va =
     (let pte = pte_at m pgdir va in
      if pte AND PTE_P \<noteq> 0 then Some (PTE_ADDR pte OR (va AND 0xFFF)) else None)"

end
