(* ===== verification/Mix_VmView.thy ===== *)
theory Mix_VmView
  imports Mix_Vm
begin

text \<open>
  The view of memory the page-table proofs work in: a page is 1024 entries, and every operation of
  \<open>Mix_Vm\<close> is a few entry updates. Facts that relate the word-level code to that view are in the
  collection \<open>ent_simps\<close>.
\<close>

named_theorems ent_simps \<open>entries of pages after the writes of the code\<close>

section \<open>Indexes and slots\<close>

definition dx :: "u32 \<Rightarrow> nat" where "dx va = unat va div 4194304"
definition tx :: "u32 \<Rightarrow> nat" where "tx va = unat va div 4096 mod 1024"

lemma dx_less [simp]: "dx va < 1024"
  using unat32_lt [of va] by (simp add: dx_def)

lemma tx_less [simp]: "tx va < 1024"
  by (simp add: tx_def)

definition slot :: "u32 \<Rightarrow> nat \<Rightarrow> u32" where
  "slot p k = p + of_nat (4 * k)"

definition ent :: "memory \<Rightarrow> u32 \<Rightarrow> nat \<Rightarrow> u32" where
  "ent m p k = load32 m (slot p k)"

definition present :: "u32 \<Rightarrow> bool" where
  "present e \<longleftrightarrow> e AND PTE_P \<noteq> 0"

lemma pde_ptr_slot: "pde_ptr pgdir va = slot pgdir (dx va)"
proof -
  have "PDX va = of_nat (dx va)" by (simp add: dx_def flip: unat_PDX)
  then show ?thesis by (simp add: pde_ptr_def slot_def)
qed

lemma pte_slot_slot: "pte_slot pt va = slot pt (tx va)"
proof -
  have "PTX va = of_nat (tx va)" by (simp add: tx_def flip: unat_PTX)
  then show ?thesis by (simp add: pte_slot_def slot_def)
qed

lemma unat_slot: "pgal p \<Longrightarrow> k < 1024 \<Longrightarrow> unat (slot p k) = unat p + 4 * k"
  unfolding slot_def by (rule pgal_unat_add) simp_all

lemma slot_inj:
  assumes "pgal p" "pgal q" "k < 1024" "j < 1024"
  shows "slot p k = slot q j \<longleftrightarrow> p = q \<and> k = j"
proof
  assume "slot p k = slot q j"
  then have e: "unat p + 4 * k = unat q + 4 * j" using assms by (metis unat_slot)
  obtain a b where ab: "unat p = 4096 * a" "unat q = 4096 * b"
    using assms(1,2) unfolding pgal_def by (blast elim: dvdE)
  have "a = (4096 * a + 4 * k) div 4096" using assms(3) by simp
  also have "\<dots> = (4096 * b + 4 * j) div 4096" using e ab by simp
  also have "\<dots> = b" using assms(4) by simp
  finally have "unat p = unat q" "k = j" using e ab by simp_all
  then show "p = q \<and> k = j" by (simp add: word_unat_eq_iff)
qed simp

lemma al4_slot: "pgal p \<Longrightarrow> k < 1024 \<Longrightarrow> al4 (slot p k)"
  using unat_slot [of p k] by (auto simp: al4_def pgal_def)

lemma slot_not_0: "pgal p \<Longrightarrow> p \<noteq> 0 \<Longrightarrow> k < 1024 \<Longrightarrow> slot p k \<noteq> 0"
  using unat_slot [of p k] by (metis add_is_0 unat_0 unat_eq_0)

lemma ent_store32 [ent_simps]:
  assumes "pgal p" "pgal q" "k < 1024" "j < 1024"
  shows "ent (store32 m (slot p k) v) q j = (if q = p \<and> j = k then v else ent m q j)"
  using slot_inj [OF assms(2,1,4,3)] al4_slot assms by (auto simp: ent_def)

text \<open>The page an address lies in.\<close>

definition pg_of :: "u32 \<Rightarrow> u32" where
  "pg_of a = PTE_ADDR a"

lemma pgal_pg_of [simp]: "pgal (pg_of a)"
  by (simp add: pg_of_def)

lemma unat_pg_of: "unat (pg_of a) = unat a div 4096 * 4096"
  by (simp add: pg_of_def unat_PTE_ADDR)

lemma pg_of_iff: "pgal p \<Longrightarrow> a - p < 0x1000 \<longleftrightarrow> pg_of a = p"
proof
  assume p: "pgal p" and "a - p < 0x1000"
  define j where "j = unat (a - p)"
  have j: "j < 4096" "a = p + of_nat j"
    using \<open>a - p < 0x1000\<close> by (simp_all add: j_def word_less_nat_alt)
  then have "unat a = unat p + j" using pgal_unat_add [OF p] by simp
  then have "unat (pg_of a) = unat p" using p j(1) by (auto simp: unat_pg_of pgal_def)
  then show "pg_of a = p" by (simp add: word_unat_eq_iff)
next
  assume "pgal p" "pg_of a = p"
  then have "unat p = unat a div 4096 * 4096" using unat_pg_of [of a] by simp
  then have "unat (a - p) = unat a mod 4096"
    by (metis add_diff_cancel_left' div_mod_decomp div_times_less_eq_dividend unat_sub word_le_nat_alt)
  then show "a - p < 0x1000" by (simp add: word_less_nat_alt)
qed

lemma pg_of_slot: "pgal p \<Longrightarrow> k < 1024 \<Longrightarrow> i < 4 \<Longrightarrow> pg_of (slot p k + of_nat i) = p"
proof -
  assume h: "pgal p" "k < 1024" "i < 4"
  have "slot p k + of_nat i = p + of_nat (4 * k + i)" by (simp add: slot_def)
  then have "unat (slot p k + of_nat i) = unat p + (4 * k + i)"
    using pgal_unat_add [OF h(1), of "4 * k + i"] h by (simp only:)
  then have "unat (pg_of (slot p k + of_nat i)) = unat p" using h by (auto simp: unat_pg_of pgal_def)
  then show ?thesis by (simp add: word_unat_eq_iff)
qed

section \<open>Memory changes only in some pages\<close>

definition mem_frame :: "u32 set \<Rightarrow> memory \<Rightarrow> memory \<Rightarrow> bool" where
  "mem_frame P m m' \<longleftrightarrow> (\<forall>a. pg_of a \<notin> P \<longrightarrow> m' a = m a)"

lemma mem_frameD: "mem_frame P m m' \<Longrightarrow> pg_of a \<notin> P \<Longrightarrow> m' a = m a"
  by (simp add: mem_frame_def)

lemma mem_frame_refl [simp]: "mem_frame P m m"
  by (simp add: mem_frame_def)

lemma mem_frame_trans: "mem_frame P m m' \<Longrightarrow> mem_frame P m' m'' \<Longrightarrow> mem_frame P m m''"
  by (simp add: mem_frame_def)

lemma mem_frame_mono: "mem_frame P m m' \<Longrightarrow> P \<subseteq> Q \<Longrightarrow> mem_frame Q m m'"
  by (auto simp: mem_frame_def)

lemma mem_frame_ent: "mem_frame P m m' \<Longrightarrow> pgal p \<Longrightarrow> p \<notin> P \<Longrightarrow> k < 1024 \<Longrightarrow> ent m' p k = ent m p k"
  unfolding ent_def by (rule load32_cong) (auto simp: mem_frame_def pg_of_slot)

lemma mem_frame_store32: "pgal p \<Longrightarrow> k < 1024 \<Longrightarrow> mem_frame {p} m (store32 m (slot p k) v)"
  unfolding mem_frame_def
proof (intro allI impI)
  fix a
  assume h: "pgal p" "k < 1024" "pg_of a \<notin> {p}"
  have "4 \<le> unat (a - slot p k)"
  proof (rule ccontr)
    assume "\<not> 4 \<le> unat (a - slot p k)"
    moreover have "a = slot p k + of_nat (unat (a - slot p k))" by simp
    ultimately have "pg_of a = p" using pg_of_slot [OF h(1,2), of "unat (a - slot p k)"] by simp
    with h(3) show False by simp
  qed
  then show "store32 m (slot p k) v a = m a" by (rule store32_outside)
qed

lemma mem_frame_memset: "pgal p \<Longrightarrow> mem_frame {p} m (memset p d 0x1000 m)"
  by (simp add: mem_frame_def memset_eq pg_of_iff)

lemma ent_memset [ent_simps]:
  assumes "pgal p" "pgal q" "j < 1024"
  shows "ent (memset p 0 0x1000 m) q j = (if q = p then 0 else ent m q j)"
proof (cases "q = p")
  case False
  with assms show ?thesis using mem_frame_ent [OF mem_frame_memset, of p q j] by simp
next
  case True
  have z: "memset p 0 0x1000 m (slot p j + of_nat i) = 0" if "i < 4" for i
    using pg_of_slot [OF assms(1,3) that] assms(1) by (simp add: memset_eq pg_of_iff)
  have "load32 (memset p 0 0x1000 m) (slot p j) = load32 (\<lambda>_. 0) (slot p j)"
    by (rule load32_cong) (simp add: z)
  with True show ?thesis by (simp add: ent_def load32_def le32_def)
qed

text \<open>The copy of one page onto another one.\<close>

lemma memmove_page:
  assumes "pgal p" "pgal q" "p \<noteq> q"
  shows "memmove p q 0x1000 m a = (if pg_of a = q then m (p + (a - q)) else m a)"
proof -
  have "0x1000 \<le> q - p"
  proof (rule ccontr)
    assume "\<not> 0x1000 \<le> q - p"
    then have "pg_of q = p" using assms(1) by (simp add: pg_of_iff not_le)
    moreover have "pg_of q = q" using assms(2) by (simp add: pg_of_def PTE_ADDR_pgal)
    ultimately show False using assms(3) by simp
  qed
  then show ?thesis using assms(2) by (simp add: memmove_eq pg_of_iff)
qed

section \<open>The operations in terms of entries\<close>

lemma pte_at_ent:
  "pte_at m pgdir va =
    (if present (ent m pgdir (dx va)) then ent m (PTE_ADDR (ent m pgdir (dx va))) (tx va) else 0)"
  by (simp add: pte_at_def pde_ptr_slot pte_slot_slot ent_def present_def)

lemma walkpgdir_ent:
  "walkpgdir pgdir va isalloc s =
     (if pgdir = 0 then Inl (Panic ''walkpgdir'')
      else if present (ent (mem s) pgdir (dx va)) then
        Inr (slot (PTE_ADDR (ent (mem s) pgdir (dx va))) (tx va), s)
      else if \<not> isalloc then Inr (0, s)
      else bnd (kalloc s) (\<lambda>(pte, s).
        if pte = 0 then Inr (0, s)
        else Inr (slot pte (tx va),
          s\<lparr>mem := store32 (memset pte 0 0x1000 (mem s)) (slot pgdir (dx va)) (pte OR 7)\<rparr>)))"
  by (auto simp: walkpgdir_def pde_ptr_slot pte_slot_slot ent_def present_def or.assoc intro!: bnd_cong)

end
