(* ===== verification/Mix_VmMap.thy ===== *)
theory Mix_VmMap
  imports Mix_VmView
begin

text \<open>
  The invariant of an address space, and what \<^verbatim>\<open>walkpgdir\<close>, \<^verbatim>\<open>mappages\<close> and \<^verbatim>\<open>setupkvm\<close> do to the
  map from virtual addresses to page table entries (\<open>pte_at\<close>), to the page tables and to the free
  list.
\<close>

section \<open>The invariant\<close>

definition tbl :: "memory \<Rightarrow> u32 \<Rightarrow> nat \<Rightarrow> u32" where
  "tbl m pg d = PTE_ADDR (ent m pg d)"

definition pres :: "memory \<Rightarrow> u32 \<Rightarrow> nat set" where
  "pres m pg = {d. d < 1024 \<and> present (ent m pg d)}"

definition tables :: "memory \<Rightarrow> u32 \<Rightarrow> u32 set" where
  "tables m pg = tbl m pg ` pres m pg"

definition vm_pages :: "memory \<Rightarrow> u32 \<Rightarrow> u32 set" where
  "vm_pages m pg = insert pg (tables m pg)"

text \<open>
  The directory \<open>pg\<close> and its tables are pages of free memory, all different, and none of them is on
  the free list \<open>xs\<close>.
\<close>

definition vm_inv :: "'a vm_scheme \<Rightarrow> u32 \<Rightarrow> u32 list \<Rightarrow> bool" where
  "vm_inv s pg xs \<longleftrightarrow> kmem_inv s xs \<and> page_ok s pg \<and> pg \<notin> set xs \<and> pg \<notin> tables (mem s) pg
     \<and> (\<forall>t \<in> tables (mem s) pg. page_ok s t \<and> t \<notin> set xs)
     \<and> inj_on (tbl (mem s) pg) (pres (mem s) pg)"

text \<open>Nothing but memory and the head of the free list changes.\<close>

definition mem_only :: "'a vm_scheme \<Rightarrow> 'a vm_scheme \<Rightarrow> bool" where
  "mem_only s s' \<longleftrightarrow> (\<exists>m c. s' = s\<lparr>mem := m, coremap := c\<rparr>)"

lemma mem_onlyI: "s' = s\<lparr>mem := m, coremap := c\<rparr> \<Longrightarrow> mem_only s s'"
  unfolding mem_only_def by blast

lemma mem_only_refl [simp]: "mem_only s s"
  by (rule mem_onlyI [where m = "mem s" and c = "coremap s"]) simp

lemma mem_only_mem [simp]: "mem_only s (s\<lparr>mem := m\<rparr>)"
  by (rule mem_onlyI [where m = m and c = "coremap s"]) simp

lemma mem_only_trans: "mem_only s t \<Longrightarrow> mem_only t u \<Longrightarrow> mem_only s u"
  unfolding mem_only_def by fastforce

lemma mem_only_sel:
  assumes "mem_only s s'"
  shows "kernel_end s' = kernel_end s" "rodata_end s' = rodata_end s" "kmaps s' = kmaps s"
    "cr3 s' = cr3 s" "cli_ok s' = cli_ok s" "kern_ok s' = kern_ok s" "page_ok s' = page_ok s"
    "cursor s' = cursor s" "con_ok s' = con_ok s"
  using assms unfolding mem_only_def
  by (auto simp: cli_ok_def kern_ok_def page_ok_def con_ok_def fun_eq_iff)

lemma page_ok_pgal: "page_ok s p \<Longrightarrow> pgal p"
  by (simp add: page_ok_def)

lemma pgal_tbl [simp]: "pgal (tbl m pg d)"
  by (simp add: tbl_def)

lemma finite_pres [simp]: "finite (pres m pg)"
  by (rule finite_subset [of _ "{..<1024}"]) (auto simp: pres_def)

lemma tbl_in_tables: "d \<in> pres m pg \<Longrightarrow> tbl m pg d \<in> tables m pg"
  by (simp add: tables_def)

lemma tables_presentI:
  "present (ent m pg (dx v)) \<Longrightarrow> PTE_ADDR (ent m pg (dx v)) \<in> tables m pg"
  by (auto simp: tables_def pres_def tbl_def)

lemma vm_invD:
  assumes "vm_inv s pg xs"
  shows "kmem_inv s xs" "page_ok s pg" "pg \<notin> set xs" "pg \<notin> tables (mem s) pg" "pgal pg" "pg \<noteq> 0"
    "cli_ok s" "kern_ok s" "distinct xs" "0 \<notin> set xs"
    "t \<in> tables (mem s) pg \<Longrightarrow> page_ok s t" "t \<in> tables (mem s) pg \<Longrightarrow> t \<notin> set xs"
    "inj_on (tbl (mem s) pg) (pres (mem s) pg)"
proof -
  show k: "kmem_inv s xs" and g: "page_ok s pg"
    and "pg \<notin> set xs" "pg \<notin> tables (mem s) pg" "inj_on (tbl (mem s) pg) (pres (mem s) pg)"
    using assms by (simp_all add: vm_inv_def)
  show "t \<in> tables (mem s) pg \<Longrightarrow> page_ok s t" "t \<in> tables (mem s) pg \<Longrightarrow> t \<notin> set xs"
    using assms by (simp_all add: vm_inv_def)
  show "cli_ok s" and o: "kern_ok s" "distinct xs" using k by (simp_all add: kmem_inv_def)
  show "0 \<notin> set xs" using kpages.inv_pages [OF k] by simp
  show "pgal pg" using g by (rule page_ok_pgal)
  show "pg \<noteq> 0" using o(1) g by (rule page_ok_not_0)
qed

section \<open>Changes elsewhere\<close>

lemma vm_view_frame:
  assumes "mem_frame P m m'" and "P \<inter> vm_pages m pg = {}" and "pgal pg"
  shows "d < 1024 \<Longrightarrow> ent m' pg d = ent m pg d" and "pres m' pg = pres m pg"
    and "tables m' pg = tables m pg" and "pte_at m' pg v = pte_at m pg v"
proof -
  have e: "ent m' pg d = ent m pg d" if "d < 1024" for d
    using assms that by (intro mem_frame_ent) (auto simp: vm_pages_def)
  then show "d < 1024 \<Longrightarrow> ent m' pg d = ent m pg d" .
  show p: "pres m' pg = pres m pg" using e by (auto simp: pres_def)
  show "tables m' pg = tables m pg"
    unfolding tables_def p by (rule image_cong) (auto simp: tbl_def e pres_def)
  have "ent m' (tbl m pg (dx v)) (tx v) = ent m (tbl m pg (dx v)) (tx v)" if "present (ent m pg (dx v))"
  proof (rule mem_frame_ent [OF assms(1)])
    have "tbl m pg (dx v) \<in> tables m pg" using that by (intro tbl_in_tables) (simp add: pres_def)
    then show "tbl m pg (dx v) \<notin> P" using assms(2) by (auto simp: vm_pages_def)
  qed simp_all
  then show "pte_at m' pg v = pte_at m pg v" by (auto simp: pte_at_ent e tbl_def)
qed

lemma load32_ent: "load32 m x = ent m x 0"
  by (simp add: ent_def slot_def)

lemma kmem_inv_mem:
  assumes "kmem_inv s xs" and "mem_frame P (mem s) m'" and "P \<inter> set xs = {}"
  shows "kmem_inv (s\<lparr>mem := m'\<rparr>) xs"
proof -
  have "flist m' (coremap s) xs = flist (mem s) (coremap s) xs"
  proof (rule flist_cong)
    fix x
    assume "x \<in> set xs"
    then have "pgal x" "x \<notin> P" using assms by (auto simp: kmem_inv_def page_ok_def)
    then show "load32 m' x = load32 (mem s) x"
      unfolding load32_ent by (intro mem_frame_ent [OF assms(2)]) simp_all
  qed
  with assms(1) show ?thesis by (simp add: kmem_inv_def page_ok_def kern_ok_def cli_ok_def)
qed

lemma vm_inv_frame:
  assumes "vm_inv s pg xs" and "mem_frame P (mem s) m'" and "P \<inter> vm_pages (mem s) pg = {}"
    and "P \<inter> set xs = {}"
  shows "vm_inv (s\<lparr>mem := m'\<rparr>) pg xs"
proof -
  note v = vm_view_frame [OF assms(2,3) vm_invD(5) [OF assms(1)]]
  have "inj_on (tbl m' pg) (pres (mem s) pg) = inj_on (tbl (mem s) pg) (pres (mem s) pg)"
    by (rule inj_on_cong) (auto simp: tbl_def v(1) pres_def)
  with assms(1) kmem_inv_mem [OF vm_invD(1) [OF assms(1)] assms(2,4)] show ?thesis
    by (simp add: vm_inv_def v page_ok_def)
qed

section \<open>Growing an address space\<close>

text \<open>
  \<open>vm_grow pg s xs s' xs'\<close>: the directory \<open>pg\<close> kept its tables and got one more for every page
  that left the free list; only pages of the address space and free pages were written.
\<close>

definition vm_grow :: "u32 \<Rightarrow> 'a vm_scheme \<Rightarrow> u32 list \<Rightarrow> 'a vm_scheme \<Rightarrow> u32 list \<Rightarrow> bool" where
  "vm_grow pg s xs s' xs' \<longleftrightarrow> mem_only s s' \<and> vm_inv s' pg xs'
     \<and> (\<exists>ys. xs = ys @ xs' \<and> tables (mem s') pg = tables (mem s) pg \<union> set ys
          \<and> card (pres (mem s') pg - pres (mem s) pg) = length ys)
     \<and> pres (mem s) pg \<subseteq> pres (mem s') pg
     \<and> mem_frame (vm_pages (mem s) pg \<union> set xs) (mem s) (mem s')"

lemma vm_grow_refl: "vm_inv s pg xs \<Longrightarrow> vm_grow pg s xs s xs"
  by (simp add: vm_grow_def)

lemma vm_grow_trans:
  assumes "vm_grow pg s xs t ys" and "vm_grow pg t ys u zs"
  shows "vm_grow pg s xs u zs"
proof -
  obtain as where as: "xs = as @ ys" "tables (mem t) pg = tables (mem s) pg \<union> set as"
      "card (pres (mem t) pg - pres (mem s) pg) = length as"
    using assms(1) by (auto simp: vm_grow_def)
  obtain bs where bs: "ys = bs @ zs" "tables (mem u) pg = tables (mem t) pg \<union> set bs"
      "card (pres (mem u) pg - pres (mem t) pg) = length bs"
    using assms(2) by (auto simp: vm_grow_def)
  have sub: "pres (mem s) pg \<subseteq> pres (mem t) pg" "pres (mem t) pg \<subseteq> pres (mem u) pg"
    using assms by (simp_all add: vm_grow_def)
  have "pres (mem u) pg - pres (mem s) pg
      = (pres (mem u) pg - pres (mem t) pg) \<union> (pres (mem t) pg - pres (mem s) pg)"
    using sub by auto
  moreover have "(pres (mem u) pg - pres (mem t) pg) \<inter> (pres (mem t) pg - pres (mem s) pg) = {}"
    by blast
  ultimately have "card (pres (mem u) pg - pres (mem s) pg) = length (as @ bs)"
    using as(3) bs(3) by (simp add: card_Un_disjoint)
  moreover have "mem_frame (vm_pages (mem s) pg \<union> set xs) (mem t) (mem u)"
    using assms(2) as(1,2) by (auto simp: vm_grow_def vm_pages_def intro: mem_frame_mono)
  ultimately show ?thesis
    using assms as bs sub unfolding vm_grow_def
    by (auto intro: mem_only_trans mem_frame_trans intro!: exI [of _ "as @ bs"])
qed

lemma vm_growD:
  assumes "vm_grow pg s xs s' xs'"
  shows "mem_only s s'" "vm_inv s' pg xs'" "set xs' \<subseteq> set xs" "pres (mem s) pg \<subseteq> pres (mem s') pg"
    "mem_frame (vm_pages (mem s) pg \<union> set xs) (mem s) (mem s')"
    "length xs = length xs' + card (pres (mem s') pg - pres (mem s) pg)"
    "vm_pages (mem s') pg \<subseteq> vm_pages (mem s) pg \<union> set xs"
    "vm_pages (mem s') pg \<union> set xs' = vm_pages (mem s) pg \<union> set xs"
  using assms unfolding vm_grow_def by (auto simp: vm_pages_def)

text \<open>Walking to an entry: its table exists already, or is the next free page, cleared.\<close>

lemma walk_alloc:
  assumes inv: "vm_inv s pg xs"
  obtains (full) "walkpgdir pg va True s = Inr (0, s)" "xs = []" "dx va \<notin> pres (mem s) pg"
  | (found) s' xs' where "walkpgdir pg va True s = Inr (slot (tbl (mem s') pg (dx va)) (tx va), s')"
      "vm_grow pg s xs s' xs'" "pres (mem s') pg = insert (dx va) (pres (mem s) pg)"
      "\<And>v. pte_at (mem s') pg v = pte_at (mem s) pg v"
proof (cases "present (ent (mem s) pg (dx va))")
  case True
  then have "insert (dx va) (pres (mem s) pg) = pres (mem s) pg" by (auto simp: pres_def)
  with True show ?thesis
    by (intro found [of s xs]) (simp_all add: walkpgdir_ent vm_invD(6) [OF inv] tbl_def vm_grow_refl inv)
next
  case False
  note D = vm_invD [OF inv]
  show ?thesis
  proof (cases xs)
    case Nil
    with False D show ?thesis
      using kpages.alloc_empty [of s] by (intro full) (simp_all add: walkpgdir_ent pres_def)
  next
    case (Cons x ys)
    have k: "coremap s = x" "x \<noteq> 0" "page_ok s x" "x \<notin> set ys" "kmem_inv (s\<lparr>coremap := load32 (mem s) x\<rparr>) ys"
      using kmem_inv_kalloc [of s x ys] D(1) Cons by simp_all
    have px: "pgal x" using k(3) by (rule page_ok_pgal)
    have xpg: "x \<noteq> pg" and xt: "x \<notin> tables (mem s) pg" using D Cons by auto
    define m' where "m' = store32 (memset x 0 0x1000 (mem s)) (slot pg (dx va)) (x OR 7)"
    define s' where "s' = s\<lparr>coremap := load32 (mem s) x, mem := m'\<rparr>"
    have e: "ent m' q j = (if q = pg \<and> j = dx va then x OR 7 else if q = x then 0 else ent (mem s) q j)"
      if "pgal q" "j < 1024" for q j
      unfolding m'_def using that D(5) px xpg by (auto simp: ent_simps)
    have x7: "present (x OR 7)" "PTE_ADDR (x OR 7) = x"
      using PTE_ADDR_or [OF px, of 7] by (auto simp: present_def bit_eq_iff bit_simps intro!: exI [of _ 0])
    have pr: "pres m' pg = insert (dx va) (pres (mem s) pg)"
      using e [OF D(5)] x7(1) xpg by (auto simp: pres_def)
    have tb: "tbl m' pg d = (if d = dx va then x else tbl (mem s) pg d)" if "d < 1024" for d
      using e [OF D(5) that] x7(2) xpg by (simp add: tbl_def)
    have nd: "dx va \<notin> pres (mem s) pg" using False by (simp add: pres_def)
    have ta: "tables m' pg = insert x (tables (mem s) pg)"
      unfolding tables_def pr using nd by (auto simp: tb pres_def image_iff)
    have fr: "mem_frame {x, pg} (mem s) m'"
      unfolding m'_def using mem_frame_memset [OF px, where m = "mem s" and d = 0]
        mem_frame_store32 [OF D(5) dx_less [of va]] by (auto simp: mem_frame_def)
    have pte: "pte_at m' pg v = pte_at (mem s) pg v" for v
    proof (cases "dx v = dx va")
      case True
      then show ?thesis using False e [OF px tx_less, of v] x7 xpg e [OF D(5) dx_less, of v]
        by (simp add: pte_at_ent)
    next
      case neq: False
      have "PTE_ADDR (ent (mem s) pg (dx v)) \<noteq> x" if "present (ent (mem s) pg (dx v))"
        using xt tables_presentI [OF that] by auto
      moreover have "PTE_ADDR (ent (mem s) pg (dx v)) \<noteq> pg" if "present (ent (mem s) pg (dx v))"
        using D(4) tables_presentI [OF that] by auto
      ultimately show ?thesis
        using neq e [OF D(5) dx_less, of v] xpg e [OF pgal_PTE_ADDR tx_less, of "ent (mem s) pg (dx v)" v]
        by (auto simp: pte_at_ent)
    qed
    have "kmem_inv s' ys"
      using kmem_inv_mem [OF k(5), of "{x, pg}" m'] fr k(4) D(3) Cons by (simp add: s'_def)
    moreover have "inj_on (tbl m' pg) (pres m' pg)"
      using D(13) xt nd unfolding pr by (auto simp: inj_on_def tb tables_def pres_def)
    ultimately have "vm_inv s' pg ys"
      using D k(3,4) xpg Cons by (auto simp: vm_inv_def s'_def ta page_ok_def)
    moreover have "mem_only s s'"
      unfolding s'_def by (rule mem_onlyI [where m = m' and c = "load32 (mem s) x"]) simp
    moreover have "insert (dx va) (pres (mem s) pg) - pres (mem s) pg = {dx va}" using nd by auto
    ultimately have "vm_grow pg s xs s' ys"
      using fr by (auto simp: vm_grow_def s'_def ta pr Cons vm_pages_def intro!: exI [of _ "[x]"]
          intro: mem_frame_mono)
    moreover have "walkpgdir pg va True s = Inr (slot (tbl (mem s') pg (dx va)) (tx va), s')"
      using False D(6,7) k(1,2) by (simp add: walkpgdir_ent kalloc_eq s'_def m'_def [symmetric] tb)
    ultimately show ?thesis
      using pr pte by (intro found [of s' ys]) (simp_all add: s'_def)
  qed
qed

section \<open>Setting an entry\<close>

lemma pg_of_eq_iff: "pg_of v = pg_of w \<longleftrightarrow> dx v = dx w \<and> tx v = tx w"
proof -
  have "pg_of v = pg_of w \<longleftrightarrow> unat v div 4096 = unat w div 4096"
    by (simp add: word_unat_eq_iff unat_pg_of)
  also have "\<dots> \<longleftrightarrow> unat v div 4096 div 1024 = unat w div 4096 div 1024
      \<and> unat v div 4096 mod 1024 = unat w div 4096 mod 1024"
    by (metis div_mult_mod_eq)
  also have "\<dots> \<longleftrightarrow> dx v = dx w \<and> tx v = tx w"
    by (simp add: dx_def tx_def div_mult2_eq [symmetric])
  finally show ?thesis .
qed

lemma set_entry:
  assumes inv: "vm_inv s pg xs" and d: "dx va \<in> pres (mem s) pg"
    and m': "m' = store32 (mem s) (slot (tbl (mem s) pg (dx va)) (tx va)) e"
  shows "vm_grow pg s xs (s\<lparr>mem := m'\<rparr>) xs" and "pres m' pg = pres (mem s) pg"
    and "pte_at m' pg v = (if pg_of v = pg_of va then e else pte_at (mem s) pg v)"
    and "j < 1024 \<Longrightarrow> ent m' pg j = ent (mem s) pg j"
proof -
  note D = vm_invD [OF inv]
  let ?t = "tbl (mem s) pg (dx va)"
  have t: "?t \<in> tables (mem s) pg" using d by (rule tbl_in_tables)
  then have tpg: "?t \<noteq> pg" using D(4) by auto
  have e: "ent m' q j = (if q = ?t \<and> j = tx va then e else ent (mem s) q j)" if "pgal q" "j < 1024" for q j
    unfolding m' using that by (simp add: ent_store32)
  have pe: "ent m' pg j = ent (mem s) pg j" if "j < 1024" for j using e [OF D(5) that] tpg by simp
  then show "j < 1024 \<Longrightarrow> ent m' pg j = ent (mem s) pg j" .
  show pr: "pres m' pg = pres (mem s) pg" by (auto simp: pres_def pe)
  have tb: "tbl m' pg j = tbl (mem s) pg j" if "j < 1024" for j using that by (simp add: tbl_def pe)
  have ta: "tables m' pg = tables (mem s) pg"
    unfolding tables_def pr by (rule image_cong) (auto simp: tb pres_def)
  have same: "PTE_ADDR (ent (mem s) pg (dx v)) = ?t \<longleftrightarrow> dx v = dx va" if "present (ent (mem s) pg (dx v))"
    using inj_onD [OF D(13), of "dx v" "dx va"] d that by (auto simp: pres_def tbl_def)
  show "pte_at m' pg v = (if pg_of v = pg_of va then e else pte_at (mem s) pg v)"
  proof (cases "present (ent (mem s) pg (dx v))")
    case True
    then show ?thesis using same [OF True] e [OF pgal_PTE_ADDR tx_less, of "ent (mem s) pg (dx v)" v]
      by (auto simp: pte_at_ent pe pg_of_eq_iff)
  next
    case False
    then have "dx v \<noteq> dx va" using d by (auto simp: pres_def)
    with False show ?thesis by (simp add: pte_at_ent pe pg_of_eq_iff)
  qed
  have fr: "mem_frame {?t} (mem s) m'" unfolding m' by (simp add: mem_frame_store32)
  then have "kmem_inv (s\<lparr>mem := m'\<rparr>) xs" using D(1,12) t by (intro kmem_inv_mem) auto
  moreover have "inj_on (tbl m' pg) (pres (mem s) pg)"
    using D(13) by (auto simp: inj_on_def tb pres_def)
  ultimately have "vm_inv (s\<lparr>mem := m'\<rparr>) pg xs"
    using D by (auto simp: vm_inv_def ta pr page_ok_def)
  then show "vm_grow pg s xs (s\<lparr>mem := m'\<rparr>) xs"
    using fr t by (auto simp: vm_grow_def ta pr vm_pages_def intro: mem_frame_mono)
qed

section \<open>\<open>mappages\<close>\<close>

text \<open>
  \<open>map_upto m pg a k pa flags m'\<close>: the pages from \<open>a\<close> up to \<open>k\<close> got the frames from \<open>pa\<close> on, with
  \<open>flags\<close>; every other entry is as before.
\<close>

definition map_upto :: "memory \<Rightarrow> u32 \<Rightarrow> u32 \<Rightarrow> u32 \<Rightarrow> u32 \<Rightarrow> u32 \<Rightarrow> memory \<Rightarrow> bool" where
  "map_upto m pg a k pa flags m' \<longleftrightarrow> (\<forall>v. pte_at m' pg v =
     (if a \<le> pg_of v \<and> pg_of v < k then (pa + (pg_of v - a)) OR flags OR PTE_P else pte_at m pg v))"

lemma map_upto_refl: "(\<And>v. pte_at m' pg v = pte_at m pg v) \<Longrightarrow> map_upto m pg a a pa flags m'"
  by (auto simp: map_upto_def)

lemma empty_range [simp]: "{v :: u32. a \<le> v \<and> v < a} = {}"
  by auto

lemma next_page_iff:
  assumes "pgal a" "pgal p" "unat a + 4096 < 2 ^ 32"
  shows "a + 4096 \<le> p \<longleftrightarrow> a < p"
proof -
  have "unat (a + 4096) = unat a + 4096" using unat_add_small [of a 4096] assms(3) by simp
  moreover have "unat a + 4096 \<le> unat p \<longleftrightarrow> unat a < unat p"
    using assms(1,2) unfolding pgal_def by (auto elim!: dvdE)
  ultimately show ?thesis by (simp add: word_le_nat_alt word_less_nat_alt)
qed

lemma map_upto_step:
  assumes "map_upto m' pg (a + 4096) k (pa + 4096) flags m''" and "pgal a" "unat a + 4096 < 2 ^ 32"
    and "a < k"
    and "\<And>v. pte_at m' pg v = (if pg_of v = a then pa OR flags OR PTE_P else pte_at m pg v)"
  shows "map_upto m pg a k pa flags m''"
  unfolding map_upto_def
proof
  fix v
  have "a + 4096 \<le> pg_of v \<longleftrightarrow> a < pg_of v" using next_page_iff assms(2,3) by simp
  moreover have "a \<le> pg_of v \<longleftrightarrow> a < pg_of v \<or> pg_of v = a" by auto
  ultimately show "pte_at m'' pg v =
     (if a \<le> pg_of v \<and> pg_of v < k then (pa + (pg_of v - a)) OR flags OR PTE_P else pte_at m pg v)"
    using assms(1,4,5) by (auto simp: map_upto_def)
qed

lemma pgal_add: "pgal a \<Longrightarrow> unat a + 4096 < 2 ^ 32 \<Longrightarrow> pgal (a + 4096)"
  using unat_add_small [of a 4096] by (simp add: pgal_def)

lemma pg_of_pgal: "pgal a \<Longrightarrow> pg_of a = a"
  by (simp add: pg_of_def PTE_ADDR_pgal)

lemma dx_page_range:
  assumes "pgal a" "unat a + 4096 < 2 ^ 32"
  shows "dx ` {v. a \<le> v \<and> v < k} \<subseteq> insert (dx a) (dx ` {v. a + 4096 \<le> v \<and> v < k})"
proof clarify
  fix v
  assume v: "a \<le> v" "v < k" "dx v \<notin> dx ` {v. a + 4096 \<le> v \<and> v < k}"
  then have "\<not> a + 4096 \<le> v" by auto
  then have "unat v < unat a + 4096"
    using unat_add_small [of a 4096] assms(2) by (simp add: word_le_nat_alt)
  then show "dx v = dx a" using v(1) assms(1) unfolding dx_def pgal_def
    by (auto elim!: dvdE simp: word_le_nat_alt)
qed

lemma mappages_loop_cases:
  assumes "vm_inv s pg xs" "pgal a" "pgal pa" "unat flags < 4096"
    and "unat l + 4096 = unat a + 4096 * i" "unat l + 4096 < 2 ^ 32" "i < n"
    and "\<And>v. a \<le> pg_of v \<Longrightarrow> pg_of v \<le> l \<Longrightarrow> \<not> present (pte_at (mem s) pg v)"
  obtains (ok) s' xs' where "mappages_loop n pg a l pa flags s = Inr (0, s')"
      "vm_grow pg s xs s' xs'" "map_upto (mem s) pg a (l + 4096) pa flags (mem s')"
      "pres (mem s') pg = pres (mem s) pg \<union> dx ` {v. a \<le> v \<and> v < l + 4096}"
  | (full) s' k where "mappages_loop n pg a l pa flags s = Inr (- 1, s')"
      "vm_grow pg s xs s' []" "pgal k" "a \<le> k" "k \<le> l" "map_upto (mem s) pg a k pa flags (mem s')"
      "dx k \<notin> pres (mem s') pg"
      "pres (mem s') pg = pres (mem s) pg \<union> dx ` {v. a \<le> v \<and> v < k}"
  using assms
proof (induction i arbitrary: s xs a pa n thesis)
  case 0
  obtain n' where n: "n = Suc n'" using 0(9) by (cases n) auto
  have "unat (l + 4096) = unat l + 4096" using unat_add_small [of l 4096] 0(8) by simp
  then have a: "l + 4096 = a" "\<not> a \<le> l" using 0(7) by (simp_all add: word_unat_eq_iff word_le_nat_alt)
  then have "mappages_loop n pg a l pa flags s = Inr (0, s)" by (simp add: n)
  then show ?case using 0(1) [of s xs] vm_grow_refl [OF 0(3)] a by (simp add: map_upto_refl)
next
  case (Suc i)
  obtain n' where n: "n = Suc n'" "i < n'" using Suc(10) by (cases n) auto
  have l: "unat (l + 4096) = unat l + 4096" using unat_add_small [of l 4096] Suc(9) by simp
  have al: "a \<le> l" "a < l + 4096" using Suc(8) l by (simp_all add: word_le_nat_alt word_less_nat_alt)
  have a4: "unat a + 4096 < 2 ^ 32" "unat (a + 4096) = unat a + 4096"
    using Suc(8,9) unat_add_small [of a 4096] by simp_all
  show ?case
  proof (rule walk_alloc [OF Suc(4), where va = a], goal_cases full found)
    case full
    have "mappages_loop n pg a l pa flags s = Inr (- 1, s)" using full al by (simp add: n)
    then show ?thesis
      using Suc(3) [of s a] vm_grow_refl [OF Suc(4)] full al Suc(5) by (simp add: map_upto_refl)
  next
    case (found s1 xs1)
    have inv1: "vm_inv s1 pg xs1" using found(2) by (rule vm_growD)
    have d: "dx a \<in> pres (mem s1) pg" using found(3) by simp
    let ?sl = "slot (tbl (mem s1) pg (dx a)) (tx a)"
    define m2 where "m2 = store32 (mem s1) ?sl (pa OR flags OR 1)"
    define s2 where "s2 = s1\<lparr>mem := m2\<rparr>"
    note S = set_entry [OF inv1 d m2_def]
    have "page_ok s1 (tbl (mem s1) pg (dx a))" using vm_invD(11) [OF inv1] tbl_in_tables [OF d] by blast
    then have nz: "?sl \<noteq> 0"
      using page_ok_not_0 [OF vm_invD(8) [OF inv1]] page_ok_pgal by (intro slot_not_0) auto
    have "load32 (mem s1) ?sl = pte_at (mem s1) pg a"
      using d by (simp add: pte_at_ent pres_def tbl_def ent_def)
    moreover have "\<not> present (pte_at (mem s1) pg a)"
      using Suc(11) [of a] al found(4) Suc(5) by (simp add: pg_of_pgal)
    ultimately have loop: "mappages_loop n pg a l pa flags s
        = mappages_loop n' pg (a + 4096) l (pa + 4096) flags s2"
      using found(1) al nz by (simp add: n s2_def m2_def present_def or.assoc)
    have g2: "vm_grow pg s xs s2 xs1" using vm_grow_trans [OF found(2) S(1)] by (simp add: s2_def)
    have pte2: "pte_at (mem s2) pg v = (if pg_of v = a then pa OR flags OR 1 else pte_at (mem s) pg v)" for v
      using S(3) [of v] Suc(5) by (simp add: s2_def pg_of_pgal found(4))
    have pr2: "pres (mem s2) pg = insert (dx a) (pres (mem s) pg)" using S(2) found(3) by (simp add: s2_def)
    have rest: "\<not> present (pte_at (mem s2) pg v)" if "a + 4096 \<le> pg_of v" "pg_of v \<le> l" for v
    proof -
      have "a < pg_of v" using that(1) next_page_iff [OF Suc(5) pgal_pg_of a4(1)] by simp
      then show ?thesis using pte2 [of v] Suc(11) [of v] that(2) by auto
    qed
    have dxr: "pres (mem s2) pg \<union> dx ` {v. a + 4096 \<le> v \<and> v < k}
        = pres (mem s) pg \<union> dx ` {v. a \<le> v \<and> v < k}" if "a < k" for k
    proof -
      have "dx ` {v. a + 4096 \<le> v \<and> v < k} \<subseteq> dx ` {v. a \<le> v \<and> v < k}"
        using a4(2) by (intro image_mono) (auto simp: word_le_nat_alt)
      moreover have "dx a \<in> dx ` {v. a \<le> v \<and> v < k}" using that by auto
      ultimately show ?thesis using dx_page_range [OF Suc(5) a4(1), of k] by (auto simp: pr2)
    qed
    have inv2: "vm_inv s2 pg xs1" using g2 by (rule vm_growD)
    have pp: "pgal (a + 4096)" "pgal (pa + 4096)"
      using pgal_add [OF Suc(5) a4(1)] pgal_add_page [OF Suc(6)] by simp_all
    have eq: "unat l + 4096 = unat (a + 4096) + 4096 * i" using Suc(8) a4 by simp
    show ?thesis
    proof (rule Suc.IH [OF _ _ inv2 pp Suc(7) eq Suc(9) n(2) rest], goal_cases)
      case (1 s' xs')
      then show ?thesis
        using Suc(2) [of s' xs'] vm_grow_trans [OF g2 1(2)] loop dxr [of "l + 4096"] al
          map_upto_step [OF 1(3) Suc(5) a4(1)] pte2 by simp
    next
      case (2 s' k)
      have "a < k" using 2(4) a4(2) by (simp add: word_le_nat_alt word_less_nat_alt)
      then show ?thesis
        using Suc(3) [of s' k] vm_grow_trans [OF g2 2(2)] loop dxr [of k] 2
          map_upto_step [OF 2(6) Suc(5) a4(1)] pte2 by simp
    qed auto
  qed
qed

end
