(* ===== verification/Mix_VmKernel.thy ===== *)
theory Mix_VmKernel
  imports Mix_VmMap
begin

text \<open>
  \<^verbatim>\<open>mappages\<close> as a whole, and the kernel part of an address space that \<^verbatim>\<open>setupkvm\<close> builds from the
  table \<^verbatim>\<open>kvminit\<close> fills.
\<close>

section \<open>\<open>mappages\<close> as a whole\<close>

text \<open>The directory entries a range of virtual addresses needs.\<close>

definition dxs :: "u32 \<Rightarrow> u32 \<Rightarrow> nat set" where
  "dxs a k = dx ` {v. a \<le> v \<and> v < k}"

lemma finite_dxs [simp]: "finite (dxs a k)"
  by (rule finite_subset [of _ "{..<1024}"]) (auto simp: dxs_def)

lemma dxs_mono: "k \<le> l \<Longrightarrow> dxs a k \<subseteq> dxs a l"
  by (auto simp: dxs_def)

lemma mappages_cases:
  assumes "vm_inv s pg xs" "pgal pa" "unat flags < 4096"
    and "pgal va" "pgal sz" "0 < sz" "unat va + unat sz < 2 ^ 32"
    and "\<And>v. va \<le> pg_of v \<Longrightarrow> pg_of v < va + sz \<Longrightarrow> \<not> present (pte_at (mem s) pg v)"
  obtains (ok) s' xs' where "mappages pg va sz pa flags s = Inr (0, s')"
      "vm_grow pg s xs s' xs'" "map_upto (mem s) pg va (va + sz) pa flags (mem s')"
      "pres (mem s') pg = pres (mem s) pg \<union> dxs va (va + sz)"
      "card (dxs va (va + sz) - pres (mem s) pg) \<le> length xs"
  | (full) s' k where "mappages pg va sz pa flags s = Inr (- 1, s')"
      "vm_grow pg s xs s' []" "pgal k" "va \<le> k" "k < va + sz" "map_upto (mem s) pg va k pa flags (mem s')"
      "length xs < card (dxs va (va + sz) - pres (mem s) pg)"
proof -
  have e: "unat (va + sz) = unat va + unat sz" using assms(7) by (simp add: unat_word_ariths)
  have sz1: "1 \<le> unat sz" using assms(6) by (simp add: word_less_nat_alt)
  have ale: "4096 dvd unat va + unat sz" using assms(4,5) by (simp add: pgal_def)
  have e1: "unat (va + sz - 1) = unat va + unat sz - 1"
    using e sz1 by (subst unat_diff_1) (auto simp: word_unat_eq_iff)
  define l where "l = PGROUNDDOWN (va + sz - 1)"
  have l: "unat l + 4096 = unat va + unat sz"
  proof -
    obtain k where k: "unat va + unat sz = 4096 * Suc k" using ale sz1 by (elim dvdE) (metis One_nat_def Suc_le_lessD add_gr_0 gr0_implies_Suc mult_0_right not_gr_zero)
    then show ?thesis by (simp add: l_def unat_PGROUNDDOWN e1)
  qed
  have l4: "l + 4096 = va + sz"
    using unat_add_small [of l 4096] l assms(7) e by (simp add: word_unat_eq_iff)
  have rd: "PGROUNDDOWN va = va" using assms(4) by (simp add: word_unat_eq_iff unat_PGROUNDDOWN pgal_def)
  have D: "pg \<noteq> 0" using assms(1) by (rule vm_invD)
  have lp: "pgal l" by (simp add: l_def)
  have ll: "p \<le> l \<longleftrightarrow> p < va + sz" if "pgal p" for p
  proof -
    have "unat p \<le> unat l \<longleftrightarrow> unat p < unat l + 4096"
      using that lp unfolding pgal_def by (auto elim!: dvdE)
    then show ?thesis using l e by (simp add: word_le_nat_alt word_less_nat_alt)
  qed
  have "\<exists>i. unat sz = 4096 * i" using assms(5) by (auto simp: pgal_def elim!: dvdE)
  then obtain i where i: "unat sz = 4096 * i" by blast
  have fuel: "i < Suc n_pages" using i unat32_lt [of sz] by (simp add: n_pages_def)
  have m: "mappages pg va sz pa flags s = mappages_loop (Suc n_pages) pg va l pa flags s"
    using D by (simp add: mappages_def rd l_def)
  show thesis
  proof (rule mappages_loop_cases [OF assms(1,4,2,3), of l i "Suc n_pages"], goal_cases)
    case (4 v)
    then show ?case using assms(8) ll by simp
  next
    case (5 s' xs')
    then have p: "pres (mem s') pg = pres (mem s) pg \<union> dxs va (va + sz)" by (simp add: dxs_def l4)
    then have "pres (mem s') pg - pres (mem s) pg = dxs va (va + sz) - pres (mem s) pg" by auto
    then have "card (dxs va (va + sz) - pres (mem s) pg) \<le> length xs" using vm_growD(6) [OF 5(2)] by simp
    then show ?case using 5 p m by (intro ok) (simp_all add: l4)
  next
    case (6 s' k)
    have kl: "k < va + sz" using ll 6(3,5) by simp
    have "pres (mem s') pg - pres (mem s) pg \<subset> dxs va (va + sz) - pres (mem s) pg"
    proof
      show "pres (mem s') pg - pres (mem s) pg \<subseteq> dxs va (va + sz) - pres (mem s) pg"
        using 6(8) kl by (auto simp: dxs_def)
      have "dx k \<in> dxs va (va + sz)" using 6(4) kl by (auto simp: dxs_def)
      then show "pres (mem s') pg - pres (mem s) pg \<noteq> dxs va (va + sz) - pres (mem s) pg"
        using 6(7,8) by auto
    qed
    then have "card (pres (mem s') pg - pres (mem s) pg) < card (dxs va (va + sz) - pres (mem s) pg)"
      by (intro psubset_card_mono) simp_all
    then show ?case using 6 kl m vm_growD(6) [OF 6(2)] by (intro full) simp_all
  qed (use l i fuel assms(7) in simp_all)
qed

section \<open>The kernel regions\<close>

text \<open>
  \<open>chain a ks e\<close>: the regions \<open>ks\<close> are page-aligned, not empty, and cover \<open>a\<close> to \<open>e\<close> without a gap.
\<close>

fun chain :: "u32 \<Rightarrow> kmap list \<Rightarrow> u32 \<Rightarrow> bool" where
  "chain a [] e \<longleftrightarrow> a = e"
| "chain a (k # ks) e \<longleftrightarrow> kstart k = a \<and> a < kend k \<and> kend k \<le> e \<and> pgal (kend k)
     \<and> unat (kflags k) < 4096 \<and> chain (kend k) ks e"

fun kflag :: "kmap list \<Rightarrow> u32 \<Rightarrow> u32" where
  "kflag [] v = 0"
| "kflag (k # ks) v = (if v < kend k then kflags k else kflag ks v)"

lemma chain_le: "chain a ks e \<Longrightarrow> a \<le> e"
  by (induction ks arbitrary: a) force+

lemma dxs_split:
  assumes "a \<le> b" "b \<le> c"
  shows "dxs a c = dxs a b \<union> dxs b c"
proof -
  have "{v. a \<le> v \<and> v < c} = {v. a \<le> v \<and> v < b} \<union> {v. b \<le> v \<and> v < c}" using assms by auto
  then show ?thesis by (simp add: dxs_def image_Un)
qed

text \<open>
  The kernel part is mapped one to one: \<open>kmapped\<close> says so for the addresses from \<open>a\<close> to \<open>e\<close>.
\<close>

definition kmapped :: "memory \<Rightarrow> u32 \<Rightarrow> kmap list \<Rightarrow> u32 \<Rightarrow> u32 \<Rightarrow> memory \<Rightarrow> bool" where
  "kmapped m pg ks a e m' \<longleftrightarrow> (\<forall>v. pte_at m' pg v =
     (if a \<le> pg_of v \<and> pg_of v < e then pg_of v OR kflag ks (pg_of v) OR PTE_P else pte_at m pg v))"

lemma setupkvm_loop_ok:
  assumes "vm_inv s pg xs" "chain a ks e" "pgal a"
    and "card (dxs a e - pres (mem s) pg) \<le> length xs"
    and "\<And>v. a \<le> pg_of v \<Longrightarrow> \<not> present (pte_at (mem s) pg v)"
  shows "\<exists>s' xs'. setupkvm_loop pg ks s = Inr (pg, s') \<and> vm_grow pg s xs s' xs'
    \<and> kmapped (mem s) pg ks a e (mem s') \<and> pres (mem s') pg = pres (mem s) pg \<union> dxs a e"
  using assms
proof (induction ks arbitrary: a s xs)
  case Nil
  then show ?case using vm_grow_refl [OF Nil(1)] by (auto simp: kmapped_def dxs_def)
next
  case (Cons k ks)
  let ?b = "kend k"
  have k: "kstart k = a" "a < ?b" "?b \<le> e" "pgal ?b" "unat (kflags k) < 4096" "chain ?b ks e"
    using Cons.prems(2) by simp_all
  have sz: "unat (?b - a) = unat ?b - unat a" "unat a < unat ?b"
    using k(2) by (simp_all add: unat_sub word_less_nat_alt order_less_imp_le)
  have szp: "pgal (?b - a)" "0 < ?b - a"
    using sz k(4) Cons.prems(3) by (simp_all add: pgal_def word_less_nat_alt)
  have lt: "unat a + unat (?b - a) < 2 ^ 32" using sz unat32_lt [of ?b] by simp
  have sp: "dxs a e = dxs a ?b \<union> dxs ?b e" using k(2,3) by (intro dxs_split) simp_all
  show ?case
  proof (rule mappages_cases [OF Cons.prems(1,3) k(5) Cons.prems(3) szp lt], goal_cases)
    case (1 v)
    then show ?case using Cons.prems(5) by simp
  next
    case (2 s1 xs1)
    have pr1: "pres (mem s1) pg = pres (mem s) pg \<union> dxs a ?b" using 2(4) by simp
    have "card (pres (mem s1) pg - pres (mem s) pg) + card (dxs ?b e - pres (mem s1) pg)
        = card (dxs a e - pres (mem s) pg)"
      unfolding pr1 sp by (subst card_Un_disjoint [symmetric]) (auto intro!: arg_cong [of _ _ card])
    then have c: "card (dxs ?b e - pres (mem s1) pg) \<le> length xs1"
      using Cons.prems(4) vm_growD(6) [OF 2(2)] by simp
    have pte1: "pte_at (mem s1) pg v = (if a \<le> pg_of v \<and> pg_of v < ?b
        then pg_of v OR kflags k OR 1 else pte_at (mem s) pg v)" for v
      using 2(3) by (simp add: map_upto_def)
    have n: "\<not> present (pte_at (mem s1) pg v)" if "?b \<le> pg_of v" for v
      
    proof -
      have "a \<le> pg_of v" "\<not> pg_of v < ?b" using that k(2) by simp_all
      then show ?thesis using Cons.prems(5) [of v] pte1 [of v] by simp
    qed
    obtain s2 xs2 where s2: "setupkvm_loop pg ks s1 = Inr (pg, s2)" "vm_grow pg s1 xs1 s2 xs2"
        "kmapped (mem s1) pg ks ?b e (mem s2)" "pres (mem s2) pg = pres (mem s1) pg \<union> dxs ?b e"
      using Cons.IH [OF vm_growD(2) [OF 2(2)] k(6,4) c n] by blast
    have "kmapped (mem s) pg (k # ks) a e (mem s2)"
      unfolding kmapped_def
    proof
      fix v
      show "pte_at (mem s2) pg v = (if a \<le> pg_of v \<and> pg_of v < e
          then pg_of v OR kflag (k # ks) (pg_of v) OR PTE_P else pte_at (mem s) pg v)"
      proof (cases "pg_of v < ?b")
        case True
        then have "pg_of v < e" "\<not> ?b \<le> pg_of v" using k(3) by simp_all
        then show ?thesis using s2(3) pte1 [of v] True by (simp add: kmapped_def)
      next
        case False
        then have "a \<le> pg_of v" "?b \<le> pg_of v" using k(2) by simp_all
        then show ?thesis using s2(3) pte1 [of v] False by (simp add: kmapped_def)
      qed
    qed
    moreover have "pres (mem s2) pg = pres (mem s) pg \<union> dxs a e" using s2(4) pr1 sp by auto
    ultimately show ?case using 2(1) s2(1) k(1) vm_grow_trans [OF 2(2) s2(2)] by auto
  next
    case (3 s1 k')
    have "card (dxs a ?b - pres (mem s) pg) \<le> card (dxs a e - pres (mem s) pg)"
      using sp by (intro card_mono) auto
    with 3(7) Cons.prems(4) show ?case by simp
  qed
qed

section \<open>\<open>setupkvm\<close>\<close>

text \<open>
  The state after \<^verbatim>\<open>kvminit\<close>. \<^verbatim>\<open>kernel.ls\<close> aligns \<open>rodata_end\<close> to a page between the start and the end
  of the kernel.
\<close>

definition kvm_ok :: "'a vm_scheme \<Rightarrow> bool" where
  "kvm_ok s \<longleftrightarrow> pgal (rodata_end s) \<and> EXTMEM < rodata_end s \<and> rodata_end s \<le> kernel_end s \<and> rodata_end s < MEMSIZE
     \<and> kmaps s = [\<lparr>kstart = 0, kend = EXTMEM, kflags = PTE_W\<rparr>,
         \<lparr>kstart = EXTMEM, kend = rodata_end s, kflags = 0\<rparr>,
         \<lparr>kstart = rodata_end s, kend = MEMSIZE, kflags = PTE_W\<rparr>]"

lemma kvminit_ok:
  assumes "length (kmaps s) = 3" and "pgal (rodata_end s)" and "EXTMEM < rodata_end s"
    and "rodata_end s \<le> kernel_end s" and "rodata_end s < MEMSIZE"
  shows "kvm_ok (kvminit s)"
proof -
  obtain a b c where "kmaps s = [a, b, c]"
    using assms(1) by (auto simp: length_Suc_conv numeral_3_eq_3)
  with assms show ?thesis by (simp add: kvm_ok_def kvminit_def kmapinit_def Let_def)
qed

lemma kvm_chain: "kvm_ok s \<Longrightarrow> chain 0 (kmaps s) MEMSIZE"
  by (auto simp: kvm_ok_def pgal_def)

lemma dxs_kernel: "dxs 0 MEMSIZE = {..<128}"
proof (intro equalityI subsetI)
  show "d \<in> {..<128}" if "d \<in> dxs 0 MEMSIZE" for d
    using that by (auto simp: dxs_def dx_def word_less_nat_alt)
  fix d :: nat
  assume d: "d \<in> {..<128}"
  then have u: "unat (of_nat (d * 4194304) :: u32) = d * 4194304" by (intro unat_of_nat32) simp
  then have "(of_nat (d * 4194304) :: u32) < 0x20000000" using d by (simp only: word_less_nat_alt) simp
  moreover have "d = dx (of_nat (d * 4194304))" using u by (simp only: dx_def)
  ultimately show "d \<in> dxs 0 MEMSIZE" by (auto simp: dxs_def image_iff)
qed

lemma ent_cleared: "pgal p \<Longrightarrow> j < 1024 \<Longrightarrow> ent (memset p 0 0x1000 m) p j = 0"
  by (simp add: ent_memset)

lemma present_0 [simp]: "\<not> present 0"
  by (simp add: present_def)

text \<open>A page just taken and cleared is an empty directory.\<close>

lemma new_directory:
  assumes "kmem_inv s (x # xs)"
  obtains s' where "kalloc s = Inr (x, s')"
    "vm_inv (s'\<lparr>mem := memset x 0 0x1000 (mem s')\<rparr>) x xs" "mem_only s s'" "mem s' = mem s"
    "pres (memset x 0 0x1000 (mem s)) x = {}" "\<And>v. pte_at (memset x 0 0x1000 (mem s)) x v = 0"
proof -
  note k = kmem_inv_kalloc [OF assms]
  have x: "pgal x" using k(4) by (rule page_ok_pgal)
  let ?s' = "s\<lparr>coremap := load32 (mem s) x\<rparr>"
  let ?m = "memset x 0 0x1000 (mem s)"
  have p: "pres ?m x = {}" using ent_cleared [OF x] by (auto simp: pres_def)
  have "kmem_inv (?s'\<lparr>mem := ?m\<rparr>) xs"
    using kmem_inv_mem [OF k(3) _ , of "{x}" ?m] mem_frame_memset [OF x] k(5) by simp
  then have "vm_inv (?s'\<lparr>mem := ?m\<rparr>) x xs"
    using k(4,5) p by (simp add: vm_inv_def tables_def page_ok_def)
  moreover have "mem_only s ?s'" by (rule mem_onlyI [where m = "mem s"]) simp
  moreover have "kalloc s = Inr (x, ?s')" using k assms by (simp add: kalloc_eq kmem_inv_def)
  moreover have "pte_at ?m x v = 0" for v using ent_cleared [OF x dx_less] by (simp add: pte_at_ent)
  ultimately show thesis using p by (intro that [of ?s']) simp_all
qed

lemma setupkvm_ok:
  assumes "kmem_inv s (x # xs)" and "kvm_ok s" and "128 \<le> length xs"
  obtains s' xs' where "setupkvm s = Inr (x, s')" "vm_inv s' x xs'" "mem_only s s'"
    "length xs = length xs' + 128" "set xs' \<subseteq> set xs" "pres (mem s') x = {..<128}"
    "\<And>v. pte_at (mem s') x v = (if pg_of v < MEMSIZE then pg_of v OR kflag (kmaps s) (pg_of v) OR PTE_P else 0)"
    "mem_frame (set (x # xs)) (mem s) (mem s')" "vm_pages (mem s') x \<union> set xs' = set (x # xs)"
proof (rule new_directory [OF assms(1)])
  fix s0
  assume s0: "kalloc s = Inr (x, s0)" "vm_inv (s0\<lparr>mem := memset x 0 0x1000 (mem s0)\<rparr>) x xs"
    "mem_only s s0" "mem s0 = mem s" "pres (memset x 0 0x1000 (mem s)) x = {}"
    "\<And>v. pte_at (memset x 0 0x1000 (mem s)) x v = 0"
  let ?s1 = "s0\<lparr>mem := memset x 0 0x1000 (mem s0)\<rparr>"
  have x: "x \<noteq> 0" "pgal x" using kmem_inv_kalloc [OF assms(1)] page_ok_pgal by auto
  have m1: "mem_only s ?s1" using s0(3) mem_only_mem by (rule mem_only_trans)
  have c: "card (dxs 0 MEMSIZE - pres (mem ?s1) x) \<le> length xs" using assms(3) s0(4,5) unfolding dxs_kernel by simp
  obtain s' xs' where g: "setupkvm_loop x (kmaps s) ?s1 = Inr (x, s')" "vm_grow x ?s1 xs s' xs'"
      "kmapped (mem ?s1) x (kmaps s) 0 MEMSIZE (mem s')" "pres (mem s') x = pres (mem ?s1) x \<union> dxs 0 MEMSIZE"
    using setupkvm_loop_ok [OF s0(2) kvm_chain [OF assms(2)] _ c] s0(4,6) by (auto simp: pgal_def)
  have pr: "pres (mem s') x = {..<128}" using g(4) s0(4,5) dxs_kernel by simp
  note G = vm_growD [OF g(2)]
  have v0: "vm_pages (mem ?s1) x = {x}" using s0(4,5) by (simp add: vm_pages_def tables_def)
  have km: "kmaps s0 = kmaps s" using mem_only_sel(3) [OF s0(3)] .
  show thesis
  proof (rule that [of s' xs'])
    show "setupkvm s = Inr (x, s')" using s0(1) g(1) x km by (simp add: setupkvm_def)
    show "vm_inv s' x xs'" "set xs' \<subseteq> set xs" by (rule G)+
    show "mem_only s s'" using m1 G(1) by (rule mem_only_trans)
    show "length xs = length xs' + 128" using G(6) pr s0(4,5) by simp
    show "pres (mem s') x = {..<128}" by (rule pr)
    show "pte_at (mem s') x v = (if pg_of v < MEMSIZE then pg_of v OR kflag (kmaps s) (pg_of v) OR PTE_P else 0)" for v
      using g(3) s0(4,6) by (simp add: kmapped_def)
    have "mem_frame {x} (mem s) (mem ?s1)" using mem_frame_memset [OF x(2)] s0(4) by simp
    then have "mem_frame (set (x # xs)) (mem s) (mem ?s1)" by (rule mem_frame_mono) simp
    moreover have "mem_frame (set (x # xs)) (mem ?s1) (mem s')" using G(5) v0 by simp
    ultimately show "mem_frame (set (x # xs)) (mem s) (mem s')" by (rule mem_frame_trans)
    show "vm_pages (mem s') x \<union> set xs' = set (x # xs)" using G(8) v0 by simp
  qed
qed

section \<open>A concrete state\<close>

text \<open>
  For the witnesses: the kernel maps of \<open>kvminit\<close>, and the pages from 2 MB to the end of memory freed
  one after the other.
\<close>

definition ex_vm :: vm where
  "ex_vm = kvminit \<lparr>eflags = 0x202, mem = (\<lambda>_. 0), outlog = [], ncli = 0, intena = 0, cursor = 0,
     inbuf = replicate 128 0, inindex = 0, kbdflags = 0, coremap = 0, kernel_end = 0x110000,
     rodata_end = 0x108000, kmaps = replicate 3 \<lparr>kstart = 0, kend = 0, kflags = 0\<rparr>, cr3 = 0\<rparr>"

lemma ex_vm_ok: "kvm_ok ex_vm" "kmem_inv ex_vm []" "con_ok ex_vm"
proof -
  show "kvm_ok ex_vm" unfolding ex_vm_def by (rule kvminit_ok) (simp_all add: pgal_def)
  show "kmem_inv ex_vm []" "con_ok ex_vm"
    by (simp_all add: ex_vm_def kvminit_def kmapinit_def kmem_inv_def con_ok_def cli_ok_def kern_ok_def Let_def)
qed

lemma kfree_mem_only: "cli_ok s \<Longrightarrow> kfree a s = Inr s' \<Longrightarrow> mem_only s s'"
proof -
  assume c: "cli_ok s" and k: "kfree a s = Inr s'"
  have "page_ok s a"
  proof (rule ccontr)
    assume "\<not> page_ok s a"
    then show False using kfree_bad_address [of s a] k by simp
  qed
  then show "mem_only s s'"
    using kfree_eq [OF c] k by (auto intro: mem_onlyI)
qed

lemma free_all_mem_only: "cli_ok s \<Longrightarrow> free_all kfree ps s = Inr s' \<Longrightarrow> mem_only s s'"
proof (induction ps arbitrary: s)
  case (Cons p ps)
  then obtain s1 where s1: "kfree p s = Inr s1" "free_all kfree ps s1 = Inr s'"
    by (auto simp: bnd_eq_Inr_iff)
  have "mem_only s s1" using kfree_mem_only Cons.prems(1) s1(1) .
  moreover have "mem_only s1 s'"
    using Cons.IH [OF _ s1(2)] mem_only_sel(5) [OF calculation] Cons.prems(1) by simp
  ultimately show ?case by (rule mem_only_trans)
qed simp

definition ex_free :: "u32 list" where
  "ex_free = pages_from 0x200000"

lemma ex_vm_free:
  obtains s where "free_all kfree ex_free ex_vm = Inr s" "kmem_inv s (rev ex_free)" "kvm_ok s" "con_ok s"
    "length ex_free = 130560"
proof -
  have "pgal 0x200000" "kernel_end ex_vm \<le> 0x200000"
    by (simp_all add: pgal_def ex_vm_def kvminit_def kmapinit_def Let_def)
  note P = pages_from_ok [OF this]
  have "distinct ex_free" "\<forall>x \<in> set ex_free. page_ok ex_vm x"
    using P unfolding ex_free_def by blast+
  then obtain s where s: "free_all kfree ex_free ex_vm = Inr s" "kmem_inv s (rev ex_free @ [])"
    using kpages.free_all_pages [OF ex_vm_ok(2)] by auto
  have "cli_ok ex_vm" using ex_vm_ok(2) by (simp add: kmem_inv_def)
  then have m: "mem_only ex_vm s" using free_all_mem_only s(1) by blast
  have "kvm_ok s" "con_ok s"
    using ex_vm_ok mem_only_sel [OF m] by (simp_all add: kvm_ok_def)
  then show thesis using s by (intro that) (simp_all add: ex_free_def pages_from_def page_count_def)
qed

section \<open>Properties\<close>

text \<open>
  C15: mapping a range. For a page-aligned range that holds no present page, \<^verbatim>\<open>mappages\<close> returns 0 if
  there are free pages for the page tables the range still needs, and then exactly the entries of the
  range changed, page by page to consecutive frames with the given flags; otherwise it returns -1 with
  the free list used up and only a prefix of the range mapped.
\<close>

theorem mappages_maps:
  assumes "vm_inv s pg xs" "pgal pa" "unat flags < 4096"
    and "pgal va" "pgal sz" "0 < sz" "unat va + unat sz < 2 ^ 32"
    and "\<And>v. va \<le> pg_of v \<Longrightarrow> pg_of v < va + sz \<Longrightarrow> \<not> present (pte_at (mem s) pg v)"
  shows "if card (dxs va (va + sz) - pres (mem s) pg) \<le> length xs
    then \<exists>s' xs'. mappages pg va sz pa flags s = Inr (0, s') \<and> vm_grow pg s xs s' xs'
      \<and> map_upto (mem s) pg va (va + sz) pa flags (mem s')
    else \<exists>s' k. mappages pg va sz pa flags s = Inr (- 1, s') \<and> vm_grow pg s xs s' []
      \<and> va \<le> k \<and> k < va + sz \<and> map_upto (mem s) pg va k pa flags (mem s')"
  by (rule mappages_cases [OF assms]) auto

theorem mappages_maps_witness:
  "\<exists>s x s0 s'. free_all kfree ex_free ex_vm = Inr s \<and> kalloc s = Inr (x, s0)
    \<and> mappages x KERNEND 0x1000 0x300000 6 (s0\<lparr>mem := memset x 0 0x1000 (mem s0)\<rparr>) = Inr (0, s')
    \<and> pte_at (mem s') x KERNEND = 0x300007"
proof (rule ex_vm_free)
  fix s
  assume s: "free_all kfree ex_free ex_vm = Inr s" "kmem_inv s (rev ex_free)" "length ex_free = 130560"
  obtain x xs where x: "rev ex_free = x # xs" "1 \<le> length xs"
    using s(3) by (cases "rev ex_free") (auto dest: arg_cong [of _ _ length])
  show ?thesis
  proof (rule new_directory [OF s(2) [unfolded x(1)]])
    fix s0 :: vm
    let ?s1 = "s0\<lparr>mem := memset x 0 0x1000 (mem s0)\<rparr>"
    assume k: "kalloc s = Inr (x, s0)" "vm_inv ?s1 x xs" "mem s0 = mem s"
      "\<And>v. pte_at (memset x 0 0x1000 (mem s)) x v = 0"
    have "card (dxs KERNEND (KERNEND + 0x1000) - pres (mem ?s1) x) \<le> card (dx ` {KERNEND ..< KERNEND + 0x1000})"
      by (rule card_mono) (auto simp: dxs_def)
    also have "dx ` {KERNEND ..< KERNEND + 0x1000} \<subseteq> {256}"
      by (auto simp: dx_def word_le_nat_alt word_less_nat_alt)
    then have "card (dx ` {KERNEND ..< KERNEND + 0x1000}) \<le> card {256 :: nat}" by (rule card_mono [rotated]) simp
    finally have c: "card (dxs KERNEND (KERNEND + 0x1000) - pres (mem ?s1) x) \<le> length xs" using x(2) by simp
    obtain s' where "mappages x KERNEND 0x1000 0x300000 6 ?s1 = Inr (0, s')"
        "map_upto (mem ?s1) x KERNEND (KERNEND + 0x1000) 0x300000 6 (mem s')"
      using mappages_maps [OF k(2), of "0x300000" 6 KERNEND "0x1000"] c k(3,4) by (auto simp: pgal_def)
    then show ?thesis
      using s(1) k(1) by (intro exI [of _ s] exI [of _ x] exI [of _ s0] exI [of _ s'])
        (simp add: map_upto_def pg_of_def PTE_ADDR_def)
  qed
qed

text \<open>
  C16: the kernel part of an address space. With a directory page and 128 table pages free, \<^verbatim>\<open>setupkvm\<close>
  returns a directory in which every address below \<open>MEMSIZE\<close> is mapped to itself, never for user
  mode, writable except for the text and read-only data of the kernel, and no other address is
  mapped; it uses 129 pages and writes to no other.
\<close>

theorem setupkvm_identity:
  assumes "kmem_inv s (x # xs)" and "kvm_ok s" and "128 \<le> length xs"
  shows "\<exists>s' xs'. setupkvm s = Inr (x, s') \<and> vm_inv s' x xs' \<and> length xs = length xs' + 128
    \<and> (\<forall>v. pte_at (mem s') x v =
        (if pg_of v < MEMSIZE
         then pg_of v OR (if EXTMEM \<le> pg_of v \<and> pg_of v < rodata_end s then 0 else PTE_W) OR PTE_P
         else 0))
    \<and> mem_frame (set (x # xs)) (mem s) (mem s')"
proof (rule setupkvm_ok [OF assms])
  fix s' xs'
  assume r: "setupkvm s = Inr (x, s')" "vm_inv s' x xs'" "length xs = length xs' + 128"
    "\<And>v. pte_at (mem s') x v = (if pg_of v < MEMSIZE then pg_of v OR kflag (kmaps s) (pg_of v) OR PTE_P else 0)"
    "mem_frame (set (x # xs)) (mem s) (mem s')"
  have "kflag (kmaps s) p = (if EXTMEM \<le> p \<and> p < rodata_end s then 0 else PTE_W)" if "p < MEMSIZE" for p
    using assms(2) that by (auto simp: kvm_ok_def)
  then show ?thesis using r by auto
qed

theorem setupkvm_identity_witness:
  "\<exists>s s' pg. free_all kfree ex_free ex_vm = Inr s \<and> setupkvm s = Inr (pg, s')
    \<and> pte_at (mem s') pg 0xB8000 = 0xB8003 \<and> pte_at (mem s') pg 0x101234 = 0x101001
    \<and> pte_at (mem s') pg KERNEND = 0"
proof (rule ex_vm_free)
  fix s
  assume s: "free_all kfree ex_free ex_vm = Inr s" "kmem_inv s (rev ex_free)" "kvm_ok s" "con_ok s"
    "length ex_free = 130560"
  obtain x xs where x: "rev ex_free = x # xs" "128 \<le> length xs"
    using s(5) by (cases "rev ex_free") (auto dest: arg_cong [of _ _ length])
  have "rodata_end s = rodata_end ex_vm"
    using mem_only_sel(2) [OF free_all_mem_only [OF _ s(1)]] ex_vm_ok(2) by (simp add: kmem_inv_def)
  then have "rodata_end s = 0x108000" by (simp add: ex_vm_def kvminit_def kmapinit_def Let_def)
  moreover have "kmem_inv s (x # xs)" using s(2) x(1) by simp
  note setupkvm_identity [OF this s(3) x(2)]
  ultimately obtain s' where s': "setupkvm s = Inr (x, s')" "\<And>v. pte_at (mem s') x v =
      (if pg_of v < MEMSIZE
       then pg_of v OR (if EXTMEM \<le> pg_of v \<and> pg_of v < 0x108000 then 0 else PTE_W) OR PTE_P else 0)"
    by auto
  show ?thesis
    using s(1) s'(1) by (intro exI [of _ s] exI [of _ s'] exI [of _ x]) (simp add: s'(2) pg_of_def PTE_ADDR_def)
qed

end
