(* ===== verification/Mix_VmUser.thy ===== *)
theory Mix_VmUser
  imports Mix_VmKernel
begin

text \<open>
  The user part of an address space: its mapped pages and their frames, how \<^verbatim>\<open>deallocuvm\<close> and
  \<^verbatim>\<open>freevm\<close> return them to the free list, and how one page is mapped.
\<close>

section \<open>User pages and frames\<close>

definition upages :: "memory \<Rightarrow> u32 \<Rightarrow> u32 set" where
  "upages m pg = {v. pgal v \<and> KERNEND \<le> v \<and> v < USEREND \<and> present (pte_at m pg v)}"

definition frame :: "memory \<Rightarrow> u32 \<Rightarrow> u32 \<Rightarrow> u32" where
  "frame m pg v = PTE_ADDR (pte_at m pg v)"

definition uvm_inv :: "'a vm_scheme \<Rightarrow> u32 \<Rightarrow> u32 list \<Rightarrow> bool" where
  "uvm_inv s pg xs \<longleftrightarrow> vm_inv s pg xs \<and> inj_on (frame (mem s) pg) (upages (mem s) pg)
     \<and> (\<forall>v \<in> upages (mem s) pg. page_ok s (frame (mem s) pg v) \<and> frame (mem s) pg v \<notin> set xs
          \<and> frame (mem s) pg v \<notin> vm_pages (mem s) pg)"

lemma uvm_invD:
  assumes "uvm_inv s pg xs"
  shows "vm_inv s pg xs" "inj_on (frame (mem s) pg) (upages (mem s) pg)"
    "v \<in> upages (mem s) pg \<Longrightarrow> page_ok s (frame (mem s) pg v)"
    "v \<in> upages (mem s) pg \<Longrightarrow> frame (mem s) pg v \<notin> set xs"
    "v \<in> upages (mem s) pg \<Longrightarrow> frame (mem s) pg v \<notin> vm_pages (mem s) pg"
  using assms by (simp_all add: uvm_inv_def)

lemma finite_upages [simp]: "finite (upages m pg)"
  by simp

lemma upages_pgal: "v \<in> upages m pg \<Longrightarrow> pgal v \<and> pg_of v = v"
  by (simp add: upages_def pg_of_pgal)

lemma upages_dx: "v \<in> upages m pg \<Longrightarrow> dx v \<in> pres m pg"
  by (auto simp: upages_def pte_at_ent pres_def split: if_splits)

section \<open>Freeing one page\<close>

text \<open>The page at \<open>v\<close> goes to the free list and its entry is cleared.\<close>

lemma unmap_page:
  assumes inv: "uvm_inv s pg xs" and v: "v \<in> upages (mem s) pg"
  obtains s1 s' where "kfree (frame (mem s) pg v) s = Inr s1"
    "s' = s1\<lparr>mem := store32 (mem s1) (slot (tbl (mem s) pg (dx v)) (tx v)) 0\<rparr>"
    "uvm_inv s' pg (frame (mem s) pg v # xs)" "mem_only s s'" "pres (mem s') pg = pres (mem s) pg"
    "\<And>w. pte_at (mem s') pg w = (if pg_of w = v then 0 else pte_at (mem s) pg w)"
    "vm_pages (mem s') pg = vm_pages (mem s) pg"
    "mem_frame (insert (frame (mem s) pg v) (vm_pages (mem s) pg)) (mem s) (mem s')"
    "\<And>d. d < 1024 \<Longrightarrow> ent (mem s') pg d = ent (mem s) pg d"
proof -
  note U = uvm_invD [OF inv]
  note D = vm_invD [OF U(1)]
  let ?a = "frame (mem s) pg v"
  have a: "page_ok s ?a" "pgal ?a" "?a \<notin> set xs" "?a \<notin> vm_pages (mem s) pg"
    using U(3,4,5) [OF v] page_ok_pgal by blast+
  have vv: "pgal v" "pg_of v = v" using upages_pgal [OF v] by simp_all
  define m1 where "m1 = store32 (memset ?a 0 0x1000 (mem s)) ?a (coremap s)"
  define s1 where "s1 = s\<lparr>mem := m1, coremap := ?a\<rparr>"
  have f1: "mem_frame {?a} (mem s) m1"
    unfolding mem_frame_def m1_def using kfree_mem_other pg_of_iff [OF a(2)] by auto
  have k1: "kfree ?a s = Inr s1" using kfree_eq [OF D(7) a(1)] by (simp add: s1_def m1_def)
  have km1: "kmem_inv s1 (?a # xs)" using kmem_inv_kfree [OF D(1) a(1,3)] by (simp add: s1_def m1_def)
  note V = vm_view_frame [OF f1 _ D(5)]
  have dj: "{?a} \<inter> vm_pages (mem s) pg = {}" using a(4) by simp
  have t1: "tbl m1 pg d = tbl (mem s) pg d" if "d < 1024" for d using V(1) [OF dj that] by (simp add: tbl_def)
  have "inj_on (tbl m1 pg) (pres (mem s) pg)"
    using D(13) by (auto simp: inj_on_def t1 pres_def)
  then have i1: "vm_inv s1 pg (?a # xs)"
    using km1 U(1) V(2,3) [OF dj] a(4) by (auto simp: vm_inv_def s1_def page_ok_def vm_pages_def)
  have d1: "dx v \<in> pres (mem s1) pg" using upages_dx [OF v] V(2) [OF dj] by (simp add: s1_def)
  define m2 where "m2 = store32 m1 (slot (tbl (mem s) pg (dx v)) (tx v)) 0"
  have m2': "m2 = store32 (mem s1) (slot (tbl (mem s1) pg (dx v)) (tx v)) 0"
    by (simp add: m2_def s1_def t1)
  note S = set_entry [OF i1 d1 m2']
  define s' where "s' = s1\<lparr>mem := m2\<rparr>"
  have vp: "vm_pages m1 pg = vm_pages (mem s) pg" using V(3) [OF dj] by (simp add: vm_pages_def)
  have pte: "pte_at (mem s') pg w = (if pg_of w = v then 0 else pte_at (mem s) pg w)" for w
    using S(3) [of w] V(4) [OF dj] vv by (simp add: s'_def s1_def)
  have up: "upages (mem s') pg = upages (mem s) pg - {v}"
    using vv by (auto simp: upages_def pte pg_of_pgal)
  have fr: "frame (mem s') pg w = frame (mem s) pg w" if "w \<in> upages (mem s) pg - {v}" for w
    using that upages_pgal [of w "mem s" pg] by (auto simp: frame_def pte)
  note G = vm_growD [OF S(1)]
  have vp': "vm_pages (mem s') pg = vm_pages (mem s) pg"
    using S(1) vp by (auto simp: vm_grow_def vm_pages_def s'_def s1_def)
  have p': "page_ok s' = page_ok s" by (simp add: s'_def s1_def page_ok_def fun_eq_iff)
  have "inj_on (frame (mem s') pg) (upages (mem s') pg)"
    using U(2) fr unfolding up by (auto simp: inj_on_def)
  moreover have "frame (mem s) pg w \<noteq> ?a" if "w \<in> upages (mem s) pg - {v}" for w
    using inj_onD [OF U(2), of w v] that v by auto
  ultimately have "uvm_inv s' pg (?a # xs)"
    using G(2) U fr unfolding uvm_inv_def up vp' p' by (auto simp: s'_def)
  moreover have "mem_only s s'"
    unfolding s'_def s1_def by (rule mem_onlyI [where m = m2 and c = ?a]) simp
  moreover have "pres (mem s') pg = pres (mem s) pg" using S(2) V(2) [OF dj] by (simp add: s'_def s1_def)
  moreover have "mem_frame (insert ?a (vm_pages (mem s) pg)) m1 m2"
    unfolding m2_def using upages_dx [OF v]
    by (intro mem_frame_mono [OF mem_frame_store32]) (auto simp: vm_pages_def tables_def)
  then have "mem_frame (insert ?a (vm_pages (mem s) pg)) (mem s) (mem s')"
    using mem_frame_trans [OF mem_frame_mono [OF f1]] by (auto simp: s'_def)
  moreover have "ent (mem s') pg d = ent (mem s) pg d" if "d < 1024" for d
    using S(4) [OF that] V(1) [OF dj that] by (simp add: s'_def s1_def)
  ultimately show thesis
    using k1 pte vp' by (intro that [of s1 s']) (simp_all add: s'_def m2_def s1_def)
qed

section \<open>\<open>deallocuvm\<close>\<close>

text \<open>
  \<open>unmapped pg R s xs s' ys\<close>: from \<open>s\<close> to \<open>s'\<close> the frames of the pages \<open>R\<close>, listed in \<open>ys\<close>, were
  freed, each once, and their entries cleared; every other entry and every other frame is as before.
\<close>

definition unmapped :: "u32 \<Rightarrow> u32 set \<Rightarrow> 'a vm_scheme \<Rightarrow> u32 list \<Rightarrow> 'a vm_scheme \<Rightarrow> u32 list \<Rightarrow> bool" where
  "unmapped pg R s xs s' ys \<longleftrightarrow> uvm_inv s' pg (ys @ xs) \<and> set ys = frame (mem s) pg ` R \<and> length ys = card R
     \<and> mem_only s s' \<and> pres (mem s') pg = pres (mem s) pg \<and> vm_pages (mem s') pg = vm_pages (mem s) pg
     \<and> (\<forall>d < 1024. ent (mem s') pg d = ent (mem s) pg d)
     \<and> (\<forall>w. pte_at (mem s') pg w = (if pg_of w \<in> R then 0 else pte_at (mem s) pg w))
     \<and> mem_frame (set ys \<union> vm_pages (mem s) pg) (mem s) (mem s')"

lemma unmapped_none: "uvm_inv s pg xs \<Longrightarrow> unmapped pg {} s xs s []"
  by (simp add: unmapped_def)

lemma unmapped_more:
  assumes inv: "uvm_inv s pg xs" and v: "v \<in> upages (mem s) pg" and "v \<notin> R" "R \<subseteq> upages (mem s) pg" "finite R"
    and s': "s' = s1\<lparr>mem := store32 (mem s1) (slot (tbl (mem s) pg (dx v)) (tx v)) 0\<rparr>"
    and k: "kfree (frame (mem s) pg v) s = Inr s1"
    and rest: "unmapped pg R s' (frame (mem s) pg v # xs) s'' ys"
  shows "unmapped pg (insert v R) s xs s'' (ys @ [frame (mem s) pg v])"
proof (rule unmap_page [OF inv v])
  fix t1 t
  assume t: "kfree (frame (mem s) pg v) s = Inr t1"
    "t = t1\<lparr>mem := store32 (mem t1) (slot (tbl (mem s) pg (dx v)) (tx v)) 0\<rparr>"
    "uvm_inv t pg (frame (mem s) pg v # xs)" "mem_only s t" "pres (mem t) pg = pres (mem s) pg"
    "\<And>w. pte_at (mem t) pg w = (if pg_of w = v then 0 else pte_at (mem s) pg w)"
    "vm_pages (mem t) pg = vm_pages (mem s) pg"
    "mem_frame (insert (frame (mem s) pg v) (vm_pages (mem s) pg)) (mem s) (mem t)"
    "\<And>d. d < 1024 \<Longrightarrow> ent (mem t) pg d = ent (mem s) pg d"
  have tt: "t = s'" using t(1,2) k s' by simp
  have "frame (mem t) pg w = frame (mem s) pg w" if "w \<in> R" for w
  proof -
    have "pg_of w \<noteq> v" using that assms(3,4) upages_pgal [of w "mem s" pg] by auto
    then show ?thesis by (simp add: frame_def t(6))
  qed
  then have im: "frame (mem t) pg ` R = frame (mem s) pg ` R" by simp
  let ?P = "insert (frame (mem s) pg v) (frame (mem s) pg ` R \<union> vm_pages (mem s) pg)"
  have "mem_frame ?P (mem s) (mem t)" using t(8) by (rule mem_frame_mono) auto
  moreover have "mem_frame ?P (mem t) (mem s'')"
    using rest im t(7) unfolding tt unmapped_def by (auto intro: mem_frame_mono)
  ultimately have "mem_frame ?P (mem s) (mem s'')" by (rule mem_frame_trans)
  moreover have "mem_only s s''" using t(4) rest unfolding tt unmapped_def by (blast intro: mem_only_trans)
  ultimately show ?thesis
    using rest assms(3,5) im t(5-7,9) unfolding tt unmapped_def by auto
qed

lemma next_directory:
  assumes "va < old" "old \<le> USEREND"
  defines "va' \<equiv> PGADDR (PDX va + 1) 0 0 - PAGESIZE + PAGESIZE"
  shows "pgal va'" "unat va + 4096 \<le> unat va' + 4095" "unat va < unat va'"
    "\<And>v. va \<le> v \<Longrightarrow> v < va' \<Longrightarrow> dx v = dx va" "va \<le> va'"
proof -
  have d: "dx va \<le> 1022"
    using assms(1,2) by (simp add: dx_def word_less_nat_alt word_le_nat_alt)
  have p: "PDX va = of_nat (dx va)" by (simp add: dx_def flip: unat_PDX)
  have "unat va' = unat (push_bit 22 (of_nat (dx va + 1) :: u32))"
    by (simp add: va'_def PGADDR_def p add.commute)
  also have "\<dots> = (dx va + 1) * 4194304"
    using d by (simp add: push_bit_eq_mult unat_word_ariths unat_of_nat32)
  finally have u: "unat va' = (dx va + 1) * 4194304" .
  show "pgal va'" by (simp add: pgal_def u)
  show lt: "unat va < unat va'" by (simp add: u dx_def)
  then show "unat va + 4096 \<le> unat va' + 4095" "va \<le> va'" by (simp_all add: word_le_nat_alt)
  show "dx v = dx va" if "va \<le> v" "v < va'" for v
  proof -
    have "dx va \<le> dx v" using that(1) by (simp add: dx_def word_le_nat_alt div_le_mono)
    moreover have "dx v < dx va + 1"
      using that(2) unfolding word_less_nat_alt u dx_def by (rule less_mult_imp_div_less)
    ultimately show ?thesis by simp
  qed
qed

lemma unmapped_range_step:
  assumes "\<And>v. v \<in> upages m pg \<Longrightarrow> va \<le> v \<Longrightarrow> va' \<le> v" "va \<le> va'"
  shows "{v \<in> upages m pg. va \<le> v \<and> v < old} = {v \<in> upages m pg. va' \<le> v \<and> v < old}"
  using assms by fastforce

text \<open>The page behind a user page, and the rounds left for it.\<close>

lemma next_user_page:
  assumes "pgal va" and "va < USEREND"
  shows "unat va + 4096 < 2 ^ 32" "unat (va + 4096) = unat va + 4096" "pgal (va + 4096)" "va \<le> va + 4096"
    "KERNEND \<le> va \<Longrightarrow> KERNEND \<le> va + 4096" "unat fin + 4096 \<le> unat va + 4096 * Suc n \<Longrightarrow> unat fin + 4096 \<le> unat (va + 4096) + 4096 * n"
proof -
  show l: "unat va + 4096 < 2 ^ 32" and u: "unat (va + 4096) = unat va + 4096"
    using assms(2) unat_add_small [of va 4096] by (simp_all add: word_less_nat_alt)
  show "pgal (va + 4096)" using pgal_add [OF assms(1) l] .
  show "va \<le> va + 4096" "KERNEND \<le> va \<Longrightarrow> KERNEND \<le> va + 4096" using u by (simp_all add: word_le_nat_alt)
  show "unat fin + 4096 \<le> unat va + 4096 * Suc n \<Longrightarrow> unat fin + 4096 \<le> unat (va + 4096) + 4096 * n" using u by simp
qed

lemma next_upage: "pgal va \<Longrightarrow> va < USEREND \<Longrightarrow> v \<in> upages m pg \<Longrightarrow> va \<le> v \<Longrightarrow> v \<noteq> va \<Longrightarrow> va + 4096 \<le> v"
  using next_page_iff [of va v] upages_pgal [of v m pg] next_user_page(1) [of va] by simp

text \<open>
  One round of \<^verbatim>\<open>deallocuvm\<close>: it goes on behind a missing page table, behind a missing page, or behind a page
  that was unmapped.
\<close>

lemma deallocuvm_round:
  assumes i: "uvm_inv s pg xs" and va: "pgal va" "KERNEND \<le> va" and le: "va < old" "old \<le> USEREND"
  obtains (skip) va' where "deallocuvm_loop (Suc n) pg va old s = deallocuvm_loop n pg va' old s" "pgal va'"
      "unat va + 4096 \<le> unat va'" "\<And>v. v \<in> upages (mem s) pg \<Longrightarrow> va \<le> v \<Longrightarrow> va' \<le> v"
  | (unmap) s1 s' where "va \<in> upages (mem s) pg" "kfree (frame (mem s) pg va) s = Inr s1"
      "s' = s1\<lparr>mem := store32 (mem s1) (slot (tbl (mem s) pg (dx va)) (tx va)) 0\<rparr>"
      "deallocuvm_loop (Suc n) pg va old s = deallocuvm_loop n pg (va + 4096) old s'"
proof -
  note inv = uvm_invD [OF i]
  have pg0: "pg \<noteq> 0" using inv(1) by (rule vm_invD)
  have ue: "va < USEREND" using le by simp
  note nx = next_user_page [OF va(1) ue]
  show thesis
  proof (cases "present (ent (mem s) pg (dx va))")
    case no: False
    note N = next_directory [OF le]
    let ?va' = "PGADDR (PDX va + 1) 0 0 - PAGESIZE + PAGESIZE"
    have "?va' \<le> v" if "v \<in> upages (mem s) pg" "va \<le> v" for v
    proof (rule ccontr)
      assume "\<not> ?va' \<le> v"
      then have "v < ?va'" by (simp only: not_le)
      then have "dx v = dx va" by (rule N(4) [OF that(2)])
      then show False using upages_dx [OF that(1)] no by (simp add: pres_def)
    qed
    moreover have "unat va + 4096 \<le> unat ?va'" using N(1,3) va(1) unfolding pgal_def by (auto elim!: dvdE)
    moreover have "deallocuvm_loop (Suc n) pg va old s = deallocuvm_loop n pg ?va' old s"
      using le no pg0 by (simp add: walkpgdir_ent)
    ultimately show thesis using skip N(1) by blast
  next
    case yes: True
    let ?sl = "slot (tbl (mem s) pg (dx va)) (tx va)"
    have d: "dx va \<in> pres (mem s) pg" using yes by (simp add: pres_def)
    have "page_ok s (tbl (mem s) pg (dx va))" using vm_invD(11) [OF inv(1)] tbl_in_tables [OF d] by blast
    then have nz: "?sl \<noteq> 0"
      using page_ok_not_0 [OF vm_invD(8) [OF inv(1)]] page_ok_pgal by (intro slot_not_0) auto
    have w: "walkpgdir pg va False s = Inr (?sl, s)" using yes pg0 by (simp add: walkpgdir_ent tbl_def)
    have ld: "load32 (mem s) ?sl = pte_at (mem s) pg va" using yes by (simp add: pte_at_ent tbl_def ent_def)
    show thesis
    proof (cases "present (pte_at (mem s) pg va)")
      case False
      then have "deallocuvm_loop (Suc n) pg va old s = deallocuvm_loop n pg (va + 4096) old s"
        using le nz w ld by (simp add: present_def)
      moreover have "va + 4096 \<le> v" if "v \<in> upages (mem s) pg" "va \<le> v" for v
        using next_upage [OF va(1) ue that] that False by (auto simp: upages_def)
      ultimately show thesis using skip nx(2,3) by simp
    next
      case pr: True
      then have v: "va \<in> upages (mem s) pg" using va ue by (simp add: upages_def)
      have f0: "frame (mem s) pg va \<noteq> 0" using inv(3) [OF v] page_ok_not_0 [OF vm_invD(8) [OF inv(1)]] by blast
      show thesis
      proof (rule unmap_page [OF i v])
        fix s1 s'
        assume u: "kfree (frame (mem s) pg va) s = Inr s1" "s' = s1\<lparr>mem := store32 (mem s1) ?sl 0\<rparr>"
        have "deallocuvm_loop (Suc n) pg va old s = deallocuvm_loop n pg (va + 4096) old s'"
          using le nz w ld pr f0 u(1) by (simp add: present_def frame_def u(2))
        then show thesis using unmap v u by blast
      qed
    qed
  qed
qed

lemma deallocuvm_loop_unmaps:
  assumes "uvm_inv s pg xs" "pgal va" "KERNEND \<le> va" "old \<le> USEREND"
    "unat old + 4096 \<le> unat va + 4096 * n" "0 < n"
  shows "\<exists>s' ys. deallocuvm_loop n pg va old s = Inr s'
    \<and> unmapped pg {v \<in> upages (mem s) pg. va \<le> v \<and> v < old} s xs s' ys"
  using assms
proof (induction n arbitrary: s xs va)
  case 0
  then show ?case by simp
next
  case (Suc n)
  show ?case
  proof (cases "va < old")
    case False
    then have e: "{v \<in> upages (mem s) pg. va \<le> v \<and> v < old} = {}" by auto
    show ?thesis using False unmapped_none [OF Suc.prems(1)] unfolding e by auto
  next
    case True
    have n: "0 < n" using True Suc.prems(5) by (cases n) (simp_all add: word_less_nat_alt)
    have ue: "va < USEREND" using True Suc.prems(4) by simp
    note nx = next_user_page [OF Suc.prems(2) ue]
    show ?thesis
    proof (rule deallocuvm_round [OF Suc.prems(1-3) True Suc.prems(4), of n])
      fix va'
      assume r: "deallocuvm_loop (Suc n) pg va old s = deallocuvm_loop n pg va' old s" "pgal va'" "unat va + 4096 \<le> unat va'"
        "\<And>v. v \<in> upages (mem s) pg \<Longrightarrow> va \<le> v \<Longrightarrow> va' \<le> v"
      have le: "va \<le> va'" "KERNEND \<le> va'" using r(3) Suc.prems(3) by (auto simp: word_le_nat_alt)
      have "unat old + 4096 \<le> unat va' + 4096 * n" using r(3) Suc.prems(5) by simp
      from Suc.IH [OF Suc.prems(1) r(2) le(2) Suc.prems(4) this n] show ?thesis
        unfolding r(1) using unmapped_range_step [OF r(4) le(1)] by simp
    next
      fix s1 s'
      assume v: "va \<in> upages (mem s) pg" and k: "kfree (frame (mem s) pg va) s = Inr s1"
        "s' = s1\<lparr>mem := store32 (mem s1) (slot (tbl (mem s) pg (dx va)) (tx va)) 0\<rparr>"
        "deallocuvm_loop (Suc n) pg va old s = deallocuvm_loop n pg (va + 4096) old s'"
      show ?thesis
      proof (rule unmap_page [OF Suc.prems(1) v])
        fix t1 t
        assume t: "kfree (frame (mem s) pg va) s = Inr t1"
          "t = t1\<lparr>mem := store32 (mem t1) (slot (tbl (mem s) pg (dx va)) (tx va)) 0\<rparr>"
          "uvm_inv t pg (frame (mem s) pg va # xs)"
          "\<And>w. pte_at (mem t) pg w = (if pg_of w = va then 0 else pte_at (mem s) pg w)"
        have tt: "t = s'" using t(1,2) k by simp
        have up: "upages (mem s') pg = upages (mem s) pg - {va}"
          using Suc.prems(2) by (auto simp: upages_def t(4) [unfolded tt] pg_of_pgal)
        let ?R = "{v \<in> upages (mem s') pg. va + 4096 \<le> v \<and> v < old}"
        have R: "insert va ?R = {v \<in> upages (mem s) pg. va \<le> v \<and> v < old}"
          using next_upage [OF Suc.prems(2) ue] nx(4) v True by (auto simp: up)
        obtain s'' ys where r: "deallocuvm_loop n pg (va + 4096) old s' = Inr s''"
            "unmapped pg ?R s' (frame (mem s) pg va # xs) s'' ys"
          using Suc.IH [OF t(3) [unfolded tt] nx(3) nx(5) [OF Suc.prems(3)] Suc.prems(4) nx(6) [OF Suc.prems(5)] n] by blast
        have "unmapped pg (insert va ?R) s xs s'' (ys @ [frame (mem s) pg va])"
          using r(2) k(1,2) up by (intro unmapped_more [OF Suc.prems(1) v]) auto
        then show ?thesis unfolding R k(3) using r(1) by blast
      qed
    qed
  qed
qed

lemma PGROUNDUP_le_iff:
  assumes "pgal v" "unat new \<le> 0xFFFFF000"
  shows "PGROUNDUP new \<le> v \<longleftrightarrow> new \<le> v"
proof -
  have "(unat new + 4095) div 4096 * 4096 \<le> unat v \<longleftrightarrow> unat new \<le> unat v"
    using assms(1) unfolding pgal_def by (auto elim!: dvdE)
  then show ?thesis by (simp add: word_le_nat_alt unat_PGROUNDUP [OF assms(2)])
qed

lemma deallocuvm_unmaps:
  assumes "uvm_inv s pg xs" "new < old" "KERNEND \<le> new" "old \<le> USEREND"
  shows "\<exists>s' ys. deallocuvm pg old new s = Inr (new, s')
    \<and> unmapped pg {v \<in> upages (mem s) pg. new \<le> v \<and> v < old} s xs s' ys"
proof -
  have n: "unat new \<le> 0xFFFFF000" using assms(2,4) by (simp add: word_less_nat_alt word_le_nat_alt)
  have r: "{v \<in> upages (mem s) pg. PGROUNDUP new \<le> v \<and> v < old} = {v \<in> upages (mem s) pg. new \<le> v \<and> v < old}"
    using PGROUNDUP_le_iff [OF _ n] upages_pgal by blast
  have "unat new \<le> unat (PGROUNDUP new)" using unat_PGROUNDUP [OF n] by simp
  then have k: "KERNEND \<le> PGROUNDUP new" using assms(3) by (simp add: word_le_nat_alt)
  have f: "unat old + 4096 \<le> unat (PGROUNDUP new) + 4096 * Suc n_pages"
    using unat32_lt [of old] by (simp add: n_pages_def)
  obtain s' ys where l: "deallocuvm_loop (Suc n_pages) pg (PGROUNDUP new) old s = Inr s'"
      "unmapped pg {v \<in> upages (mem s) pg. new \<le> v \<and> v < old} s xs s' ys"
    using deallocuvm_loop_unmaps [OF assms(1) pgal_PGROUNDUP k assms(4) f] unfolding r by blast
  have "\<not> old \<le> new" using assms(2) by simp
  then have "deallocuvm pg old new s = Inr (new, s')" unfolding deallocuvm_def l(1) by simp
  with l(2) show ?thesis by blast
qed

section \<open>\<open>freevm\<close>\<close>

lemma kfree_frame:
  assumes "kmem_inv s xs" "page_ok s a" "a \<notin> set xs"
  obtains s' where "kfree a s = Inr s'" "kmem_inv s' (a # xs)" "mem_only s s'" "mem_frame {a} (mem s) (mem s')"
proof -
  let ?m = "store32 (memset a 0 0x1000 (mem s)) a (coremap s)"
  have "cli_ok s" "pgal a" using assms by (simp_all add: kmem_inv_def page_ok_def)
  then have "kfree a s = Inr (s\<lparr>mem := ?m, coremap := a\<rparr>)" "mem_frame {a} (mem s) ?m"
    using kfree_eq assms(2) kfree_mem_other pg_of_iff by (auto simp: mem_frame_def)
  then show thesis using kmem_inv_kfree [OF assms] mem_onlyI by (intro that) auto
qed

lemma freevm_loop_frees:
  assumes "kmem_inv s xs" "pgal pg" "distinct is" "set is \<subseteq> {..<1024}"
    and "inj_on (tbl (mem s) pg) (pres (mem s) pg \<inter> set is)"
    and "\<And>d. d \<in> pres (mem s) pg \<inter> set is \<Longrightarrow>
      page_ok s (tbl (mem s) pg d) \<and> tbl (mem s) pg d \<notin> set xs \<and> tbl (mem s) pg d \<noteq> pg"
  shows "\<exists>s' ys. freevm_loop pg is s = Inr s' \<and> kmem_inv s' (ys @ xs) \<and> mem_only s s'
    \<and> set ys = tbl (mem s) pg ` (pres (mem s) pg \<inter> set is) \<and> mem_frame (set ys) (mem s) (mem s')"
  using assms
proof (induction "is" arbitrary: s xs)
  case Nil
  then show ?case by auto
next
  case (Cons i js)
  have e: "load32 (mem s) (pg + 4 * of_nat i) = ent (mem s) pg i" by (simp add: ent_def slot_def)
  show ?case
  proof (cases "present (ent (mem s) pg i)")
    case False
    then have "pres (mem s) pg \<inter> set (i # js) = pres (mem s) pg \<inter> set js" by (auto simp: pres_def)
    moreover have "freevm_loop pg (i # js) s = freevm_loop pg js s"
      using False by (simp add: e present_def)
    ultimately show ?thesis using Cons by auto
  next
    case True
    let ?t = "tbl (mem s) pg"
    have i: "i \<in> pres (mem s) pg" using True Cons.prems(4) by (auto simp: pres_def)
    then have a: "page_ok s (?t i)" "?t i \<notin> set xs" "?t i \<noteq> pg" using Cons.prems(6) [of i] by auto
    obtain s1 where s1: "kfree (?t i) s = Inr s1" "kmem_inv s1 (?t i # xs)" "mem_only s s1"
        "mem_frame {?t i} (mem s) (mem s1)"
      using kfree_frame [OF Cons.prems(1) a(1,2)] by blast
    have ee: "ent (mem s1) pg d = ent (mem s) pg d" if "d < 1024" for d
      using mem_frame_ent [OF s1(4) Cons.prems(2) _ that] a(3) by simp
    have p1: "pres (mem s1) pg = pres (mem s) pg" by (auto simp: pres_def ee)
    have t1: "tbl (mem s1) pg d = ?t d" if "d \<in> pres (mem s) pg" for d
      using that by (simp add: tbl_def ee pres_def)
    have ij: "inj_on (tbl (mem s1) pg) (pres (mem s1) pg \<inter> set js)"
      using Cons.prems(5) by (auto simp: inj_on_def p1 t1)
    have "?t d \<noteq> ?t i" if "d \<in> pres (mem s) pg \<inter> set js" for d
      using inj_onD [OF Cons.prems(5), of d i] that i Cons.prems(3) by auto
    then have pk: "page_ok s1 (tbl (mem s1) pg d) \<and> tbl (mem s1) pg d \<notin> set (?t i # xs) \<and> tbl (mem s1) pg d \<noteq> pg"
      if "d \<in> pres (mem s1) pg \<inter> set js" for d
      using that Cons.prems(6) [of d] mem_only_sel(7) [OF s1(3)] by (auto simp: p1 t1)
    obtain s2 ys where s2: "freevm_loop pg js s1 = Inr s2" "kmem_inv s2 (ys @ ?t i # xs)" "mem_only s1 s2"
        "set ys = tbl (mem s1) pg ` (pres (mem s1) pg \<inter> set js)" "mem_frame (set ys) (mem s1) (mem s2)"
      using Cons.IH [OF s1(2) Cons.prems(2) _ _ ij pk] Cons.prems(3,4) by auto
    have ys: "set ys = ?t ` (pres (mem s) pg \<inter> set js)" unfolding s2(4) p1 by (rule image_cong) (auto simp: t1)
    have "freevm_loop pg (i # js) s = Inr s2"
      using True s1(1) s2(1) by (simp add: e present_def tbl_def)
    moreover have "set (ys @ [?t i]) = ?t ` (pres (mem s) pg \<inter> set (i # js))" using ys i by auto
    moreover have "mem_frame (set (ys @ [?t i])) (mem s) (mem s1)" using s1(4) by (rule mem_frame_mono) simp
    then have "mem_frame (set (ys @ [?t i])) (mem s) (mem s2)"
      by (rule mem_frame_trans) (rule mem_frame_mono [OF s2(5)], auto)
    moreover have "mem_only s s2" using s1(3) s2(3) by (rule mem_only_trans)
    ultimately show ?thesis using s2(2) by (intro exI [of _ s2] exI [of _ "ys @ [?t i]"]) simp
  qed
qed

text \<open>What \<^verbatim>\<open>freevm\<close> returns to the free list: the user frames, the page tables from 256 on, the directory.\<close>

lemma freevm_frees:
  assumes inv: "uvm_inv s pg xs"
  obtains s' ys where "freevm pg s = Inr s'" "kmem_inv s' (ys @ xs)" "mem_only s s'"
    "set ys = insert pg (frame (mem s) pg ` upages (mem s) pg \<union> tbl (mem s) pg ` (pres (mem s) pg \<inter> {256..<1024}))"
    "mem_frame (set ys \<union> vm_pages (mem s) pg) (mem s) (mem s')"
proof -
  note D = vm_invD [OF uvm_invD(1) [OF inv]]
  have R: "{v \<in> upages (mem s) pg. KERNEND \<le> v \<and> v < USEREND} = upages (mem s) pg"
    by (auto simp: upages_def)
  obtain s1 ys where s1: "deallocuvm pg USEREND KERNEND s = Inr (KERNEND, s1)"
      "unmapped pg (upages (mem s) pg) s xs s1 ys"
    using deallocuvm_unmaps [OF inv, of KERNEND USEREND] unfolding R by auto
  have i1: "vm_inv s1 pg (ys @ xs)" and p1: "pres (mem s1) pg = pres (mem s) pg"
    and vp: "vm_pages (mem s1) pg = vm_pages (mem s) pg" and y1: "set ys = frame (mem s) pg ` upages (mem s) pg"
    and m1: "mem_only s s1" and f1: "mem_frame (set ys \<union> vm_pages (mem s) pg) (mem s) (mem s1)"
    using s1(2) unfolding unmapped_def by (blast intro: uvm_invD(1))+
  note E = vm_invD [OF i1]
  have t1: "tbl (mem s1) pg d = tbl (mem s) pg d" if "d < 1024" for d
    using s1(2) that by (simp add: unmapped_def tbl_def)
  let ?Q = "pres (mem s1) pg \<inter> set [256..<1024]"
  have ij: "inj_on (tbl (mem s1) pg) ?Q" using E(13) by (rule inj_on_subset) simp
  have pk: "page_ok s1 (tbl (mem s1) pg d) \<and> tbl (mem s1) pg d \<notin> set (ys @ xs) \<and> tbl (mem s1) pg d \<noteq> pg"
    if "d \<in> ?Q" for d
  proof -
    have "tbl (mem s1) pg d \<in> tables (mem s1) pg" using that by (intro tbl_in_tables) simp
    then show ?thesis using E(4,11,12) by metis
  qed
  have is1: "distinct [256..<1024::nat]" "set [256..<1024::nat] \<subseteq> {..<1024}"
    unfolding set_upt by (rule distinct_upt, auto)
  obtain s2 zs where s2: "freevm_loop pg [256..<1024] s1 = Inr s2" "kmem_inv s2 (zs @ ys @ xs)" "mem_only s1 s2"
      "set zs = tbl (mem s1) pg ` ?Q" "mem_frame (set zs) (mem s1) (mem s2)"
    using freevm_loop_frees [OF E(1,5) is1 ij pk] by blast
  have zt: "set zs \<subseteq> tables (mem s1) pg" 
    unfolding s2(4) tables_def by (rule image_mono) (rule Int_lower1)
  then have g: "pg \<notin> set (zs @ ys @ xs)" "page_ok s2 pg"
    using E(2,3,4) mem_only_sel(7) [OF s2(3)] by auto
  obtain s3 where s3: "kfree pg s2 = Inr s3" "kmem_inv s3 (pg # zs @ ys @ xs)" "mem_only s2 s3"
      "mem_frame {pg} (mem s2) (mem s3)"
    using kfree_frame [OF s2(2) g(2,1)] by blast
  have zs: "set zs = tbl (mem s) pg ` (pres (mem s) pg \<inter> {256..<1024})"
    unfolding s2(4) p1 set_upt by (rule image_cong) (auto simp: t1)
  show thesis
  proof (rule that [of s3 "pg # zs @ ys"])
    show "freevm pg s = Inr s3" using D(6) s1(1) s2(1) s3(1) by (simp add: freevm_def)
    show "kmem_inv s3 ((pg # zs @ ys) @ xs)" using s3(2) by simp
    show "mem_only s s3" using m1 s2(3) s3(3) mem_only_trans by blast
    show "set (pg # zs @ ys) = insert pg (frame (mem s) pg ` upages (mem s) pg
        \<union> tbl (mem s) pg ` (pres (mem s) pg \<inter> {256..<1024}))" using zs y1 by auto
    let ?P = "set (pg # zs @ ys) \<union> vm_pages (mem s) pg"
    have "mem_frame ?P (mem s) (mem s1)" using f1 by (rule mem_frame_mono) auto
    moreover have "mem_frame ?P (mem s1) (mem s2)" using s2(5) by (rule mem_frame_mono) auto
    moreover have "mem_frame ?P (mem s2) (mem s3)" using s3(4) by (rule mem_frame_mono) auto
    ultimately show "mem_frame ?P (mem s) (mem s3)" using mem_frame_trans by blast
  qed
qed

section \<open>Mapping one page\<close>

lemma pgal_eqI: "pgal p \<Longrightarrow> pgal q \<Longrightarrow> p \<le> q \<Longrightarrow> unat q < unat p + 4096 \<Longrightarrow> p = q"
  unfolding pgal_def by (auto elim!: dvdE simp: word_le_nat_alt word_unat_eq_iff)

lemma user_page_lt:
  assumes "pgal v" "v < USEREND"
  shows "unat v + unat (0x1000 :: u32) < 2 ^ 32" "unat (v + 0x1000) = unat v + 4096"
    "pgal q \<Longrightarrow> v \<le> q \<and> q < v + 0x1000 \<longleftrightarrow> q = v"
proof -
  show "unat v + unat (0x1000 :: u32) < 2 ^ 32" using assms(2) by (simp add: word_less_nat_alt)
  then show u: "unat (v + 0x1000) = unat v + 4096" using unat_add_small [of v 4096] by simp
  show "v \<le> q \<and> q < v + 0x1000 \<longleftrightarrow> q = v" if "pgal q"
    using pgal_eqI [OF assms(1) that] u by (auto simp: word_less_nat_alt)
qed

lemma dxs_page:
  assumes "pgal v" "v < USEREND"
  shows "dxs v (v + 0x1000) = {dx v}"
proof -
  note U = user_page_lt [OF assms]
  have "dx w = dx v" if "v \<le> w" "w < v + 0x1000" for w
  proof -
    have "unat (w - v) = unat w - unat v" using that(1) by (rule unat_sub)
    moreover have "unat w < unat v + 4096" using that(2) U(2) by (simp add: word_less_nat_alt)
    ultimately have "unat (w - v) < 4096" by simp
    then have "pg_of w = v" using pg_of_iff [OF assms(1), of w] by (simp add: word_less_nat_alt)
    then show ?thesis using pg_of_pgal [OF assms(1)] pg_of_eq_iff [of w v] by simp
  qed
  then have "dxs v (v + 0x1000) \<subseteq> {dx v}" unfolding dxs_def by blast
  moreover have "v < v + 0x1000" using U(2) by (simp add: word_less_nat_alt)
  then have "dx v \<in> dxs v (v + 0x1000)" unfolding dxs_def by blast
  ultimately show ?thesis by blast
qed

lemma map_upto_page:
  assumes "map_upto m pg v (v + 0x1000) pa flags m'" "pgal v" "v < USEREND"
  shows "pte_at m' pg w = (if pg_of w = v then pa OR flags OR 1 else pte_at m pg w)"
  using assms user_page_lt(3) [OF assms(2,3) pgal_pg_of, of w] by (auto simp: map_upto_def)

lemma upages_set:
  assumes "\<And>w. pte_at m' pg w = (if pg_of w = v then e else pte_at m pg w)"
    and "present e" "pgal v" "KERNEND \<le> v" "v < USEREND"
  shows "upages m' pg = insert v (upages m pg)"
  using assms by (auto simp: upages_def pg_of_pgal)

text \<open>A free frame \<open>x\<close> becomes the user page \<open>v\<close>, or there is no page left for its table.\<close>

lemma map_user_page:
  assumes inv: "uvm_inv s pg xs" and x: "page_ok s x" "x \<notin> set xs" "x \<notin> vm_pages (mem s) pg"
      "x \<notin> frame (mem s) pg ` upages (mem s) pg"
    and v: "pgal v" "KERNEND \<le> v" "v < USEREND" "v \<notin> upages (mem s) pg" and fl: "unat flags < 4096"
  obtains (ok) s' xs' where "mappages pg v 0x1000 x flags s = Inr (0, s')" "uvm_inv s' pg xs'" "mem_only s s'"
      "\<And>w. pte_at (mem s') pg w = (if pg_of w = v then x OR flags OR 1 else pte_at (mem s) pg w)"
      "upages (mem s') pg = insert v (upages (mem s) pg)" "frame (mem s') pg v = x"
      "set xs' \<subseteq> set xs" "vm_pages (mem s') pg \<union> set xs' = vm_pages (mem s) pg \<union> set xs"
      "length xs = length xs' + card ({dx v} - pres (mem s) pg)" "mem_frame (vm_pages (mem s) pg \<union> set xs) (mem s) (mem s')"
      "pres (mem s') pg = insert (dx v) (pres (mem s) pg)"
  | (full) s' where "xs = []" "dx v \<notin> pres (mem s) pg" "mappages pg v 0x1000 x flags s = Inr (- 1, s')" "uvm_inv s' pg []" "mem_only s s'"
      "\<And>w. pte_at (mem s') pg w = pte_at (mem s) pg w" "vm_pages (mem s') pg = vm_pages (mem s) pg"
      "mem_frame (vm_pages (mem s) pg) (mem s) (mem s')" "pres (mem s') pg = pres (mem s) pg"
proof -
  note U = uvm_invD [OF inv]
  note P = user_page_lt [OF v(1,3)]
  have sz: "pgal 0x1000" "(0 :: u32) < 0x1000" by (simp_all add: pgal_def)
  have card1: "card (dxs v (v + 0x1000) - A) \<le> 1" for A
    unfolding dxs_page [OF v(1,3)] by (rule order.trans [OF card_mono, of "{dx v}"]) auto
  have np: "\<not> present (pte_at (mem s) pg w)" if "v \<le> pg_of w" "pg_of w < v + 0x1000" for w
  proof -
    have "pg_of w = v" using P(3) [OF pgal_pg_of] that by blast
    then have "pte_at (mem s) pg w = pte_at (mem s) pg v"
      using v(1) pg_of_eq_iff [of w v] by (simp add: pg_of_pgal pte_at_ent)
    then show ?thesis using v by (simp add: upages_def)
  qed
  have xp: "pgal x" using x(1) by (rule page_ok_pgal)
  have e: "PTE_ADDR (x OR flags OR 1) = x" "present (x OR flags OR 1)"
  proof -
    have "unat (flags OR 1) < 4096"
    proof -
      have "take_bit 12 flags = flags"
        using fl by (simp add: take_bit_eq_mod word_unat_eq_iff unat_mod_distrib)
      then have "unat (flags OR 1) = unat (take_bit 12 (flags OR 1))" by simp
      also have "\<dots> = take_bit 12 (unat (flags OR 1))" by (rule unsigned_take_bit_eq)
      finally show ?thesis using take_bit_nat_less_exp [of 12 "unat (flags OR 1)"] by simp
    qed
    then show "PTE_ADDR (x OR flags OR 1) = x" using PTE_ADDR_or [OF xp, of "flags OR 1"] by simp
    show "present (x OR flags OR 1)" by (auto simp: present_def bit_eq_iff bit_simps intro!: exI [of _ 0])
  qed
  have keep: "uvm_inv s' pg xs'" "upages (mem s') pg = A"
    if g: "vm_grow pg s xs s' xs'" and A: "upages (mem s') pg = A"
      and fr: "\<And>w. w \<in> A \<Longrightarrow> frame (mem s') pg w = (if w \<in> upages (mem s) pg then frame (mem s) pg w else x)"
      and un: "A \<subseteq> insert v (upages (mem s) pg)" for s' xs' A
  proof -
    note G = vm_growD [OF g]
    have vp: "frame (mem s) pg w \<notin> vm_pages (mem s') pg" if "w \<in> upages (mem s) pg" for w
      using U(4,5) [OF that] G(7) by blast
    have xv: "x \<notin> vm_pages (mem s') pg" using x(2,3) G(7) by blast
    have "w = v" if "w \<in> A" "w \<notin> upages (mem s) pg" for w using that un by blast
    then have "inj_on (frame (mem s') pg) A"
      using inj_onD [OF U(2)] x(4) fr by (intro inj_onI) (metis imageI)
    then show "uvm_inv s' pg xs'"
      using G(2,3) U(3,4) vp xv x(1,2) fr mem_only_sel(7) [OF G(1)]
      unfolding uvm_inv_def A by auto
    show "upages (mem s') pg = A" by (rule A)
  qed
  show thesis
  proof (rule mappages_cases [OF U(1) xp fl v(1) sz P(1)], goal_cases)
    case (1 w)
    then show ?case using np by blast
  next
    case (2 s' xs')
    note G = vm_growD [OF 2(2)]
    have pte: "pte_at (mem s') pg w = (if pg_of w = v then x OR flags OR 1 else pte_at (mem s) pg w)" for w
      using 2(3) v(1,3) by (rule map_upto_page)
    have up: "upages (mem s') pg = insert v (upages (mem s) pg)"
      using pte e(2) v(1-3) by (rule upages_set)
    have fr: "frame (mem s') pg w = (if w \<in> upages (mem s) pg then frame (mem s) pg w else x)"
      if "w \<in> insert v (upages (mem s) pg)" for w
      using that v(1,4) e(1) upages_pgal [of w "mem s" pg] by (auto simp: frame_def pte pg_of_pgal)
    have "insert (dx v) (pres (mem s) pg) - pres (mem s) pg = {dx v} - pres (mem s) pg" by blast
    then have "length xs = length xs' + card ({dx v} - pres (mem s) pg)"
      using G(6) 2(4) dxs_page [OF v(1,3)] by simp
    then show ?case
      using 2 G pte up keep [OF 2(2) up fr] v fr [of v] dxs_page [OF v(1,3)]
      by (intro ok [of s' xs']) simp_all
  next
    case (3 s' k)
    have "length xs < 1" using card1 [of "pres (mem s) pg"] 3(7) by linarith
    then have n: "xs = []" by simp
    have "{dx v} - pres (mem s) pg \<noteq> {}" using 3(7) dxs_page [OF v(1,3)] by (metis card.empty not_less0)
    then have d: "dx v \<notin> pres (mem s) pg" by blast
    have "k = v" using P(3) 3(3,4,5) by blast
    then have pte: "pte_at (mem s') pg w = pte_at (mem s) pg w" for w using 3(6) by (auto simp: map_upto_def)
    then have up: "upages (mem s') pg = upages (mem s) pg" by (simp add: upages_def)
    note G = vm_growD [OF 3(2)]
    have "card (pres (mem s') pg - pres (mem s) pg) = 0" using G(6) n by simp
    then have "pres (mem s') pg = pres (mem s) pg" using G(4) by (simp add: subset_antisym)
    then show ?case
      using 3(1) G pte n d keep(1) [OF 3(2) up] by (intro full [of s']) (simp_all add: frame_def subset_insertI)
  qed
qed

section \<open>A new address space\<close>

lemma setupkvm_space:
  assumes "kmem_inv s (x # xs)" and "kvm_ok s" and "128 \<le> length xs"
  obtains s' xs' where "setupkvm s = Inr (x, s')" "uvm_inv s' x xs'" "mem_only s s'"
    "length xs = length xs' + 128" "pres (mem s') x = {..<128}" "upages (mem s') x = {}"
    "mem_frame (set (x # xs)) (mem s) (mem s')" "vm_pages (mem s') x \<union> set xs' = set (x # xs)"
    "\<And>v. pte_at (mem s') x v = (if pg_of v < MEMSIZE then pg_of v OR kflag (kmaps s) (pg_of v) OR PTE_P else 0)"
proof (rule setupkvm_ok [OF assms])
  fix s' xs'
  assume r: "setupkvm s = Inr (x, s')" "vm_inv s' x xs'" "mem_only s s'" "length xs = length xs' + 128"
    "pres (mem s') x = {..<128}" "mem_frame (set (x # xs)) (mem s) (mem s')"
    "vm_pages (mem s') x \<union> set xs' = set (x # xs)"
    "\<And>v. pte_at (mem s') x v = (if pg_of v < MEMSIZE then pg_of v OR kflag (kmaps s) (pg_of v) OR PTE_P else 0)"
  have "\<not> v < MEMSIZE" if "KERNEND \<le> v" for v :: u32
    using that by (simp add: word_le_nat_alt word_less_nat_alt)
  then have "upages (mem s') x = {}" using r(8) by (auto simp: upages_def pg_of_pgal)
  then show thesis using r by (intro that [of s' xs']) (auto simp: uvm_inv_def)
qed

lemma ex_space:
  obtains s pg s' xs where "free_all kfree ex_free ex_vm = Inr s" "setupkvm s = Inr (pg, s')"
    "uvm_inv s' pg xs" "upages (mem s') pg = {}" "pres (mem s') pg = {..<128}" "length xs = 130431"
    "con_ok s'" "kvm_ok s'"
    "\<And>v. pte_at (mem s') pg v = (if pg_of v < MEMSIZE then pg_of v OR kflag (kmaps s') (pg_of v) OR PTE_P else 0)"
proof (rule ex_vm_free)
  fix s
  assume s: "free_all kfree ex_free ex_vm = Inr s" "kmem_inv s (rev ex_free)" "kvm_ok s" "con_ok s"
    "length ex_free = 130560"
  obtain x xs where x: "rev ex_free = x # xs" "length xs = 130559"
    using s(5) by (cases "rev ex_free") (auto dest: arg_cong [of _ _ length])
  show thesis
  proof (rule setupkvm_space [OF s(2) [unfolded x(1)] s(3)])
    fix s' xs'
    assume r: "setupkvm s = Inr (x, s')" "uvm_inv s' x xs'" "mem_only s s'" "length xs = length xs' + 128"
      "pres (mem s') x = {..<128}" "upages (mem s') x = {}"
      "\<And>v. pte_at (mem s') x v = (if pg_of v < MEMSIZE then pg_of v OR kflag (kmaps s) (pg_of v) OR PTE_P else 0)"
    then show thesis using s x mem_only_sel [OF r(3)] by (intro that [of s x s' xs']) (simp_all add: kvm_ok_def)
  qed (use x in simp)
qed

section \<open>Properties\<close>

text \<open>
  C17: shrinking. For a well-formed address space \<^verbatim>\<open>deallocuvm\<close> terminates and frees exactly the mapped
  pages of the range, each once, clears their entries, and changes no other entry and no byte of any
  other page but the page tables; missing page tables are skipped.
\<close>

theorem deallocuvm_frees_range:
  assumes "uvm_inv s pg xs" "KERNEND \<le> new" "new < old" "old \<le> USEREND"
  shows "\<exists>s' ys. deallocuvm pg old new s = Inr (new, s') \<and> uvm_inv s' pg (ys @ xs)
    \<and> set ys = frame (mem s) pg ` {v \<in> upages (mem s) pg. new \<le> v \<and> v < old}
    \<and> length ys = card {v \<in> upages (mem s) pg. new \<le> v \<and> v < old}
    \<and> (\<forall>w. pte_at (mem s') pg w =
         (if pg_of w \<in> {v \<in> upages (mem s) pg. new \<le> v \<and> v < old} then 0 else pte_at (mem s) pg w))
    \<and> mem_frame (set ys \<union> vm_pages (mem s) pg) (mem s) (mem s')"
  using deallocuvm_unmaps [OF assms(1,3,2,4)] unfolding unmapped_def by blast

text \<open>
  C18: freeing an address space. \<^verbatim>\<open>freevm\<close> returns the user frames, the page tables of the directory
  entries from 256 on and the directory to the free list, and nothing else: the page tables of the
  kernel part, entries 0 to 255, are never freed.
\<close>

theorem freevm_frees_user_part:
  assumes "uvm_inv s pg xs"
  shows "\<exists>s' xs'. freevm pg s = Inr s' \<and> kmem_inv s' xs'
    \<and> set xs' = set xs \<union> {pg} \<union> frame (mem s) pg ` upages (mem s) pg
        \<union> tbl (mem s) pg ` (pres (mem s) pg \<inter> {256..<1024})
    \<and> (\<forall>d \<in> pres (mem s) pg. d < 256 \<longrightarrow> tbl (mem s) pg d \<notin> set xs')"
proof (rule freevm_frees [OF assms])
  fix s' ys
  let ?A = "frame (mem s) pg ` upages (mem s) pg \<union> tbl (mem s) pg ` (pres (mem s) pg \<inter> {256..<1024})"
  assume f: "freevm pg s = Inr s'" "kmem_inv s' (ys @ xs)" "set ys = insert pg ?A"
  note U = uvm_invD [OF assms]
  note D = vm_invD [OF U(1)]
  have "tbl (mem s) pg d \<notin> set (ys @ xs)" if d: "d \<in> pres (mem s) pg" "d < 256" for d
  proof
    have t: "tbl (mem s) pg d \<in> tables (mem s) pg" using d(1) by (rule tbl_in_tables)
    assume "tbl (mem s) pg d \<in> set (ys @ xs)"
    then consider "tbl (mem s) pg d \<in> set xs" | "tbl (mem s) pg d = pg"
      | v where "v \<in> upages (mem s) pg" "frame (mem s) pg v = tbl (mem s) pg d"
      | e where "e \<in> pres (mem s) pg" "256 \<le> e" "tbl (mem s) pg e = tbl (mem s) pg d"
      using f(3) by fastforce
    then show False
      by cases (use t D(4,12) U(5) inj_onD [OF D(13)] d in \<open>auto simp: vm_pages_def\<close>, fastforce+)
  qed
  then show ?thesis using f by (intro exI [of _ s'] exI [of _ "ys @ xs"]) auto
qed

text \<open>
  Building an address space and freeing it again loses 128 pages, half a megabyte, each time.
\<close>

theorem setupkvm_freevm_leaks:
  assumes "kmem_inv s xs" and "kvm_ok s" and "129 \<le> length xs"
  shows "\<exists>pg s' s'' ys. setupkvm s = Inr (pg, s') \<and> freevm pg s' = Inr s'' \<and> kmem_inv s'' ys
    \<and> length ys + 128 = length xs"
proof -
  obtain x zs where xs: "xs = x # zs" "128 \<le> length zs" using assms(3) by (cases xs) auto
  show ?thesis
  proof (rule setupkvm_space [OF assms(1) [unfolded xs(1)] assms(2) xs(2)])
    fix s' ys
    assume r: "setupkvm s = Inr (x, s')" "uvm_inv s' x ys" "length zs = length ys + 128"
      "pres (mem s') x = {..<128}" "upages (mem s') x = {}"
    show ?thesis
    proof (rule freevm_frees [OF r(2)])
      fix s'' us
      assume f: "freevm x s' = Inr s''" "kmem_inv s'' (us @ ys)"
        "set us = insert x (frame (mem s') x ` upages (mem s') x \<union> tbl (mem s') x ` (pres (mem s') x \<inter> {256..<1024}))"
      have "set us = {x}" using f(3) r(4,5) by auto
      moreover have "distinct us" using f(2) by (simp add: kmem_inv_def)
      ultimately have "length us = 1" using distinct_card [of us] by simp
      then show ?thesis
        using r f xs(1) by (intro exI [of _ x] exI [of _ s'] exI [of _ s''] exI [of _ "us @ ys"]) simp
    qed
  qed
qed

theorem setupkvm_freevm_leaks_witness:
  "\<exists>s pg s' s'' ys. free_all kfree ex_free ex_vm = Inr s \<and> setupkvm s = Inr (pg, s')
    \<and> freevm pg s' = Inr s'' \<and> kmem_inv s'' ys \<and> length ys = 130560 - 128"
proof (rule ex_vm_free)
  fix s
  assume s: "free_all kfree ex_free ex_vm = Inr s" "kmem_inv s (rev ex_free)" "kvm_ok s"
    "length ex_free = 130560"
  show ?thesis using setupkvm_freevm_leaks [OF s(2,3)] s(1,4) by auto
qed

end
