(* ===== verification/Mix_VmAlloc.thy ===== *)
theory Mix_VmAlloc
  imports Mix_VmUser
begin

text \<open>
  How \<^verbatim>\<open>allocuvm\<close> grows the user part of an address space, and gives everything back when it fails.
\<close>

section \<open>Frames of the user part\<close>

lemma uvm_frame:
  assumes inv: "uvm_inv s pg xs" and f: "mem_frame P (mem s) m'" and "P \<inter> vm_pages (mem s) pg = {}" "P \<inter> set xs = {}"
  shows "uvm_inv (s\<lparr>mem := m'\<rparr>) pg xs" "upages m' pg = upages (mem s) pg" "frame m' pg = frame (mem s) pg"
    "pte_at m' pg = pte_at (mem s) pg" "vm_pages m' pg = vm_pages (mem s) pg" "pres m' pg = pres (mem s) pg"
proof -
  note U = uvm_invD [OF inv]
  note V = vm_view_frame [OF f assms(3) vm_invD(5) [OF U(1)]]
  show p: "pte_at m' pg = pte_at (mem s) pg" using V(4) by blast
  show u: "upages m' pg = upages (mem s) pg" by (simp add: upages_def p)
  show fr: "frame m' pg = frame (mem s) pg" by (simp add: frame_def p fun_eq_iff)
  show vp: "vm_pages m' pg = vm_pages (mem s) pg" by (simp add: vm_pages_def V(3))
  show "pres m' pg = pres (mem s) pg" by (rule V(2))
  show "uvm_inv (s\<lparr>mem := m'\<rparr>) pg xs"
    using vm_inv_frame [OF U(1) f assms(3,4)] inv by (simp add: uvm_inv_def u fr vp page_ok_def)
qed

lemma uvm_same:
  assumes "uvm_inv s pg xs" "mem s' = mem s" "page_ok s' = page_ok s" "kmem_inv s' xs"
  shows "uvm_inv s' pg xs"
  using assms by (simp add: uvm_inv_def vm_inv_def)

text \<open>Taking the next free page and writing to it only.\<close>

lemma take_page:
  assumes inv: "uvm_inv s pg (x # xs)" and f: "mem_frame {x} (mem s) m'"
  obtains s0 where "kalloc s = Inr (x, s0)" "mem s0 = mem s" "mem_only s s0" "uvm_inv (s0\<lparr>mem := m'\<rparr>) pg xs"
    "page_ok s x" "x \<noteq> 0" "x \<notin> set xs" "x \<notin> vm_pages (mem s) pg" "x \<notin> frame (mem s) pg ` upages (mem s) pg"
    "upages m' pg = upages (mem s) pg" "frame m' pg = frame (mem s) pg" "pte_at m' pg = pte_at (mem s) pg"
    "vm_pages m' pg = vm_pages (mem s) pg" "pres m' pg = pres (mem s) pg"
proof -
  note U = uvm_invD [OF inv]
  note D = vm_invD [OF U(1)]
  note k = kmem_inv_kalloc [OF D(1)]
  define s0 where "s0 = s\<lparr>coremap := load32 (mem s) x\<rparr>"
  have xv: "x \<notin> vm_pages (mem s) pg" using D(3,12) by (auto simp: vm_pages_def)
  have i0: "uvm_inv s0 pg xs"
    using inv k(3) by (auto simp: s0_def uvm_inv_def vm_inv_def page_ok_def)
  note F = uvm_frame [OF i0, of "{x}" m']
  have "kalloc s = Inr (x, s0)" using k D(7) by (simp add: kalloc_eq s0_def)
  moreover have "mem_only s s0" unfolding s0_def by (rule mem_onlyI [where m = "mem s"]) simp
  moreover have "x \<notin> frame (mem s) pg ` upages (mem s) pg" using U(4) by fastforce
  ultimately show thesis
    using F f k xv by (intro that [of s0]) (simp_all add: s0_def)
qed

text \<open>Printing writes to the screen, a page outside every address space.\<close>

lemma con_only_frame: "con_only s s' \<Longrightarrow> mem_frame {CGAADDR} (mem s) (mem s')"
  unfolding mem_frame_def
proof (intro allI impI)
  fix a
  assume c: "con_only s s'" and a: "pg_of a \<notin> {CGAADDR}"
  have "\<not> on_screen a"
  proof
    assume "on_screen a"
    then have "a - CGAADDR < 0x1000" by (simp add: on_screen_def word_less_nat_alt)
    then have "pg_of a = CGAADDR" using pg_of_iff [of CGAADDR a] by (simp add: pgal_def)
    with a show False by simp
  qed
  then show "mem s' a = mem s a" by (rule con_only_mem [OF c])
qed

lemma page_ok_not_screen: "kern_ok s \<Longrightarrow> page_ok s a \<Longrightarrow> a \<noteq> CGAADDR"
  by (auto simp: kern_ok_def page_ok_def word_le_nat_alt)

lemma con_only_uvm:
  assumes inv: "uvm_inv s pg xs" and c: "con_only s s'"
  shows "uvm_inv s' pg xs" "upages (mem s') pg = upages (mem s) pg" "frame (mem s') pg = frame (mem s) pg"
    "pte_at (mem s') pg = pte_at (mem s) pg" "vm_pages (mem s') pg = vm_pages (mem s) pg"
    "pres (mem s') pg = pres (mem s) pg"
proof -
  note D = vm_invD [OF uvm_invD(1) [OF inv]]
  have "CGAADDR \<notin> vm_pages (mem s) pg" "CGAADDR \<notin> set xs"
    using page_ok_not_screen [OF D(8)] D(1,2,11) by (auto simp: vm_pages_def kmem_inv_def)
  then have dj: "{CGAADDR} \<inter> vm_pages (mem s) pg = {}" "{CGAADDR} \<inter> set xs = {}" by blast+
  note F = uvm_frame [OF inv con_only_frame [OF c] dj]
  show "upages (mem s') pg = upages (mem s) pg" "frame (mem s') pg = frame (mem s) pg"
    "pte_at (mem s') pg = pte_at (mem s) pg" "vm_pages (mem s') pg = vm_pages (mem s) pg"
    "pres (mem s') pg = pres (mem s) pg" by (rule F(2-6))+
  show "uvm_inv s' pg xs"
    using F(1) con_only_kmem(7) [OF c] con_only_kmem_inv [OF c, of xs] D(1)
    by (intro uvm_same [OF F(1)]) (simp_all add: page_ok_def fun_eq_iff)
qed

section \<open>Growing\<close>

text \<open>
  \<open>grown pg P E s xs s' xs'\<close>: the pages \<open>P\<close> were added to the address space, each with a cleared
  frame from the free list and the flags present, writable and user; \<open>E\<close> are pages the caller still
  holds. Every page is accounted for.
\<close>

definition grown :: "u32 \<Rightarrow> u32 set \<Rightarrow> u32 set \<Rightarrow> 'a vm_scheme \<Rightarrow> u32 list \<Rightarrow> 'a vm_scheme \<Rightarrow> u32 list \<Rightarrow> bool" where
  "grown pg P E s xs s' xs' \<longleftrightarrow> uvm_inv s' pg xs' \<and> mem_only s s' \<and> set xs' \<subseteq> set xs
     \<and> upages (mem s') pg = upages (mem s) pg \<union> P
     \<and> pres (mem s') pg = pres (mem s) pg \<union> dx ` P
     \<and> (\<forall>w. pg_of w \<notin> P \<longrightarrow> pte_at (mem s') pg w = pte_at (mem s) pg w)
     \<and> (\<forall>p \<in> P. PTE_FLAGS (pte_at (mem s') pg p) = 7 \<and> frame (mem s') pg p \<in> set xs
          \<and> (\<forall>a. pg_of a = frame (mem s') pg p \<longrightarrow> mem s' a = 0))
     \<and> frame (mem s') pg ` P \<union> E \<union> vm_pages (mem s') pg \<union> set xs' = vm_pages (mem s) pg \<union> set xs
     \<and> length xs = length xs' + card P + card E + card (dx ` P - pres (mem s) pg)
     \<and> mem_frame (vm_pages (mem s) pg \<union> set xs) (mem s) (mem s')"

lemma grown_none: "uvm_inv s pg xs \<Longrightarrow> grown pg {} {} s xs s xs"
  by (simp add: grown_def)

lemma card_dx_step:
  assumes "finite P"
  shows "card (dx ` insert v P - A) = card ({dx v} - A) + card (dx ` P - insert (dx v) A)"
proof -
  have "dx ` insert v P - A = ({dx v} - A) \<union> (dx ` P - insert (dx v) A)" by auto
  moreover have "({dx v} - A) \<inter> (dx ` P - insert (dx v) A) = {}" by auto
  ultimately show ?thesis using assms card_Un_disjoint [of "{dx v} - A"] by simp
qed

lemma grown_step:
  assumes s1: "mem_only s s1" "mem_frame {x} (mem s) (mem s1)" "vm_pages (mem s1) pg = vm_pages (mem s) pg"
      "upages (mem s1) pg = upages (mem s) pg" "pte_at (mem s1) pg = pte_at (mem s) pg"
      "pres (mem s1) pg = pres (mem s) pg"
      "\<And>a. pg_of a = x \<Longrightarrow> mem s1 a = 0" "x \<notin> vm_pages (mem s) pg" "x \<notin> set xs" "pgal x"
    and s2: "mem_only s1 s2" "\<And>w. pte_at (mem s2) pg w = (if pg_of w = v then x OR 7 else pte_at (mem s1) pg w)"
      "upages (mem s2) pg = insert v (upages (mem s1) pg)" "frame (mem s2) pg v = x"
      "set ys \<subseteq> set xs" "vm_pages (mem s2) pg \<union> set ys = vm_pages (mem s1) pg \<union> set xs"
      "length xs = length ys + card ({dx v} - pres (mem s1) pg)"
      "mem_frame (vm_pages (mem s1) pg \<union> set xs) (mem s1) (mem s2)"
      "pres (mem s2) pg = insert (dx v) (pres (mem s1) pg)"
    and rest: "grown pg P E s2 ys s' xs'" and P: "v \<notin> P" "finite P" "pgal v"
  shows "grown pg (insert v P) E s (x # xs) s' xs'"
proof -
  let ?V = "vm_pages (mem s) pg"
  have V2: "vm_pages (mem s2) pg \<union> set ys = ?V \<union> set xs" using s2(6) s1(3) by simp
  have f2: "mem_frame (?V \<union> set xs) (mem s2) (mem s')" using rest unfolding grown_def V2 by simp
  have f1: "mem_frame (?V \<union> set xs) (mem s1) (mem s2)" using s2(8) s1(3) by simp
  have f: "mem_frame (?V \<union> set (x # xs)) (mem s) (mem s')"
    by (rule mem_frame_trans [OF mem_frame_mono [OF s1(2)]], simp,
        rule mem_frame_trans [OF mem_frame_mono [OF f1] mem_frame_mono [OF f2]]) auto
  have z: "mem s' a = 0" if "pg_of a = x" for a
    using s1(7) [OF that] mem_frameD [OF f1, of a] mem_frameD [OF f2, of a] s1(8,9) that by simp
  have pv: "pte_at (mem s') pg v = x OR 7"
    using rest s2(2) [of v] P(1,3) by (simp add: grown_def pg_of_pgal)
  have fv: "frame (mem s') pg v = x" "PTE_FLAGS (pte_at (mem s') pg v) = 7"
    using PTE_ADDR_or [OF s1(10), of 7] PTE_FLAGS_or [OF s1(10), of 7] by (simp_all add: frame_def pv)
  have up: "upages (mem s') pg = upages (mem s) pg \<union> insert v P"
    using rest s2(3) s1(4) by (auto simp: grown_def)
  have pr: "pres (mem s') pg = pres (mem s) pg \<union> dx ` insert v P"
    using rest s2(9) s1(6) by (auto simp: grown_def)
  have pt: "pte_at (mem s') pg w = pte_at (mem s) pg w" if "pg_of w \<notin> insert v P" for w
    using rest s2(2) [of w] s1(5) that by (simp add: grown_def)
  have pp: "PTE_FLAGS (pte_at (mem s') pg p) = 7 \<and> frame (mem s') pg p \<in> set (x # xs)
      \<and> (\<forall>a. pg_of a = frame (mem s') pg p \<longrightarrow> mem s' a = 0)" if "p \<in> insert v P" for p
    using that rest fv z s2(5) by (auto simp: grown_def)
  have acc: "frame (mem s') pg ` insert v P \<union> E \<union> vm_pages (mem s') pg \<union> set xs' = ?V \<union> set (x # xs)"
    using rest V2 fv(1) by (auto simp: grown_def)
  have "length xs = length xs' + card P + card E + card (dx ` insert v P - pres (mem s) pg)"
    using rest s2(7,9) s1(6) card_dx_step [OF P(2), of v "pres (mem s) pg"] by (simp add: grown_def)
  then have len: "length (x # xs) = length xs' + card (insert v P) + card E + card (dx ` insert v P - pres (mem s) pg)"
    using P by simp
  have "mem_only s2 s'" using rest by (simp add: grown_def)
  then have m: "mem_only s s'" using mem_only_trans [OF s1(1) mem_only_trans [OF s2(1)]] by blast
  have i: "uvm_inv s' pg xs'" "set xs' \<subseteq> set (x # xs)" using rest s2(5) by (auto simp: grown_def)
  show ?thesis
    unfolding grown_def by (intro conjI i m up pr acc len f allI impI ballI pt pp) assumption+
qed

section \<open>The loop of \<open>allocuvm\<close>\<close>

definition apages :: "u32 \<Rightarrow> u32 \<Rightarrow> u32 set" where
  "apages va new = {p. pgal p \<and> va \<le> p \<and> p < new}"

lemma apages_empty: "\<not> va < new \<Longrightarrow> apages va new = {}"
  by (auto simp: apages_def)

lemma apages_step:
  assumes "pgal va" "va < new" "unat va + 4096 < 2 ^ 32"
  shows "apages va new = insert va (apages (va + 4096) new)" "va \<notin> apages (va + 4096) new"
  using next_page_iff [OF assms(1) _ assms(3)] assms(1,2) by (auto simp: apages_def)

lemma memset_page_zero: "pgal x \<Longrightarrow> pg_of a = x \<Longrightarrow> memset x 0 0x1000 m a = 0"
  using pg_of_iff [of x a] by (simp add: memset_eq)

definition give_up :: "u8 list \<Rightarrow> u32 \<Rightarrow> u32 \<Rightarrow> u32 \<Rightarrow> ('a vm_scheme \<Rightarrow> 'a vm_scheme res) \<Rightarrow> 'a vm_scheme \<Rightarrow> (u32 \<times> 'a vm_scheme) res" where
  "give_up msg pg old new undo s =
     bnd (printf msg [] s) (\<lambda>s. bnd (deallocuvm pg new old s) (\<lambda>(_, s). bnd (undo s) (\<lambda>s. Inr (0, s))))"

text \<open>One round: no page, a page that is mapped, or a page for which there is no page table.\<close>

lemma allocuvm_round:
  assumes inv: "uvm_inv s pg xs" and va: "pgal va" "KERNEND \<le> va" "va < new" "new < USEREND" and nu: "va \<notin> upages (mem s) pg"
  obtains (none) "xs = []" "allocuvm_loop (Suc n) pg va old new s = give_up (lit ''allocuvm out of memory'' @ [10]) pg old new Inr s"
  | (page) s2 zs where "allocuvm_loop (Suc n) pg va old new s = allocuvm_loop n pg (va + 4096) old new s2" "uvm_inv s2 pg zs"
      "upages (mem s2) pg = insert va (upages (mem s) pg)"
      "\<And>P E s' xs'. grown pg P E s2 zs s' xs' \<Longrightarrow> va \<notin> P \<Longrightarrow> finite P \<Longrightarrow> grown pg (insert va P) E s xs s' xs'"
  | (table) s2 x where "grown pg {} {x} s xs s2 []" "page_ok s2 x" "x \<notin> vm_pages (mem s2) pg"
      "x \<notin> frame (mem s2) pg ` upages (mem s2) pg" "dx va \<notin> pres (mem s2) pg"
      "allocuvm_loop (Suc n) pg va old new s = give_up (lit ''allocuvm out of memory (2)'' @ [10]) pg old new (kfree x) s2"
proof (cases xs)
  case Nil
  have "kalloc s = Inr (0, s)" using kpages.alloc_empty vm_invD(1) [OF uvm_invD(1) [OF inv]] Nil by simp
  then show thesis using none Nil va(3) by (simp add: give_up_def)
next
  case (Cons x ys)
  have ue: "va < USEREND" using va(3,4) by simp
  have xp: "pgal x" using vm_invD(1) [OF uvm_invD(1) [OF inv]] Cons kmem_inv_kalloc(4) page_ok_pgal by blast
  show thesis
  proof (rule take_page [OF inv [unfolded Cons] mem_frame_memset [OF xp, of "mem s" 0]])
    fix s0
    assume k: "kalloc s = Inr (x, s0)" "mem s0 = mem s" "mem_only s s0"
      "uvm_inv (s0\<lparr>mem := memset x 0 0x1000 (mem s)\<rparr>) pg ys" "page_ok s x" "x \<noteq> 0" "x \<notin> set ys"
      "x \<notin> vm_pages (mem s) pg" "x \<notin> frame (mem s) pg ` upages (mem s) pg"
      "upages (memset x 0 0x1000 (mem s)) pg = upages (mem s) pg"
      "frame (memset x 0 0x1000 (mem s)) pg = frame (mem s) pg"
      "pte_at (memset x 0 0x1000 (mem s)) pg = pte_at (mem s) pg"
      "vm_pages (memset x 0 0x1000 (mem s)) pg = vm_pages (mem s) pg"
      "pres (memset x 0 0x1000 (mem s)) pg = pres (mem s) pg"
    define s1 where "s1 = s0\<lparr>mem := memset x 0 0x1000 (mem s)\<rparr>"
    have ms1: "mem s1 = memset x 0 0x1000 (mem s)" by (simp add: s1_def)
    have o1: "mem_only s s1" unfolding s1_def using k(3) mem_only_mem by (rule mem_only_trans)
    have px1: "page_ok s1 x" using k(5) mem_only_sel(7) [OF o1] by simp
    note view = k(10-14) [folded ms1]
    have f1: "mem_frame {x} (mem s) (mem s1)" unfolding ms1 using xp by (rule mem_frame_memset)
    have z1: "mem s1 a = 0" if "pg_of a = x" for a unfolding ms1 using xp that by (rule memset_page_zero)
    have inv1: "uvm_inv s1 pg ys" using k(4) by (simp add: s1_def)
    have loop: "allocuvm_loop (Suc n) pg va old new s
      = bnd (mappages pg va 0x1000 x 6 s1) (\<lambda>(r, s).
          if r < 0 then give_up (lit ''allocuvm out of memory (2)'' @ [10]) pg old new (kfree x) s
          else allocuvm_loop n pg (va + 4096) old new s)"
      using va(3) k(1,2,6) by (simp add: give_up_def s1_def cong: if_cong)
    show thesis
    proof (rule map_user_page [OF inv1 px1 k(7) _ _ va(1,2) ue, of 6], goal_cases)
      case (5 s2 zs)
      have "grown pg (insert va P) E s xs s' xs'" if "grown pg P E s2 zs s' xs'" "va \<notin> P" "finite P" for P E s' xs'
        using 5(3-11) view f1 z1 o1 k(7,8) xp that va(1) unfolding Cons
        by (intro grown_step [where ?s1.0 = s1 and ?s2.0 = s2 and ys = zs]) (simp_all add: or.assoc)
      moreover have "allocuvm_loop (Suc n) pg va old new s = allocuvm_loop n pg (va + 4096) old new s2"
        unfolding loop 5(1) by simp
      ultimately show ?case using page [of s2 zs] 5(2,5) view by simp
    next
      case (6 s2)
      have "grown pg {} {x} s xs s2 []"
        using 6 view f1 o1 k(5,8) Cons mem_only_trans [OF o1 6(5)]
        by (auto simp: grown_def upages_def intro: mem_frame_trans mem_frame_mono)
      then show ?case
        using 6 view k(8,9) px1 mem_only_sel(7) [OF 6(5)] loop
        by (intro table [of x s2]) (simp_all add: upages_def frame_def image_iff)
    qed (use view k(8,9) nu in simp_all)
  qed
qed

lemma allocuvm_loop_cases:
  assumes "uvm_inv s pg xs" "pgal va" "KERNEND \<le> va" "new < USEREND"
    "unat new + 4096 \<le> unat va + 4096 * n" "0 < n" "apages va new \<inter> upages (mem s) pg = {}"
  obtains (ok) s' xs' where "allocuvm_loop n pg va old new s = Inr (new, s')"
      "grown pg (apages va new) {} s xs s' xs'"
  | (oom) s1 b where "grown pg (apages va b) {} s xs s1 []" "pgal b" "va \<le> b" "b < new"
      "allocuvm_loop n pg va old new s = give_up (lit ''allocuvm out of memory'' @ [10]) pg old new Inr s1"
  | (oom2) s1 b x where "grown pg (apages va b) {x} s xs s1 []" "pgal b" "va \<le> b" "b < new"
      "page_ok s1 x" "x \<notin> vm_pages (mem s1) pg" "x \<notin> frame (mem s1) pg ` upages (mem s1) pg"
      "dx b \<notin> pres (mem s1) pg"
      "allocuvm_loop n pg va old new s = give_up (lit ''allocuvm out of memory (2)'' @ [10]) pg old new (kfree x) s1"
  using assms
proof (induction n arbitrary: s xs va thesis)
  case 0
  then show ?case by simp
next
  case (Suc n)
  note inv = Suc(5)
  show ?case
  proof (cases "va < new")
    case False
    then have "grown pg (apages va new) {} s xs s xs" using grown_none [OF inv] by (simp add: apages_empty)
    then show ?thesis using Suc(2) [of s xs] False by simp
  next
    case lt: True
    have n: "0 < n" using lt Suc(9) by (cases n) (simp_all add: word_less_nat_alt)
    have va: "va < USEREND" using lt Suc(8) by simp
    note nx = next_user_page [OF Suc(6) va]
    have nu: "va \<notin> upages (mem s) pg" using Suc(11) lt Suc(6) by (auto simp: apages_def)
    have here: "apages va va = {}" by (simp add: apages_empty)
    show ?thesis
    proof (rule allocuvm_round [OF inv Suc(6,7) lt Suc(8) nu, of n old], goal_cases)
      case 1
      then show ?case using grown_none [OF inv] Suc(6) lt here by (intro Suc(3) [of va s]) simp_all
    next
      case (2 s2 zs)
      note page = 2
      have un: "apages (va + 4096) new \<inter> upages (mem s2) pg = {}"
        using Suc(11) apages_step [OF Suc(6) lt nx(1)] by (auto simp: page(3))
      have grow: "grown pg (apages va b) E s xs s' xs'"
        if "grown pg (apages (va + 4096) b) E s2 zs s' xs'" "va < b" for b E s' xs'
        using page(4) [OF that(1)] apages_step [OF Suc(6) that(2) nx(1)] by simp
      have fst: "va < b" if "va + 4096 \<le> b" for b
        using that nx(2) by (simp add: word_le_nat_alt word_less_nat_alt)
      show ?case
      proof (rule Suc.IH [OF _ _ _ page(2) nx(3) nx(5) [OF Suc(7)] Suc(8) nx(6) [OF Suc(9)] n un], goal_cases)
        case (1 s' xs')
        then show ?case using Suc(2) [of s' xs'] grow [of new] lt page(1) by simp
      next
        case (2 b s1')
        have "va < b" using fst 2(3) .
        with 2 grow page(1) show ?case by (intro Suc(3) [of b s1']) simp_all
      next
        case (3 b y s1')
        have "va < b" using fst 3(3) .
        with 3 grow page(1) show ?case by (intro Suc(4) [of b y s1']) simp_all
      qed
    next
      case (3 s2 x)
      then show ?case using here lt Suc(6) by (intro Suc(4) [of va x s2]) simp_all
    qed
  qed
qed

section \<open>Giving up\<close>

lemma give_page:
  assumes inv: "uvm_inv s pg xs" and x: "page_ok s x" "x \<notin> set xs" "x \<notin> vm_pages (mem s) pg"
    "x \<notin> frame (mem s) pg ` upages (mem s) pg"
  obtains s' where "kfree x s = Inr s'" "uvm_inv s' pg (x # xs)" "mem_only s s'" "mem_frame {x} (mem s) (mem s')"
    "pte_at (mem s') pg = pte_at (mem s) pg" "vm_pages (mem s') pg = vm_pages (mem s) pg"
    "upages (mem s') pg = upages (mem s) pg"
proof -
  note U = uvm_invD [OF inv]
  obtain s' where k: "kfree x s = Inr s'" "kmem_inv s' (x # xs)" "mem_only s s'" "mem_frame {x} (mem s) (mem s')"
    using kfree_frame [OF vm_invD(1) [OF U(1)] x(1,2)] by blast
  have "{x} \<inter> vm_pages (mem s) pg = {}" "{x} \<inter> set xs = {}" using x by simp_all
  note F = uvm_frame [OF inv k(4) this]
  have p: "page_ok s' = page_ok s" using mem_only_sel(7) [OF k(3)] .
  have t: "tables (mem s') pg \<subseteq> vm_pages (mem s') pg" "pg \<in> vm_pages (mem s') pg" by (auto simp: vm_pages_def)
  have "vm_inv (s\<lparr>mem := mem s'\<rparr>) pg xs" using F(1) by (rule uvm_invD)
  then have "vm_inv s' pg (x # xs)"
    using k(2) x(3) t p unfolding vm_inv_def F(5) [symmetric] by (auto simp: page_ok_def)
  moreover have "frame (mem s) pg v \<noteq> x" if "v \<in> upages (mem s) pg" for v using x(4) that by blast
  ultimately have "uvm_inv s' pg (x # xs)"
    using U unfolding uvm_inv_def F(2,3,5) p by simp
  then show thesis using k F by (intro that [of s']) simp_all
qed

lemma mem_only_mem_trans: "mem_only s t \<Longrightarrow> con_only t u \<Longrightarrow> page_ok u = page_ok s"
  using mem_only_sel(7) con_only_kmem(7) by metis

text \<open>
  The exits of \<^verbatim>\<open>allocuvm\<close>: the pages mapped so far are unmapped again, and the free pages and the
  page tables together are what they were.
\<close>

lemma give_up_restores:
  assumes g: "grown pg P E s xs s1 []" and con: "con_ok s" and msg: "fmt_text (\<lambda>_. None) msg [] = Some t"
    and R: "{v \<in> upages (mem s) pg. old \<le> v \<and> v < new} = {}" "\<And>p. p \<in> P \<Longrightarrow> old \<le> p \<and> p < new"
    and range: "KERNEND \<le> old" "old < new" "new < USEREND"
    and undo: "undo = Inr \<and> E = {} \<or> (\<exists>x. undo = kfree x \<and> E = {x} \<and> page_ok s1 x
      \<and> x \<notin> vm_pages (mem s1) pg \<and> x \<notin> frame (mem s1) pg ` upages (mem s1) pg)"
  obtains s' xs' where "give_up msg pg old new undo s1 = Inr (0, s')" "uvm_inv s' pg xs'"
    "upages (mem s') pg = upages (mem s) pg" "vm_pages (mem s') pg \<union> set xs' = vm_pages (mem s) pg \<union> set xs"
    "\<And>v. present (pte_at (mem s) pg v) \<Longrightarrow> pg_of v \<notin> P \<Longrightarrow> pte_at (mem s') pg v = pte_at (mem s) pg v"
proof -
  have G: "uvm_inv s1 pg []" "mem_only s s1" "upages (mem s1) pg = upages (mem s) pg \<union> P"
    "\<And>w. pg_of w \<notin> P \<Longrightarrow> pte_at (mem s1) pg w = pte_at (mem s) pg w"
    "frame (mem s1) pg ` P \<union> E \<union> vm_pages (mem s1) pg = vm_pages (mem s) pg \<union> set xs"
    using g by (simp_all add: grown_def)
  have "con_ok s1" using con mem_only_sel(9) [OF G(2)] by simp
  then obtain s2 where s2: "printf msg [] s1 = Inr s2" "con_only s1 s2"
    using printf_then [OF _ msg] by blast
  note C = con_only_uvm [OF G(1) s2(2)]
  have Pn: "P \<inter> upages (mem s) pg = {}" using R by blast
  have RP: "{v \<in> upages (mem s2) pg. old \<le> v \<and> v < new} = P"
    using R unfolding C(2) G(3) by blast
  obtain s3 ys where s3: "deallocuvm pg new old s2 = Inr (old, s3)" "unmapped pg P s2 [] s3 ys"
    using deallocuvm_unmaps [OF C(1) range(2,1) order_less_imp_le [OF range(3)]] unfolding RP by blast
  have D: "uvm_inv s3 pg ys" "set ys = frame (mem s1) pg ` P" "mem_only s2 s3"
    "vm_pages (mem s3) pg = vm_pages (mem s1) pg"
    "\<And>w. pte_at (mem s3) pg w = (if pg_of w \<in> P then 0 else pte_at (mem s1) pg w)"
    using s3(2) C by (simp_all add: unmapped_def)
  have up: "upages (mem s3) pg = upages (mem s) pg"
  proof -
    have "upages (mem s3) pg = upages (mem s1) pg - P"
      by (auto simp: upages_def D(5) pg_of_pgal split: if_splits)
    then show ?thesis using G(3) Pn by auto
  qed
  have pte: "pte_at (mem s3) pg v = pte_at (mem s) pg v" if "pg_of v \<notin> P" for v
    using D(5) G(4) that by simp
  from undo show thesis
  proof (elim disjE conjE exE)
    assume "undo = Inr" "E = {}"
    then show thesis
      using s2(1) s3(1) D up pte G(5) by (intro that [of s3 ys]) (auto simp: give_up_def)
  next
    fix x
    assume x: "undo = kfree x" "E = {x}" "page_ok s1 x" "x \<notin> vm_pages (mem s1) pg"
      "x \<notin> frame (mem s1) pg ` upages (mem s1) pg"
    have px: "page_ok s3 x" using x(3) con_only_kmem(7) [OF s2(2)] mem_only_sel(7) [OF D(3)] by simp
    have fr: "frame (mem s3) pg v = frame (mem s1) pg v" if "v \<in> upages (mem s3) pg" for v
    proof -
      have "v \<notin> P" "pg_of v = v" using that up Pn upages_pgal [of v "mem s3" pg] by auto
      then show ?thesis by (simp add: frame_def D(5))
    qed
    have xy: "x \<notin> set ys" using x(5) G(3) D(2) by auto
    have xv: "x \<notin> vm_pages (mem s3) pg" using x(4) D(4) by simp
    have xf: "x \<notin> frame (mem s3) pg ` upages (mem s3) pg"
      using x(5) fr up G(3) by (auto simp: image_iff)
    show thesis
    proof (rule give_page [OF D(1) px xy xv xf])
      fix s4
      assume s4: "kfree x s3 = Inr s4" "uvm_inv s4 pg (x # ys)" "pte_at (mem s4) pg = pte_at (mem s3) pg"
        "vm_pages (mem s4) pg = vm_pages (mem s3) pg" "upages (mem s4) pg = upages (mem s3) pg"
      then show thesis
        using s2(1) s3(1) D up pte G(5) x(1,2)
        by (intro that [of s4 "x # ys"]) (auto simp: give_up_def)
    qed
  qed
qed

section \<open>\<open>allocuvm\<close>\<close>

definition pages_needed :: "u32 \<Rightarrow> memory \<Rightarrow> u32 set \<Rightarrow> nat" where
  "pages_needed pg m P = card P + card (dx ` P - pres m pg)"

lemma apages_less:
  assumes "pgal b" "b < new" "va \<le> b" "pgal va"
  shows "apages va b \<subseteq> apages va new" "b \<in> apages va new" "b \<notin> apages va b"
  using assms by (auto simp: apages_def)

lemma oom_pages:
  assumes g: "grown pg (apages va b) E s xs s1 []" and b: "pgal b" "b < new" "va \<le> b" "pgal va"
    and E: "E = {} \<or> (\<exists>x. E = {x}) \<and> dx b \<notin> pres (mem s1) pg"
  shows "length xs < pages_needed pg (mem s) (apages va new)"
proof -
  let ?P = "apages va b" and ?Q = "apages va new"
  note A = apages_less [OF b]
  have len: "length xs = card ?P + card E + card (dx ` ?P - pres (mem s) pg)"
    and pr: "pres (mem s1) pg = pres (mem s) pg \<union> dx ` ?P"
    using g by (simp_all add: grown_def)
  have c1: "card ?P < card ?Q" using A by (intro psubset_card_mono) auto
  have sub: "dx ` ?P - pres (mem s) pg \<subseteq> dx ` ?Q - pres (mem s) pg" using A(1) by blast
  from E show ?thesis
  proof
    assume "E = {}"
    then show ?thesis using len c1 card_mono [OF _ sub] by (simp add: pages_needed_def)
  next
    assume e: "(\<exists>x. E = {x}) \<and> dx b \<notin> pres (mem s1) pg"
    then have "dx b \<in> dx ` ?Q - pres (mem s) pg" "dx b \<notin> dx ` ?P - pres (mem s) pg" using A(2) pr by auto
    then have "dx ` ?P - pres (mem s) pg \<subset> dx ` ?Q - pres (mem s) pg" using sub by blast
    then have "card (dx ` ?P - pres (mem s) pg) < card (dx ` ?Q - pres (mem s) pg)"
      by (intro psubset_card_mono) simp_all
    then show ?thesis using len c1 e by (auto simp: pages_needed_def)
  qed
qed

lemma allocuvm_cases:
  assumes inv: "uvm_inv s pg xs" and con: "con_ok s" and range: "KERNEND \<le> old" "old < new" "new < USEREND"
    and R: "{v \<in> upages (mem s) pg. old \<le> v \<and> v < new} = {}"
  defines "P \<equiv> apages (PGROUNDUP old) new"
  obtains (ok) s' xs' where "pages_needed pg (mem s) P \<le> length xs" "allocuvm pg old new s = Inr (new, s')"
      "grown pg P {} s xs s' xs'"
  | (fail) s' xs' where "length xs < pages_needed pg (mem s) P" "allocuvm pg old new s = Inr (0, s')"
      "uvm_inv s' pg xs'" "upages (mem s') pg = upages (mem s) pg"
      "vm_pages (mem s') pg \<union> set xs' = vm_pages (mem s) pg \<union> set xs"
      "\<And>v. present (pte_at (mem s) pg v) \<Longrightarrow> pte_at (mem s') pg v = pte_at (mem s) pg v"
proof -
  let ?va = "PGROUNDUP old"
  have n: "unat old \<le> 0xFFFFF000" using range by (simp add: word_less_nat_alt)
  have up: "?va \<le> p \<longleftrightarrow> old \<le> p" if "pgal p" for p using PGROUNDUP_le_iff [OF that n] .
  have k: "KERNEND \<le> ?va" using range(1) unat_PGROUNDUP [OF n] by (simp add: word_le_nat_alt)
  have f: "unat new + 4096 \<le> unat ?va + 4096 * Suc n_pages" using unat32_lt [of new] by (simp add: n_pages_def)
  have dj: "apages ?va new \<inter> upages (mem s) pg = {}" using R up by (auto simp: apages_def)
  have a: "allocuvm pg old new s = allocuvm_loop (Suc n_pages) pg ?va old new s"
  proof -
    have "\<not> USEREND \<le> new" "\<not> new < old" using range by simp_all
    then show ?thesis unfolding allocuvm_def by (simp only: if_False)
  qed
  have keep: "pte_at (mem s') pg v = pte_at (mem s) pg v"
    if "present (pte_at (mem s) pg v)" "pg_of v \<notin> apages ?va b \<Longrightarrow> pte_at (mem s') pg v = pte_at (mem s) pg v"
      "b < new" for s' v b
  proof (rule that(2), rule notI)
    assume b: "pg_of v \<in> apages ?va b"
    then have r: "old \<le> pg_of v" "pg_of v < new" using up that(3) by (auto simp: apages_def)
    have "pte_at (mem s) pg (pg_of v) = pte_at (mem s) pg v"
      using pg_of_eq_iff [of "pg_of v" v] by (simp add: pg_of_pgal pte_at_ent)
    then have "pg_of v \<in> upages (mem s) pg" using r range that(1) by (auto simp: upages_def)
    with R r show False by blast
  qed
  have msg: "\<exists>t. fmt_text (\<lambda>_. None) (lit m @ [10]) [] = Some t"
    if "m \<in> {''allocuvm out of memory'', ''allocuvm out of memory (2)''}" for m
    using that by auto
  have old: "old \<le> p \<and> p < new" if "p \<in> apages ?va b" "b < new" for p b
    using that up by (auto simp: apages_def)
  show thesis
  proof (rule allocuvm_loop_cases [OF inv pgal_PGROUNDUP k range(3) f _ dj, of old], goal_cases)
    case 1
    then show ?case by simp
  next
    case (2 s' xs')
    then have "pages_needed pg (mem s) P \<le> length xs" by (simp add: grown_def pages_needed_def P_def)
    then show ?case using 2 a by (intro ok [of s' xs']) (simp_all add: P_def)
  next
    case (3 s1 b)
    obtain t where t: "fmt_text (\<lambda>_. None) (lit ''allocuvm out of memory'' @ [10]) [] = Some t" using msg by blast
    show ?case
    proof (rule give_up_restores [OF 3(1) con t R old range, where undo = Inr], goal_cases)
      case (4 s' xs')
      then show ?case
        using a 3 oom_pages [OF 3(1,2,4,3)] keep [of _ b s'] by (intro fail [of s' xs']) (auto simp: P_def)
    qed (use 3 in auto)
  next
    case (4 s1 b x)
    note o2 = this
    obtain t where t: "fmt_text (\<lambda>_. None) (lit ''allocuvm out of memory (2)'' @ [10]) [] = Some t" using msg by blast
    show ?case
    proof (rule give_up_restores [OF 4(1) con t R old range, where undo = "kfree x"], goal_cases)
      case (4 s' xs')
      then show ?case
        using a o2 oom_pages [OF o2(1,2,4,3)] keep [of _ b s'] by (intro fail [of s' xs']) (auto simp: P_def)
    qed (use o2 in auto)
  qed
qed

section \<open>Two pages in a new address space\<close>

definition ex_pages :: "u32 set" where
  "ex_pages = {0x40000000, 0x40001000}"

lemma ex_apages: "apages (PGROUNDUP 0x40000000) 0x40002000 = ex_pages"
proof -
  have "PGROUNDUP 0x40000000 = 0x40000000"
    using unat_PGROUNDUP [of "0x40000000"] by (simp add: word_unat_eq_iff)
  moreover have "apages 0x40000000 0x40001000 = insert 0x40000000 (apages 0x40001000 0x40001000)"
    using apages_step [of "0x40000000" "0x40001000"] by (simp add: pgal_def)
  moreover have "apages 0x40000000 0x40002000 = insert 0x40000000 (apages 0x40001000 0x40002000)"
    using apages_step [of "0x40000000" "0x40002000"] by (simp add: pgal_def)
  moreover have "apages 0x40001000 0x40002000 = insert 0x40001000 (apages 0x40002000 0x40002000)"
    using apages_step [of "0x40001000" "0x40002000"] by (simp add: pgal_def)
  ultimately show ?thesis by (simp add: ex_pages_def apages_empty)
qed

lemma ex_needed: "pages_needed pg m ex_pages \<le> 4"
proof -
  have "card (dx ` ex_pages - pres m pg) \<le> card (dx ` ex_pages)" by (intro card_mono) (auto simp: ex_pages_def)
  also have "\<dots> \<le> card ex_pages" by (rule card_image_le) (simp add: ex_pages_def)
  finally show ?thesis by (simp add: pages_needed_def ex_pages_def)
qed

lemma ex_two_pages:
  obtains s pg s1 s2 xs where "free_all kfree ex_free ex_vm = Inr s" "setupkvm s = Inr (pg, s1)"
    "allocuvm pg 0x40000000 0x40002000 s1 = Inr (0x40002000, s2)" "uvm_inv s2 pg xs"
    "upages (mem s2) pg = ex_pages" "con_ok s2" "kvm_ok s2" "130000 \<le> length xs"
    "\<And>p. p \<in> ex_pages \<Longrightarrow> PTE_FLAGS (pte_at (mem s2) pg p) = 7"
proof (rule ex_space)
  fix s s1 :: vm and pg xs
  assume s: "free_all kfree ex_free ex_vm = Inr s" "setupkvm s = Inr (pg, s1)" "uvm_inv s1 pg xs"
    "upages (mem s1) pg = {}" "length xs = 130431" "con_ok s1" "kvm_ok s1"
  have r: "{v \<in> upages (mem s1) pg. 0x40000000 \<le> v \<and> v < 0x40002000} = {}" using s(4) by simp
  show thesis
  proof (rule allocuvm_cases [OF s(3,6) _ _ _ r], goal_cases)
    case (4 s2 ys)
    then have g: "grown pg ex_pages {} s1 xs s2 ys" by (simp add: ex_apages)
    have "length xs = length ys + pages_needed pg (mem s1) ex_pages" "mem_only s1 s2"
      using g by (simp_all add: grown_def pages_needed_def)
    then show ?case
      using 4 g s ex_needed [of pg "mem s1"] mem_only_sel [of s1 s2]
      by (intro that [of s pg s1 s2 ys]) (auto simp: grown_def kvm_ok_def)
  next
    case 5
    then show ?case using ex_needed [of pg "mem s1"] s(5) by (simp add: ex_apages)
  qed simp_all
qed

section \<open>Properties\<close>

text \<open>
  C12: growing is all or nothing. If the free list holds a page for every page of the range that
  \<^verbatim>\<open>allocuvm\<close> adds and for every page table the range still needs, it returns the new size and exactly
  these pages were added, present, writable, for user mode, each on its own frame full of zeroes.
  Otherwise it returns 0, every present entry is as before, and every page is still either free or a
  page of this address space.
\<close>

theorem allocuvm_all_or_nothing:
  assumes "uvm_inv s pg xs" "con_ok s" "KERNEND \<le> old" "old < new" "new < USEREND"
    and "{v \<in> upages (mem s) pg. old \<le> v \<and> v < new} = {}"
  shows "if pages_needed pg (mem s) (apages (PGROUNDUP old) new) \<le> length xs
    then \<exists>s' xs'. allocuvm pg old new s = Inr (new, s') \<and> grown pg (apages (PGROUNDUP old) new) {} s xs s' xs'
    else \<exists>s' xs'. allocuvm pg old new s = Inr (0, s') \<and> uvm_inv s' pg xs' \<and> upages (mem s') pg = upages (mem s) pg
      \<and> vm_pages (mem s') pg \<union> set xs' = vm_pages (mem s) pg \<union> set xs
      \<and> (\<forall>v. present (pte_at (mem s) pg v) \<longrightarrow> pte_at (mem s') pg v = pte_at (mem s) pg v)"
  by (rule allocuvm_cases [OF assms]) auto

theorem allocuvm_all_or_nothing_witness:
  "\<exists>s pg s1 s2. free_all kfree ex_free ex_vm = Inr s \<and> setupkvm s = Inr (pg, s1)
    \<and> allocuvm pg 0x40000000 0x40002000 s1 = Inr (0x40002000, s2) \<and> upages (mem s2) pg = ex_pages"
proof (rule ex_space)
  fix s s1 :: vm and pg xs
  assume s: "free_all kfree ex_free ex_vm = Inr s" "setupkvm s = Inr (pg, s1)" "uvm_inv s1 pg xs"
    "upages (mem s1) pg = {}" "length xs = 130431" "con_ok s1"
  have "pages_needed pg (mem s1) ex_pages \<le> length xs" using ex_needed [of pg "mem s1"] s(5) by simp
  then obtain s2 xs' where "allocuvm pg 0x40000000 0x40002000 s1 = Inr (0x40002000, s2)"
      "grown pg ex_pages {} s1 xs s2 xs'"
    using allocuvm_all_or_nothing [OF s(3,6), of "0x40000000" "0x40002000"] s(4) by (auto simp: ex_apages)
  then show ?thesis using s(1,2,4) by (auto simp: grown_def)
qed

theorem deallocuvm_frees_range_witness:
  "\<exists>s pg s1 s2 s3 ys. free_all kfree ex_free ex_vm = Inr s \<and> setupkvm s = Inr (pg, s1)
    \<and> allocuvm pg 0x40000000 0x40002000 s1 = Inr (0x40002000, s2)
    \<and> deallocuvm pg 0x40002000 0x40001000 s2 = Inr (0x40001000, s3) \<and> length ys = 1
    \<and> set ys = {frame (mem s2) pg 0x40001000} \<and> pte_at (mem s3) pg 0x40001000 = 0"
proof (rule ex_two_pages)
  fix s s1 s2 :: vm and pg xs
  assume s: "free_all kfree ex_free ex_vm = Inr s" "setupkvm s = Inr (pg, s1)"
    "allocuvm pg 0x40000000 0x40002000 s1 = Inr (0x40002000, s2)" "uvm_inv s2 pg xs" "upages (mem s2) pg = ex_pages"
  have r: "{v \<in> upages (mem s2) pg. 0x40001000 \<le> v \<and> v < 0x40002000} = {0x40001000}"
    by (auto simp: s(5) ex_pages_def)
  have p: "pg_of 0x40001000 = 0x40001000" by (simp add: pg_of_def PTE_ADDR_def)
  show ?thesis
    using deallocuvm_frees_range [OF s(4), of "0x40001000" "0x40002000"] s(1-3) unfolding r
    by (force simp: p)
qed

theorem freevm_frees_user_part_witness:
  "\<exists>s pg s1 s2 s3. free_all kfree ex_free ex_vm = Inr s \<and> setupkvm s = Inr (pg, s1)
    \<and> allocuvm pg 0x40000000 0x40002000 s1 = Inr (0x40002000, s2) \<and> freevm pg s2 = Inr s3"
proof (rule ex_two_pages)
  fix s s1 s2 :: vm and pg xs
  assume s: "free_all kfree ex_free ex_vm = Inr s" "setupkvm s = Inr (pg, s1)"
    "allocuvm pg 0x40000000 0x40002000 s1 = Inr (0x40002000, s2)" "uvm_inv s2 pg xs"
  show ?thesis using freevm_frees_user_part [OF s(4)] s(1-3) by blast
qed

end
