(* ===== verification/Mix_Segments.thy ===== *)
theory Mix_Segments
  imports Mix_VmAlloc
begin

text \<open>
  Segment and gate descriptors: the bit fields of \<^verbatim>\<open>struct segdesc\<close> (\<^verbatim>\<open>kernel/mm/vm.h\<close>) and
  \<^verbatim>\<open>struct gatedesc\<close> (\<^verbatim>\<open>kernel/trap.h\<close>) at their widths, the macros that fill them, the tables
  \<^verbatim>\<open>seginit\<close> and \<^verbatim>\<open>idtinit\<close> load, and \<^verbatim>\<open>switchuvm\<close>. What the processor reads out of a descriptor is
  defined beside it, and shown to be what the macro was given.
\<close>

section \<open>Segment descriptors\<close>

record segdesc =
  lim_15_0 :: "16 word"
  base_15_0 :: "16 word"
  base_23_16 :: "8 word"
  seg_type :: "4 word"
  seg_s :: "1 word"
  seg_dpl :: "2 word"
  seg_p :: "1 word"
  lim_19_16 :: "4 word"
  seg_avl :: "1 word"
  seg_rsv1 :: "1 word"
  seg_db :: "1 word"
  seg_g :: "1 word"
  base_31_24 :: "8 word"

definition SEG :: "u32 \<Rightarrow> u32 \<Rightarrow> u32 \<Rightarrow> u32 \<Rightarrow> segdesc" where
  "SEG typ base lim dpl = \<lparr>
     lim_15_0 = ucast (drop_bit 12 lim AND 0xFFFF), base_15_0 = ucast (base AND 0xFFFF),
     base_23_16 = ucast (drop_bit 16 base AND 0xFF), seg_type = ucast typ, seg_s = 1,
     seg_dpl = ucast dpl, seg_p = 1, lim_19_16 = ucast (drop_bit 28 lim), seg_avl = 0, seg_rsv1 = 0,
     seg_db = 1, seg_g = 1, base_31_24 = ucast (drop_bit 24 base)\<rparr>"

definition SEG16 :: "u32 \<Rightarrow> u32 \<Rightarrow> u32 \<Rightarrow> u32 \<Rightarrow> segdesc" where
  "SEG16 typ base lim dpl = \<lparr>
     lim_15_0 = ucast (lim AND 0xFFFF), base_15_0 = ucast (base AND 0xFFFF),
     base_23_16 = ucast (drop_bit 16 base AND 0xFF), seg_type = ucast typ, seg_s = 1,
     seg_dpl = ucast dpl, seg_p = 1, lim_19_16 = ucast (drop_bit 16 lim), seg_avl = 0, seg_rsv1 = 0,
     seg_db = 1, seg_g = 0, base_31_24 = ucast (drop_bit 24 base)\<rparr>"

text \<open>An empty entry of the static table.\<close>

definition seg_null :: segdesc where
  "seg_null = \<lparr>lim_15_0 = 0, base_15_0 = 0, base_23_16 = 0, seg_type = 0, seg_s = 0, seg_dpl = 0,
     seg_p = 0, lim_19_16 = 0, seg_avl = 0, seg_rsv1 = 0, seg_db = 0, seg_g = 0, base_31_24 = 0\<rparr>"

text \<open>The base and the limit the processor takes from a descriptor.\<close>

definition seg_base :: "segdesc \<Rightarrow> u32" where
  "seg_base d = ucast (base_15_0 d) OR push_bit 16 (ucast (base_23_16 d)) OR push_bit 24 (ucast (base_31_24 d))"

definition seg_limit :: "segdesc \<Rightarrow> u32" where
  "seg_limit d =
     (let l = ucast (lim_15_0 d) OR push_bit 16 (ucast (lim_19_16 d)) in
      if seg_g d = 1 then push_bit 12 l OR 0xFFF else l)"

definition SEG_KCODE :: u32 where [simp]: "SEG_KCODE = 0x08"
definition SEG_KDATA :: u32 where [simp]: "SEG_KDATA = 0x10"
definition SEG_UCODE :: u32 where [simp]: "SEG_UCODE = 0x18"
definition SEG_UDATA :: u32 where [simp]: "SEG_UDATA = 0x20"
definition SEG_TSS :: u32 where [simp]: "SEG_TSS = 0x28"
definition DPL_USER :: u32 where [simp]: "DPL_USER = 0x3"
definition STA_X :: u32 where [simp]: "STA_X = 0x8"
definition STA_W :: u32 where [simp]: "STA_W = 0x2"
definition STA_R :: u32 where [simp]: "STA_R = 0x2"
definition STS_T32A :: u32 where [simp]: "STS_T32A = 0x9"
definition NSEGS :: nat where [simp]: "NSEGS = 6"

section \<open>Gate descriptors\<close>

record gatedesc =
  off_15_0 :: "16 word"
  gate_cs :: "16 word"
  gate_args :: "5 word"
  gate_rsv1 :: "3 word"
  gate_type :: "4 word"
  gate_s :: "1 word"
  gate_dpl :: "2 word"
  gate_p :: "1 word"
  off_31_16 :: "16 word"

definition STS_IG32 :: u32 where [simp]: "STS_IG32 = 0xE"
definition STS_TG32 :: u32 where [simp]: "STS_TG32 = 0xF"
definition T_SYSCALL :: nat where [simp]: "T_SYSCALL = 64"

definition SETGATE :: "bool \<Rightarrow> u32 \<Rightarrow> u32 \<Rightarrow> u32 \<Rightarrow> gatedesc" where
  "SETGATE istrap sel off d = \<lparr>
     off_15_0 = ucast (off AND 0xFFFF), gate_cs = ucast sel, gate_args = 0, gate_rsv1 = 0,
     gate_type = ucast (if istrap then STS_TG32 else STS_IG32), gate_s = 0, gate_dpl = ucast d,
     gate_p = 1, off_31_16 = ucast (drop_bit 16 off)\<rparr>"

definition gate_off :: "gatedesc \<Rightarrow> u32" where
  "gate_off g = ucast (off_15_0 g) OR push_bit 16 (ucast (off_31_16 g))"

section \<open>State\<close>

text \<open>
  The task state segment, its pointers as addresses. Of its 104 bytes the code writes three fields.
\<close>

record taskstate =
  ts_link :: u32
  ts_esp0 :: u32
  ts_ss0 :: u16
  ts_padding1 :: u16
  ts_esp1 :: u32
  ts_ss1 :: u16
  ts_padding2 :: u16
  ts_esp2 :: u32
  ts_ss2 :: u16
  ts_padding3 :: u16
  ts_cr3 :: u32
  ts_eip :: u32
  ts_eflags :: u32
  ts_eax :: u32
  ts_ecx :: u32
  ts_edx :: u32
  ts_ebx :: u32
  ts_esp :: u32
  ts_ebp :: u32
  ts_esi :: u32
  ts_edi :: u32
  ts_es :: u16
  ts_padding4 :: u16
  ts_cs :: u16
  ts_padding5 :: u16
  ts_ss :: u16
  ts_padding6 :: u16
  ts_ds :: u16
  ts_padding7 :: u16
  ts_fs :: u16
  ts_padding8 :: u16
  ts_gs :: u16
  ts_padding9 :: u16
  ts_ldt :: u16
  ts_padding10 :: u16
  ts_t :: u16
  ts_iomb :: u16

definition taskstate_zero :: taskstate where
  "taskstate_zero = \<lparr>ts_link = 0, ts_esp0 = 0, ts_ss0 = 0, ts_padding1 = 0, ts_esp1 = 0, ts_ss1 = 0, ts_padding2 = 0,
     ts_esp2 = 0, ts_ss2 = 0, ts_padding3 = 0, ts_cr3 = 0, ts_eip = 0, ts_eflags = 0, ts_eax = 0,
     ts_ecx = 0, ts_edx = 0, ts_ebx = 0, ts_esp = 0, ts_ebp = 0, ts_esi = 0, ts_edi = 0, ts_es = 0,
     ts_padding4 = 0, ts_cs = 0, ts_padding5 = 0, ts_ss = 0, ts_padding6 = 0, ts_ds = 0,
     ts_padding7 = 0, ts_fs = 0, ts_padding8 = 0, ts_gs = 0, ts_padding9 = 0, ts_ldt = 0,
     ts_padding10 = 0, ts_t = 0, ts_iomb = 0\<rparr>"

text \<open>
  \<open>gdt_at\<close>, \<open>idt_at\<close> and \<open>ts_at\<close> are the
  addresses the linker gives the static tables; \<open>gdt_reg\<close> and \<open>idt_reg\<close> are what \<^verbatim>\<open>lgdt\<close> and \<^verbatim>\<open>lidt\<close>
  load, a limit and a base; \<open>tr\<close> is the task register.
\<close>

record segs = vm +
  gdt :: "segdesc list"
  gdtr :: "u16 list"
  gdt_at :: u32
  gdt_reg :: "u16 \<times> u32"
  idt :: "gatedesc list"
  idtr :: "u16 list"
  idt_at :: u32
  idt_reg :: "u16 \<times> u32"
  ts_at :: u32
  ts :: taskstate
  tr :: u16

text \<open>The six bytes \<^verbatim>\<open>lgdt\<close> and \<^verbatim>\<open>lidt\<close> read: a limit and a base, low half first.\<close>

definition descriptor_reg :: "u16 list \<Rightarrow> u16 \<times> u32" where
  "descriptor_reg r = (r ! 0, ucast (r ! 1) OR push_bit 16 (ucast (r ! 2)))"

definition seginit :: "'a segs_scheme \<Rightarrow> 'a segs_scheme" where
  "seginit s =
     (let t = gdt s;
          t = t[unat (drop_bit 3 SEG_KCODE) := SEG (STA_X OR STA_R) 0 0xFFFFFFFF 0];
          t = t[unat (drop_bit 3 SEG_KDATA) := SEG STA_W 0 0xFFFFFFFF 0];
          t = t[unat (drop_bit 3 SEG_UCODE) := SEG (STA_X OR STA_R) 0 0xFFFFFFFF DPL_USER];
          t = t[unat (drop_bit 3 SEG_UDATA) := SEG STA_W 0 0xFFFFFFFF DPL_USER];
          r = [of_nat (8 * NSEGS - 1), ucast (gdt_at s), ucast (drop_bit 16 (gdt_at s))]
      in s\<lparr>gdt := t, gdtr := r, gdt_reg := descriptor_reg r\<rparr>)"

text \<open>\<^verbatim>\<open>vectors\<close> is the table of entry points that \<^verbatim>\<open>vectors.pl\<close> generates.\<close>

definition idtinit :: "(nat \<Rightarrow> u32) \<Rightarrow> 'a segs_scheme \<Rightarrow> 'a segs_scheme" where
  "idtinit vectors s =
     (let t = map (\<lambda>i. SETGATE False SEG_KCODE (vectors i) 0) [0..<256];
          t = t[T_SYSCALL := SETGATE True SEG_KCODE (vectors T_SYSCALL) DPL_USER];
          r = [of_nat (8 * 256 - 1), ucast (idt_at s), ucast (drop_bit 16 (idt_at s))]
      in s\<lparr>idt := t, idtr := r, idt_reg := descriptor_reg r\<rparr>)"

definition scr3 :: "u32 \<Rightarrow> 'a segs_scheme \<Rightarrow> 'a segs_scheme" where [simp]:
  "scr3 dir s = s\<lparr>cr3 := dir\<rparr>"

text \<open>
  \<^verbatim>\<open>switchuvm\<close> on the two fields of the process it reads. The task state segment is 104 bytes.
\<close>

definition switchuvm :: "u32 \<Rightarrow> u32 \<Rightarrow> 'a segs_scheme \<Rightarrow> 'a segs_scheme res" where
  "switchuvm stk dir s =
     (if stk = 0 then Inl (Panic ''switchuvm: no kstack'')
      else if dir = 0 then Inl (Panic ''switchuvm: no pgdir'')
      else
        (let s = pushcli s;
             d = (SEG16 STS_T32A (ts_at s) (104 - 1) 0)\<lparr>seg_s := 0\<rparr>;
             s = s\<lparr>gdt := (gdt s)[unat (drop_bit 3 SEG_TSS) := d]\<rparr>;
             s = s\<lparr>ts := (ts s)\<lparr>ts_ss0 := ucast SEG_KDATA, ts_esp0 := stk + PAGESIZE, ts_iomb := 0xFFFF\<rparr>, tr := ucast SEG_TSS\<rparr>
         in popcli (scr3 dir s)))"

section \<open>What the processor reads back\<close>

lemma seg_base_SEG: "seg_base (SEG t b l d) = b" "seg_base (SEG16 t b l d) = b"
proof -
  have "(ucast (ucast (b AND 0xFFFF) :: u16) OR push_bit 16 (ucast (ucast (drop_bit 16 b AND 0xFF) :: u8))
      OR push_bit 24 (ucast (ucast (drop_bit 24 b) :: u8)) :: u32) = b"
  proof (rule bit_eqI)
    fix n
    assume n: "possible_bit TYPE(u32) n"
    have m: "(0xFFFF :: u32) = mask 16" "(0xFF :: u32) = mask 8" by (simp_all add: mask_eq_exp_minus_1)
    show "bit (ucast (ucast (b AND 0xFFFF) :: u16) OR push_bit 16 (ucast (ucast (drop_bit 16 b AND 0xFF) :: u8))
      OR push_bit 24 (ucast (ucast (drop_bit 24 b) :: u8)) :: u32) n = bit b n"
      unfolding m using n by (cases "n < 16"; cases "n < 24") (auto simp: bit_simps)
  qed
  then show "seg_base (SEG t b l d) = b" "seg_base (SEG16 t b l d) = b"
    by (simp_all add: seg_base_def SEG_def SEG16_def)
qed

lemma seg_limit_SEG: "seg_limit (SEG t b l d) = l OR 0xFFF"
proof -
  have m: "(0xFFFF :: u32) = mask 16" "(0xFFF :: u32) = mask 12" by (simp_all add: mask_eq_exp_minus_1)
  have "(push_bit 12 (ucast (ucast (drop_bit 12 l AND 0xFFFF) :: u16)
      OR push_bit 16 (ucast (ucast (drop_bit 28 l) :: 4 word))) OR 0xFFF :: u32) = l OR 0xFFF"
    unfolding m
  proof (rule bit_eqI)
    fix n
    assume n: "possible_bit TYPE(u32) n"
    show "bit (push_bit 12 (ucast (ucast (drop_bit 12 l AND mask 16) :: u16)
      OR push_bit 16 (ucast (ucast (drop_bit 28 l) :: 4 word))) OR mask 12 :: u32) n = bit (l OR mask 12) n"
      using n by (cases "n < 12"; cases "n < 28") (auto simp: bit_simps)
  qed
  then show ?thesis by (simp add: seg_limit_def SEG_def)
qed

lemma seg_limit_SEG16: "seg_limit (SEG16 t b l d) = l AND 0xFFFFF"
proof -
  have m: "(0xFFFF :: u32) = mask 16" "(0xFFFFF :: u32) = mask 20" by (simp_all add: mask_eq_exp_minus_1)
  have "(ucast (ucast (l AND 0xFFFF) :: u16) OR push_bit 16 (ucast (ucast (drop_bit 16 l) :: 4 word)) :: u32)
      = l AND 0xFFFFF"
    unfolding m
  proof (rule bit_eqI)
    fix n
    assume n: "possible_bit TYPE(u32) n"
    show "bit (ucast (ucast (l AND mask 16) :: u16) OR push_bit 16 (ucast (ucast (drop_bit 16 l) :: 4 word)) :: u32) n
      = bit (l AND mask 20) n"
      using n by (cases "n < 16"; cases "n < 20") (auto simp: bit_simps)
  qed
  then show ?thesis by (simp add: seg_limit_def SEG16_def)
qed

lemma gate_off_SETGATE: "gate_off (SETGATE i c off d) = off"
proof -
  have m: "(0xFFFF :: u32) = mask 16" by (simp add: mask_eq_exp_minus_1)
  have "(ucast (ucast (off AND 0xFFFF) :: u16) OR push_bit 16 (ucast (ucast (drop_bit 16 off) :: u16)) :: u32) = off"
    unfolding m
  proof (rule bit_eqI)
    fix n
    assume n: "possible_bit TYPE(u32) n"
    show "bit (ucast (ucast (off AND mask 16) :: u16) OR push_bit 16 (ucast (ucast (drop_bit 16 off) :: u16)) :: u32) n
      = bit off n"
      using n by (cases "n < 16") (auto simp: bit_simps)
  qed
  then show ?thesis by (simp add: gate_off_def SETGATE_def)
qed

section \<open>Properties\<close>

text \<open>A concrete state, with empty tables.\<close>

definition ex_segs :: segs where
  "ex_segs = vm.extend ex_vm (segs.fields (replicate 6 seg_null) [0, 0, 0] 0x110000 (0, 0) []
     [0, 0, 0] 0x111000 (0, 0) 0x112000 taskstate_zero 0)"

lemma descriptor_reg_eq: "descriptor_reg [l, ucast b, ucast (drop_bit 16 b)] = (l, b)"
proof -
  have "(ucast (ucast b :: u16) OR push_bit 16 (ucast (ucast (drop_bit 16 b) :: u16)) :: u32) = b"
  proof (rule bit_eqI)
    fix n
    assume n: "possible_bit TYPE(u32) n"
    show "bit (ucast (ucast b :: u16) OR push_bit 16 (ucast (ucast (drop_bit 16 b) :: u16)) :: u32) n = bit b n"
      using n by (cases "n < 16") (auto simp: bit_simps)
  qed
  then show ?thesis by (simp add: descriptor_reg_def numeral_2_eq_2)
qed

text \<open>
  C36: the interrupt descriptor table. After \<^verbatim>\<open>idtinit\<close> the processor finds at the base \<^verbatim>\<open>lidt\<close> loaded
  256 present gates into the kernel code segment, gate \<open>i\<close> leading to \<open>vectors i\<close>; only the system
  call gate may be used from user mode, and it alone is a trap gate, so only it leaves interrupts
  enabled.
\<close>

theorem idtinit_gates:
  "length (idt (idtinit vectors s)) = 256 \<and> idt_reg (idtinit vectors s) = (2047, idt_at s)
   \<and> (\<forall>i < 256. let g = idt (idtinit vectors s) ! i in
        gate_off g = vectors i \<and> gate_cs g = 8 \<and> gate_p g = 1 \<and> gate_s g = 0
        \<and> (gate_dpl g = 3 \<longleftrightarrow> i = 64) \<and> (gate_dpl g \<noteq> 3 \<longrightarrow> gate_dpl g = 0)
        \<and> gate_type g = (if i = 64 then 0xF else 0xE))"
proof -
  have e: "idt (idtinit vectors s) ! i = SETGATE (i = 64) 8 (vectors i) (if i = 64 then 3 else 0)" if "i < 256" for i
    using that by (simp add: idtinit_def Let_def nth_list_update)
  have f: "gate_cs (SETGATE b 8 off d) = 8" "gate_p (SETGATE b c off d) = 1" "gate_s (SETGATE b c off d) = 0"
    "gate_type (SETGATE b c off d) = (if b then 0xF else 0xE)" "gate_dpl (SETGATE b c off d) = ucast d"
    for b c off d by (simp_all add: SETGATE_def)
  have "(3 :: 2 word) \<noteq> 0" by simp
  moreover have "length (idt (idtinit vectors s)) = 256" by (simp add: idtinit_def Let_def)
  moreover have "idt_reg (idtinit vectors s) = (2047, idt_at s)"
    by (simp add: idtinit_def Let_def descriptor_reg_eq)
  ultimately show ?thesis by (auto simp: e f gate_off_SETGATE Let_def)
qed

theorem idtinit_gates_witness:
  "gate_dpl (idt (idtinit of_nat ex_segs) ! 64) = 3 \<and> gate_dpl (idt (idtinit of_nat ex_segs) ! 14) = 0
    \<and> gate_off (idt (idtinit of_nat ex_segs) ! 14) = 14"
proof -
  note g = idtinit_gates [of of_nat ex_segs, THEN conjunct2, THEN conjunct2, rule_format]
  show ?thesis using g [of 64] g [of 14] by (simp add: Let_def)
qed

text \<open>
  The segments. \<^verbatim>\<open>seginit\<close> loads a table whose four segments cover the whole address space from 0,
  code and data, for the kernel at privilege 0 and for users at privilege 3, and leaves the other
  entries alone.
\<close>

theorem seginit_flat:
  assumes "length (gdt s) = NSEGS"
  shows "gdt_reg (seginit s) = (47, gdt_at s) \<and> length (gdt (seginit s)) = NSEGS
    \<and> gdt (seginit s) ! 0 = gdt s ! 0 \<and> gdt (seginit s) ! 5 = gdt s ! 5
    \<and> (\<forall>i \<in> {1..4}. let d = gdt (seginit s) ! i in
        seg_base d = 0 \<and> seg_limit d = 0xFFFFFFFF \<and> seg_p d = 1 \<and> seg_s d = 1
        \<and> seg_dpl d = (if i \<le> 2 then 0 else 3) \<and> seg_type d = (if i = 1 \<or> i = 3 then 0xA else 2))"
proof -
  obtain a0 a1 a2 a3 a4 a5 where g: "gdt s = [a0, a1, a2, a3, a4, a5]"
    using assms by (auto simp: length_Suc_conv eval_nat_numeral)
  have t: "gdt (seginit s) = [a0, SEG 0xA 0 0xFFFFFFFF 0, SEG 2 0 0xFFFFFFFF 0, SEG 0xA 0 0xFFFFFFFF 3,
      SEG 2 0 0xFFFFFFFF 3, a5]"
    by (simp add: seginit_def Let_def g drop_bit_eq_div unat_div_distrib)
  have "gdt_reg (seginit s) = (47, gdt_at s)" by (simp add: seginit_def Let_def descriptor_reg_eq)
  moreover have "{1..4} = {1, 2, 3, 4 :: nat}" by auto
  moreover have "seg_p (SEG a b l d) = 1" "seg_s (SEG a b l d) = 1" "seg_dpl (SEG a b l d) = ucast d"
    "seg_type (SEG a b l d) = ucast a" for a b l d by (simp_all add: SEG_def)
  ultimately show ?thesis
    using seg_base_SEG(1) seg_limit_SEG by (simp add: t g Let_def)
qed

theorem seginit_flat_witness:
  "seg_dpl (gdt (seginit ex_segs) ! 3) = 3 \<and> seg_limit (gdt (seginit ex_segs) ! 3) = 0xFFFFFFFF"
proof -
  have "length (gdt ex_segs) = NSEGS" by (simp add: ex_segs_def segs.defs vm.defs)
  then show ?thesis using seginit_flat [of ex_segs] by (simp add: Let_def)
qed

end
