(* ===== verification/Mix_Kernel.thy ===== *)
theory Mix_Kernel
  imports Mix_Segments
begin

text \<open>
  The tables of the kernel and the state they live in: processes (\<^verbatim>\<open>include/kernel/proc.h\<close>), open
  files (\<^verbatim>\<open>fs/file.c\<close>), in-core inodes (\<^verbatim>\<open>fs/inode.c\<close>), disk buffers (\<^verbatim>\<open>fs/bio.c\<close>) and locks. The
  static arrays are lists here, and a pointer into one of them is an index, with \<open>None\<close> for the null
  pointer; what lies in allocated pages (page tables, kernel stacks, user memory) stays in \<open>mem\<close>.
\<close>

section \<open>Data\<close>

datatype procstat = UNUSED | SET | RUN | SLEEP | ZOMB | STOP

datatype lockref = LkIde | LkInode nat | LkBlock nat

text \<open>
  What a process sleeps on is an address: of a lock, a buffer, a process or the console input. No two
  of these objects share an address, since no lock is the first field of its structure.
\<close>

datatype chan = ChLock lockref | ChBlock nat | ChProc nat | ChInput

record lock =
  locked :: u32
  owner :: "nat option"

definition NPROC :: nat where [simp]: "NPROC = 64"
definition NOFILE :: nat where [simp]: "NOFILE = 32"

record proc =
  stat :: procstat
  pri :: u32
  pid :: u32
  pproc :: "nat option"
  uid :: u32
  gid :: u32
  cpu :: u32
  psize :: u32
  wchan :: "chan option"
  pgdir :: u32
  kstack :: u32
  tf :: u32
  pcontext :: u32
  cwd :: "nat option"
  ofile :: "nat option list"

definition proc_zero :: proc where
  "proc_zero = \<lparr>stat = UNUSED, pri = 0, pid = 0, pproc = None, uid = 0, gid = 0, cpu = 0, psize = 0,
     wchan = None, pgdir = 0, kstack = 0, tf = 0, pcontext = 0, cwd = None, ofile = replicate NOFILE None\<rparr>"

record open_file =
  frefcnt :: u32
  finode :: "nat option"
  foffset :: u32

record inode =
  inum :: u32
  irefcnt :: u16
  ivalid :: u16
  ilock :: lock
  idevno :: u32
  itype :: u16
  iuid :: u16
  igid :: u16
  imode :: u16
  inlink :: u32
  isize :: u32
  iaddr :: "u32 list"

definition T_DIR :: u16 where [simp]: "T_DIR = 1"
definition T_FILE :: u16 where [simp]: "T_FILE = 2"
definition T_DEV :: u16 where [simp]: "T_DEV = 3"

record block =
  blockno :: u32
  bflags :: u16
  brefcnt :: u16
  block_lock :: lock
  bdata :: "u8 list"

definition B_VALID :: u16 where [simp]: "B_VALID = 0x1"
definition B_DIRTY :: u16 where [simp]: "B_DIRTY = 0x2"

record sysfs =
  nfree :: u32
  ninode :: u32
  rootdir :: u32
  kernel_no :: u32
  freeblock :: u32
  inodeblock :: u32

datatype devdrv = ConsoleDev

datatype irq = IrqTimer | IrqKbd u8 | IrqIde

section \<open>State\<close>

text \<open>
  \<open>drive\<close> is the contents of the disk by sector, \<open>ide_status\<close> what its status port reads, and
  \<open>pending\<close> the interrupts that will arrive, in their order, while the kernel waits. \<open>kbuf\<close> is the
  buffer on the kernel stack that \<^verbatim>\<open>sys_execv\<close> reads headers into. \<open>trapret_at\<close> is the address of
  \<^verbatim>\<open>trapret\<close>.
\<close>

record kernel = segs +
  procs :: "proc list"
  procp :: "nat option"
  nextpid :: u32
  schedix :: u32
  tick :: u32
  files :: "open_file list"
  inodes :: "inode list"
  blocks :: "block list"
  idelock :: lock
  devsw :: "devdrv option list"
  sysfs_of :: sysfs
  drive :: "u32 \<Rightarrow> u8 list"
  ide_status :: u8
  pending :: "irq list"
  kbuf :: "u8 list"
  trapret_at :: u32

text \<open>
  The state in which the loader leaves the kernel: every static variable is zero, the drive is ready.
  The addresses are those a linker gave.
\<close>

definition lock_zero :: lock where
  "lock_zero = \<lparr>locked = 0, owner = None\<rparr>"

definition inode_zero :: inode where
  "inode_zero = \<lparr>inum = 0, irefcnt = 0, ivalid = 0, ilock = lock_zero, idevno = 0, itype = 0, iuid = 0, igid = 0,
     imode = 0, inlink = 0, isize = 0, iaddr = replicate 124 0\<rparr>"

definition block_zero :: block where
  "block_zero = \<lparr>blockno = 0, bflags = 0, brefcnt = 0, block_lock = lock_zero, bdata = replicate 512 0\<rparr>"

definition file_zero :: open_file where
  "file_zero = \<lparr>frefcnt = 0, finode = None, foffset = 0\<rparr>"

definition boot_state :: kernel where
  "boot_state = \<lparr>eflags = 0x202, mem = (\<lambda>_. 0), outlog = [], ncli = 0, intena = 0, cursor = 0,
     inbuf = replicate 128 0, inindex = 0, kbdflags = 0, coremap = 0, kernel_end = 0x110000,
     rodata_end = 0x108000, kmaps = replicate 3 \<lparr>kstart = 0, kend = 0, kflags = 0\<rparr>, cr3 = 0,
     gdt = replicate NSEGS seg_null, gdtr = [0, 0, 0], gdt_at = 0x109000, gdt_reg = (0, 0),
     idt = replicate 256 (SETGATE False 0 0 0), idtr = [0, 0, 0], idt_at = 0x10A000, idt_reg = (0, 0),
     ts_at = 0x10B000, ts = taskstate_zero, tr = 0,
     procs = replicate NPROC proc_zero, procp = None, nextpid = 0, schedix = 0, tick = 0,
     files = replicate 64 file_zero, inodes = replicate 64 inode_zero, blocks = replicate 256 block_zero,
     idelock = lock_zero, devsw = replicate 10 None,
     sysfs_of = \<lparr>nfree = 0, ninode = 0, rootdir = 0, kernel_no = 0, freeblock = 0, inodeblock = 0\<rparr>,
     drive = (\<lambda>_. replicate 512 0), ide_status = 0x40, pending = [], kbuf = [], trapret_at = 0x101234\<rparr>"

lemma boot_state_sel [simp]:
  "eflags boot_state = 0x202" "mem boot_state = (\<lambda>_. 0)" "ncli boot_state = 0" "intena boot_state = 0"
  "cursor boot_state = 0" "inbuf boot_state = replicate 128 0" "inindex boot_state = 0" "kbdflags boot_state = 0"
  "coremap boot_state = 0" "kernel_end boot_state = 0x110000" "rodata_end boot_state = 0x108000" "cr3 boot_state = 0"
  "gdt boot_state = replicate 6 seg_null" "procs boot_state = replicate 64 proc_zero" "procp boot_state = None"
  "nextpid boot_state = 0" "schedix boot_state = 0" "tick boot_state = 0" "files boot_state = replicate 64 file_zero"
  "inodes boot_state = replicate 64 inode_zero" "blocks boot_state = replicate 256 block_zero"
  "idelock boot_state = lock_zero" "devsw boot_state = replicate 10 None" "drive boot_state = (\<lambda>_. replicate 512 0)"
  "ide_status boot_state = 0x40" "pending boot_state = []" "trapret_at boot_state = 0x101234" "outlog boot_state = []"
  by (simp_all add: boot_state_def)

section \<open>Open files\<close>

definition STDIN :: nat where [simp]: "STDIN = 0"
definition STDOUT :: nat where [simp]: "STDOUT = 1"

definition fget :: "nat \<Rightarrow> kernel \<Rightarrow> (nat \<times> kernel) res" where
  "fget index s =
     (let s = pushcli s;
          s = s\<lparr>files := upd_at index (\<lambda>f. f\<lparr>frefcnt := frefcnt f + 1\<rparr>) (files s)\<rparr>
      in bnd (popcli s) (\<lambda>s. Inr (index, s)))"

definition falloc :: "kernel \<Rightarrow> (nat option \<times> kernel) res" where
  "falloc s =
     (let s = pushcli s in
      case find_idx (\<lambda>f. frefcnt f = 0) (files s) of
        Some i \<Rightarrow>
          bnd (popcli (s\<lparr>files := upd_at i (\<lambda>f. f\<lparr>frefcnt := 1\<rparr>) (files s)\<rparr>)) (\<lambda>s. Inr (Some i, s))
      | None \<Rightarrow> bnd (popcli s) (\<lambda>s. Inr (None, s)))"

definition ffree :: "nat option \<Rightarrow> kernel \<Rightarrow> kernel res" where
  "ffree f s =
     (case f of
        None \<Rightarrow> Inl (Panic ''ffree(1)'')
      | Some i \<Rightarrow>
          (let s = pushcli s in
           if frefcnt (files s ! i) < 1 then Inl (Panic ''ffree(2)'')
           else popcli (s\<lparr>files := upd_at i (\<lambda>f. f\<lparr>frefcnt := frefcnt f - 1\<rparr>) (files s)\<rparr>)))"

definition fdup :: "nat option \<Rightarrow> kernel \<Rightarrow> (nat option \<times> kernel) res" where
  "fdup f s =
     (let s = pushcli s in
      case f of
        None \<Rightarrow> Inl (Panic ''fdup'')
      | Some i \<Rightarrow>
          (if frefcnt (files s ! i) < 1 then Inl (Panic ''fdup'')
           else bnd (popcli (s\<lparr>files := upd_at i (\<lambda>f. f\<lparr>frefcnt := frefcnt f + 1\<rparr>) (files s)\<rparr>))
                  (\<lambda>s. Inr (f, s))))"

section \<open>In-core inodes\<close>

definition ialloc :: "kernel \<Rightarrow> (nat option \<times> kernel) res" where
  "ialloc s =
     (let s = pushcli s in
      case find_idx (\<lambda>ip. ivalid ip = 0) (inodes s) of
        Some i \<Rightarrow>
          bnd (popcli (s\<lparr>inodes := upd_at i (\<lambda>ip. ip\<lparr>ivalid := 1, irefcnt := 1\<rparr>) (inodes s)\<rparr>))
            (\<lambda>s. Inr (Some i, s))
      | None \<Rightarrow> bnd (popcli s) (\<lambda>s. Inr (None, s)))"

definition irelse :: "nat option \<Rightarrow> kernel \<Rightarrow> kernel res" where
  "irelse ip s =
     (case ip of
        None \<Rightarrow> Inl (Panic ''irelse'')
      | Some i \<Rightarrow>
          (let s = pushcli s in
           if irefcnt (inodes s ! i) > 1 then
             popcli (s\<lparr>inodes := upd_at i (\<lambda>ip. ip\<lparr>irefcnt := irefcnt ip - 1\<rparr>) (inodes s)\<rparr>)
           else popcli (s\<lparr>inodes := upd_at i (\<lambda>ip. ip\<lparr>ivalid := 0\<rparr>) (inodes s)\<rparr>)))"

definition idup :: "nat option \<Rightarrow> kernel \<Rightarrow> (nat option \<times> kernel) res" where
  "idup ip s =
     (case ip of
        None \<Rightarrow> Inl (Panic ''idup'')
      | Some i \<Rightarrow>
          bnd (popcli ((pushcli s)\<lparr>inodes := upd_at i (\<lambda>ip. ip\<lparr>irefcnt := irefcnt ip + 1\<rparr>) (inodes s)\<rparr>))
            (\<lambda>s. Inr (ip, s)))"

end
