(* ===== verification/Mix_Proc.thy ===== *)
theory Mix_Proc
  imports Mix_Kernel
begin

text \<open>
  The process table of \<^verbatim>\<open>kernel/proc.c\<close>: creating and freeing a process, file descriptors, the
  scheduler up to the context switch, \<^verbatim>\<open>wakeup\<close>, the first process and the two listings.
\<close>

section \<open>The running process\<close>

definition cur_upd :: "(proc \<Rightarrow> proc) \<Rightarrow> kernel \<Rightarrow> kernel res" where
  "cur_upd f s = (case procp s of
      None \<Rightarrow> Inl (Fault ''user.procp'')
    | Some i \<Rightarrow> Inr (s\<lparr>procs := upd_at i f (procs s)\<rparr>))"

definition cur :: "kernel \<Rightarrow> proc res" where
  "cur s = (case procp s of None \<Rightarrow> Inl (Fault ''user.procp'') | Some i \<Rightarrow> Inr (procs s ! i))"

section \<open>Trap frames\<close>

text \<open>
  A trap frame is 76 bytes of a kernel stack; these are the offsets of \<^verbatim>\<open>include/x86/trapframe.h\<close>. The
  context below it is 20 bytes, with \<^verbatim>\<open>eip\<close> last.
\<close>

definition TF_EAX :: u32 where [simp]: "TF_EAX = 28"
definition TF_ES :: u32 where [simp]: "TF_ES = 40"
definition TF_DS :: u32 where [simp]: "TF_DS = 44"
definition TF_TRAPNO :: u32 where [simp]: "TF_TRAPNO = 48"
definition TF_EIP :: u32 where [simp]: "TF_EIP = 56"
definition TF_CS :: u32 where [simp]: "TF_CS = 60"
definition TF_EFLAGS :: u32 where [simp]: "TF_EFLAGS = 64"
definition TF_ESP :: u32 where [simp]: "TF_ESP = 68"
definition TF_SS :: u32 where [simp]: "TF_SS = 72"
definition TF_SIZE :: u32 where [simp]: "TF_SIZE = 76"
definition CTX_EIP :: u32 where [simp]: "CTX_EIP = 16"
definition CTX_SIZE :: u32 where [simp]: "CTX_SIZE = 20"

section \<open>\<open>palloc\<close> and \<open>pfree\<close>\<close>

text \<open>The trap frame and the context \<^verbatim>\<open>palloc\<close> builds, in the order of its assignments.\<close>

definition new_frame :: "u32 \<Rightarrow> u32 \<Rightarrow> u32 \<Rightarrow> memory \<Rightarrow> memory" where
  "new_frame ret t c m =
     (let m = store32 m (c + CTX_EIP) ret;
          m = store32 m (t + TF_EFLAGS) FL_IF;
          m = store16 m (t + TF_CS) (ucast (SEG_UCODE OR DPL_USER));
          m = store16 m (t + TF_DS) (ucast (SEG_UDATA OR DPL_USER));
          m = store16 m (t + TF_ES) (load16 m (t + TF_DS));
          m = store16 m (t + TF_SS) (load16 m (t + TF_DS))
      in store32 m (t + TF_EFLAGS) FL_IF)"

text \<open>
  What \<^verbatim>\<open>palloc\<close> does once it has the slot \<open>i\<close> and the page \<open>k\<close> of the kernel stack, and its last two
  assignments.
\<close>

definition palloc_files :: "nat \<Rightarrow> kernel \<Rightarrow> (nat option \<times> kernel) res" where
  "palloc_files i s =
     bnd (fget STDIN s) (\<lambda>(f, s).
     bnd (fget STDOUT (s\<lparr>procs := upd_at i (\<lambda>p. p\<lparr>ofile := (ofile p)[STDIN := Some f]\<rparr>) (procs s)\<rparr>)) (\<lambda>(f, s).
     Inr (Some i, s\<lparr>procs := upd_at i (\<lambda>p. p\<lparr>ofile := (ofile p)[STDOUT := Some f]\<rparr>) (procs s)\<rparr>)))"

definition palloc_fill :: "nat \<Rightarrow> u32 \<Rightarrow> kernel \<Rightarrow> (nat option \<times> kernel) res" where
  "palloc_fill i k s =
     bnd (popcli (s\<lparr>procs := upd_at i (\<lambda>p. p\<lparr>stat := SET, pid := nextpid s\<rparr>) (procs s),
                    nextpid := nextpid s + 1\<rparr>)) (\<lambda>s.
     let t = k + STACKSIZE - TF_SIZE;
         c = t - CTX_SIZE;
         s = s\<lparr>mem := memset k 0 PAGESIZE (mem s)\<rparr>;
         s = s\<lparr>procs := upd_at i (\<lambda>p. p\<lparr>tf := t, pcontext := c\<rparr>) (procs s)\<rparr>
     in palloc_files i (s\<lparr>mem := new_frame (trapret_at s) t c (mem s)\<rparr>))"

definition palloc :: "kernel \<Rightarrow> (nat option \<times> kernel) res" where
  "palloc s =
     (let s = pushcli s in
      case find_idx (\<lambda>p. stat p = UNUSED) (procs s) of
        None \<Rightarrow> bnd (popcli s) (\<lambda>s. Inr (None, s))
      | Some i \<Rightarrow>
          bnd (kalloc (s\<lparr>procs := upd_at i (\<lambda>_. proc_zero) (procs s)\<rparr>)) (\<lambda>(k, s).
          let s = s\<lparr>procs := upd_at i (\<lambda>p. p\<lparr>kstack := k\<rparr>) (procs s)\<rparr> in
          if k = 0 then bnd (popcli s) (\<lambda>s. Inr (None, s))
          else palloc_fill i k s))"

fun pfree_files :: "nat \<Rightarrow> nat list \<Rightarrow> kernel \<Rightarrow> kernel res" where
  "pfree_files i [] s = Inr s"
| "pfree_files i (fd # fds) s =
     bnd (case ofile (procs s ! i) ! fd of
            None \<Rightarrow> Inr s
          | Some f \<Rightarrow> bnd (ffree (Some f) s) (\<lambda>s.
              Inr (s\<lparr>procs := upd_at i (\<lambda>p. p\<lparr>ofile := (ofile p)[fd := None]\<rparr>) (procs s)\<rparr>)))
       (pfree_files i fds)"

definition pfree :: "nat \<Rightarrow> kernel \<Rightarrow> kernel res" where
  "pfree i s =
     bnd (pfree_files i [0..<NOFILE] (pushcli s)) (\<lambda>s.
     bnd (case cwd (procs s ! i) of
            None \<Rightarrow> Inr s
          | Some ip \<Rightarrow> bnd (irelse (Some ip) s) (\<lambda>s.
              Inr (s\<lparr>procs := upd_at i (\<lambda>p. p\<lparr>cwd := None\<rparr>) (procs s)\<rparr>))) (\<lambda>s.
     bnd (if pgdir (procs s ! i) \<noteq> 0 then
            bnd (freevm (pgdir (procs s ! i)) s) (\<lambda>s.
              Inr (s\<lparr>procs := upd_at i (\<lambda>p. p\<lparr>pgdir := 0\<rparr>) (procs s)\<rparr>))
          else Inr s) (\<lambda>s.
     bnd (if kstack (procs s ! i) \<noteq> 0 then
            bnd (kfree (kstack (procs s ! i)) s) (\<lambda>s.
              Inr (s\<lparr>procs := upd_at i (\<lambda>p. p\<lparr>kstack := 0\<rparr>) (procs s)\<rparr>))
          else Inr s) (\<lambda>s.
     popcli (s\<lparr>procs := upd_at i (\<lambda>p. p\<lparr>stat := UNUSED\<rparr>) (procs s)\<rparr>)))))"

definition fdalloc :: "nat option \<Rightarrow> kernel \<Rightarrow> (int \<times> kernel) res" where
  "fdalloc f s =
     bnd (cur s) (\<lambda>p.
       case find_idx (\<lambda>g. g = None) (ofile p) of
         Some fd \<Rightarrow> bnd (cur_upd (\<lambda>p. p\<lparr>ofile := (ofile p)[fd := f]\<rparr>) s) (\<lambda>s. Inr (int fd, s))
       | None \<Rightarrow> Inr (- 1, s))"

section \<open>The scheduler\<close>

text \<open>
  The loop that looks for a process in a given state. It starts at \<open>user.sched\<close> and does not stop at
  the first match; \<open>user.sched\<close> is the base of the index and is assigned inside the loop.
\<close>

fun sched_scan :: "procstat \<Rightarrow> nat list \<Rightarrow> proc list \<Rightarrow> u32 \<Rightarrow> nat option \<Rightarrow> nat option \<times> u32" where
  "sched_scan st [] ps base new = (new, base)"
| "sched_scan st (i # is) ps base new =
     (let j = unat ((base + of_nat i) mod of_nat NPROC) in
      if stat (ps ! j) = st then sched_scan st is ps (of_nat i) (Some j)
      else sched_scan st is ps base new)"

text \<open>
  \<^verbatim>\<open>sched\<close> up to its call of \<^verbatim>\<open>swtch\<close>: the result is the process to switch to, or \<open>None\<close> when it
  returns without switching.
\<close>

definition sched_to :: "kernel \<Rightarrow> (nat option \<times> kernel) res" where
  "sched_to s =
     (let s = pushcli s;
          (new, base) = sched_scan RUN [0..<NPROC] (procs s) (schedix s) None;
          s = s\<lparr>schedix := base\<rparr>
      in if new = procp s then bnd (popcli s) (\<lambda>s. Inr (None, s))
         else
           bnd (case new of
                  Some j \<Rightarrow> Inr (Some j, s)
                | None \<Rightarrow>
                    bnd (cur s) (\<lambda>p.
                      if stat p \<noteq> ZOMB then bnd (popcli s) (\<lambda>s. Inr (None, s))
                      else
                        (case sched_scan SLEEP [0..<NPROC] (procs s) (schedix s) None of
                           (None, base) \<Rightarrow> Inl (Panic ''no proc.'')
                         | (Some j, base) \<Rightarrow> Inr (Some j, s\<lparr>schedix := base\<rparr>))))
             (\<lambda>(n, s). case n of
                None \<Rightarrow> Inr (None, s)
              | Some j \<Rightarrow>
                  bnd (switchuvm (kstack (procs s ! j)) (pgdir (procs s ! j)) (s\<lparr>procp := Some j\<rparr>)) (\<lambda>s.
                  bnd (popcli s) (\<lambda>s. Inr (Some j, s)))))"

text \<open>
  For the path of one process, \<^verbatim>\<open>swtch\<close> is where it stops: what follows is up to the others.
\<close>

definition sched :: "kernel \<Rightarrow> kernel res" where
  "sched s = bnd (sched_to s) (\<lambda>(n, s). case n of None \<Rightarrow> Inr s | Some j \<Rightarrow> Inl (Switched j))"

definition wake :: "chan \<Rightarrow> proc \<Rightarrow> proc" where
  "wake ch p = (if wchan p = Some ch then p\<lparr>stat := RUN, wchan := None\<rparr> else p)"

definition wakeup :: "chan \<Rightarrow> kernel \<Rightarrow> kernel res" where
  "wakeup ch s = (let s = pushcli s in popcli (s\<lparr>procs := map (wake ch) (procs s)\<rparr>))"

fun collect_loop :: "nat list \<Rightarrow> kernel \<Rightarrow> kernel res" where
  "collect_loop [] s = Inr s"
| "collect_loop (i # is) s =
     bnd (if pproc (procs s ! i) = procp s \<and> stat (procs s ! i) = ZOMB then pfree i s else Inr s)
       (collect_loop is)"

definition collect_zombies :: "kernel \<Rightarrow> kernel res" where
  "collect_zombies s = bnd (collect_loop [0..<NPROC] (pushcli s)) popcli"

section \<open>Listings\<close>

text \<open>The numbers \<^verbatim>\<open>printf\<close> shows for a state and, as a parameter \<open>addr\<close>, for the address of a channel.\<close>

definition stat_no :: "procstat \<Rightarrow> u32" where
  "stat_no st = (case st of UNUSED \<Rightarrow> 0 | SET \<Rightarrow> 1 | RUN \<Rightarrow> 2 | SLEEP \<Rightarrow> 3 | ZOMB \<Rightarrow> 4 | STOP \<Rightarrow> 5)"

definition chan_no :: "(chan \<Rightarrow> u32) \<Rightarrow> chan option \<Rightarrow> u32" where
  "chan_no addr w = (case w of None \<Rightarrow> 0 | Some ch \<Rightarrow> addr ch)"

fun ps_loop :: "(chan \<Rightarrow> u32) \<Rightarrow> nat list \<Rightarrow> kernel \<Rightarrow> kernel res" where
  "ps_loop addr [] s = Inr s"
| "ps_loop addr (i # is) s =
     bnd (if stat (procs s ! i) \<noteq> UNUSED then
            printf (lit ''proc[%d]: PID %d, Status: %d, wchan:%x '' @ [10])
              [of_nat i, pid (procs s ! i), stat_no (stat (procs s ! i)), chan_no addr (wchan (procs s ! i))] s
          else Inr s)
       (ps_loop addr is)"

definition ps :: "(chan \<Rightarrow> u32) \<Rightarrow> kernel \<Rightarrow> kernel res" where
  "ps addr s = bnd (ps_loop addr [0..<NPROC] (pushcli s)) popcli"

definition procdump :: "(chan \<Rightarrow> u32) \<Rightarrow> kernel \<Rightarrow> kernel res" where
  "procdump addr s =
     bnd (cur s) (\<lambda>p.
     bnd (printf (lit ''pid:%d'' @ [10]) [pid p] s) (\<lambda>s.
     bnd (printf (lit ''stat:%d'' @ [10]) [stat_no (stat p)] s) (\<lambda>s.
     bnd (printf (lit ''pgdir:%x'' @ [10]) [pgdir p] s) (\<lambda>s.
     bnd (printf (lit ''wchan:%x'' @ [10]) [chan_no addr (wchan p)] s) (\<lambda>s.
     bnd (printf (lit ''ncli:%d'' @ [10]) [ucast (ncli s)] s) (\<lambda>s.
     bnd (printf (lit ''intena:%d'' @ [10]) [ucast (intena s)] s) (\<lambda>s.
     printf (lit ''eflags:%x'' @ [10]) [leflags s] s)))))))"

end
