(* ===== verification/Mix_Intr.thy ===== *)
theory Mix_Intr
  imports Mix_Proc
begin

text \<open>
  Interrupts: the controller and the timer (\<^verbatim>\<open>dev/pic.c\<close>, \<^verbatim>\<open>dev/pit.c\<close>), the keyboard and the input
  half of the console (\<^verbatim>\<open>dev/kbd.c\<close>, \<^verbatim>\<open>dev/console.c\<close>), the disk interrupt (\<^verbatim>\<open>dev/ide.c\<close>), their
  dispatch in \<^verbatim>\<open>trap\<close>, and the two operations that wait for them: \<^verbatim>\<open>sleep\<close> and \<^verbatim>\<open>acquire\<close>.
\<close>

section \<open>Controller and timer\<close>

definition PIC0_CMD :: u16 where [simp]: "PIC0_CMD = 0x20"
definition PIC1_CMD :: u16 where [simp]: "PIC1_CMD = 0xA0"
definition PIC0_DATA :: u16 where [simp]: "PIC0_DATA = 0x21"
definition PIC1_DATA :: u16 where [simp]: "PIC1_DATA = 0xA1"
definition PIC_ICW1 :: u8 where [simp]: "PIC_ICW1 = 0x11"
definition PIC0_ICW2 :: u8 where [simp]: "PIC0_ICW2 = 0x20"
definition PIC1_ICW2 :: u8 where [simp]: "PIC1_ICW2 = 0x28"
definition PIC0_ICW3 :: u8 where [simp]: "PIC0_ICW3 = 0x04"
definition PIC1_ICW3 :: u8 where [simp]: "PIC1_ICW3 = 0x02"
definition PIC_ICW4 :: u8 where [simp]: "PIC_ICW4 = 0x03"
definition PIC_EOI :: u8 where [simp]: "PIC_EOI = 0x20"
definition PIC0_MASK :: u8 where [simp]: "PIC0_MASK = 0xF0"
definition PIC1_MASK :: u8 where [simp]: "PIC1_MASK = 0xBF"
definition PIC_MASKALL :: u8 where [simp]: "PIC_MASKALL = 0xFF"

definition picinit :: "'a machine_scheme \<Rightarrow> 'a machine_scheme" where
  "picinit s =
     (let s = outb PIC0_DATA PIC_MASKALL s;
          s = outb PIC1_DATA PIC_MASKALL s;
          s = outb PIC0_CMD PIC_ICW1 s;
          s = outb PIC1_CMD PIC_ICW1 s;
          s = outb PIC0_DATA PIC0_ICW2 s;
          s = outb PIC1_DATA PIC1_ICW2 s;
          s = outb PIC0_DATA PIC0_ICW3 s;
          s = outb PIC1_DATA PIC1_ICW3 s;
          s = outb PIC0_DATA PIC_ICW4 s;
          s = outb PIC1_DATA PIC_ICW4 s;
          s = outb PIC0_DATA PIC0_MASK s
      in outb PIC1_DATA PIC1_MASK s)"

definition piceoi :: "u32 \<Rightarrow> 'a machine_scheme \<Rightarrow> 'a machine_scheme" where
  "piceoi no s = (let s = (if no \<ge> 8 then outb PIC1_CMD PIC_EOI s else s) in outb PIC0_CMD PIC_EOI s)"

definition PIT_CNT0 :: u16 where [simp]: "PIT_CNT0 = 0x40"
definition PIT_CTRL :: u16 where [simp]: "PIT_CTRL = 0x43"
definition FREQ_MAGIC :: u32 where [simp]: "FREQ_MAGIC = 0xe90c"

definition pitinit :: "'a machine_scheme \<Rightarrow> 'a machine_scheme" where
  "pitinit s =
     (let s = outb PIT_CTRL 0x34 s;
          s = outb PIT_CNT0 (ucast (FREQ_MAGIC AND 0xFF)) s
      in outb PIT_CNT0 (ucast (drop_bit 8 FREQ_MAGIC)) s)"

section \<open>Keyboard\<close>

definition normalmap :: "u8 list" where
  "normalmap = [
     0, 0x1B, 49, 50, 51, 52, 53, 54,
     55, 56, 57, 48, 45, 61, 8, 9,
     113, 119, 101, 114, 116, 121, 117, 105,
     111, 112, 91, 93, 10, 0, 97, 115,
     100, 102, 103, 104, 106, 107, 108, 59,
     39, 96, 0, 92, 122, 120, 99, 118,
     98, 110, 109, 44, 46, 47, 0, 42,
     0, 32, 0, 0, 0, 0, 0, 0]"

definition shiftmap :: "u8 list" where
  "shiftmap = [
     0, 0x1B, 33, 64, 35, 36, 37, 94,
     38, 42, 40, 41, 95, 43, 8, 9,
     81, 87, 69, 82, 84, 89, 85, 73,
     79, 80, 123, 125, 10, 0, 65, 83,
     68, 70, 71, 72, 74, 75, 76, 58,
     34, 126, 0, 124, 90, 88, 67, 86,
     66, 78, 77, 60, 62, 63, 0, 42,
     0, 32, 0, 0, 0, 0, 0, 0]"

definition KBD_FLAG_SHIFT :: u8 where [simp]: "KBD_FLAG_SHIFT = 0x01"

text \<open>\<^verbatim>\<open>kbdgetc\<close> on the scan code \<open>n\<close> it reads from the data port.\<close>

definition kbdgetc :: "u8 \<Rightarrow> 'a console_scheme \<Rightarrow> u32 \<times> 'a console_scheme" where
  "kbdgetc n s =
     (if n = 0x2A \<or> n = 0x36 then (0, s\<lparr>kbdflags := kbdflags s OR KBD_FLAG_SHIFT\<rparr>)
      else if n = 0xAA \<or> n = 0xB6 then (0, s\<lparr>kbdflags := kbdflags s AND NOT KBD_FLAG_SHIFT\<rparr>)
      else if n < 0x40 then
        (if kbdflags s AND KBD_FLAG_SHIFT \<noteq> 0 then (ucast (shiftmap ! unat n), s)
         else (ucast (normalmap ! unat n), s))
      else (0, s))"

section \<open>Console input\<close>

definition INPUT_BUF :: u32 where [simp]: "INPUT_BUF = 128"

text \<open>
  The switch of \<^verbatim>\<open>consoleintr\<close>: a newline wakes the readers and is not stored, a backspace takes one
  from the index, whatever the index is, any other character is stored.
\<close>

definition console_key :: "u32 \<Rightarrow> kernel \<Rightarrow> kernel res" where
  "console_key c s =
     (if c = 10 then wakeup ChInput s
      else if c = 8 then Inr (s\<lparr>inindex := inindex s - 1\<rparr>)
      else Inr (s\<lparr>inbuf := (inbuf s)[unat (inindex s) := ucast c], inindex := inindex s + 1\<rparr>))"

definition consoleintr :: "u32 \<times> kernel \<Rightarrow> kernel res" where
  "consoleintr cs = (case cs of (c, s) \<Rightarrow>
     if inindex s \<ge> INPUT_BUF - 1 \<or> c = 0 then Inr s
     else bnd (console_key c s) (putchar c))"

definition kbdintr :: "u8 \<Rightarrow> kernel \<Rightarrow> kernel res" where
  "kbdintr n s = consoleintr (kbdgetc n s)"

section \<open>The disk interrupt\<close>

definition IDE_DATA :: u16 where [simp]: "IDE_DATA = 0x1F0"
definition IDE_SECTCNT :: u16 where [simp]: "IDE_SECTCNT = 0x1F2"
definition IDE_ADDR1 :: u16 where [simp]: "IDE_ADDR1 = 0x1F3"
definition IDE_ADDR2 :: u16 where [simp]: "IDE_ADDR2 = 0x1F4"
definition IDE_ADDR3 :: u16 where [simp]: "IDE_ADDR3 = 0x1F5"
definition IDE_ADDR4 :: u16 where [simp]: "IDE_ADDR4 = 0x1F6"
definition IDE_COMMAND :: u16 where [simp]: "IDE_COMMAND = 0x1F7"
definition IDE_RDCMD :: u8 where [simp]: "IDE_RDCMD = 0x20"
definition IDE_WRCMD :: u8 where [simp]: "IDE_WRCMD = 0x30"

text \<open>
  The drive: the sector it addresses is what the four address registers were last given, in 28-bit
  LBA form, and the data port moves that sector.
\<close>

definition ide_lba :: "'a machine_scheme \<Rightarrow> u32" where
  "ide_lba s = ucast (port_val s IDE_ADDR1) OR push_bit 8 (ucast (port_val s IDE_ADDR2))
     OR push_bit 16 (ucast (port_val s IDE_ADDR3)) OR push_bit 24 (ucast (port_val s IDE_ADDR4 AND 0x0F))"

definition insl_sector :: "kernel \<Rightarrow> u8 list" where
  "insl_sector s = drive s (ide_lba s)"

definition outsl_sector :: "u8 list \<Rightarrow> kernel \<Rightarrow> kernel" where
  "outsl_sector bs s = s\<lparr>drive := (drive s)(ide_lba s := bs)\<rparr>"

text \<open>
  The buffer is the channel the holder of \<^verbatim>\<open>idelock\<close> sleeps on. When it sleeps on nothing, or there
  is no holder, the code follows a pointer that is not to a buffer.
\<close>

definition ideintr :: "kernel \<Rightarrow> kernel res" where
  "ideintr s = (case owner (idelock s) of
      None \<Rightarrow> Inl (Fault ''ideintr: idelock.procp'')
    | Some p \<Rightarrow> (case wchan (procs s ! p) of
        Some (ChBlock i) \<Rightarrow>
          (let s = (if bflags (blocks s ! i) AND B_DIRTY = 0
                    then s\<lparr>blocks := upd_at i (\<lambda>b. b\<lparr>bdata := insl_sector s\<rparr>) (blocks s)\<rparr> else s);
               s = s\<lparr>blocks := upd_at i (\<lambda>b. b\<lparr>bflags := bflags b OR B_VALID\<rparr>) (blocks s)\<rparr>;
               s = s\<lparr>blocks := upd_at i (\<lambda>b. b\<lparr>bflags := bflags b AND NOT B_DIRTY\<rparr>) (blocks s)\<rparr>
           in wakeup (ChBlock i) s)
      | _ \<Rightarrow> Inl (Fault ''ideintr: wchan'')))"

section \<open>Dispatch\<close>

definition T_IRQ0 :: u32 where [simp]: "T_IRQ0 = 32"
definition IRQ_TIMER :: u32 where [simp]: "IRQ_TIMER = 0"
definition IRQ_KBD :: u32 where [simp]: "IRQ_KBD = 1"
definition IRQ_IDE :: u32 where [simp]: "IRQ_IDE = 14"

definition timer_tick :: "kernel \<Rightarrow> kernel res" where
  "timer_tick s =
     bnd (cur_upd (\<lambda>p. p\<lparr>cpu := cpu p + 1\<rparr>) (s\<lparr>tick := tick s + 1\<rparr>)) (\<lambda>s.
     bnd (if tick s mod 100 = 0 then sched s else Inr s) (\<lambda>s. Inr (piceoi IRQ_TIMER s)))"

text \<open>The three cases of the \<^verbatim>\<open>switch\<close> in \<^verbatim>\<open>trap\<close>.\<close>

definition irq_trap :: "irq \<Rightarrow> kernel \<Rightarrow> kernel res" where
  "irq_trap e s = (case e of
      IrqTimer \<Rightarrow> timer_tick s
    | IrqKbd n \<Rightarrow> bnd (kbdintr n s) (\<lambda>s. Inr (piceoi IRQ_KBD s))
    | IrqIde \<Rightarrow> bnd (ideintr s) (\<lambda>s. Inr (piceoi IRQ_IDE s)))"

text \<open>
  The processor enters through an interrupt gate, which masks interrupts, and \<^verbatim>\<open>iret\<close> restores the
  flags.
\<close>

definition interrupt :: "irq \<Rightarrow> kernel \<Rightarrow> kernel res" where
  "interrupt e s = bnd (irq_trap e (cli s)) (\<lambda>t. Inr (t\<lparr>eflags := eflags s\<rparr>))"

section \<open>Sleeping and locks\<close>

definition sleep_on :: "chan \<Rightarrow> kernel \<Rightarrow> kernel res" where
  "sleep_on ch s =
     bnd (cur_upd (\<lambda>p. p\<lparr>wchan := Some ch\<rparr>) (pushcli s)) (\<lambda>s.
     bnd (cur_upd (\<lambda>p. p\<lparr>stat := SLEEP\<rparr>) s) popcli)"

text \<open>
  \<^verbatim>\<open>while (user.procp->wchan) sched();\<close> Between two calls of \<^verbatim>\<open>sched\<close> that do not switch, the next
  pending interrupt arrives, if interrupts are enabled; with none left the loop runs for ever.
\<close>

fun sleep_wait :: "irq list \<Rightarrow> kernel \<Rightarrow> kernel res" where
  "sleep_wait [] s =
     bnd (cur s) (\<lambda>p. if wchan p = None then Inr (s\<lparr>pending := []\<rparr>) else bnd (sched s) (\<lambda>s. Inl Blocked))"
| "sleep_wait (e # es) s =
     bnd (cur s) (\<lambda>p. if wchan p = None then Inr (s\<lparr>pending := e # es\<rparr>)
       else bnd (sched s) (\<lambda>s.
         if interruptible s then bnd (interrupt e s) (sleep_wait es) else Inl Blocked))"

definition sleep :: "chan \<Rightarrow> kernel \<Rightarrow> kernel res" where
  "sleep ch s = bnd (sleep_on ch s) (\<lambda>s. sleep_wait (pending s) s)"

definition lock_of :: "lockref \<Rightarrow> kernel \<Rightarrow> lock" where
  "lock_of l s = (case l of
      LkIde \<Rightarrow> idelock s
    | LkInode i \<Rightarrow> ilock (inodes s ! i)
    | LkBlock i \<Rightarrow> block_lock (blocks s ! i))"

definition set_lock :: "lockref \<Rightarrow> lock \<Rightarrow> kernel \<Rightarrow> kernel" where
  "set_lock l k s = (case l of
      LkIde \<Rightarrow> s\<lparr>idelock := k\<rparr>
    | LkInode i \<Rightarrow> s\<lparr>inodes := upd_at i (\<lambda>ip. ip\<lparr>ilock := k\<rparr>) (inodes s)\<rparr>
    | LkBlock i \<Rightarrow> s\<lparr>blocks := upd_at i (\<lambda>b. b\<lparr>block_lock := k\<rparr>) (blocks s)\<rparr>)"

text \<open>
  Every return of \<^verbatim>\<open>sleep\<close> has taken a pending interrupt, so the loop of \<^verbatim>\<open>acquire\<close> runs at most once
  more than there are.
\<close>

fun acquire_loop :: "nat \<Rightarrow> lockref \<Rightarrow> kernel \<Rightarrow> kernel res" where
  "acquire_loop 0 l s = Inl Blocked"
| "acquire_loop (Suc n) l s =
     (if locked (lock_of l s) \<noteq> 0 then bnd (sleep (ChLock l) s) (acquire_loop n l)
      else Inr (set_lock l \<lparr>locked = 1, owner = procp s\<rparr> s))"

definition acquire :: "lockref \<Rightarrow> kernel \<Rightarrow> kernel res" where
  "acquire l s = acquire_loop (Suc (length (pending s))) l s"

definition release :: "lockref \<Rightarrow> kernel \<Rightarrow> kernel res" where
  "release l s = wakeup (ChLock l) (set_lock l \<lparr>locked = 0, owner = None\<rparr> s)"

definition holding :: "lockref \<Rightarrow> kernel \<Rightarrow> bool" where
  "holding l s \<longleftrightarrow> locked (lock_of l s) \<noteq> 0 \<and> owner (lock_of l s) = procp s"

end
