(* ===== verification/Mix_Disk.thy ===== *)
theory Mix_Disk
  imports Mix_Intr
begin

text \<open>
  Disk requests (\<^verbatim>\<open>dev/ide.c\<close>) and the buffer cache (\<^verbatim>\<open>fs/bio.c\<close>).
\<close>

section \<open>Requests\<close>

text \<open>\<^verbatim>\<open>idewait\<close> loops until the drive is ready; a drive that never is blocks the kernel.\<close>

definition idewait :: "kernel \<Rightarrow> kernel res" where
  "idewait s = (if ide_status s AND 0xC0 = 0x40 then Inr s else Inl Blocked)"

definition sendreq :: "nat \<Rightarrow> kernel \<Rightarrow> kernel res" where
  "sendreq i s =
     (if blockno (blocks s ! i) \<ge> NSECTOR then Inl (Panic ''incorrect blockno'')
      else
        (let no = blockno (blocks s ! i) AND 0x0FFFFFFF;
             s = s\<lparr>blocks := upd_at i (\<lambda>b. b\<lparr>blockno := no\<rparr>) (blocks s)\<rparr>
         in bnd (idewait s) (\<lambda>s.
           let s = outb IDE_SECTCNT 1 s;
               s = outb IDE_ADDR1 (ucast (no AND 0xFF)) s;
               s = outb IDE_ADDR2 (ucast (drop_bit 8 no AND 0xFF)) s;
               s = outb IDE_ADDR3 (ucast (drop_bit 16 no AND 0xFF)) s;
               s = outb IDE_ADDR4 (ucast (drop_bit 24 no OR 0xE0)) s
           in if bflags (blocks s ! i) AND B_DIRTY \<noteq> 0
              then Inr (outsl_sector (bdata (blocks s ! i)) (outb IDE_COMMAND IDE_WRCMD s))
              else Inr (outb IDE_COMMAND IDE_RDCMD s))))"

fun iderw_wait :: "nat \<Rightarrow> nat \<Rightarrow> kernel \<Rightarrow> kernel res" where
  "iderw_wait 0 i s = Inl Blocked"
| "iderw_wait (Suc n) i s =
     (if bflags (blocks s ! i) AND (B_VALID OR B_DIRTY) \<noteq> B_VALID
      then bnd (sleep (ChBlock i) s) (iderw_wait n i)
      else Inr s)"

definition iderw :: "nat \<Rightarrow> kernel \<Rightarrow> kernel res" where
  "iderw i s =
     (if \<not> holding (LkBlock i) s then Inl (Panic ''iderw: block not locked'')
      else if bflags (blocks s ! i) AND (B_VALID OR B_DIRTY) = B_VALID then Inl (Panic ''iderw: nothing to do'')
      else bnd (acquire LkIde s) (\<lambda>s.
           bnd (sendreq i s) (\<lambda>s.
           bnd (iderw_wait (Suc (length (pending s))) i s) (release LkIde))))"

section \<open>The buffer cache\<close>

definition bget :: "u32 \<Rightarrow> kernel \<Rightarrow> (nat \<times> kernel) res" where
  "bget no s =
     (let s = pushcli s in
      case find_idx (\<lambda>b. blockno b = no) (blocks s) of
        Some i \<Rightarrow>
          bnd (popcli (s\<lparr>blocks := upd_at i (\<lambda>b. b\<lparr>brefcnt := brefcnt b + 1\<rparr>) (blocks s)\<rparr>)) (\<lambda>s. Inr (i, s))
      | None \<Rightarrow>
          (case find_idx (\<lambda>b. brefcnt b = 0 \<and> bflags b AND B_DIRTY = 0) (blocks s) of
             Some i \<Rightarrow>
               bnd (popcli (s\<lparr>blocks := upd_at i (\<lambda>b. b\<lparr>blockno := no, bflags := 0, brefcnt := 1\<rparr>) (blocks s)\<rparr>))
                 (\<lambda>s. Inr (i, s))
           | None \<Rightarrow> Inl (Panic ''bget: no buffers'')))"

definition bread :: "u32 \<Rightarrow> kernel \<Rightarrow> (nat \<times> kernel) res" where
  "bread no s =
     bnd (bget no s) (\<lambda>(i, s).
       if brefcnt (blocks s ! i) > 1 then Inr (i, s)
       else
         bnd (acquire (LkBlock i) s) (\<lambda>s.
         bnd (if bflags (blocks s ! i) AND B_VALID = 0 then iderw i s else Inr s) (\<lambda>s.
         bnd (release (LkBlock i) s) (\<lambda>s.
         Inr (i, s)))))"

definition bwrite :: "nat \<Rightarrow> kernel \<Rightarrow> kernel res" where
  "bwrite i s =
     bnd (acquire (LkBlock i) s) (\<lambda>s.
       if \<not> holding (LkBlock i) s then Inl (Panic ''bwrite'')
       else
         bnd (iderw i (s\<lparr>blocks := upd_at i (\<lambda>b. b\<lparr>bflags := bflags b OR B_DIRTY\<rparr>) (blocks s)\<rparr>))
           (release (LkBlock i)))"

definition brelse :: "nat \<Rightarrow> kernel \<Rightarrow> kernel" where
  "brelse i s = s\<lparr>blocks := upd_at i (\<lambda>b. b\<lparr>brefcnt := brefcnt b - 1\<rparr>) (blocks s)\<rparr>"

end
