(* ===== verification/Mix_Inode.thy ===== *)
theory Mix_Inode
  imports Mix_Disk
begin

text \<open>
  The file system of \<^verbatim>\<open>fs/inode.c\<close>: in-core inodes, reading and writing files and devices, directory
  lookup and path names; the initialisation of \<^verbatim>\<open>fs/file.c\<close>; the console as a device.
\<close>

section \<open>Virtual memory as the kernel uses it\<close>

text \<open>
  A pointer that may be a user pointer is followed through the page directory of \<open>cr3\<close>; a page that
  is not present is a page fault, on which \<^verbatim>\<open>trap\<close> panics.
\<close>

definition uread :: "u32 \<Rightarrow> kernel \<Rightarrow> u8 res" where
  "uread a s = (case translate (mem s) (cr3 s) a of
      None \<Rightarrow> Inl (Fault ''page fault'')
    | Some pa \<Rightarrow> Inr (mem s pa))"

definition uwrite :: "u32 \<Rightarrow> u8 \<Rightarrow> kernel \<Rightarrow> kernel res" where
  "uwrite a b s = (case translate (mem s) (cr3 s) a of
      None \<Rightarrow> Inl (Fault ''page fault'')
    | Some pa \<Rightarrow> Inr (s\<lparr>mem := (mem s)(pa := b)\<rparr>))"

definition uread32 :: "u32 \<Rightarrow> kernel \<Rightarrow> u32 res" where
  "uread32 a s =
     bnd (uread a s) (\<lambda>b0. bnd (uread (a + 1) s) (\<lambda>b1. bnd (uread (a + 2) s) (\<lambda>b2. bnd (uread (a + 3) s) (\<lambda>b3.
       Inr (le32 b0 b1 b2 b3)))))"

fun ustore :: "u32 \<Rightarrow> u8 list \<Rightarrow> kernel \<Rightarrow> kernel res" where
  "ustore a [] s = Inr s"
| "ustore a (b # bs) s = bnd (uwrite a b s) (ustore (a + 1) bs)"

fun uload :: "nat \<Rightarrow> u32 \<Rightarrow> kernel \<Rightarrow> u8 list res" where
  "uload 0 a s = Inr []"
| "uload (Suc n) a s = bnd (uread a s) (\<lambda>b. bnd (uload n (a + 1) s) (\<lambda>bs. Inr (b # bs)))"

section \<open>Destinations\<close>

text \<open>
  Where \<^verbatim>\<open>readi\<close> stores: through the page tables for a user pointer, at the address itself for a
  frame that \<^verbatim>\<open>loaduvm\<close> looked up, or into the header buffer of \<^verbatim>\<open>sys_execv\<close>.
\<close>

datatype dest = UserPtr u32 | Phys u32 | HeaderBuf

definition put_at :: "dest \<Rightarrow> u32 \<Rightarrow> u8 list \<Rightarrow> kernel \<Rightarrow> kernel res" where
  "put_at d off bs s = (case d of
      UserPtr a \<Rightarrow> ustore (a + off) bs s
    | Phys a \<Rightarrow> Inr (s\<lparr>mem := store_bytes (a + off) bs (mem s)\<rparr>)
    | HeaderBuf \<Rightarrow> Inr (s\<lparr>kbuf := take (unat off) (kbuf s) @ bs @ drop (unat off + length bs) (kbuf s)\<rparr>))"

section \<open>The console as a device\<close>

definition NDEV :: u32 where [simp]: "NDEV = 10"
definition DEV_CONSOLE :: nat where [simp]: "DEV_CONSOLE = 1"

text \<open>
  \<^verbatim>\<open>min(size, input.index)\<close> compares as unsigned; the loop then copies that many characters and
  writes a zero behind them.
\<close>

fun consoleread_loop :: "nat list \<Rightarrow> dest \<Rightarrow> kernel \<Rightarrow> kernel res" where
  "consoleread_loop [] dst s = Inr s"
| "consoleread_loop (i # is) dst s =
     (if i < length (inbuf s) then bnd (put_at dst (of_nat i) [inbuf s ! i] s) (consoleread_loop is dst)
      else Inl (Fault ''consoleread: input.buf''))"

definition consoleread :: "dest \<Rightarrow> u32 \<Rightarrow> kernel \<Rightarrow> (int \<times> kernel) res" where
  "consoleread dst sz s =
     bnd (sleep ChInput s) (\<lambda>s.
     let s = pushcli s;
         n = (if sz < inindex s then sz else inindex s)
     in bnd (consoleread_loop [0..<unat n] dst s) (\<lambda>s.
        bnd (put_at dst n [0] s) (\<lambda>s.
        bnd (popcli (s\<lparr>inindex := 0\<rparr>)) (\<lambda>s.
        Inr (sint n, s)))))"

fun consolewrite_loop :: "nat \<Rightarrow> u32 \<Rightarrow> kernel \<Rightarrow> kernel res" where
  "consolewrite_loop 0 src s = Inr s"
| "consolewrite_loop (Suc n) src s =
     bnd (uread src s) (\<lambda>c. bnd (putchar (sx c) s) (consolewrite_loop n (src + 1)))"

definition consolewrite :: "u32 \<Rightarrow> u32 \<Rightarrow> kernel \<Rightarrow> (int \<times> kernel) res" where
  "consolewrite src sz s =
     bnd (consolewrite_loop (nat (sint sz)) src (pushcli s)) (\<lambda>s.
     bnd (popcli s) (\<lambda>s. Inr (sint sz, s)))"

definition consoleinit :: "kernel \<Rightarrow> kernel" where
  "consoleinit s =
     s\<lparr>mem := stosb CGAADDR 0 (unat PAGESIZE) (mem s), cursor := 0,
       devsw := (devsw s)[DEV_CONSOLE := Some ConsoleDev]\<rparr>"

section \<open>In-core inodes\<close>

text \<open>\<^verbatim>\<open>memmove(b->data, &ip->type, SECTSIZE)\<close>: the sector is the fields from \<^verbatim>\<open>type\<close> on.\<close>

definition load_dinode :: "u8 list \<Rightarrow> inode \<Rightarrow> inode" where
  "load_dinode bs ip = ip\<lparr>itype := get16 bs 0, iuid := get16 bs 2, igid := get16 bs 4, imode := get16 bs 6,
     inlink := get32 bs 8, isize := get32 bs 12, iaddr := map (\<lambda>k. get32 bs (16 + 4 * k)) [0..<124]\<rparr>"

definition iget :: "u32 \<Rightarrow> kernel \<Rightarrow> (nat option \<times> kernel) res" where
  "iget no s =
     (let s = pushcli s in
      case find_idx (\<lambda>ip. ivalid ip \<noteq> 0 \<and> inum ip = no) (inodes s) of
        Some i \<Rightarrow>
          bnd (popcli (s\<lparr>inodes := upd_at i (\<lambda>ip. ip\<lparr>irefcnt := irefcnt ip + 1\<rparr>) (inodes s)\<rparr>))
            (\<lambda>s. Inr (Some i, s))
      | None \<Rightarrow>
          (case find_idx (\<lambda>ip. ivalid ip = 0) (inodes s) of
             None \<Rightarrow> bnd (popcli s) (\<lambda>s. Inr (None, s))
           | Some i \<Rightarrow>
               bnd (popcli (s\<lparr>inodes :=
                      upd_at i (\<lambda>ip. ip\<lparr>ivalid := 1, inum := no, irefcnt := 1, idevno := 0\<rparr>) (inodes s)\<rparr>)) (\<lambda>s.
               bnd (bread no s) (\<lambda>(b, s).
               Inr (Some i, brelse b (s\<lparr>inodes := upd_at i (load_dinode (bdata (blocks s ! b))) (inodes s)\<rparr>))))))"

definition getrootdir :: "kernel \<Rightarrow> (nat \<times> kernel) res" where
  "getrootdir s =
     bnd (iget (rootdir (sysfs_of s)) s) (\<lambda>(ip, s). case ip of
        None \<Rightarrow> Inl (Panic ''no rootdir'')
      | Some i \<Rightarrow> Inr (i, s))"

section \<open>Reading and writing\<close>

definition SECTOR :: nat where [simp]: "SECTOR = 512"

definition part :: "u8 list \<Rightarrow> u32 \<Rightarrow> u32 \<Rightarrow> u8 list" where
  "part bs off m = take (unat m) (drop (unat off) bs)"

text \<open>
  One block of the loop: \<open>m\<close> is the smaller of what is left and the rest of the sector. \<open>cnt\<close> is an
  \<^verbatim>\<open>int\<close> compared as unsigned; the loop moves at least one byte each time, and \<open>fuel\<close> is the size
  plus one.
\<close>

definition chunk :: "u32 \<Rightarrow> u32 \<Rightarrow> u32 \<Rightarrow> u32" where
  "chunk cnt sz offset =
     (if sz - cnt < SECTSIZE - offset mod SECTSIZE then sz - cnt else SECTSIZE - offset mod SECTSIZE)"

fun readi_loop :: "nat \<Rightarrow> nat \<Rightarrow> dest \<Rightarrow> u32 \<Rightarrow> u32 \<Rightarrow> u32 \<Rightarrow> kernel \<Rightarrow> kernel res" where
  "readi_loop 0 ip d cnt sz offset s = Inl (Fault ''readi: does not return'')"
| "readi_loop (Suc n) ip d cnt sz offset s =
     (if cnt < sz then
        (if unat (offset div SECTSIZE) \<ge> length (iaddr (inodes s ! ip)) then Inl (Fault ''readi: addr'')
         else
           bnd (bread (iaddr (inodes s ! ip) ! unat (offset div SECTSIZE)) s) (\<lambda>(b, s).
           let m = chunk cnt sz offset in
           bnd (put_at d cnt (part (bdata (blocks s ! b)) (offset mod SECTSIZE) m) s) (\<lambda>s.
           readi_loop n ip d (cnt + m) sz (offset + m) (brelse b s))))
      else Inr s)"

definition device :: "u32 \<Rightarrow> kernel \<Rightarrow> devdrv option" where
  "device no s = (if no < NDEV then devsw s ! unat no else None)"

definition readi :: "nat \<Rightarrow> dest \<Rightarrow> u32 \<Rightarrow> u32 \<Rightarrow> kernel \<Rightarrow> (int \<times> kernel) res" where
  "readi i d offset sz s =
     (let ip = inodes s ! i in
      if \<not> holding (LkInode i) s then Inr (- 1, s)
      else if itype ip = T_DEV then
        (case device (idevno ip) s of
           None \<Rightarrow> Inr (- 1, s)
         | Some ConsoleDev \<Rightarrow> consoleread d sz s)
      else if offset > isize ip \<or> offset + sz < offset \<or> offset div SECTSIZE \<ge> 124 then Inr (- 1, s)
      else
        (let sz = (if offset + sz > isize ip then isize ip - offset else sz)
         in bnd (readi_loop (Suc (unat sz)) i d 0 sz offset s) (\<lambda>s. Inr (sint sz, s))))"

fun writei_loop :: "nat \<Rightarrow> nat \<Rightarrow> u32 \<Rightarrow> u32 \<Rightarrow> u32 \<Rightarrow> u32 \<Rightarrow> kernel \<Rightarrow> kernel res" where
  "writei_loop 0 ip src cnt sz offset s = Inl (Fault ''writei: does not return'')"
| "writei_loop (Suc n) ip src cnt sz offset s =
     (if cnt < sz then
        (let m = chunk cnt sz offset;
             no = iaddr (inodes s ! ip) ! unat (offset div SECTSIZE)
         in bnd (if m = SECTSIZE then bget no s else bread no s) (\<lambda>(b, s).
            bnd (uload (unat m) src s) (\<lambda>bs.
            let k = unat (offset mod SECTSIZE);
                s = s\<lparr>blocks := upd_at b (\<lambda>x. x\<lparr>bdata := take k (bdata x) @ bs @ drop (k + length bs) (bdata x)\<rparr>) (blocks s)\<rparr>
            in writei_loop n ip (src + m) (cnt + m) sz (offset + m) (brelse b s))))
      else Inr s)"

definition writei :: "nat \<Rightarrow> u32 \<Rightarrow> u32 \<Rightarrow> u32 \<Rightarrow> kernel \<Rightarrow> (int \<times> kernel) res" where
  "writei i src offset sz s =
     (let ip = inodes s ! i in
      if \<not> holding (LkInode i) s then Inr (- 1, s)
      else if itype ip = T_DEV then
        (case device (idevno ip) s of
           None \<Rightarrow> Inr (- 1, s)
         | Some ConsoleDev \<Rightarrow> consolewrite src sz s)
      else if offset > isize ip \<or> offset + sz < offset \<or> offset div SECTSIZE \<ge> 124
        \<or> offset + sz > 124 * SECTSIZE then Inr (- 1, s)
      else bnd (writei_loop (Suc (unat sz)) i src 0 sz offset s) (\<lambda>s. Inr (sint sz, s)))"

section \<open>Directories and paths\<close>

definition FNAMESIZ :: nat where [simp]: "FNAMESIZ = 28"
definition NDIRENT :: nat where [simp]: "NDIRENT = 16"

definition dir_ino :: "u8 list \<Rightarrow> nat \<Rightarrow> u32" where
  "dir_ino d i = get32 d (32 * i)"

definition dir_fname :: "u8 list \<Rightarrow> nat \<Rightarrow> nat \<Rightarrow> u8" where
  "dir_fname d i k = d ! (32 * i + 4 + k)"

fun dirlookup_loop :: "nat list \<Rightarrow> u8 list \<Rightarrow> (nat \<Rightarrow> u8 res) \<Rightarrow> kernel \<Rightarrow> (nat option \<times> kernel) res" where
  "dirlookup_loop [] d fname s = Inr (None, s)"
| "dirlookup_loop (i # is) d fname s =
     bnd (strcmp fname (dir_fname d i) FNAMESIZ) (\<lambda>r.
       if r \<noteq> 0 then iget (dir_ino d i) s else dirlookup_loop is d fname s)"

definition dirlookup :: "u8 list \<Rightarrow> (nat \<Rightarrow> u8 res) \<Rightarrow> kernel \<Rightarrow> (nat option \<times> kernel) res" where
  "dirlookup = dirlookup_loop [0..<NDIRENT]"

definition namei :: "u32 \<Rightarrow> kernel \<Rightarrow> (nat option \<times> kernel) res" where
  "namei path s =
     (if path = 0 then Inr (None, s)
      else
        bnd (getrootdir s) (\<lambda>(ip, s).
        bnd (uread path s) (\<lambda>c.
          if c = 47 then Inr (Some ip, s)
          else
            bnd (bread (iaddr (inodes s ! ip) ! 0) s) (\<lambda>(b, s).
            bnd (irelse (Some ip) s) (\<lambda>s.
            bnd (dirlookup (bdata (blocks s ! b)) (\<lambda>k. uread (path + of_nat k) s) s) (\<lambda>(ip, s).
            Inr (ip, brelse b s)))))))"

section \<open>Initialisation\<close>

definition SUPERADDR :: u32 where [simp]: "SUPERADDR = 0x10000"

definition load_sysfs :: "memory \<Rightarrow> sysfs" where
  "load_sysfs m = \<lparr>nfree = load32 m SUPERADDR, ninode = load32 m (SUPERADDR + 4), rootdir = load32 m (SUPERADDR + 8),
     kernel_no = load32 m (SUPERADDR + 12), freeblock = load32 m (SUPERADDR + 16), inodeblock = load32 m (SUPERADDR + 20)\<rparr>"

definition console_file :: "nat \<Rightarrow> kernel \<Rightarrow> kernel res" where
  "console_file fd s =
     bnd (ialloc s) (\<lambda>(ip, s). case ip of
        None \<Rightarrow> Inl (Fault ''fsinit: ialloc'')
      | Some i \<Rightarrow>
          Inr (s\<lparr>inodes := upd_at i (\<lambda>ip. ip\<lparr>idevno := of_nat DEV_CONSOLE, itype := T_DEV\<rparr>) (inodes s),
                 files := upd_at fd (\<lambda>f. f\<lparr>frefcnt := 1, finode := Some i\<rparr>) (files s)\<rparr>))"

definition fsinit :: "kernel \<Rightarrow> kernel res" where
  "fsinit s =
     bnd (console_file STDIN s) (\<lambda>s.
     bnd (console_file STDOUT s) (\<lambda>s.
     Inr (s\<lparr>sysfs_of := load_sysfs (mem s)\<rparr>)))"

end
