(* ===== verification/Mix_Syscall.thy ===== *)
theory Mix_Syscall
  imports Mix_Inode
begin

text \<open>
  The system calls (\<^verbatim>\<open>kernel/syscall\<close>), their dispatch, \<^verbatim>\<open>trap\<close>, and the start of the kernel:
  \<^verbatim>\<open>loaduvm\<close> and \<^verbatim>\<open>copyout\<close> of \<^verbatim>\<open>kernel/mm/vm.c\<close>, \<^verbatim>\<open>uinit\<close> of \<^verbatim>\<open>kernel/proc.c\<close>, \<^verbatim>\<open>main\<close>.
\<close>

section \<open>Arguments\<close>

definition argint :: "nat \<Rightarrow> kernel \<Rightarrow> u32 res" where
  "argint n s = bnd (cur s) (\<lambda>p. uread32 (load32 (mem s) (tf p + TF_ESP) + 4 * (of_nat n + 1)) s)"

text \<open>\<^verbatim>\<open>n > KERNEND\<close> compares two signed integers.\<close>

definition argptr :: "nat \<Rightarrow> kernel \<Rightarrow> u32 res" where
  "argptr n s = bnd (argint n s) (\<lambda>a. Inr (if sint a > sint KERNEND then a else 0))"

definition argfd :: "nat \<Rightarrow> kernel \<Rightarrow> nat option res" where
  "argfd n s = bnd (argint n s) (\<lambda>fd.
     if sint fd < 0 \<or> sint fd \<ge> int NOFILE then Inr None
     else bnd (cur s) (\<lambda>p. Inr (ofile p ! unat fd)))"

section \<open>Files\<close>

definition sys_open :: "kernel \<Rightarrow> (int \<times> kernel) res" where
  "sys_open s =
     bnd (argptr 0 s) (\<lambda>path.
     bnd (namei path s) (\<lambda>(ip, s).
       if ip = None then Inr (- 1, s)
       else
         bnd (falloc s) (\<lambda>(f, s). case f of
            None \<Rightarrow> Inr (- 1, s)
          | Some i \<Rightarrow>
              bnd (fdalloc f s) (\<lambda>(fd, s).
                if fd < 0 then bnd (ffree f s) (\<lambda>s. Inr (- 1, s))
                else Inr (fd, s\<lparr>files := upd_at i (\<lambda>f. f\<lparr>finode := ip, foffset := 0\<rparr>) (files s)\<rparr>)))))"

definition sys_close :: "kernel \<Rightarrow> (int \<times> kernel) res" where
  "sys_close s =
     bnd (argint 0 s) (\<lambda>fd.
       if sint fd < 2 \<or> sint fd \<ge> int NOFILE then Inr (- 1, s)
       else
         bnd (cur s) (\<lambda>p.
         bnd (ffree (ofile p ! unat fd) s) (\<lambda>s.
         bnd (cur_upd (\<lambda>p. p\<lparr>ofile := (ofile p)[unat fd := None]\<rparr>) s) (\<lambda>s.
         Inr (0, s)))))"

text \<open>The common part of \<^verbatim>\<open>sys_read\<close> and \<^verbatim>\<open>sys_write\<close>; \<open>io\<close> is the call between the lock operations.\<close>

definition sys_rw :: "(nat \<Rightarrow> u32 \<Rightarrow> u32 \<Rightarrow> u32 \<Rightarrow> kernel \<Rightarrow> (int \<times> kernel) res) \<Rightarrow> kernel \<Rightarrow> (int \<times> kernel) res" where
  "sys_rw io s =
     bnd (argfd 0 s) (\<lambda>f.
     bnd (argptr 1 s) (\<lambda>buf.
     bnd (argint 2 s) (\<lambda>sz.
       case f of
         None \<Rightarrow> Inr (- 1, s)
       | Some i \<Rightarrow>
           if buf = 0 \<or> sint sz < 0 then Inr (- 1, s)
           else (case finode (files s ! i) of
               None \<Rightarrow> Inl (Fault ''f->inode'')
             | Some ip \<Rightarrow>
                 bnd (acquire (LkInode ip) s) (\<lambda>s.
                 bnd (io ip buf (foffset (files s ! i)) sz s) (\<lambda>(r, s).
                 let s = (if r > 0 then s\<lparr>files := upd_at i (\<lambda>f. f\<lparr>foffset := foffset f + of_int r\<rparr>) (files s)\<rparr> else s)
                 in bnd (release (LkInode ip) s) (\<lambda>s. Inr (r, s))))))))"

definition sys_read :: "kernel \<Rightarrow> (int \<times> kernel) res" where
  "sys_read = sys_rw (\<lambda>ip dst off sz s. readi ip (UserPtr dst) off sz s)"

definition sys_write :: "kernel \<Rightarrow> (int \<times> kernel) res" where
  "sys_write = sys_rw writei"

section \<open>Processes\<close>

fun fork_files :: "nat list \<Rightarrow> proc \<Rightarrow> nat \<Rightarrow> kernel \<Rightarrow> kernel res" where
  "fork_files [] p n s = Inr s"
| "fork_files (i # is) p n s =
     bnd (case ofile p ! i of
            None \<Rightarrow> Inr s
          | Some f \<Rightarrow> bnd (fdup (Some f) s) (\<lambda>(g, s).
              Inr (s\<lparr>procs := upd_at n (\<lambda>q. q\<lparr>ofile := (ofile q)[i := g]\<rparr>) (procs s)\<rparr>)))
       (fork_files is p n)"

definition sys_fork :: "kernel \<Rightarrow> (int \<times> kernel) res" where
  "sys_fork s =
     bnd (palloc s) (\<lambda>(np, s). case np of
        None \<Rightarrow> Inr (- 1, s)
      | Some n \<Rightarrow>
          bnd (cur s) (\<lambda>p.
          bnd (copyuvm (pgdir p) (psize p) s) (\<lambda>(dir, s).
          let s = s\<lparr>procs := upd_at n (\<lambda>q. q\<lparr>pgdir := dir\<rparr>) (procs s)\<rparr> in
          if dir = 0 then bnd (pfree n s) (\<lambda>s. Inr (- 1, s))
          else
            let s = s\<lparr>procs := upd_at n (\<lambda>q. q\<lparr>psize := psize p, pproc := procp s\<rparr>) (procs s)\<rparr>;
                t = tf (procs s ! n);
                s = s\<lparr>mem := memmove (tf p) t TF_SIZE (mem s)\<rparr>;
                s = s\<lparr>mem := store32 (mem s) (t + TF_EAX) 0\<rparr>
            in bnd (fork_files [0..<NOFILE] p n s) (\<lambda>s.
               bnd (idup (cwd p) s) (\<lambda>(ip, s).
               let s = s\<lparr>procs := upd_at n (\<lambda>q. q\<lparr>cwd := ip, stat := RUN\<rparr>) (procs s)\<rparr>
               in Inr (sint (pid (procs s ! n)), s))))))"

text \<open>\<^verbatim>\<open>sys_exit\<close> up to its call of \<^verbatim>\<open>sched\<close>.\<close>

definition exit_current :: "kernel \<Rightarrow> kernel res" where
  "exit_current s =
     bnd (cur_upd (\<lambda>p. p\<lparr>stat := ZOMB\<rparr>) (pushcli s)) (\<lambda>s.
     bnd (cur s) (\<lambda>p.
     bnd (case pproc p of None \<Rightarrow> Inr s | Some q \<Rightarrow> wakeup (ChProc q) s) popcli))"

definition sys_exit :: "kernel \<Rightarrow> (int \<times> kernel) res" where
  "sys_exit s = bnd (bnd (exit_current s) sched) (\<lambda>_. Inl (Panic ''zombie exit''))"

definition sys_wait :: "kernel \<Rightarrow> (int \<times> kernel) res" where
  "sys_wait s = (case procp s of
      None \<Rightarrow> Inl (Fault ''user.procp'')
    | Some i \<Rightarrow> bnd (sleep (ChProc i) s) (\<lambda>s. bnd (collect_zombies s) (\<lambda>s. Inr (0, s))))"

text \<open>The calls with no implementation.\<close>

definition sys_creat :: "kernel \<Rightarrow> (int \<times> kernel) res" where [simp]: "sys_creat s = Inr (- 1, s)"
definition sys_link :: "kernel \<Rightarrow> (int \<times> kernel) res" where [simp]: "sys_link s = Inr (- 1, s)"
definition sys_unlink :: "kernel \<Rightarrow> (int \<times> kernel) res" where [simp]: "sys_unlink s = Inr (- 1, s)"
definition sys_kill :: "kernel \<Rightarrow> (int \<times> kernel) res" where [simp]: "sys_kill s = Inr (- 1, s)"
definition sys_reboot :: "kernel \<Rightarrow> (int \<times> kernel) res" where [simp]: "sys_reboot s = Inr (- 1, s)"

section \<open>Loading programs\<close>

text \<open>The loop of \<^verbatim>\<open>loaduvm\<close> over the pages of \<open>size\<close> bytes.\<close>

fun loaduvm_loop :: "nat \<Rightarrow> u32 \<Rightarrow> u32 \<Rightarrow> nat \<Rightarrow> u32 \<Rightarrow> u32 \<Rightarrow> u32 \<Rightarrow> kernel \<Rightarrow> (int \<times> kernel) res" where
  "loaduvm_loop 0 dir va ip off sz i s = Inl (Fault ''loaduvm: does not return'')"
| "loaduvm_loop (Suc k) dir va ip off sz i s =
     (if i < sz then
        bnd (walkpgdir dir (va + i) False s) (\<lambda>(pte, s).
          if pte = 0 then Inl (Panic ''loaduvm: pde should exist'')
          else
            let pa = PTE_ADDR (load32 (mem s) pte) in
            if pa = 0 then Inl (Panic ''loaduvm: pte should exist'')
            else
              let n = (if sz - i < PAGESIZE then sz - i else PAGESIZE) in
              bnd (readi ip (Phys pa) (off + i) n s) (\<lambda>(r, s).
                if r \<noteq> sint n then Inr (- 1, s)
                else loaduvm_loop k dir va ip off sz (i + PAGESIZE) s))
      else Inr (0, s))"

definition loaduvm :: "u32 \<Rightarrow> u32 \<Rightarrow> nat \<Rightarrow> u32 \<Rightarrow> u32 \<Rightarrow> kernel \<Rightarrow> (int \<times> kernel) res" where
  "loaduvm dir va ip off sz s =
     (if va mod PAGESIZE \<noteq> 0 then Inl (Panic ''loaduvm: addr must be page aligned'')
      else loaduvm_loop (Suc n_pages) dir va ip off sz 0 s)"

text \<open>The sources of \<^verbatim>\<open>copyout\<close>: the null pointer (fill with zeros), kernel data, a user string.\<close>

datatype csrc = Zeros | Bytes "u8 list" | UserSrc u32

definition src_bytes :: "csrc \<Rightarrow> u32 \<Rightarrow> u32 \<Rightarrow> kernel \<Rightarrow> u8 list res" where
  "src_bytes src off n s = (case src of
      Zeros \<Rightarrow> Inr (replicate (unat n) 0)
    | Bytes bs \<Rightarrow> Inr (part bs off n)
    | UserSrc a \<Rightarrow> uload (unat n) (a + off) s)"

fun copyout_loop :: "nat \<Rightarrow> u32 \<Rightarrow> u32 \<Rightarrow> csrc \<Rightarrow> u32 \<Rightarrow> u32 \<Rightarrow> kernel \<Rightarrow> kernel res" where
  "copyout_loop 0 dir va src off len s = Inl (Fault ''copyout: does not return'')"
| "copyout_loop (Suc k) dir va src off len s =
     (if len > 0 then
        bnd (walkpgdir dir va False s) (\<lambda>(pte, s).
          if pte = 0 \<or> load32 (mem s) pte AND PTE_P = 0 then Inl (Panic ''copyout'')
          else
            let offset = va - PGROUNDDOWN va;
                n = (if PAGESIZE - offset > len then len else PAGESIZE - offset);
                pa = PTE_ADDR (load32 (mem s) pte)
            in bnd (src_bytes src off n s) (\<lambda>bs.
               copyout_loop k dir (va + n) src (off + n) (len - n)
                 (s\<lparr>mem := store_bytes (pa + offset) bs (mem s)\<rparr>)))
      else Inr s)"

definition copyout :: "u32 \<Rightarrow> u32 \<Rightarrow> csrc \<Rightarrow> u32 \<Rightarrow> kernel \<Rightarrow> kernel res" where
  "copyout dir va src len s = copyout_loop (Suc (unat len)) dir va src 0 len s"

section \<open>\<open>execv\<close>\<close>

definition ELF_MAGIC :: u32 where [simp]: "ELF_MAGIC = 0x464C457F"
definition ELF_PROG_LOAD :: u32 where [simp]: "ELF_PROG_LOAD = 1"
definition ELF_SIZE :: u32 where [simp]: "ELF_SIZE = 52"
definition PROG_SIZE :: u32 where [simp]: "PROG_SIZE = 32"

record elfhdr =
  e_magic :: u32
  e_entry :: u32
  e_phoff :: u32
  e_phnum :: u16

record proghdr =
  ph_type :: u32
  ph_off :: u32
  ph_vaddr :: u32
  ph_filesz :: u32
  ph_memsz :: u32

text \<open>The fields the kernel uses, at their offsets in \<^verbatim>\<open>include/elf.h\<close>.\<close>

definition elf_of :: "u8 list \<Rightarrow> elfhdr" where
  "elf_of bs = \<lparr>e_magic = get32 bs 0, e_entry = get32 bs 24, e_phoff = get32 bs 28, e_phnum = get16 bs 44\<rparr>"

definition prog_of :: "u8 list \<Rightarrow> proghdr" where
  "prog_of bs = \<lparr>ph_type = get32 bs 0, ph_off = get32 bs 4, ph_vaddr = get32 bs 8, ph_filesz = get32 bs 16,
     ph_memsz = get32 bs 20\<rparr>"

definition read_header :: "nat \<Rightarrow> u32 \<Rightarrow> u32 \<Rightarrow> kernel \<Rightarrow> (u8 list option \<times> kernel) res" where
  "read_header ip off n s =
     bnd (readi ip HeaderBuf off n (s\<lparr>kbuf := []\<rparr>)) (\<lambda>(r, s). Inr (if r \<noteq> sint n then None else Some (kbuf s), s))"

text \<open>One program header; \<open>None\<close> is the jump to \<^verbatim>\<open>bad\<close>, a number the new \<open>va\<close>.\<close>

definition load_segment :: "u32 \<Rightarrow> nat \<Rightarrow> proghdr \<Rightarrow> u32 \<Rightarrow> kernel \<Rightarrow> (u32 option \<times> kernel) res" where
  "load_segment dir ip ph va s =
     (if ph_type ph \<noteq> ELF_PROG_LOAD then Inr (Some va, s)
      else if ph_memsz ph < ph_filesz ph then Inr (None, s)
      else if ph_vaddr ph + ph_memsz ph < ph_vaddr ph then Inr (None, s)
      else
        bnd (allocuvm dir va (ph_vaddr ph + ph_memsz ph) s) (\<lambda>(va, s).
          if va = 0 then Inr (None, s)
          else if ph_vaddr ph mod PAGESIZE \<noteq> 0 then Inr (None, s)
          else
            bnd (loaduvm dir (ph_vaddr ph) ip (ph_off ph) (ph_filesz ph) s) (\<lambda>(r, s).
              if r < 0 then Inr (None, s)
              else
                bnd (copyout dir (ph_vaddr ph + ph_filesz ph) Zeros (ph_memsz ph - ph_filesz ph) s) (\<lambda>s.
                Inr (Some va, s)))))"

fun load_segments :: "nat \<Rightarrow> u32 \<Rightarrow> nat \<Rightarrow> u32 \<Rightarrow> u32 \<Rightarrow> kernel \<Rightarrow> (u32 option \<times> kernel) res" where
  "load_segments 0 dir ip off va s = Inr (Some va, s)"
| "load_segments (Suc n) dir ip off va s =
     bnd (read_header ip off PROG_SIZE s) (\<lambda>(h, s). case h of
        None \<Rightarrow> Inr (None, s)
      | Some bs \<Rightarrow>
          bnd (load_segment dir ip (prog_of bs) va s) (\<lambda>(r, s). case r of
             None \<Rightarrow> Inr (None, s)
           | Some va \<Rightarrow> load_segments n dir ip (off + PROG_SIZE) va s))"

text \<open>
  The argument strings go to the new stack, each with the two bytes behind its end that the count of
  \<^verbatim>\<open>strlen\<close> adds; there is room for 16 pointers in \<^verbatim>\<open>_argv\<close>, and no check.
\<close>

fun push_args :: "nat \<Rightarrow> u32 \<Rightarrow> u32 \<Rightarrow> u32 list \<Rightarrow> u32 \<Rightarrow> kernel \<Rightarrow> (u32 list \<times> u32 \<times> kernel) res" where
  "push_args 0 dir argv ptrs sp s =
     bnd (uread32 (argv + 4 * of_nat (length ptrs)) s) (\<lambda>a.
       if a = 0 then Inr (ptrs, sp, s) else Inl (Fault ''sys_execv: _argv''))"
| "push_args (Suc k) dir argv ptrs sp s =
     bnd (uread32 (argv + 4 * of_nat (length ptrs)) s) (\<lambda>a.
       if a = 0 then Inr (ptrs, sp, s)
       else
         bnd (strlen (\<lambda>i. uread (a + of_nat i) s)) (\<lambda>n.
         let sp = (sp - (of_nat n + 1)) AND NOT 3
         in bnd (copyout dir sp (UserSrc a) (of_nat n + 1) s) (\<lambda>s.
            push_args k dir argv (ptrs @ [sp]) sp s)))"

definition exec_bad :: "u32 \<Rightarrow> nat \<Rightarrow> kernel \<Rightarrow> (int \<times> kernel) res" where
  "exec_bad dir ip s =
     bnd (if dir \<noteq> 0 then freevm dir s else Inr s) (\<lambda>s.
     bnd (if holding (LkInode ip) s then release (LkInode ip) s else Inr s) (\<lambda>s.
     Inr (- 1, s)))"

text \<open>From the new address space to the new stack and the switch.\<close>

definition exec_enter :: "u32 \<Rightarrow> u32 \<Rightarrow> u32 \<Rightarrow> u32 \<Rightarrow> kernel \<Rightarrow> (int \<times> kernel) res" where
  "exec_enter dir argv va entry s =
     bnd (if argv \<noteq> 0 then push_args 16 dir argv [] va s else Inr ([], va, s)) (\<lambda>(ptrs, sp, s).
     let sp = sp - 64;
         argc = (of_nat (length ptrs) :: u32)
     in bnd (copyout dir sp (Bytes (concat (map put32 (ptrs @ replicate (16 - length ptrs) 0)))) 64 s) (\<lambda>s.
        let head = concat (map put32 [0xFFFFFFFF, argc, sp]);
            sp = sp - 12
        in bnd (copyout dir sp (Bytes head) 12 s) (\<lambda>s.
           bnd (cur s) (\<lambda>p.
           let old = pgdir p in
           bnd (cur_upd (\<lambda>p. p\<lparr>pgdir := dir\<rparr>) s) (\<lambda>s.
           bnd (switchuvm (kstack p) dir s) (\<lambda>s.
           bnd (freevm old s) (\<lambda>s.
           bnd (cur_upd (\<lambda>p. p\<lparr>psize := va - KERNEND\<rparr>) s) (\<lambda>s.
           let s = s\<lparr>mem := store32 (mem s) (tf p + TF_ESP) sp\<rparr>
           in Inr (0, s\<lparr>mem := store32 (mem s) (tf p + TF_EIP) entry\<rparr>)))))))))"

definition sys_execv :: "kernel \<Rightarrow> (int \<times> kernel) res" where
  "sys_execv s =
     bnd (argptr 0 s) (\<lambda>path.
     bnd (argptr 1 s) (\<lambda>argv.
     bnd (namei path s) (\<lambda>(ip, s). case ip of
        None \<Rightarrow> Inr (- 1, s)
      | Some i \<Rightarrow>
          bnd (acquire (LkInode i) s) (\<lambda>s.
          bnd (read_header i 0 ELF_SIZE s) (\<lambda>(h, s).
            case h of
              None \<Rightarrow> exec_bad 0 i s
            | Some bs \<Rightarrow>
                if e_magic (elf_of bs) \<noteq> ELF_MAGIC then exec_bad 0 i s
                else
                  bnd (setupkvm s) (\<lambda>(dir, s).
                    if dir = 0 then exec_bad 0 i s
                    else
                      bnd (load_segments (unat (e_phnum (elf_of bs))) dir i (e_phoff (elf_of bs)) KERNEND s) (\<lambda>(r, s).
                        case r of
                          None \<Rightarrow> exec_bad dir i s
                        | Some va \<Rightarrow>
                            bnd (release (LkInode i) s) (\<lambda>s.
                            bnd (ustack dir va s) (\<lambda>(va, s).
                              if va = 0 then exec_bad dir i s
                              else exec_enter dir argv va (e_entry (elf_of bs)) s)))))))))"

section \<open>Dispatch\<close>

definition SYS_exit :: u32 where [simp]: "SYS_exit = 0x01"
definition SYS_fork :: u32 where [simp]: "SYS_fork = 0x02"
definition SYS_read :: u32 where [simp]: "SYS_read = 0x03"
definition SYS_write :: u32 where [simp]: "SYS_write = 0x04"
definition SYS_open :: u32 where [simp]: "SYS_open = 0x05"
definition SYS_close :: u32 where [simp]: "SYS_close = 0x06"
definition SYS_wait :: u32 where [simp]: "SYS_wait = 0x07"
definition SYS_creat :: u32 where [simp]: "SYS_creat = 0x08"
definition SYS_link :: u32 where [simp]: "SYS_link = 0x09"
definition SYS_unlink :: u32 where [simp]: "SYS_unlink = 0x0A"
definition SYS_execv :: u32 where [simp]: "SYS_execv = 0x0B"
definition SYS_kill :: u32 where [simp]: "SYS_kill = 0x25"
definition SYS_reboot :: u32 where [simp]: "SYS_reboot = 0x58"

definition syscalls :: "u32 \<Rightarrow> (kernel \<Rightarrow> (int \<times> kernel) res) option" where
  "syscalls num =
     (if num = SYS_exit then Some sys_exit
      else if num = SYS_fork then Some sys_fork else if num = SYS_read then Some sys_read
      else if num = SYS_write then Some sys_write else if num = SYS_open then Some sys_open
      else if num = SYS_close then Some sys_close else if num = SYS_wait then Some sys_wait
      else if num = SYS_creat then Some sys_creat else if num = SYS_link then Some sys_link
      else if num = SYS_unlink then Some sys_unlink else if num = SYS_execv then Some sys_execv
      else if num = SYS_kill then Some sys_kill else if num = SYS_reboot then Some sys_reboot
      else None)"

definition syscall :: "u32 \<Rightarrow> kernel \<Rightarrow> (int \<times> kernel) res" where
  "syscall num s = (case syscalls num of
      Some f \<Rightarrow> f s
    | None \<Rightarrow>
        bnd (cur s) (\<lambda>p.
        bnd (printf (lit ''pid %d: unknown sys call %d'' @ [10]) [pid p, num] s) (\<lambda>s.
        Inr (- 1, s))))"

section \<open>\<open>trap\<close>\<close>

definition T_DIVIDE :: u32 where [simp]: "T_DIVIDE = 0"
definition T_DEBUG :: u32 where [simp]: "T_DEBUG = 1"
definition T_NMI :: u32 where [simp]: "T_NMI = 2"
definition T_BRKPT :: u32 where [simp]: "T_BRKPT = 3"
definition T_OFLOW :: u32 where [simp]: "T_OFLOW = 4"
definition T_BOUND :: u32 where [simp]: "T_BOUND = 5"
definition T_ILLOP :: u32 where [simp]: "T_ILLOP = 6"
definition T_DEVICE :: u32 where [simp]: "T_DEVICE = 7"
definition T_DBLFLT :: u32 where [simp]: "T_DBLFLT = 8"
definition T_TSS :: u32 where [simp]: "T_TSS = 10"
definition T_SEGNP :: u32 where [simp]: "T_SEGNP = 11"
definition T_STACK :: u32 where [simp]: "T_STACK = 12"
definition T_GPFLT :: u32 where [simp]: "T_GPFLT = 13"
definition T_PGFLT :: u32 where [simp]: "T_PGFLT = 14"
definition T_FPERR :: u32 where [simp]: "T_FPERR = 16"
definition T_ALIGN :: u32 where [simp]: "T_ALIGN = 17"
definition T_MCHK :: u32 where [simp]: "T_MCHK = 18"
definition T_SIMDERR :: u32 where [simp]: "T_SIMDERR = 19"
definition T_VIRT :: u32 where [simp]: "T_VIRT = 20"

definition trap_names :: "(u32 \<times> string) list" where
  "trap_names = [
     (T_DIVIDE, ''Divide Error.''), (T_DEBUG, ''Debug Exception.''), (T_NMI, ''Non-maskable external interrupt.''),
     (T_BRKPT, ''Break Point. (INT 3)''), (T_OFLOW, ''Overflow.''), (T_BOUND, ''BOUND Range Exceeded.''),
     (T_ILLOP, ''Invalid Opcode (Undefined Opcode).''), (T_DEVICE, ''Device Not Available (No Math Coprocessor).''),
     (T_DBLFLT, ''Double Fault.''), (T_TSS, ''Invalid TSS (Task Switch Segment).''), (T_SEGNP, ''Segment Not Present.''),
     (T_STACK, ''Stack-Segment Fault.''), (T_GPFLT, ''General Protection.''), (T_PGFLT, ''Page Fault.''),
     (T_FPERR, ''x87 FPU Floating-Point Error (Math Fault).''), (T_ALIGN, ''Alignment Check.''), (T_MCHK, ''Machine Check.''),
     (T_SIMDERR, ''SIDM Floating-Point Exception.''), (T_VIRT, ''Virtualization Exception.'')]"

definition unknowntrap :: "u32 \<Rightarrow> kernel \<Rightarrow> kernel res" where
  "unknowntrap no s = (case map_of trap_names no of
      Some msg \<Rightarrow> printf (lit msg @ [10]) [] s
    | None \<Rightarrow> printf (lit ''unknown trap: No.%d'' @ [10]) [no] s)"

definition dump :: "(chan \<Rightarrow> u32) \<Rightarrow> u32 \<Rightarrow> u32 \<Rightarrow> kernel \<Rightarrow> kernel res" where
  "dump addr cr2 t s =
     bnd (printf (lit ''-----process dump-----'' @ [10]) [] s) (\<lambda>s.
     bnd (procdump addr s) (\<lambda>s.
     bnd (printf (lit ''-----trapframe dump-----'' @ [10]) [] s) (\<lambda>s.
     bnd (printf (lit ''EIP: %x'' @ [10]) [load32 (mem s) (t + TF_EIP)] s) (\<lambda>s.
     bnd (printf (lit ''ESP: %x'' @ [10]) [load32 (mem s) (t + TF_ESP)] s) (\<lambda>s.
     bnd (printf (lit ''EBP: %x'' @ [10]) [load32 (mem s) (t + 8)] s) (\<lambda>s.
     bnd (printf (lit ''CR2: %x'' @ [10]) [cr2] s) (\<lambda>s.
     printf (lit ''-----------'' @ [10]) [] s)))))))"

definition trap :: "(chan \<Rightarrow> u32) \<Rightarrow> u32 \<Rightarrow> u8 \<Rightarrow> u32 \<Rightarrow> kernel \<Rightarrow> kernel res" where
  "trap addr cr2 scancode t s =
     (let no = load32 (mem s) (t + TF_TRAPNO) in
      if no = of_nat T_SYSCALL then
        bnd (cur s) (\<lambda>p.
        let s = s\<lparr>mem := memmove t (tf p) TF_SIZE (mem s)\<rparr>
        in bnd (syscall (load32 (mem s) (t + TF_EAX)) s) (\<lambda>(r, s).
           Inr (s\<lparr>mem := store32 (mem s) (t + TF_EAX) (of_int r)\<rparr>)))
      else if no = T_IRQ0 + IRQ_TIMER then irq_trap IrqTimer s
      else if no = T_IRQ0 + IRQ_KBD then irq_trap (IrqKbd scancode) s
      else if no = T_IRQ0 + IRQ_IDE then irq_trap IrqIde s
      else bnd (unknowntrap no s) (\<lambda>s. bnd (dump addr cr2 t s) (\<lambda>_. Inl (Panic ''trap''))))"

section \<open>Start\<close>

definition initcode :: "u8 list" where
  "initcode = [
     0x6a, 0x00, 0x68, 0x19, 0x00, 0x00, 0x40, 0x6a, 0x00, 0xb8, 0x0B, 0x00, 0x00, 0x00, 0xcd, 0x40,
     0xb8, 0x01, 0x00, 0x00, 0x00, 0xcd, 0x40, 0xeb, 0xf7, 0x73, 0x68, 0x65, 0x6c, 0x6c, 0x00, 0x00]"

text \<open>\<^verbatim>\<open>uinit\<close> up to its call of \<^verbatim>\<open>swtch\<close>.\<close>

definition uinit_to :: "kernel \<Rightarrow> (nat \<times> kernel) res" where
  "uinit_to s =
     bnd (palloc (s\<lparr>procs := upd_at 0 (\<lambda>p. p\<lparr>stat := ZOMB\<rparr>) (procs s)\<rparr>)) (\<lambda>(np, s).
     let s = s\<lparr>procp := np\<rparr> in case np of
        None \<Rightarrow> Inl (Panic ''uinit: palloc'')
      | Some n \<Rightarrow>
          bnd (setupkvm s) (\<lambda>(dir, s).
          let s = s\<lparr>procs := upd_at n (\<lambda>p. p\<lparr>pgdir := dir\<rparr>) (procs s)\<rparr> in
          if dir = 0 then Inl (Panic ''uinit: setupkvm'')
          else
            bnd (inituvm dir initcode s) (\<lambda>s.
            let t = tf (procs s ! n);
                s = s\<lparr>procs := upd_at n (\<lambda>p. p\<lparr>psize := of_nat (length initcode)\<rparr>) (procs s)\<rparr>;
                s = s\<lparr>mem := store32 (mem s) (t + TF_ESP) (KERNEND + PAGESIZE)\<rparr>;
                s = s\<lparr>mem := store32 (mem s) (t + TF_EIP) KERNEND\<rparr>
            in bnd (getrootdir s) (\<lambda>(ip, s).
               let s = s\<lparr>procs := upd_at n (\<lambda>p. p\<lparr>cwd := Some ip, stat := RUN\<rparr>) (procs s)\<rparr>
               in bnd (switchuvm (kstack (procs s ! n)) (pgdir (procs s ! n)) s) (\<lambda>s.
                  Inr (n, s))))))"

definition kmain :: "(nat \<Rightarrow> u32) \<Rightarrow> kernel \<Rightarrow> (nat \<times> kernel) res" where
  "kmain vectors s =
     (let s = seginit (consoleinit (cli s)) in
      bnd (kinit s) (\<lambda>s.
      let s = pitinit (picinit (idtinit vectors (kvminit s))) in
      bnd (fsinit s) (\<lambda>s. uinit_to (sti s))))"

end
