(* ===== verification/Mix_Tables.thy ===== *)
theory Mix_Tables
  imports Mix_Disk "HOL-Library.Multiset"
begin

text \<open>
  The tables of the kernel without their critical sections: what every operation that runs between
  \<^verbatim>\<open>pushcli\<close> and \<^verbatim>\<open>popcli\<close> does to its table. Then the contract the open files (\<^verbatim>\<open>fs/file.c\<close>) and the
  in-core inodes (\<^verbatim>\<open>fs/inode.c\<close>) share, reference counting, and that both keep it.
\<close>

section \<open>Critical sections around a table\<close>

lemma pushcli_swap [simp]:
  "pushcli (s\<lparr>procs := P\<rparr>) = (pushcli s)\<lparr>procs := P\<rparr>" "pushcli (s\<lparr>files := F\<rparr>) = (pushcli s)\<lparr>files := F\<rparr>"
  "pushcli (s\<lparr>inodes := I\<rparr>) = (pushcli s)\<lparr>inodes := I\<rparr>" "pushcli (s\<lparr>blocks := B\<rparr>) = (pushcli s)\<lparr>blocks := B\<rparr>"
  "pushcli (s\<lparr>nextpid := n\<rparr>) = (pushcli s)\<lparr>nextpid := n\<rparr>" "pushcli (s\<lparr>schedix := n\<rparr>) = (pushcli s)\<lparr>schedix := n\<rparr>"
  "pushcli (s\<lparr>procp := p\<rparr>) = (pushcli s)\<lparr>procp := p\<rparr>" "pushcli (s\<lparr>pending := es\<rparr>) = (pushcli s)\<lparr>pending := es\<rparr>"
  "pushcli (s\<lparr>inindex := n\<rparr>) = (pushcli s)\<lparr>inindex := n\<rparr>" "pushcli (s\<lparr>idelock := k\<rparr>) = (pushcli s)\<lparr>idelock := k\<rparr>"
  "pushcli (s\<lparr>mem := m\<rparr>) = (pushcli s)\<lparr>mem := m\<rparr>" "pushcli (s\<lparr>coremap := r\<rparr>) = (pushcli s)\<lparr>coremap := r\<rparr>"
  for s :: kernel
  by (cases s; simp add: pushcli_upd)+

lemma pushcli_tables [simp]:
  "procs (pushcli s) = procs s" "files (pushcli s) = files s" "inodes (pushcli s) = inodes s"
  "blocks (pushcli s) = blocks s" "procp (pushcli s) = procp s" "nextpid (pushcli s) = nextpid s"
  "schedix (pushcli s) = schedix s" "pending (pushcli s) = pending s" "idelock (pushcli s) = idelock s"
  "coremap (pushcli s) = coremap s" "trapret_at (pushcli s) = trapret_at s" "inindex (pushcli s) = inindex s"
  "cr3 (pushcli s) = cr3 s" "drive (pushcli s) = drive s" "ide_status (pushcli s) = ide_status s"
  "inbuf (pushcli s) = inbuf s" "kernel_end (pushcli s) = kernel_end s"
  for s :: kernel
  by (simp_all add: pushcli_upd)

lemma cli_ok_tables [simp]:
  "cli_ok (s\<lparr>procs := P\<rparr>) = cli_ok s" "cli_ok (s\<lparr>files := F\<rparr>) = cli_ok s" "cli_ok (s\<lparr>inodes := I\<rparr>) = cli_ok s"
  "cli_ok (s\<lparr>blocks := B\<rparr>) = cli_ok s" "cli_ok (s\<lparr>nextpid := n\<rparr>) = cli_ok s" "cli_ok (s\<lparr>schedix := n\<rparr>) = cli_ok s"
  "cli_ok (s\<lparr>procp := p\<rparr>) = cli_ok s" "cli_ok (s\<lparr>pending := es\<rparr>) = cli_ok s" "cli_ok (s\<lparr>inindex := n\<rparr>) = cli_ok s"
  "cli_ok (s\<lparr>idelock := k\<rparr>) = cli_ok s" "cli_ok (s\<lparr>mem := m\<rparr>) = cli_ok s" "cli_ok (s\<lparr>coremap := r\<rparr>) = cli_ok s"
  for s :: kernel
  by (simp_all add: cli_ok_def)

text \<open>A section that replaces one table, or nothing.\<close>

lemma popcli_table:
  fixes s :: kernel
  assumes "cli_ok s"
  shows "popcli (pushcli s) = Inr s"
    and "popcli ((pushcli s)\<lparr>procs := P\<rparr>) = Inr (s\<lparr>procs := P\<rparr>)"
    and "popcli ((pushcli s)\<lparr>files := F\<rparr>) = Inr (s\<lparr>files := F\<rparr>)"
    and "popcli ((pushcli s)\<lparr>inodes := I\<rparr>) = Inr (s\<lparr>inodes := I\<rparr>)"
    and "popcli ((pushcli s)\<lparr>blocks := B\<rparr>) = Inr (s\<lparr>blocks := B\<rparr>)"
    and "popcli ((pushcli s)\<lparr>inindex := n\<rparr>) = Inr (s\<lparr>inindex := n\<rparr>)"
    and "popcli ((pushcli s)\<lparr>schedix := b\<rparr>) = Inr (s\<lparr>schedix := b\<rparr>)"
  using assms popcli_pushcli [of s] popcli_pushcli [of "s\<lparr>procs := P\<rparr>"] popcli_pushcli [of "s\<lparr>files := F\<rparr>"]
    popcli_pushcli [of "s\<lparr>inodes := I\<rparr>"] popcli_pushcli [of "s\<lparr>blocks := B\<rparr>"] popcli_pushcli [of "s\<lparr>inindex := n\<rparr>"]
    popcli_pushcli [of "s\<lparr>schedix := b\<rparr>"]
  by simp_all

section \<open>The operations on tables\<close>

lemma fget_eq: "cli_ok s \<Longrightarrow> fget i s = Inr (i, s\<lparr>files := upd_at i (\<lambda>f. f\<lparr>frefcnt := frefcnt f + 1\<rparr>) (files s)\<rparr>)"
  by (simp add: fget_def Let_def popcli_table)

lemma falloc_eq:
  "cli_ok s \<Longrightarrow> falloc s = (case find_idx (\<lambda>f. frefcnt f = 0) (files s) of
      Some i \<Rightarrow> Inr (Some i, s\<lparr>files := upd_at i (\<lambda>f. f\<lparr>frefcnt := 1\<rparr>) (files s)\<rparr>)
    | None \<Rightarrow> Inr (None, s))"
  by (simp add: falloc_def Let_def popcli_table split: option.split)

lemma ffree_eq:
  "cli_ok s \<Longrightarrow> ffree (Some i) s = (if frefcnt (files s ! i) < 1 then Inl (Panic ''ffree(2)'')
    else Inr (s\<lparr>files := upd_at i (\<lambda>f. f\<lparr>frefcnt := frefcnt f - 1\<rparr>) (files s)\<rparr>))"
  by (simp add: ffree_def Let_def popcli_table)

lemma fdup_eq:
  "cli_ok s \<Longrightarrow> fdup (Some i) s = (if frefcnt (files s ! i) < 1 then Inl (Panic ''fdup'')
    else Inr (Some i, s\<lparr>files := upd_at i (\<lambda>f. f\<lparr>frefcnt := frefcnt f + 1\<rparr>) (files s)\<rparr>))"
  by (simp add: fdup_def Let_def popcli_table)

lemma ialloc_eq:
  "cli_ok s \<Longrightarrow> ialloc s = (case find_idx (\<lambda>ip. ivalid ip = 0) (inodes s) of
      Some i \<Rightarrow> Inr (Some i, s\<lparr>inodes := upd_at i (\<lambda>ip. ip\<lparr>ivalid := 1, irefcnt := 1\<rparr>) (inodes s)\<rparr>)
    | None \<Rightarrow> Inr (None, s))"
  by (simp add: ialloc_def Let_def popcli_table split: option.split)

lemma irelse_eq:
  "cli_ok s \<Longrightarrow> irelse (Some i) s = Inr (s\<lparr>inodes :=
    upd_at i (\<lambda>ip. if irefcnt (inodes s ! i) > 1 then ip\<lparr>irefcnt := irefcnt ip - 1\<rparr> else ip\<lparr>ivalid := 0\<rparr>) (inodes s)\<rparr>)"
  by (simp add: irelse_def Let_def popcli_table)

lemma idup_eq:
  "cli_ok s \<Longrightarrow> idup (Some i) s = Inr (Some i, s\<lparr>inodes := upd_at i (\<lambda>ip. ip\<lparr>irefcnt := irefcnt ip + 1\<rparr>) (inodes s)\<rparr>)"
  by (simp add: idup_def Let_def popcli_table)

lemma wakeup_eq: "cli_ok s \<Longrightarrow> wakeup ch s = Inr (s\<lparr>procs := map (wake ch) (procs s)\<rparr>)"
  by (simp add: wakeup_def Let_def popcli_table)

lemma bget_eq:
  "cli_ok s \<Longrightarrow> bget no s = (case find_idx (\<lambda>b. blockno b = no) (blocks s) of
      Some i \<Rightarrow> Inr (i, s\<lparr>blocks := upd_at i (\<lambda>b. b\<lparr>brefcnt := brefcnt b + 1\<rparr>) (blocks s)\<rparr>)
    | None \<Rightarrow>
        (case find_idx (\<lambda>b. brefcnt b = 0 \<and> bflags b AND B_DIRTY = 0) (blocks s) of
           Some i \<Rightarrow> Inr (i, s\<lparr>blocks := upd_at i (\<lambda>b. b\<lparr>blockno := no, bflags := 0, brefcnt := 1\<rparr>) (blocks s)\<rparr>)
         | None \<Rightarrow> Inl (Panic ''bget: no buffers'')))"
  by (simp add: bget_def Let_def popcli_table split: option.split)

lemmas table_eqs = fget_eq falloc_eq ffree_eq fdup_eq ialloc_eq irelse_eq idup_eq wakeup_eq bget_eq

section \<open>Reference counting\<close>

text \<open>
  What a client may do with references: get one to a fresh entry, copy one it holds, drop one it holds.
  The multiset is the references held. A step the client has no reference for is not taken, nor is a
  copy when the counter is at its top.
\<close>

datatype refop = Take | Dup nat | Drop nat

definition ref_op ::
  "('s \<Rightarrow> (nat option \<times> 's) res) \<Rightarrow> (nat \<Rightarrow> 's \<Rightarrow> 's res) \<Rightarrow> (nat \<Rightarrow> 's \<Rightarrow> 's res) \<Rightarrow> nat
    \<Rightarrow> refop \<Rightarrow> 's \<times> nat multiset \<Rightarrow> ('s \<times> nat multiset) res" where
  "ref_op tk dp dr lim c sr = (case sr of (s, R) \<Rightarrow> (case c of
      Take \<Rightarrow> bnd (tk s) (\<lambda>(r, s). Inr (s, case r of None \<Rightarrow> R | Some i \<Rightarrow> add_mset i R))
    | Dup i \<Rightarrow> if i \<in># R \<and> count R i < lim then bnd (dp i s) (\<lambda>s. Inr (s, add_mset i R)) else Inr (s, R)
    | Drop i \<Rightarrow> if i \<in># R then bnd (dr i s) (\<lambda>s. Inr (s, R - {#i#})) else Inr (s, R)))"

fun ref_run ::
  "('s \<Rightarrow> (nat option \<times> 's) res) \<Rightarrow> (nat \<Rightarrow> 's \<Rightarrow> 's res) \<Rightarrow> (nat \<Rightarrow> 's \<Rightarrow> 's res) \<Rightarrow> nat
    \<Rightarrow> refop list \<Rightarrow> 's \<times> nat multiset \<Rightarrow> ('s \<times> nat multiset) res" where
  "ref_run tk dp dr lim [] sr = Inr sr"
| "ref_run tk dp dr lim (c # cs) sr = bnd (ref_op tk dp dr lim c sr) (ref_run tk dp dr lim cs)"

definition counts_refs :: "nat list \<Rightarrow> nat multiset \<Rightarrow> bool" where
  "counts_refs ns R \<longleftrightarrow> set_mset R \<subseteq> {..<length ns} \<and> (\<forall>i < length ns. ns ! i = count R i)"

lemma counts_refs_upd:
  assumes "counts_refs ns R" and "i < length ns" and "count R' i = n"
    and "\<And>j. j \<noteq> i \<Longrightarrow> count R' j = count R j"
  shows "counts_refs (ns[i := n]) R'"
proof -
  have "set_mset R' \<subseteq> {..<length ns}"
  proof
    fix j
    assume "j \<in># R'"
    then have "j = i \<or> j \<in># R" using assms(4) by (metis count_eq_zero_iff)
    then show "j \<in> {..<length ns}" using assms(1,2) by (auto simp: counts_refs_def)
  qed
  moreover have "ns[i := n] ! j = count R' j" if "j < length ns" for j
    using that assms by (cases "j = i") (simp_all add: counts_refs_def)
  ultimately show ?thesis by (simp add: counts_refs_def)
qed

locale refcounts =
  fixes take_ref :: "'s \<Rightarrow> (nat option \<times> 's) res"
    and dup_ref :: "nat \<Rightarrow> 's \<Rightarrow> 's res"
    and drop_ref :: "nat \<Rightarrow> 's \<Rightarrow> 's res"
    and refs :: "'s \<Rightarrow> nat list"
    and ok :: "'s \<Rightarrow> bool"
    and lim :: nat
  assumes take_free: "ok s \<Longrightarrow> find_idx (\<lambda>n. n = 0) (refs s) = Some i
      \<Longrightarrow> \<exists>s'. take_ref s = Inr (Some i, s') \<and> ok s' \<and> refs s' = (refs s)[i := 1]"
    and take_full: "ok s \<Longrightarrow> find_idx (\<lambda>n. n = 0) (refs s) = None \<Longrightarrow> take_ref s = Inr (None, s)"
    and dup_counts: "ok s \<Longrightarrow> i < length (refs s) \<Longrightarrow> 0 < refs s ! i \<Longrightarrow> refs s ! i < lim
      \<Longrightarrow> \<exists>s'. dup_ref i s = Inr s' \<and> ok s' \<and> refs s' = (refs s)[i := refs s ! i + 1]"
    and drop_counts: "ok s \<Longrightarrow> i < length (refs s) \<Longrightarrow> 0 < refs s ! i
      \<Longrightarrow> \<exists>s'. drop_ref i s = Inr s' \<and> ok s' \<and> refs s' = (refs s)[i := refs s ! i - 1]"
begin

lemma take_fresh:
  assumes "ok s" and "counts_refs (refs s) R"
  shows "(\<exists>i s'. take_ref s = Inr (Some i, s') \<and> ok s' \<and> i < length (refs s) \<and> i \<notin># R
        \<and> counts_refs (refs s') (add_mset i R) \<and> length (refs s') = length (refs s))
    \<or> (take_ref s = Inr (None, s) \<and> (\<forall>i < length (refs s). i \<in># R))"
proof (cases "find_idx (\<lambda>n. n = 0) (refs s)")
  case None
  then have "\<forall>i < length (refs s). refs s ! i \<noteq> 0" by (auto simp: find_idx_None_iff)
  then have "\<forall>i < length (refs s). i \<in># R"
    using assms(2) unfolding counts_refs_def by (metis count_eq_zero_iff)
  then show ?thesis using take_full [OF assms(1) None] by simp
next
  case (Some i)
  then have i: "i < length (refs s)" "refs s ! i = 0" by (simp_all add: find_idx_Some_iff)
  then have "count R i = 0" using assms(2) by (simp add: counts_refs_def)
  moreover obtain s' where "take_ref s = Inr (Some i, s')" "ok s'" "refs s' = (refs s)[i := 1]"
    using take_free [OF assms(1) Some] by blast
  ultimately show ?thesis
    using counts_refs_upd [OF assms(2) i(1), of "add_mset i R" 1] i(1) by (simp add: not_in_iff)
qed

lemma ref_op_counts:
  assumes "ok s" and "counts_refs (refs s) R"
  shows "\<exists>s' R'. ref_op take_ref dup_ref drop_ref lim c (s, R) = Inr (s', R')
    \<and> ok s' \<and> counts_refs (refs s') R' \<and> length (refs s') = length (refs s)"
proof (cases c)
  case Take
  with take_fresh [OF assms] assms show ?thesis by (auto simp: ref_op_def)
next
  case (Dup i)
  show ?thesis
  proof (cases "i \<in># R \<and> count R i < lim")
    case True
    then have i: "i < length (refs s)" "refs s ! i = count R i" "0 < refs s ! i"
      using assms(2) by (auto simp: counts_refs_def)
    moreover obtain s' where "dup_ref i s = Inr s'" "ok s'" "refs s' = (refs s)[i := refs s ! i + 1]"
      using dup_counts [OF assms(1) i(1,3)] i(2) True by auto
    ultimately show ?thesis
      using counts_refs_upd [OF assms(2) i(1), of "add_mset i R" "refs s ! i + 1"] Dup True by (simp add: ref_op_def)
  qed (use Dup assms in \<open>auto simp: ref_op_def\<close>)
next
  case (Drop i)
  show ?thesis
  proof (cases "i \<in># R")
    case True
    then have i: "i < length (refs s)" "refs s ! i = count R i" "0 < refs s ! i"
      using assms(2) by (auto simp: counts_refs_def)
    moreover obtain s' where "drop_ref i s = Inr s'" "ok s'" "refs s' = (refs s)[i := refs s ! i - 1]"
      using drop_counts [OF assms(1) i(1,3)] by auto
    ultimately show ?thesis
      using counts_refs_upd [OF assms(2) i(1), of "R - {#i#}" "refs s ! i - 1"] Drop True by (simp add: ref_op_def)
  qed (use Drop assms in \<open>simp add: ref_op_def\<close>)
qed

lemma ref_run_counts:
  assumes "ok s" and "counts_refs (refs s) R"
  shows "\<exists>s' R'. ref_run take_ref dup_ref drop_ref lim cs (s, R) = Inr (s', R')
    \<and> ok s' \<and> counts_refs (refs s') R' \<and> length (refs s') = length (refs s)"
  using assms
proof (induction cs arbitrary: s R)
  case Nil
  then show ?case by auto
next
  case (Cons c cs)
  from ref_op_counts [OF Cons.prems, of c] obtain s' R' where
    "ref_op take_ref dup_ref drop_ref lim c (s, R) = Inr (s', R')" "ok s'" "counts_refs (refs s') R'"
    "length (refs s') = length (refs s)" by blast
  with Cons.IH [of s' R'] show ?case by auto
qed

end

section \<open>Open files and inodes are reference counted\<close>

lemma find_idx_map: "find_idx P (map g xs) = find_idx (\<lambda>x. P (g x)) xs"
  by (induction xs) simp_all

lemma find_idx_cong: "(\<And>x. x \<in> set xs \<Longrightarrow> P x = Q x) \<Longrightarrow> find_idx P xs = find_idx Q xs"
  by (induction xs) simp_all

lemma map_upd_at: "i < length xs \<Longrightarrow> map g (upd_at i f xs) = (map g xs)[i := g (f (xs ! i))]"
  by (simp add: upd_at_def map_update)

definition fdup_at :: "nat \<Rightarrow> kernel \<Rightarrow> kernel res" where
  "fdup_at i s = bnd (fdup (Some i) s) (\<lambda>(_, s). Inr s)"

definition ffree_at :: "nat \<Rightarrow> kernel \<Rightarrow> kernel res" where
  "ffree_at i = ffree (Some i)"

definition file_refs :: "kernel \<Rightarrow> nat list" where
  "file_refs s = map (\<lambda>f. unat (frefcnt f)) (files s)"

lemma unat_Suc_word: "unat (w :: 'a :: len word) < 2 ^ LENGTH('a) - 1 \<Longrightarrow> unat (w + 1) = unat w + 1"
  by (simp add: unat_word_ariths)

lemma unat_pred_word: "0 < unat (w :: 'a :: len word) \<Longrightarrow> unat (w - 1) = unat w - 1"
  by (rule unat_minus_one) auto

interpretation file_table: refcounts falloc fdup_at ffree_at file_refs cli_ok "2 ^ 32 - 1"
proof unfold_locales
  fix s :: kernel and i
  assume ok: "cli_ok s"
  have zero: "find_idx (\<lambda>n. n = 0) (file_refs s) = find_idx (\<lambda>f. frefcnt f = 0) (files s)"
    unfolding file_refs_def find_idx_map by (intro find_idx_cong) (auto simp: unat_eq_0)
  show "\<exists>s'. falloc s = Inr (Some i, s') \<and> cli_ok s' \<and> file_refs s' = (file_refs s)[i := 1]"
    if "find_idx (\<lambda>n. n = 0) (file_refs s) = Some i"
  proof -
    have f: "find_idx (\<lambda>f. frefcnt f = 0) (files s) = Some i" using that unfolding zero .
    show ?thesis using f ok find_idx_SomeD(1) [OF f] by (simp add: falloc_eq file_refs_def map_upd_at)
  qed
  show "falloc s = Inr (None, s)" if "find_idx (\<lambda>n. n = 0) (file_refs s) = None"
    using that [unfolded zero] ok by (simp add: falloc_eq)
  assume i: "i < length (file_refs s)" "0 < file_refs s ! i"
  then have n: "i < length (files s)" "0 < unat (frefcnt (files s ! i))" by (simp_all add: file_refs_def)
  then have "\<not> frefcnt (files s ! i) < 1" by (simp add: word_less_nat_alt)
  with n ok show "\<exists>s'. ffree_at i s = Inr s' \<and> cli_ok s' \<and> file_refs s' = (file_refs s)[i := file_refs s ! i - 1]"
    by (simp add: ffree_at_def ffree_eq file_refs_def map_upd_at unat_pred_word)
  show "\<exists>s'. fdup_at i s = Inr s' \<and> cli_ok s' \<and> file_refs s' = (file_refs s)[i := file_refs s ! i + 1]"
    if "file_refs s ! i < 2 ^ 32 - 1"
    using that n ok \<open>\<not> frefcnt (files s ! i) < 1\<close>
    by (simp add: fdup_at_def fdup_eq file_refs_def map_upd_at unat_Suc_word)
qed

definition idup_at :: "nat \<Rightarrow> kernel \<Rightarrow> kernel res" where
  "idup_at i s = bnd (idup (Some i) s) (\<lambda>(_, s). Inr s)"

definition irelse_at :: "nat \<Rightarrow> kernel \<Rightarrow> kernel res" where
  "irelse_at i = irelse (Some i)"

definition inode_refs :: "kernel \<Rightarrow> nat list" where
  "inode_refs s = map (\<lambda>ip. if ivalid ip = 0 then 0 else unat (irefcnt ip)) (inodes s)"

text \<open>A valid inode has a reference: \<^verbatim>\<open>ialloc\<close> looks at the valid flag only.\<close>

definition inodes_ok :: "kernel \<Rightarrow> bool" where
  "inodes_ok s \<longleftrightarrow> cli_ok s \<and> (\<forall>ip \<in> set (inodes s). ivalid ip \<noteq> 0 \<longrightarrow> irefcnt ip \<noteq> 0)"

lemma inodes_ok_upd:
  "inodes_ok s \<Longrightarrow> (ivalid (f (inodes s ! i)) \<noteq> 0 \<longrightarrow> irefcnt (f (inodes s ! i)) \<noteq> 0)
    \<Longrightarrow> inodes_ok (s\<lparr>inodes := upd_at i f (inodes s)\<rparr>)"
  unfolding inodes_ok_def upd_at_def by (auto dest!: set_update_subset_insert [THEN subsetD])

interpretation inode_table: refcounts ialloc idup_at irelse_at inode_refs inodes_ok "2 ^ 16 - 1"
proof unfold_locales
  fix s :: kernel and i
  assume ok: "inodes_ok s"
  then have c: "cli_ok s" by (simp add: inodes_ok_def)
  have zero: "find_idx (\<lambda>n. n = 0) (inode_refs s) = find_idx (\<lambda>ip. ivalid ip = 0) (inodes s)"
    unfolding inode_refs_def find_idx_map using ok by (intro find_idx_cong) (auto simp: inodes_ok_def unat_eq_0)
  show "\<exists>s'. ialloc s = Inr (Some i, s') \<and> inodes_ok s' \<and> inode_refs s' = (inode_refs s)[i := 1]"
    if "find_idx (\<lambda>n. n = 0) (inode_refs s) = Some i"
  proof -
    have f: "find_idx (\<lambda>ip. ivalid ip = 0) (inodes s) = Some i" using that unfolding zero .
    show ?thesis
      using f c ok find_idx_SomeD(1) [OF f] by (simp add: ialloc_eq inode_refs_def map_upd_at inodes_ok_upd)
  qed
  show "ialloc s = Inr (None, s)" if "find_idx (\<lambda>n. n = 0) (inode_refs s) = None"
    using that [unfolded zero] c by (simp add: ialloc_eq)
  assume i: "i < length (inode_refs s)" "0 < inode_refs s ! i"
  then have n: "i < length (inodes s)" "0 < unat (irefcnt (inodes s ! i))" "ivalid (inodes s ! i) \<noteq> 0"
    by (auto simp: inode_refs_def split: if_splits)
  have one: "irefcnt (inodes s ! i) > 1 \<longleftrightarrow> unat (irefcnt (inodes s ! i)) > 1" by (simp add: word_less_nat_alt)
  have "irefcnt (inodes s ! i) - 1 \<noteq> 0" if "irefcnt (inodes s ! i) > 1" using that by auto
  with n ok c one show "\<exists>s'. irelse_at i s = Inr s' \<and> inodes_ok s' \<and> inode_refs s' = (inode_refs s)[i := inode_refs s ! i - 1]"
    by (auto simp: irelse_at_def irelse_eq inode_refs_def map_upd_at unat_pred_word inodes_ok_upd)
  show "\<exists>s'. idup_at i s = Inr s' \<and> inodes_ok s' \<and> inode_refs s' = (inode_refs s)[i := inode_refs s ! i + 1]"
    if "inode_refs s ! i < 2 ^ 16 - 1"
  proof -
    have u: "unat (irefcnt (inodes s ! i) + 1) = unat (irefcnt (inodes s ! i)) + 1"
      using that n by (intro unat_Suc_word) (simp add: inode_refs_def)
    then have "irefcnt (inodes s ! i) + 1 \<noteq> 0" by auto
    with u n ok c show ?thesis by (simp add: idup_at_def idup_eq inode_refs_def map_upd_at inodes_ok_upd)
  qed
qed

section \<open>Properties\<close>

text \<open>
  C22: the table of open files counts references. Whatever sequence of \<^verbatim>\<open>falloc\<close>, \<^verbatim>\<open>fdup\<close> and \<^verbatim>\<open>ffree\<close> a
  client performs on references it holds, starting from a table with the references \<open>R\<close>, none panics, and
  afterwards every \<^verbatim>\<open>refcnt\<close> is exactly the number of references held; so the next \<^verbatim>\<open>falloc\<close> returns a file
  nobody holds, or none when all are held.
\<close>

theorem file_references_counted:
  assumes "cli_ok s" and "counts_refs (file_refs s) R"
  shows "\<exists>s' R'. ref_run falloc fdup_at ffree_at (2 ^ 32 - 1) cs (s, R) = Inr (s', R')
    \<and> counts_refs (file_refs s') R'
    \<and> ((\<exists>i t. falloc s' = Inr (Some i, t) \<and> i < length (files s) \<and> i \<notin># R')
        \<or> (falloc s' = Inr (None, s') \<and> (\<forall>i < length (files s). i \<in># R')))"
proof -
  from file_table.ref_run_counts [OF assms, of cs] obtain s' R' where
    r: "ref_run falloc fdup_at ffree_at (2 ^ 32 - 1) cs (s, R) = Inr (s', R')" "cli_ok s'"
      "counts_refs (file_refs s') R'" "length (file_refs s') = length (file_refs s)" by blast
  have "length (file_refs s) = length (files s)" by (simp add: file_refs_def)
  with file_table.take_fresh [OF r(2,3)] r show ?thesis by auto
qed

theorem file_references_counted_witness:
  "\<exists>s' R'. ref_run falloc fdup_at ffree_at (2 ^ 32 - 1) [Take, Dup 0, Drop 0, Take, Drop 0] (boot_state, {#}) = Inr (s', R')
    \<and> counts_refs (file_refs s') R'"
proof -
  have "cli_ok boot_state" by (simp add: cli_ok_def)
  moreover have "counts_refs (file_refs boot_state) {#}"
    by (simp add: counts_refs_def file_refs_def file_zero_def)
  ultimately show ?thesis using file_references_counted [of boot_state "{#}" "[Take, Dup 0, Drop 0, Take, Drop 0]"] by auto
qed

text \<open>
  C23: in-core inodes count references too. After any sequence of \<^verbatim>\<open>ialloc\<close>, \<^verbatim>\<open>idup\<close> and \<^verbatim>\<open>irelse\<close> on
  references held, an inode is valid exactly when it is referenced, its \<^verbatim>\<open>refcnt\<close> then is their number,
  and \<^verbatim>\<open>ialloc\<close> returns an inode nobody holds, or none when all are held.
\<close>

theorem inode_references_counted:
  assumes "inodes_ok s" and "counts_refs (inode_refs s) R"
  shows "\<exists>s' R'. ref_run ialloc idup_at irelse_at (2 ^ 16 - 1) cs (s, R) = Inr (s', R')
    \<and> (\<forall>i < length (inodes s). (ivalid (inodes s' ! i) \<noteq> 0 \<longleftrightarrow> i \<in># R')
        \<and> (i \<in># R' \<longrightarrow> unat (irefcnt (inodes s' ! i)) = count R' i))
    \<and> ((\<exists>i t. ialloc s' = Inr (Some i, t) \<and> i < length (inodes s) \<and> i \<notin># R')
        \<or> (ialloc s' = Inr (None, s') \<and> (\<forall>i < length (inodes s). i \<in># R')))"
proof -
  from inode_table.ref_run_counts [OF assms, of cs] obtain s' R' where
    r: "ref_run ialloc idup_at irelse_at (2 ^ 16 - 1) cs (s, R) = Inr (s', R')" "inodes_ok s'"
      "counts_refs (inode_refs s') R'" "length (inode_refs s') = length (inode_refs s)" by blast
  have l: "length (inode_refs s) = length (inodes s)" "length (inodes s') = length (inodes s)"
    using r(4) by (simp_all add: inode_refs_def)
  have "(ivalid (inodes s' ! i) \<noteq> 0 \<longleftrightarrow> i \<in># R') \<and> (i \<in># R' \<longrightarrow> unat (irefcnt (inodes s' ! i)) = count R' i)"
    if i: "i < length (inodes s)" for i
  proof -
    have c: "(if ivalid (inodes s' ! i) = 0 then 0 else unat (irefcnt (inodes s' ! i))) = count R' i"
      using r(3,4) i l by (simp add: counts_refs_def inode_refs_def)
    have "ivalid (inodes s' ! i) \<noteq> 0 \<Longrightarrow> unat (irefcnt (inodes s' ! i)) \<noteq> 0"
      using r(2) i l by (simp add: inodes_ok_def unat_eq_0)
    with c show ?thesis by (metis count_eq_zero_iff)
  qed
  with inode_table.take_fresh [OF r(2,3)] r l show ?thesis by auto
qed

theorem inode_references_counted_witness:
  "\<exists>s' R'. ref_run ialloc idup_at irelse_at (2 ^ 16 - 1) [Take, Dup 0, Drop 0, Drop 0] (boot_state, {#}) = Inr (s', R')"
proof -
  have "inodes_ok boot_state" "counts_refs (inode_refs boot_state) {#}"
    by (simp_all add: inodes_ok_def cli_ok_def inode_zero_def counts_refs_def inode_refs_def)
  then show ?thesis using inode_references_counted [of boot_state "{#}" "[Take, Dup 0, Drop 0, Drop 0]"] by blast
qed

end
