(* ===== verification/Mix_Frames.thy ===== *)
theory Mix_Frames
  imports Mix_Tables
begin

text \<open>
  What printing and the operations on memory and address spaces leave alone, whatever they are called
  with: every table of the kernel, the segment and gate tables and the address space in use.
\<close>

section \<open>Printing\<close>

lemma more_put_char: "putchar c s = Inr t \<Longrightarrow> console.more t = console.more s"
  by (auto simp: putchar_def put_glyph_def scroll_up_def put_cursor_def outb_def Let_def split: if_splits)

lemma more_emit: "emit putchar cs s = Inr t \<Longrightarrow> console.more t = console.more s"
proof (induction cs arbitrary: s)
  case (Cons c cs)
  then show ?case by (auto simp: bnd_eq_Inr_iff dest!: more_put_char)
qed simp

lemma more_puts_lit: "puts_lit cs s = Inr t \<Longrightarrow> console.more t = console.more s"
  unfolding puts_lit_def by (rule more_emit)

lemma more_put_digit: "put_digit d s = Inr t \<Longrightarrow> console.more t = console.more s"
  by (auto simp: put_digit_def more_put_char split: if_splits)

lemma more_printn: "printn n b s = Inr t \<Longrightarrow> console.more t = console.more s"
proof (induction n b s arbitrary: t rule: printn.induct)
  case (1 n b s)
  from "1.prems" show ?case
    by (subst (asm) printn.simps) (auto simp: bnd_eq_Inr_iff dest!: "1.IH" more_put_digit split: if_splits)
qed

lemma more_put_str: "put_str n a s = Inr t \<Longrightarrow> console.more t = console.more s"
  by (induction n a s rule: put_str.induct) (auto simp: bnd_eq_Inr_iff more_put_char split: if_splits)

lemma more_print_conv: "print_conv k a s = Inr t \<Longrightarrow> console.more t = console.more s"
  by (auto simp: print_conv_def bnd_eq_Inr_iff split: if_splits
      dest!: more_printn more_put_char more_puts_lit more_put_str)

lemma more_printf: "printf fmt args s = Inr t \<Longrightarrow> console.more t = console.more s"
proof (induction fmt args s rule: printf.induct)
  case (2 c args s)
  then show ?case by (auto simp: bnd_eq_Inr_iff split: if_splits dest!: more_put_char more_puts_lit)
next
  case (3 c k fmt args s)
  then show ?case
    by (auto simp: bnd_eq_Inr_iff split: if_splits list.splits)
      (metis more_put_char more_puts_lit more_print_conv)+
qed simp

section \<open>Memory and address spaces\<close>

definition kept :: "'a vm_scheme \<Rightarrow> 'a vm_scheme \<Rightarrow> bool" where
  "kept s t \<longleftrightarrow> vm.more t = vm.more s \<and> cr3 t = cr3 s \<and> kmaps t = kmaps s"

lemma kept_refl [simp]: "kept s s"
  by (simp add: kept_def)

lemma kept_trans [trans]: "kept s t \<Longrightarrow> kept t u \<Longrightarrow> kept s u"
  by (simp add: kept_def)

lemma kept_mem [simp]:
  "kept s (t\<lparr>mem := m\<rparr>) = kept s t" "kept (s\<lparr>mem := m\<rparr>) t = kept s t"
  "kept s (t\<lparr>coremap := r\<rparr>) = kept s t" "kept (s\<lparr>coremap := r\<rparr>) t = kept s t"
  by (simp_all add: kept_def)

lemma kept_console:
  assumes "console.more t = console.more s"
  shows "kept s t"
  using assms by (cases s; cases t) (simp add: kept_def)

lemma kept_printf: "printf fmt args s = Inr t \<Longrightarrow> kept s t"
  by (intro kept_console) (rule more_printf)

lemma kept_pushcli [simp]: "kept s (pushcli t) = kept s t" "kept (pushcli s) t = kept s t"
  by (simp_all add: kept_def pushcli_upd)

lemma kept_popcli: "popcli s = Inr t \<Longrightarrow> kept s t"
  by (auto simp: popcli_def Let_def sti_def kept_def split: if_splits)

lemma kept_kalloc: "kalloc s = Inr (x, t) \<Longrightarrow> kept s t"
  by (auto simp: kalloc_def Let_def bnd_eq_Inr_iff split: if_splits dest!: kept_popcli)

lemma kept_kfree: "kfree a s = Inr t \<Longrightarrow> kept s t"
  by (auto simp: kfree_def Let_def split: if_splits dest!: kept_popcli)

lemma kept_walkpgdir: "walkpgdir pg va al s = Inr (x, t) \<Longrightarrow> kept s t"
  by (auto simp: walkpgdir_def Let_def bnd_eq_Inr_iff split: if_splits dest!: kept_kalloc)

lemma kept_mappages_loop: "mappages_loop n pg a l pa f s = Inr (r, t) \<Longrightarrow> kept s t"
proof (induction n arbitrary: a pa s)
  case (Suc n)
  then show ?case
    by (auto simp: bnd_eq_Inr_iff split: if_splits dest!: kept_walkpgdir Suc.IH; metis kept_trans)
qed simp

lemma kept_mappages: "mappages pg va n pa f s = Inr (r, t) \<Longrightarrow> kept s t"
  unfolding mappages_def using kept_mappages_loop by (metis Inl_Inr_False)

lemma kept_deallocuvm_loop: "deallocuvm_loop n pg va old s = Inr t \<Longrightarrow> kept s t"
proof (induction n arbitrary: va s)
  case (Suc n)
  then show ?case
    by (auto simp: bnd_eq_Inr_iff Let_def split: if_splits dest!: kept_walkpgdir kept_kfree Suc.IH; metis kept_trans)
qed simp

lemma kept_deallocuvm:
  assumes "deallocuvm pg old new s = Inr (r, t)"
  shows "kept s t"
proof (cases "new \<ge> old")
  case False
  then have "deallocuvm_loop (Suc n_pages) pg (PGROUNDUP new) old s = Inr t"
    using assms by (auto simp: deallocuvm_def bnd_eq_Inr_iff simp del: deallocuvm_loop.simps)
  then show ?thesis by (rule kept_deallocuvm_loop)
qed (use assms in \<open>simp add: deallocuvm_def\<close>)

lemma kept_freevm_loop: "freevm_loop pg is s = Inr t \<Longrightarrow> kept s t"
proof (induction "is" arbitrary: s)
  case (Cons i js)
  then show ?case
    by (auto simp: bnd_eq_Inr_iff Let_def split: if_splits dest!: kept_kfree Cons.IH; metis kept_trans)
qed simp

lemma kept_freevm: "freevm pg s = Inr t \<Longrightarrow> kept s t"
  unfolding freevm_def
  by (auto simp: bnd_eq_Inr_iff simp del: freevm_loop.simps split: if_splits
      dest!: kept_deallocuvm kept_freevm_loop kept_kfree; metis kept_trans)

lemma kept_setupkvm_loop: "setupkvm_loop pg ks s = Inr (r, t) \<Longrightarrow> kept s t"
proof (induction ks arbitrary: s)
  case (Cons k ks)
  then show ?case
    by (auto simp: bnd_eq_Inr_iff split: if_splits dest!: kept_mappages kept_freevm Cons.IH; metis kept_trans)
qed simp

lemma kept_setupkvm: "setupkvm s = Inr (r, t) \<Longrightarrow> kept s t"
  by (auto simp: setupkvm_def bnd_eq_Inr_iff split: if_splits dest!: kept_kalloc kept_setupkvm_loop; metis kept_trans)

lemma kept_allocuvm_loop: "allocuvm_loop n pg va old new s = Inr (r, t) \<Longrightarrow> kept s t"
proof (induction n arbitrary: va s)
  case (Suc n)
  then show ?case
    by (auto simp: bnd_eq_Inr_iff simp del: printf.simps split: if_splits
        dest!: kept_kalloc kept_mappages kept_printf kept_deallocuvm kept_kfree Suc.IH; metis kept_trans)
qed simp

lemma kept_allocuvm: "allocuvm pg old new s = Inr (r, t) \<Longrightarrow> kept s t"
  unfolding allocuvm_def using kept_allocuvm_loop by (metis Inr_inject Pair_inject kept_refl)

lemma kept_copyuvm_bad: "copyuvm_bad pa new s = Inr (r, t) \<Longrightarrow> kept s t"
  by (auto simp: copyuvm_bad_def bnd_eq_Inr_iff split: if_splits dest!: kept_kfree kept_freevm; metis kept_trans)

lemma kept_copyuvm_loop: "copyuvm_loop n pg new va fin s = Inr (r, t) \<Longrightarrow> kept s t"
proof (induction n arbitrary: va s)
  case (Suc n)
  then show ?case
    by (auto simp: bnd_eq_Inr_iff Let_def split: if_splits
        dest!: kept_walkpgdir kept_kalloc kept_mappages kept_copyuvm_bad Suc.IH; metis kept_trans)
qed simp

lemma kept_copyuvm: "copyuvm pg n s = Inr (r, t) \<Longrightarrow> kept s t"
  by (auto simp: copyuvm_def bnd_eq_Inr_iff simp del: copyuvm_loop.simps split: if_splits
      dest!: kept_setupkvm kept_copyuvm_loop; metis kept_trans)

lemma kept_ustack: "ustack pg va s = Inr (r, t) \<Longrightarrow> kept s t"
  by (auto simp: ustack_def Let_def bnd_eq_Inr_iff split: if_splits dest!: kept_allocuvm kept_walkpgdir; metis kept_trans)

lemma kept_inituvm: "inituvm pg bs s = Inr t \<Longrightarrow> kept s t"
  by (auto simp: inituvm_def bnd_eq_Inr_iff dest!: kept_kalloc kept_mappages; metis kept_mem kept_trans)

text \<open>On the kernel state.\<close>

lemma kept_tables:
  fixes s t :: kernel
  assumes "kept s t"
  shows "procs t = procs s" "procp t = procp s" "files t = files s" "inodes t = inodes s" "blocks t = blocks s"
    "nextpid t = nextpid s" "schedix t = schedix s" "pending t = pending s" "drive t = drive s" "cr3 t = cr3 s"
    "idelock t = idelock s" "gdt t = gdt s" "idt t = idt s" "trapret_at t = trapret_at s" "sysfs_of t = sysfs_of s"
  using assms by (cases s; cases t; simp add: kept_def)+

end
