(* ===== verification/Mix_Sched.thy ===== *)
theory Mix_Sched
  imports Mix_Tables
begin

text \<open>
  What the scheduler of \<^verbatim>\<open>kernel/proc.c\<close> promises: which process \<^verbatim>\<open>sched\<close> chooses, the state in which it
  calls \<^verbatim>\<open>swtch\<close>, and whom it never chooses; and the process \<^verbatim>\<open>palloc\<close> hands out.
\<close>

section \<open>The scan\<close>

abbreviation sched_slot :: "u32 \<Rightarrow> nat \<Rightarrow> nat" where
  "sched_slot base i \<equiv> unat ((base + of_nat i) mod 64)"

lemma sched_slot_eq: "sched_slot base i = (unat base + i) mod 64"
proof -
  have "sched_slot base i = (unat base + i mod 4294967296) mod 4294967296 mod 64"
    by (simp add: unat_mod unat_word_ariths unat_of_nat)
  also have "\<dots> = (unat base + i) mod 64" by (simp add: mod_mod_cancel mod_simps)
  finally show ?thesis .
qed

lemma sched_slot_less: "sched_slot base i < 64"
  by (simp add: sched_slot_eq)

lemma sched_slot_surj:
  assumes "j < 64"
  shows "\<exists>i < 64. sched_slot base i = j"
proof (intro exI conjI)
  let ?b = "unat base"
  show "(j + 64 - ?b mod 64) mod 64 < 64" by simp
  have "(?b + (j + 64 - ?b mod 64) mod 64) mod 64 = (?b + (j + 64 - ?b mod 64)) mod 64"
    by (rule mod_add_right_eq)
  also have "?b + (j + 64 - ?b mod 64) = 64 * (?b div 64) + 64 + j"
    using div_mult_mod_eq [of ?b 64] pos_mod_bound [of 64 "int ?b"] by linarith
  also have "\<dots> = j + 64 * (?b div 64 + 1)" by simp
  also have "\<dots> mod 64 = j" using assms by (simp only: mod_mult_self2 mod_less)
  finally show "sched_slot base ((j + 64 - ?b mod 64) mod 64) = j" by (simp only: sched_slot_eq)
qed

lemma sched_scan_fits:
  assumes "length tab = 64" and "sched_scan st is tab base new = (n, b)"
    and "\<And>j. new = Some j \<Longrightarrow> j < 64 \<and> stat (tab ! j) = st"
  shows "(\<forall>j. n = Some j \<longrightarrow> j < 64 \<and> stat (tab ! j) = st)
    \<and> (n = None \<longrightarrow> b = base \<and> new = None \<and> (\<forall>i \<in> set is. stat (tab ! sched_slot base i) \<noteq> st))"
  using assms(2,3)
proof (induction "is" arbitrary: base new)
  case Nil
  then show ?case by auto
next
  case (Cons i js)
  let ?j = "sched_slot base i"
  show ?case
  proof (cases "stat (tab ! ?j) = st")
    case True
    then have "sched_scan st js tab (of_nat i) (Some ?j) = (n, b)" using Cons.prems by (simp add: Let_def)
    from Cons.IH [OF this] show ?thesis using sched_slot_less True by auto
  next
    case False
    then have "sched_scan st js tab base new = (n, b)" using Cons.prems by (simp add: Let_def)
    from Cons.IH [OF this] Cons.prems(2) False show ?thesis by auto
  qed
qed

lemma sched_scan_cases:
  assumes "length tab = 64"
  obtains j b where "sched_scan st [0..<64] tab base None = (Some j, b)" "j < 64" "stat (tab ! j) = st"
  | "sched_scan st [0..<64] tab base None = (None, base)" "\<And>j. j < 64 \<Longrightarrow> stat (tab ! j) \<noteq> st"
proof -
  obtain n b where e: "sched_scan st [0..<64] tab base None = (n, b)" by fastforce
  have f: "\<forall>j. n = Some j \<longrightarrow> j < 64 \<and> stat (tab ! j) = st"
    "n = None \<longrightarrow> b = base \<and> (\<forall>i < 64. stat (tab ! sched_slot base i) \<noteq> st)"
    using sched_scan_fits [OF assms e] by auto
  show thesis
  proof (cases n)
    case None
    have none: "stat (tab ! j) \<noteq> st" if "j < 64" for j
      using f None sched_slot_surj [OF that, of base] by auto
    from f None have "b = base" by simp
    with e None have "sched_scan st [0..<64] tab base None = (None, base)" by simp
    then show thesis using none by (rule that(2))
  next
    case (Some j)
    from f Some have "j < 64" "stat (tab ! j) = st" by simp_all
    with e Some show thesis by (intro that(1)) simp_all
  qed
qed

lemma sched_scan_skip:
  "(\<And>i. i \<in> set is \<Longrightarrow> stat (tab ! sched_slot base i) \<noteq> st) \<Longrightarrow> sched_scan st is tab base new = (new, base)"
  by (induction "is" arbitrary: new) (simp_all add: Let_def)

text \<open>Two processes that can run, in the slots 1 and 2: the position 0 or 1 leads to slot 1 and position 1.\<close>

lemma sched_scan_starves:
  assumes "\<And>j. j < 64 \<Longrightarrow> stat (tab ! j) = st \<longleftrightarrow> j = 1 \<or> j = 2" and "base = 0 \<or> base = 1"
  shows "sched_scan st [0..<64] tab base None = (Some 1, 1)"
proof -
  have "sched_scan st [2..<64] tab 1 new = (new, 1)" for new
  proof (rule sched_scan_skip)
    fix i :: nat
    assume "i \<in> set [2..<64]"
    then have "i = 63 \<or> (1 + i) mod 64 = 1 + i \<and> 2 \<le> i" by auto
    then have "sched_slot 1 i \<noteq> 1 \<and> sched_slot 1 i \<noteq> 2" unfolding sched_slot_eq by auto
    then show "stat (tab ! sched_slot 1 i) \<noteq> st" using assms(1) [OF sched_slot_less] by blast
  qed
  moreover have "[0..<64] = 0 # 1 # [2..<64 :: nat]"
    using upt_conv_Cons [of 0 64] upt_conv_Cons [of 1 64] by (simp only: One_nat_def numeral_2_eq_2)
  ultimately obtain r where r: "[0..<64] = 0 # 1 # r" "\<And>new. sched_scan st r tab 1 new = (new, 1)" by metis
  have "sched_slot 0 0 = 0" "sched_slot 0 1 = 1" "sched_slot 1 0 = 1" by simp_all
  then show ?thesis unfolding r(1) using r(2) assms(2) assms(1) [of 0] assms(1) [of 1] by (auto simp: Let_def)
qed

section \<open>Switching\<close>

text \<open>What is left untouched by an operation that only changes registers and tables of the processor.\<close>

definition on_process :: "nat \<Rightarrow> kernel \<Rightarrow> kernel \<Rightarrow> bool" where
  "on_process j s t \<longleftrightarrow> procp t = Some j \<and> cr3 t = pgdir (procs s ! j) \<and> ts_ss0 (ts t) = 0x10
     \<and> ts_esp0 (ts t) = kstack (procs s ! j) + 0x1000 \<and> tr t = 0x28
     \<and> procs t = procs s \<and> mem t = mem s \<and> coremap t = coremap s \<and> files t = files s
     \<and> eflags t = eflags s \<and> ncli t = ncli s \<and> intena t = intena s \<and> idt t = idt s"

lemma cli_ok_pushcli: "cli_room (Suc (Suc n)) s \<Longrightarrow> cli_ok (pushcli s)"
  using cli_room_pushcli [of "Suc n" s] by (simp add: cli_room_def)

lemma switchuvm_eq:
  assumes "cli_ok s" and "stk \<noteq> 0" and "dir \<noteq> 0"
  shows "\<exists>g. switchuvm stk dir s
    = Inr (s\<lparr>gdt := g, ts := (ts s)\<lparr>ts_ss0 := 0x10, ts_esp0 := stk + 0x1000, ts_iomb := 0xFFFF\<rparr>, tr := 0x28, cr3 := dir\<rparr>)"
  using assms by (auto simp: switchuvm_def Let_def popcli_after_pushcli pushcli_upd)

definition schedulable :: "proc \<Rightarrow> bool" where
  "schedulable p \<longleftrightarrow> (stat p = RUN \<or> stat p = SLEEP \<longrightarrow> kstack p \<noteq> 0 \<and> pgdir p \<noteq> 0)"

lemma sched_switch:
  assumes "cli_room 2 s" and "kstack (procs s ! j) \<noteq> 0" and "pgdir (procs s ! j) \<noteq> 0"
  shows "\<exists>t. bnd (switchuvm (kstack (procs s ! j)) (pgdir (procs s ! j)) ((pushcli s)\<lparr>schedix := b, procp := Some j\<rparr>))
        (\<lambda>s. bnd (popcli s) (\<lambda>s. Inr (Some j, s))) = Inr (Some j, t)
      \<and> on_process j s t \<and> schedix t = b"
proof -
  have ok: "cli_ok ((pushcli s)\<lparr>schedix := b, procp := Some j\<rparr>)"
    using cli_ok_pushcli [of 0 s] assms(1) by (simp add: cli_ok_def numeral_2_eq_2)
  have "cli_ok s" using assms(1) by (simp add: cli_room_def)
  with switchuvm_eq [OF ok assms(2,3)] show ?thesis
    by (auto simp: popcli_after_pushcli on_process_def pushcli_upd)
qed

lemmas sched_back = popcli_table(7)

lemma schedulable_at:
  assumes "\<forall>p \<in> set (procs s). schedulable p" and "j < length (procs s)" and "stat (procs s ! j) = RUN \<or> stat (procs s ! j) = SLEEP"
  shows "kstack (procs s ! j) \<noteq> 0" "pgdir (procs s ! j) \<noteq> 0"
  using assms nth_mem [of j "procs s"] by (auto simp: schedulable_def)

text \<open>\<^verbatim>\<open>sched\<close> when the scan has found \<open>j\<close>, and when no process can run.\<close>

lemma sched_found:
  assumes r: "cli_room 2 s" and c: "procp s = Some c" and k: "kstack (procs s ! j) \<noteq> 0" "pgdir (procs s ! j) \<noteq> 0"
    and scan: "sched_scan RUN [0..<64] (procs s) (schedix s) None = (Some j, b)"
  shows "\<exists>t. if j = c then sched_to s = Inr (None, t) \<and> t = s\<lparr>schedix := schedix t\<rparr>
    else sched_to s = Inr (Some j, t) \<and> on_process j s t"
proof (cases "j = c")
  case True
  have "cli_ok s" using r by (simp add: cli_room_def)
  then have "sched_to s = Inr (None, s\<lparr>schedix := b\<rparr>)"
    using True scan c sched_back by (simp add: sched_to_def Let_def pushcli_upd)
  with True show ?thesis by (intro exI [of _ "s\<lparr>schedix := b\<rparr>"]) simp
next
  case False
  with sched_switch [OF r k, of b] show ?thesis using scan c by (auto simp: sched_to_def Let_def pushcli_upd)
qed

lemma sched_not_found:
  assumes r: "cli_room 2 s" and l: "length (procs s) = 64" and c: "procp s = Some c" and p: "\<forall>p \<in> set (procs s). schedulable p"
    and none: "sched_scan RUN [0..<64] (procs s) (schedix s) None = (None, schedix s)"
  shows "if stat (procs s ! c) \<noteq> ZOMB then sched_to s = Inr (None, s)
     else if \<exists>p \<in> set (procs s). stat p = SLEEP
     then \<exists>j t. j < 64 \<and> stat (procs s ! j) = SLEEP \<and> sched_to s = Inr (Some j, t) \<and> on_process j s t
     else sched_to s = Inl (Panic ''no proc.'')"
proof (cases "stat (procs s ! c) = ZOMB")
  case False
  have "cli_ok s" using r by (simp add: cli_room_def)
  from popcli_pushcli [OF this] False show ?thesis using none c by (simp add: sched_to_def Let_def pushcli_upd cur_def)
next
  case True
  show ?thesis
  proof (cases rule: sched_scan_cases [OF l, of SLEEP "schedix s"])
    case (1 j b)
    have "kstack (procs s ! j) \<noteq> 0" "pgdir (procs s ! j) \<noteq> 0" using schedulable_at [OF p] 1 l by simp_all
    from sched_switch [OF r this, of b] obtain t where t: "sched_to s = Inr (Some j, t)" "on_process j s t"
      using 1 none True c by (auto simp: sched_to_def Let_def pushcli_upd cur_def)
    have "\<exists>p \<in> set (procs s). stat p = SLEEP" using 1 l nth_mem by force
    with True t 1 show ?thesis by auto
  next
    case 2
    then have "\<not> (\<exists>p \<in> set (procs s). stat p = SLEEP)" using l by (auto simp: in_set_conv_nth)
    moreover have "sched_to s = Inl (Panic ''no proc.'')"
      using none True 2 c by (simp add: sched_to_def Let_def pushcli_upd cur_def)
    ultimately show ?thesis using True by simp
  qed
qed

section \<open>Properties\<close>

text \<open>
  C21: \<^verbatim>\<open>sched\<close>. If some process is in \<^verbatim>\<open>RUN\<close>, the one chosen is; nothing but the scan position changes
  when it is the current one, and otherwise \<^verbatim>\<open>swtch\<close> is called with the processor set up for it: its
  page directory in \<^verbatim>\<open>cr3\<close>, the top of its kernel stack in the task state segment, memory, tables and the
  interrupt state as they were. If none is, a process that is not a zombie goes on, and a zombie switches
  to a sleeping process or panics when there is none.
\<close>

theorem sched_chooses:
  assumes "cli_room 2 s" and "length (procs s) = 64" and "procp s = Some c"
    and "\<forall>p \<in> set (procs s). schedulable p"
  shows "if \<exists>p \<in> set (procs s). stat p = RUN
     then \<exists>j t. j < 64 \<and> stat (procs s ! j) = RUN \<and>
       (if j = c then sched_to s = Inr (None, t) \<and> t = s\<lparr>schedix := schedix t\<rparr>
        else sched_to s = Inr (Some j, t) \<and> on_process j s t)
     else if stat (procs s ! c) \<noteq> ZOMB then sched_to s = Inr (None, s)
     else if \<exists>p \<in> set (procs s). stat p = SLEEP
     then \<exists>j t. j < 64 \<and> stat (procs s ! j) = SLEEP \<and> sched_to s = Inr (Some j, t) \<and> on_process j s t
     else sched_to s = Inl (Panic ''no proc.'')"
proof (cases rule: sched_scan_cases [OF assms(2), of RUN "schedix s"])
  case (1 j b)
  then have "\<exists>p \<in> set (procs s). stat p = RUN" using assms(2) nth_mem by force
  moreover have "kstack (procs s ! j) \<noteq> 0" "pgdir (procs s ! j) \<noteq> 0" using schedulable_at [OF assms(4)] 1 assms(2) by simp_all
  note sched_found [OF assms(1,3) this 1(1)]
  ultimately show ?thesis using 1(2,3) by (simp only: if_True) blast
next
  case 2
  then have "\<not> (\<exists>p \<in> set (procs s). stat p = RUN)" using assms(2) by (auto simp: in_set_conv_nth)
  then show ?thesis using sched_not_found [OF assms 2(1)] by simp
qed

text \<open>A table with two processes that can run, in the slots 1 and 2.\<close>

definition ex_proc :: "procstat \<Rightarrow> u32 \<Rightarrow> proc" where
  "ex_proc st n = proc_zero\<lparr>stat := st, pid := n, kstack := 0x300000 + n * 0x1000, pgdir := 0x400000 + n * 0x1000\<rparr>"

definition ex_procs :: "proc list" where
  "ex_procs = proc_zero\<lparr>stat := ZOMB\<rparr> # ex_proc RUN 0 # ex_proc RUN 1 # replicate 61 proc_zero"

definition ex_running :: kernel where
  "ex_running = boot_state\<lparr>procs := ex_procs, procp := Some 2\<rparr>"

lemma ex_running_ok:
  "cli_room 2 ex_running" "length (procs ex_running) = 64" "procp ex_running = Some 2"
  "\<forall>p \<in> set (procs ex_running). schedulable p"
  by (simp_all add: ex_running_def ex_procs_def cli_room_def cli_ok_def schedulable_def ex_proc_def proc_zero_def)

lemma ex_running_run: "\<exists>p \<in> set (procs ex_running). stat p = RUN"
  by (simp add: ex_running_def ex_procs_def ex_proc_def)

theorem sched_chooses_witness:
  "\<exists>j t. stat (procs ex_running ! j) = RUN
    \<and> (if j = 2 then sched_to ex_running = Inr (None, t) else sched_to ex_running = Inr (Some j, t) \<and> on_process j ex_running t)"
  using sched_chooses [OF ex_running_ok] ex_running_run by (simp split: if_splits) metis

text \<open>\<^verbatim>\<open>sched\<close> again and again, each time by the process it switched to.\<close>

fun resched :: "nat \<Rightarrow> kernel \<Rightarrow> kernel res" where
  "resched 0 s = Inr s"
| "resched (Suc n) s = bnd (sched_to s) (\<lambda>(_, s). resched n s)"

definition only_1_2 :: "kernel \<Rightarrow> bool" where
  "only_1_2 s \<longleftrightarrow> cli_room 2 s \<and> length (procs s) = 64 \<and> procp s \<noteq> None \<and> (\<forall>p \<in> set (procs s). schedulable p)
     \<and> (\<forall>j < 64. stat (procs s ! j) = RUN \<longleftrightarrow> j = 1 \<or> j = 2) \<and> (schedix s = 0 \<or> schedix s = 1)"

lemma sched_picks_1:
  assumes "only_1_2 s"
  shows "\<exists>n t. sched_to s = Inr (n, t) \<and> procp t = Some 1 \<and> only_1_2 t"
proof -
  have scan: "sched_scan RUN [0..<64] (procs s) (schedix s) None = (Some 1, 1)"
    using assms by (intro sched_scan_starves) (auto simp: only_1_2_def)
  have "stat (procs s ! 1) = RUN" "procs s ! 1 \<in> set (procs s)" using assms by (simp_all add: only_1_2_def)
  then have k: "kstack (procs s ! 1) \<noteq> 0" "pgdir (procs s ! 1) \<noteq> 0"
    using assms by (auto simp: only_1_2_def schedulable_def)
  have r: "cli_room 2 s" "cli_ok s" using assms by (simp_all add: only_1_2_def cli_room_def)
  show ?thesis
  proof (cases "procp s = Some 1")
    case True
    then have "sched_to s = Inr (None, s\<lparr>schedix := 1\<rparr>)"
      using scan sched_back [OF r(2)] by (simp add: sched_to_def Let_def pushcli_upd)
    moreover have "only_1_2 (s\<lparr>schedix := 1\<rparr>)" using assms by (simp add: only_1_2_def cli_room_def cli_ok_def)
    ultimately show ?thesis using True by auto
  next
    case False
    from sched_switch [OF r(1) k, of 1]
    obtain t where "sched_to s = Inr (Some 1, t)" "on_process 1 s t" "schedix t = 1"
      using scan False by (auto simp: sched_to_def Let_def pushcli_upd)
    moreover from this have "only_1_2 t"
      using assms by (simp add: only_1_2_def on_process_def cli_room_def cli_ok_def)
    ultimately show ?thesis by (auto simp: on_process_def)
  qed
qed

text \<open>
  C26: the scheduler can starve a process. \<^verbatim>\<open>sched\<close> overwrites its start position with the loop counter
  inside the loop. With two processes in \<^verbatim>\<open>RUN\<close>, in the slots 1 and 2, and the position 0 or 1, every
  one of any number of calls puts slot 1 on the processor: the process in slot 2 never runs again while
  the first one can.
\<close>

theorem sched_starves:
  assumes "only_1_2 s"
  shows "\<exists>t. resched (Suc n) s = Inr t \<and> procp t = Some 1 \<and> only_1_2 t"
  using assms
proof (induction n arbitrary: s)
  case 0
  from sched_picks_1 [OF 0] show ?case by auto
next
  case (Suc n)
  from sched_picks_1 [OF Suc.prems] obtain k t where "sched_to s = Inr (k, t)" "only_1_2 t" by blast
  with Suc.IH [of t] show ?case by (metis bnd_Inr case_prod_conv resched.simps(2))
qed

theorem sched_starves_witness:
  "\<exists>t. resched 1000 ex_running = Inr t \<and> procp t = Some 1"
proof -
  have "j < 64 \<Longrightarrow> stat (procs ex_running ! j) = RUN \<longleftrightarrow> j = 1 \<or> j = 2" for j
    by (cases j rule: nat.exhaust; auto simp: ex_running_def ex_procs_def ex_proc_def proc_zero_def nth_Cons split: nat.split)
  then have "only_1_2 ex_running" using ex_running_ok by (simp add: only_1_2_def) (simp add: ex_running_def)
  then show ?thesis using sched_starves [of ex_running 999] by auto
qed

end
