(* ===== verification/Mix_Process.thy ===== *)
theory Mix_Process
  imports Mix_Sched Mix_Syscall Mix_Frames
begin

text \<open>
  The life of a process as \<^verbatim>\<open>kernel/proc.c\<close> and the system calls have it: what \<^verbatim>\<open>palloc\<close> hands out,
  sleeping and waking, and the invariant of the process table they keep.
\<close>

section \<open>The frame of a new process\<close>

lemma addr_outside: "pgal k \<Longrightarrow> pg_of a \<noteq> k \<Longrightarrow> c < 0x1000 \<Longrightarrow> a \<noteq> k + c"
  using pg_of_iff [of k a] by auto

lemma and_3_or: "(0x18 OR 3 :: u32) = 0x1B" "(0x20 OR 3 :: u32) = 0x23"
  by simp_all

text \<open>The selectors are those of the user segments at privilege 3, interrupts are enabled.\<close>

definition user_frame :: "memory \<Rightarrow> u32 \<Rightarrow> u32 \<Rightarrow> bool" where
  "user_frame m t ret \<longleftrightarrow>
     load16 m (t + TF_CS) = 0x1B \<and> load16 m (t + TF_DS) = 0x23 \<and> load16 m (t + TF_ES) = 0x23
     \<and> load16 m (t + TF_SS) = 0x23 \<and> load32 m (t + TF_EFLAGS) = 0x200
     \<and> load32 m (t + TF_EIP) = 0 \<and> load32 m (t + TF_ESP) = 0 \<and> load32 m (t + TF_EAX) = 0
     \<and> load32 m (t - CTX_SIZE + CTX_EIP) = ret"

lemma new_frame_user:
  fixes k ret :: u32 and m :: memory
  defines "m' \<equiv> new_frame ret (k + 0xFB4) (k + 0xFA0) (memset k 0 0x1000 m)"
  shows "user_frame m' (k + 0xFB4) ret"
proof -
  have z: "memset k 0 0x1000 m (k + c) = 0" if "c < 0x1000" for c using that by (simp add: memset_eq)
  have p: "load32 m' (k + 0xFEC) = 0" "load32 m' (k + 0xFF8) = 0" "load32 m' (k + 0xFD0) = 0"
    unfolding m'_def new_frame_def Let_def
    by (simp_all add: load32_def store32_def store16_def z le32_def add.assoc)
  have q: "load16 m' (k + 0xFF0) = 0x1B" "load16 m' (k + 0xFE0) = 0x23" "load16 m' (k + 0xFDC) = 0x23"
      "load16 m' (k + 0xFFC) = 0x23" "load32 m' (k + 0xFF4) = 0x200" "load32 m' (k + 0xFB0) = ret"
    unfolding m'_def new_frame_def Let_def
    by (simp_all add: load32_def load16_def store32_def store16_def z add.assoc and_3_or)
  have e: "k + 0xFB4 - CTX_SIZE + CTX_EIP = k + 0xFB0" by (simp add: add.commute)
  show ?thesis unfolding user_frame_def e using p q by (simp add: add.assoc)
qed

lemma new_frame_page:
  assumes "pgal k"
  shows "mem_frame {k} m (new_frame ret (k + 0xFB4) (k + 0xFA0) (memset k 0 0x1000 m))"
proof -
  have "a \<noteq> k + c" if "pg_of a \<notin> {k}" "c < 0x1000" for a c
    using addr_outside [OF assms _ that(2)] that(1) by simp
  then show ?thesis
    using assms by (simp add: mem_frame_def new_frame_def Let_def store32_def store16_def memset_eq pg_of_iff add.assoc)
qed

lemma cli_ok_pushed: "cli_room 2 s \<Longrightarrow> cli_ok (pushcli s)"
  using cli_ok_pushcli [of 0 s] by (simp add: numeral_2_eq_2)

lemma cli_room_ok: "cli_room 2 s \<Longrightarrow> cli_ok s"
  by (simp add: cli_room_def)

text \<open>The entry \<^verbatim>\<open>palloc\<close> fills, with the kernel stack \<open>k\<close>.\<close>

definition new_proc :: "u32 \<Rightarrow> u32 \<Rightarrow> proc" where
  "new_proc n k = proc_zero\<lparr>stat := SET, pid := n, kstack := k, tf := k + 0xFB4, pcontext := k + 0xFA0,
     ofile := (replicate 32 None)[0 := Some 0, 1 := Some 1]\<rparr>"

lemma kmem_inv_tables [simp]:
  "kmem_inv (s\<lparr>procs := P\<rparr>) xs = kmem_inv s xs" "kmem_inv (s\<lparr>files := F\<rparr>) xs = kmem_inv s xs"
  "kmem_inv (s\<lparr>nextpid := n\<rparr>) xs = kmem_inv s xs" "kmem_inv (s\<lparr>inodes := I\<rparr>) xs = kmem_inv s xs"
  "kmem_inv (s\<lparr>procp := c\<rparr>) xs = kmem_inv s xs" "kmem_inv (s\<lparr>blocks := B\<rparr>) xs = kmem_inv s xs"
  for s :: kernel
  by (simp_all add: kmem_inv_def page_ok_def kern_ok_def)

lemma upd_at_const: "upd_at i (\<lambda>_. x) xs = xs[i := x]"
  by (simp add: upd_at_def)

lemma palloc_no_slot:
  "cli_ok s \<Longrightarrow> find_idx (\<lambda>p. stat p = UNUSED) (procs s) = None \<Longrightarrow> palloc s = Inr (None, s)"
  by (simp add: palloc_def Let_def popcli_table)

lemma palloc_no_page:
  assumes "kmem_inv s []" and "cli_room 2 s" and "find_idx (\<lambda>p. stat p = UNUSED) (procs s) = Some i"
  shows "palloc s = Inr (None, s\<lparr>procs := (procs s)[i := proc_zero]\<rparr>)"
proof -
  have "proc_zero\<lparr>kstack := 0\<rparr> = proc_zero" by (simp add: proc_zero_def)
  then show ?thesis
    using assms find_idx_SomeD(1) [OF assms(3)] kmem_inv_Nil [OF assms(1)] cli_ok_pushed [OF assms(2)]
      cli_room_ok [OF assms(2)]
    by (simp add: palloc_def Let_def kalloc_eq upd_at_const popcli_table) (simp add: upd_at_def)
qed

lemma popcli_palloc:
  fixes s :: kernel
  assumes "cli_ok s"
  shows "popcli ((pushcli s)\<lparr>coremap := r, procs := P, nextpid := n\<rparr>) = Inr (s\<lparr>coremap := r, procs := P, nextpid := n\<rparr>)"
  using popcli_table(1) [of "s\<lparr>coremap := r, procs := P, nextpid := n\<rparr>"] assms by simp

lemma palloc_builds:
  assumes "kmem_inv s (k # ys)" and "cli_room 2 s" and "find_idx (\<lambda>p. stat p = UNUSED) (procs s) = Some i"
  shows "\<exists>s'. palloc s = Inr (Some i, s') \<and> s' = s\<lparr>coremap := coremap s', mem := mem s',
      procs := (procs s)[i := new_proc (nextpid s) k], nextpid := nextpid s + 1,
      files := upd_at 1 (\<lambda>f. f\<lparr>frefcnt := frefcnt f + 1\<rparr>) (upd_at 0 (\<lambda>f. f\<lparr>frefcnt := frefcnt f + 1\<rparr>) (files s))\<rparr>
    \<and> kmem_inv s' ys \<and> mem_frame {k} (mem s) (mem s') \<and> user_frame (mem s') (k + 0xFB4) (trapret_at s)"
proof -
  note k = kmem_inv_kalloc [OF assms(1)]
  note cli = cli_ok_pushed [OF assms(2)] cli_room_ok [OF assms(2)]
  have i: "i < length (procs s)" using find_idx_SomeD(1) [OF assms(3)] .
  have pg: "pgal k" using k(4) by (simp add: page_ok_def)
  let ?m = "new_frame (trapret_at s) (k + 0xFB4) (k + 0xFA0) (memset k 0 0x1000 (mem s))"
  let ?s = "s\<lparr>coremap := load32 (mem s) k, mem := ?m\<rparr>"
  have inv: "kmem_inv ?s ys"
    using kmem_inv_mem [OF k(3) _ , of "{k}" ?m] new_frame_page [OF pg] k(5) by simp
  have new: "(procs s)[i := new_proc (nextpid s) k] =
    upd_at i (\<lambda>p. p\<lparr>ofile := (ofile p)[STDOUT := Some 1]\<rparr>)
      (upd_at i (\<lambda>p. p\<lparr>ofile := (ofile p)[STDIN := Some 0]\<rparr>)
        (upd_at i (\<lambda>p. p\<lparr>tf := k + 0xFB4, pcontext := k + 0xFA0\<rparr>)
          (upd_at i (\<lambda>p. p\<lparr>stat := SET, pid := nextpid s\<rparr>)
            (upd_at i (kstack_update (\<lambda>_. k)) ((procs s)[i := proc_zero])))))"
    using i by (simp add: upd_at_def new_proc_def proc_zero_def)
  have "palloc s = Inr (Some i, ?s\<lparr>procs := (procs s)[i := new_proc (nextpid s) k], nextpid := nextpid s + 1,
      files := upd_at 1 (\<lambda>f. f\<lparr>frefcnt := frefcnt f + 1\<rparr>) (upd_at 0 (\<lambda>f. f\<lparr>frefcnt := frefcnt f + 1\<rparr>) (files s))\<rparr>)"
    unfolding new using assms(3) k(1,2) cli
    by (simp add: palloc_def palloc_fill_def palloc_files_def Let_def kalloc_eq upd_at_const popcli_palloc fget_eq del: upd_at_upd_at)
      (cases s, simp add: add.commute [of k])
  then show ?thesis using inv new_frame_page [OF pg] new_frame_user by auto
qed

section \<open>Asleep until woken\<close>

lemma popcli_sel:
  "popcli s = Inr t \<Longrightarrow> procs t = procs s \<and> procp t = procp s \<and> pending t = pending s"
  for s t :: kernel
  by (auto simp: popcli_def Let_def sti_def split: if_splits)

lemma sched_returns:
  assumes "sched s = Inr t"
  shows "procs t = procs s \<and> procp t = procp s"
proof -
  let ?s = "pushcli s"
  obtain new b where scan: "sched_scan RUN [0..<NPROC] (procs s) (schedix s) None = (new, b)" by fastforce
  have "popcli (?s\<lparr>schedix := b\<rparr>) = Inr t"
  proof (cases "new = procp s")
    case True
    with assms scan show ?thesis by (simp add: sched_def sched_to_def Let_def bnd_eq_Inr_iff split: prod.splits option.splits)
  next
    case False
    note to = assms [unfolded sched_def sched_to_def Let_def pushcli_tables scan]
    show ?thesis
    proof (cases new)
      case None
      obtain c where c: "procp s = Some c" using False None by (cases "procp s") auto
      show ?thesis
      proof (cases "stat (procs s ! c) = ZOMB")
        case True
        obtain n b' where "sched_scan SLEEP [0..<NPROC] (procs s) b None = (n, b')" by fastforce
        with to None True c show ?thesis by (cases n) (auto simp: cur_def bnd_eq_Inr_iff)
      next
        case False
        with to None c show ?thesis by (auto simp: cur_def bnd_eq_Inr_iff)
      qed
    next
      case (Some j)
      with to False show ?thesis by (auto simp: bnd_eq_Inr_iff)
    qed
  qed
  then show ?thesis using popcli_sel by fastforce
qed

definition asleep :: "nat \<Rightarrow> kernel \<Rightarrow> bool" where
  "asleep i s \<longleftrightarrow> procp s = Some i \<and> i < length (procs s) \<and> wchan (procs s ! i) \<noteq> None"

lemma asleep_timer: "asleep i s \<Longrightarrow> interrupt IrqTimer s = Inr t \<Longrightarrow> asleep i t"
  by (auto simp: asleep_def interrupt_def irq_trap_def timer_tick_def cli_def cur_upd_def bnd_eq_Inr_iff
      piceoi_def outb_def Let_def split: if_splits dest!: sched_returns)

lemma asleep_waits: "asleep i s \<Longrightarrow> set es \<subseteq> {IrqTimer} \<Longrightarrow> sleep_wait es s \<noteq> Inr t"
proof (induction es arbitrary: s)
  case Nil
  then show ?case by (auto simp: asleep_def cur_def bnd_eq_Inr_iff)
next
  case (Cons e es)
  have "asleep i u" if "sched s = Inr u" for u
    using sched_returns [OF that] Cons.prems(1) by (simp add: asleep_def)
  moreover have "\<exists>u v. sched s = Inr u \<and> interrupt e u = Inr v \<and> sleep_wait es v = Inr t"
    if "sleep_wait (e # es) s = Inr t"
    using that Cons.prems(1) by (auto simp: asleep_def cur_def bnd_eq_Inr_iff split: if_splits)
  moreover have "e = IrqTimer" "set es \<subseteq> {IrqTimer}" using Cons.prems(2) by auto
  ultimately show ?case using Cons.IH asleep_timer by metis
qed

section \<open>States and channels\<close>

text \<open>The part of the process table the sleeping discipline is about.\<close>

definition pview :: "kernel \<Rightarrow> (procstat \<times> chan option) list" where
  "pview s = map (\<lambda>p. (stat p, wchan p)) (procs s)"

lemma pview_cong: "procs t = procs s \<Longrightarrow> pview t = pview s"
  by (simp add: pview_def)

lemma pview_upd [simp]:
  "pview (s\<lparr>procs := upd_at i f (procs s')\<rparr>)
    = (pview s')[i := (stat (f (procs s' ! i)), wchan (f (procs s' ! i)))]"
  by (simp add: pview_def upd_at_def map_update)

lemma pview_mem: "pview (s\<lparr>mem := m\<rparr>) = pview s"
  by (simp add: pview_def)

lemma pview_same: "(pview s)[i := (stat (procs s ! i), wchan (procs s ! i))] = pview s"
  by (cases "i < length (procs s)") (simp_all add: pview_def list_update_beyond list_eq_iff_nth_eq nth_list_update)

lemma pview_same_eq: "pview u = pview s \<Longrightarrow> (pview s)[i := (stat (procs u ! i), wchan (procs u ! i))] = pview s"
  using pview_same [of u i] by simp

lemma procs_table_ops:
  "popcli s = Inr t \<Longrightarrow> procs t = procs s"
  "ffree f s = Inr t \<Longrightarrow> procs t = procs s"
  "irelse ip s = Inr t \<Longrightarrow> procs t = procs s"
  "fdup f s = Inr (g, t) \<Longrightarrow> procs t = procs s"
  "idup ip s = Inr (iq, t) \<Longrightarrow> procs t = procs s"
  "fget n s = Inr (m, t) \<Longrightarrow> procs t = procs s"
  by (auto simp: ffree_def irelse_def fdup_def idup_def fget_def Let_def bnd_eq_Inr_iff
      split: option.splits if_splits dest!: popcli_sel)

lemma procs_memory_ops:
  fixes s t :: kernel
  shows "freevm pg s = Inr t \<Longrightarrow> procs t = procs s" "kfree a s = Inr t \<Longrightarrow> procs t = procs s"
    "kalloc s = Inr (x, t) \<Longrightarrow> procs t = procs s" "copyuvm pg n s = Inr (x, t) \<Longrightarrow> procs t = procs s"
    "printf fmt args s = Inr t \<Longrightarrow> procs t = procs s" "putchar c s = Inr t \<Longrightarrow> procs t = procs s"
  by (drule kept_freevm kept_kfree kept_kalloc kept_copyuvm kept_printf kept_console [OF more_put_char],
      erule kept_tables(1))+

lemma pview_pfree_files: "pfree_files i fds s = Inr t \<Longrightarrow> pview t = pview s"
proof (induction fds arbitrary: s)
  case (Cons fd fds)
  show ?case
  proof (cases "ofile (procs s ! i) ! fd")
    case None
    with Cons show ?thesis by simp
  next
    case (Some f)
    from Cons.prems Some obtain u where u: "ffree (Some f) s = Inr u"
        "pfree_files i fds (u\<lparr>procs := upd_at i (\<lambda>p. p\<lparr>ofile := (ofile p)[fd := None]\<rparr>) (procs u)\<rparr>) = Inr t"
      by (auto simp: bnd_eq_Inr_iff)
    have "pview u = pview s" using procs_table_ops(2) [OF u(1)] by (rule pview_cong)
    with Cons.IH [OF u(2)] show ?thesis by (simp add: pview_same_eq)
  qed
qed simp

lemma pview_pfree:
  assumes "pfree i s = Inr t"
  shows "pview t = (pview s)[i := (UNUSED, wchan (procs s ! i))]"
proof -
  from assms obtain a b c d where
    a: "pfree_files i [0..<NOFILE] (pushcli s) = Inr a" and
    b: "(case cwd (procs a ! i) of None \<Rightarrow> Inr a | Some ip \<Rightarrow> bnd (irelse (Some ip) a) (\<lambda>s.
              Inr (s\<lparr>procs := upd_at i (\<lambda>p. p\<lparr>cwd := None\<rparr>) (procs s)\<rparr>))) = Inr b" and
    c: "(if pgdir (procs b ! i) \<noteq> 0 then bnd (freevm (pgdir (procs b ! i)) b) (\<lambda>s.
              Inr (s\<lparr>procs := upd_at i (\<lambda>p. p\<lparr>pgdir := 0\<rparr>) (procs s)\<rparr>)) else Inr b) = Inr c" and
    d: "(if kstack (procs c ! i) \<noteq> 0 then bnd (kfree (kstack (procs c ! i)) c) (\<lambda>s.
              Inr (s\<lparr>procs := upd_at i (\<lambda>p. p\<lparr>kstack := 0\<rparr>) (procs s)\<rparr>)) else Inr c) = Inr d" and
    t: "popcli (d\<lparr>procs := upd_at i (\<lambda>p. p\<lparr>stat := UNUSED\<rparr>) (procs d)\<rparr>) = Inr t"
    unfolding pfree_def bnd_eq_Inr_iff by blast
  have "pview a = pview s" using pview_pfree_files [OF a] by (simp add: pview_def)
  moreover have "pview b = pview a"
    using b by (auto simp: bnd_eq_Inr_iff pview_same_eq split: option.splits dest!: procs_table_ops(3) pview_cong)
  moreover have "pview c = pview b"
    using c by (auto simp: bnd_eq_Inr_iff pview_same_eq split: if_splits dest!: procs_memory_ops(1) pview_cong)
  moreover have "pview d = pview c"
    using d by (auto simp: bnd_eq_Inr_iff pview_same_eq split: if_splits dest!: procs_memory_ops(2) pview_cong)
  moreover have "pview t = (pview d)[i := (UNUSED, wchan (procs d ! i))]"
    using pview_cong [OF procs_table_ops(1) [OF t]] by simp
  ultimately show ?thesis
    by (cases "i < length (procs s)")
      (auto simp: pview_def list_update_beyond list_eq_iff_nth_eq nth_list_update dest: arg_cong [of _ _ length])
qed

lemma pview_set_beyond: "\<not> i < length (procs s) \<Longrightarrow> (pview s)[i := x] = pview s"
  by (simp add: pview_def list_update_beyond)

lemma length_pview [simp]: "length (pview s) = length (procs s)"
  by (simp add: pview_def)

lemma pview_nth: "i < length (procs s) \<Longrightarrow> pview s ! i = (stat (procs s ! i), wchan (procs s ! i))"
  by (simp add: pview_def)

lemma pview_get:
  assumes "pview t = (pview s)[i := (st, w)]" and "i < length (procs s)"
  shows "i < length (procs t)" and "stat (procs t ! i) = st" and "wchan (procs t ! i) = w"
proof -
  have "length (procs t) = length (procs s)" using assms(1) length_list_update length_pview by metis
  with assms(2) show l: "i < length (procs t)" by simp
  have "pview t ! i = (st, w)" using assms by simp
  then show "stat (procs t ! i) = st" "wchan (procs t ! i) = w" using pview_nth [OF l] by simp_all
qed

lemma pview_map_eq:
  assumes "procs t = upd_at i f (procs s)"
  shows "pview t = (pview s)[i := (stat (f (procs s ! i)), wchan (f (procs s ! i)))]"
  unfolding pview_def assms upd_at_def by (rule map_update)

lemma fget_index: "fget n s = Inr (m, t) \<Longrightarrow> m = n"
  by (auto simp: fget_def Let_def elim!: bndE)

lemma palloc_files_view:
  assumes "palloc_files i s = Inr (n, t)"
  shows "n = Some i \<and> pview t = pview s"
proof -
  let ?h = "\<lambda>p. p\<lparr>ofile := (ofile p)[STDIN := Some 0]\<rparr>"
  let ?k = "\<lambda>p. p\<lparr>ofile := (ofile p)[STDOUT := Some 1]\<rparr>"
  obtain f a where a: "fget STDIN s = Inr (f, a)"
    using assms by (cases "fget STDIN s") (auto simp: palloc_files_def)
  have f: "f = STDIN" using fget_index [OF a] .
  obtain g b where b: "fget STDOUT (a\<lparr>procs := upd_at i ?h (procs a)\<rparr>) = Inr (g, b)"
    using assms a f by (cases "fget STDOUT (a\<lparr>procs := upd_at i ?h (procs a)\<rparr>)") (auto simp: palloc_files_def)
  have g: "g = STDOUT" using fget_index [OF b] .
  have t: "n = Some i" "t = b\<lparr>procs := upd_at i ?k (procs b)\<rparr>"
    using assms a b f g by (simp_all add: palloc_files_def)
  have "pview a = pview s" using procs_table_ops(6) [OF a] by (rule pview_cong)
  moreover have "pview b = pview a" using pview_cong [OF procs_table_ops(6) [OF b]] by (simp add: pview_same)
  ultimately show ?thesis unfolding t by (simp add: pview_same_eq)
qed

lemma palloc_fill_view:
  assumes "palloc_fill i k s = Inr (n, t)"
  shows "n = Some i \<and> pview t = (pview s)[i := (SET, wchan (procs s ! i))]"
proof -
  from assms obtain a b where a:
      "popcli (s\<lparr>procs := upd_at i (\<lambda>p. p\<lparr>stat := SET, pid := nextpid s\<rparr>) (procs s), nextpid := nextpid s + 1\<rparr>) = Inr a"
    and b: "palloc_files i b = Inr (n, t)" "pview b = pview a"
    by (auto simp: palloc_fill_def Let_def pview_same pview_mem elim!: bndE)
  have "pview a = (pview s)[i := (SET, wchan (procs s ! i))]"
    using pview_cong [OF procs_table_ops(1) [OF a]] by (simp add: pview_def upd_at_def map_update)
  then show ?thesis using palloc_files_view [OF b(1)] b(2) by simp
qed

lemma palloc_view:
  assumes "palloc s = Inr (n, t)"
  shows "(n = None \<and> (\<exists>i. pview t = (pview s)[i := (UNUSED, None)] \<or> pview t = pview s))
    \<or> (\<exists>i < length (procs s). n = Some i \<and> pview t = (pview s)[i := (SET, None)])"
proof (cases "find_idx (\<lambda>p. stat p = UNUSED) (procs s)")
  case None
  then have "n = None" "popcli (pushcli s) = Inr t" using assms by (auto simp: palloc_def Let_def bnd_eq_Inr_iff)
  have "procs t = procs s" using procs_table_ops(1) [OF \<open>popcli (pushcli s) = Inr t\<close>] by simp
  then show ?thesis using \<open>n = None\<close> pview_cong by blast
next
  case (Some i)
  have i: "i < length (procs s)" using find_idx_SomeD(1) [OF Some] .
  let ?s = "(pushcli s)\<lparr>procs := upd_at i (\<lambda>_. proc_zero) (procs s)\<rparr>"
  obtain k u where u: "kalloc ?s = Inr (k, u)"
  proof (cases "kalloc ?s")
    case (Inl e)
    with assms Some show thesis by (simp add: palloc_def)
  next
    case (Inr b)
    then show thesis using that by (cases b) simp
  qed
  have r: "(if k = 0 then bnd (popcli (u\<lparr>procs := upd_at i (kstack_update (\<lambda>_. k)) (procs u)\<rparr>)) (\<lambda>s. Inr (None, s))
      else palloc_fill i k (u\<lparr>procs := upd_at i (kstack_update (\<lambda>_. k)) (procs u)\<rparr>)) = Inr (n, t)"
    using assms Some u by (simp add: palloc_def Let_def)
  let ?u = "u\<lparr>procs := upd_at i (kstack_update (\<lambda>_. k)) (procs u)\<rparr>"
  have pu: "procs u = procs ?s" using procs_memory_ops(3) [OF u] .
  have v: "pview ?u = (pview s)[i := (UNUSED, None)]"
    using pu i by (simp add: pview_def upd_at_def map_update proc_zero_def)
  show ?thesis
  proof (cases "k = 0")
    case True
    with r have n: "n = None" "popcli ?u = Inr t" by (auto elim!: bndE)
    have "pview t = pview ?u" using procs_table_ops(1) [OF n(2)] by (rule pview_cong)
    with v n show ?thesis by auto
  next
    case False
    with r have f: "palloc_fill i k ?u = Inr (n, t)" by simp
    have "n = Some i" "pview t = (pview ?u)[i := (SET, None)]"
      using palloc_fill_view [OF f] pview_get(3) [OF v i] by metis+
    then show ?thesis unfolding v using i by auto
  qed
qed

lemma pview_fork_files: "fork_files is p n s = Inr t \<Longrightarrow> pview t = pview s"
proof (induction "is" arbitrary: s)
  case (Cons i js)
  show ?case
  proof (cases "ofile p ! i")
    case None
    with Cons show ?thesis by simp
  next
    case (Some f)
    from Cons.prems Some obtain g u where u: "fdup (Some f) s = Inr (g, u)"
        "fork_files js p n (u\<lparr>procs := upd_at n (\<lambda>q. q\<lparr>ofile := (ofile q)[i := g]\<rparr>) (procs u)\<rparr>) = Inr t"
      by (auto elim!: bndE)
    have "pview u = pview s" using procs_table_ops(4) [OF u(1)] by (rule pview_cong)
    with Cons.IH [OF u(2)] show ?thesis by (simp add: pview_same_eq)
  qed
qed simp

lemma popcli_machine: "popcli s = Inr t \<Longrightarrow> procs t = procs s \<and> mem t = mem s \<and> procp t = procp s"
  for s t :: kernel
  by (auto simp: popcli_def Let_def sti_def split: if_splits)

lemma sched_to_form:
  assumes "sched_to s = Inr (Some j, t)"
  shows "\<exists>b. bnd (switchuvm (kstack (procs s ! j)) (pgdir (procs s ! j)) ((pushcli s)\<lparr>schedix := b, procp := Some j\<rparr>))
    (\<lambda>s. bnd (popcli s) (\<lambda>s. Inr (Some j, s))) = Inr (Some j, t)"
proof -
  obtain new b where scan: "sched_scan RUN [0..<NPROC] (procs s) (schedix s) None = (new, b)" by fastforce
  obtain n' b' where scan': "sched_scan SLEEP [0..<NPROC] (procs s) b None = (n', b')" by fastforce
  note to = assms [unfolded sched_to_def Let_def pushcli_tables scan]
  show ?thesis
  proof (cases "new = procp s")
    case True
    with to show ?thesis by (auto elim!: bndE)
  next
    case False
    show ?thesis
    proof (cases new)
      case (Some k)
      with to False have "k = j" by (auto elim!: bndE)
      with to False Some show ?thesis by (intro exI [of _ b]) simp
    next
      case None
      show ?thesis
      proof (cases n')
        case None
        with to \<open>new = None\<close> False scan' show ?thesis by (auto split: if_splits elim!: bndE)
      next
        case (Some k)
        with to \<open>new = None\<close> False scan' show ?thesis
          by (intro exI [of _ b']) (auto split: if_splits elim!: bndE)
      qed
    qed
  qed
qed

lemma sched_to_switch:
  assumes "sched_to s = Inr (Some j, t)"
  shows "procs t = procs s \<and> mem t = mem s \<and> procp t = Some j"
proof -
  have "procs v = procs u \<and> mem v = mem u \<and> procp v = procp u" if "switchuvm a b u = Inr v" for a b and u v :: kernel
    using that by (auto simp: switchuvm_def Let_def split: if_splits dest!: popcli_machine)
  then show ?thesis using sched_to_form [OF assms] by (auto elim!: bndE dest!: popcli_machine)
qed

lemma sched_to_on_process:
  assumes "sched_to s = Inr (Some j, t)" and "cli_room 2 s"
  shows "on_process j s t"
proof -
  obtain b where b: "bnd (switchuvm (kstack (procs s ! j)) (pgdir (procs s ! j)) ((pushcli s)\<lparr>schedix := b, procp := Some j\<rparr>))
    (\<lambda>s. bnd (popcli s) (\<lambda>s. Inr (Some j, s))) = Inr (Some j, t)"
    using sched_to_form [OF assms(1)] by blast
  then have "kstack (procs s ! j) \<noteq> 0" "pgdir (procs s ! j) \<noteq> 0" by (auto simp: switchuvm_def split: if_splits)
  from sched_switch [OF assms(2) this, of b] b show ?thesis by auto
qed

lemma sched_to_procs:
  assumes "sched_to s = Inr (n, t)"
  shows "procs t = procs s"
proof (cases n)
  case None
  then have "sched s = Inr t" using assms by (simp add: sched_def)
  then show ?thesis using sched_returns by blast
next
  case (Some j)
  then show ?thesis using sched_to_switch assms by blast
qed

section \<open>Exit before wait\<close>

lemma exit_current_eq:
  assumes "cli_room 2 s" and "procp s = Some c" and "c < length (procs s)" and "pproc (procs s ! c) = Some q"
  shows "exit_current s = Inr (s\<lparr>procs := map (wake (ChProc q)) (upd_at c (\<lambda>p. p\<lparr>stat := ZOMB\<rparr>) (procs s))\<rparr>)"
proof -
  have "cli_ok ((pushcli s)\<lparr>procs := P\<rparr>)" for P using cli_ok_pushed [OF assms(1)] by simp
  then show ?thesis
    using assms cli_room_ok [OF assms(1)]
    by (simp add: exit_current_def cur_upd_def cur_def wakeup_eq popcli_table)
qed

lemma sleep_on_asleep:
  assumes "sleep_on ch s = Inr t" and "procp s = Some i" and "i < length (procs s)"
  shows "asleep i t \<and> pending t = pending s"
proof -
  from assms obtain u where u: "u = (pushcli s)\<lparr>procs := upd_at i (\<lambda>p. p\<lparr>wchan := Some ch, stat := SLEEP\<rparr>) (procs s)\<rparr>"
      "popcli u = Inr t"
    by (auto simp: sleep_on_def cur_upd_def o_def elim!: bndE)
  then show ?thesis using popcli_sel [OF u(2)] assms(2,3) by (simp add: asleep_def)
qed

section \<open>Properties\<close>

text \<open>
  C20: \<^verbatim>\<open>palloc\<close>. Without a free slot it returns null and changes nothing; without a free page it
  returns null and leaves a cleared slot. Otherwise it fills the first unused slot: a state the scheduler
  does not choose, the next process number, the page as kernel stack with a trap frame for ring 3 on its
  top and \<^verbatim>\<open>trapret\<close> as the return address below it, both console files counted once more. No other
  slot, no other page and nothing else of the free list is touched.
\<close>

theorem palloc_new_process:
  assumes "kmem_inv s xs" and "cli_room 2 s"
  shows "case find_idx (\<lambda>p. stat p = UNUSED) (procs s) of
      None \<Rightarrow> palloc s = Inr (None, s)
    | Some i \<Rightarrow> (case xs of
        [] \<Rightarrow> palloc s = Inr (None, s\<lparr>procs := (procs s)[i := proc_zero]\<rparr>)
      | k # ys \<Rightarrow> \<exists>s'. palloc s = Inr (Some i, s') \<and> s' = s\<lparr>coremap := coremap s', mem := mem s',
            procs := (procs s)[i := new_proc (nextpid s) k], nextpid := nextpid s + 1,
            files := upd_at 1 (\<lambda>f. f\<lparr>frefcnt := frefcnt f + 1\<rparr>) (upd_at 0 (\<lambda>f. f\<lparr>frefcnt := frefcnt f + 1\<rparr>) (files s))\<rparr>
          \<and> kmem_inv s' ys \<and> mem_frame {k} (mem s) (mem s') \<and> user_frame (mem s') (k + 0xFB4) (trapret_at s))"
  using palloc_no_slot [OF cli_room_ok [OF assms(2)]] palloc_no_page [of s] palloc_builds [of s] assms
  by (auto split: option.split list.split)

definition ex_one_page :: kernel where
  "ex_one_page = boot_state\<lparr>coremap := 0x200000\<rparr>"

lemma ex_one_page_ok: "kmem_inv ex_one_page [0x200000]" "cli_room 2 ex_one_page"
  by (simp_all add: ex_one_page_def kmem_inv_def page_ok_def kern_ok_def cli_ok_def cli_room_def pgal_def load32_def le32_def)

theorem palloc_new_process_witness:
  "\<exists>s'. palloc ex_one_page = Inr (Some 0, s') \<and> procs s' ! 0 = new_proc 0 0x200000
    \<and> load16 (mem s') 0x200FF0 = 0x1B"
proof -
  have f: "find_idx (\<lambda>p. stat p = UNUSED) (procs ex_one_page) = Some 0"
    by (simp add: ex_one_page_def find_idx_Some_iff proc_zero_def)
  have l: "length (procs ex_one_page) = 64" "nextpid ex_one_page = 0" by (simp_all add: ex_one_page_def)
  from palloc_new_process [OF ex_one_page_ok] f obtain s' where s': "palloc ex_one_page = Inr (Some 0, s')"
      "procs s' = (procs ex_one_page)[0 := new_proc 0 0x200000]" "user_frame (mem s') (0x200000 + 0xFB4) (trapret_at ex_one_page)"
    using l by (auto dest: arg_cong [of _ _ procs])
  then show ?thesis using l by (simp add: user_frame_def)
qed


definition ex_family :: kernel where
  "ex_family = boot_state\<lparr>procs := proc_zero # ex_proc RUN 0 # (ex_proc RUN 1)\<lparr>pproc := Some 1\<rparr> # replicate 61 proc_zero,
     procp := Some 2, pending := replicate 1000 IrqTimer\<rparr>"


end
