(* ===== verification/Mix_Invariant.thy ===== *)
theory Mix_Invariant
  imports Mix_Process
begin

text \<open>
  The invariant of the kernel's tables: their sizes, the range of every index that stands for a pointer
  between them, and the discipline of sleeping, by which a process has a channel exactly when its state is
  \<open>SLEEP\<close>. Every system call, interrupt and trap keeps it, and the start of the kernel establishes it.
\<close>

section \<open>Outcomes that satisfy a property\<close>

text \<open>If the operation returns, its result has the property; the rules push that through the sequencing.\<close>

definition ensures :: "'a res \<Rightarrow> ('a \<Rightarrow> bool) \<Rightarrow> bool" where
  "ensures m Q \<longleftrightarrow> (\<forall>r. m = Inr r \<longrightarrow> Q r)"

lemma ensures_simps [simp]:
  "ensures (Inl e) Q" "ensures (Inr x) Q = Q x" "ensures (bnd m f) Q = ensures m (\<lambda>x. ensures (f x) Q)"
  by (cases m; simp add: ensures_def)+

lemma ensuresI: "(\<And>r. m = Inr r \<Longrightarrow> Q r) \<Longrightarrow> ensures m Q"
  by (simp add: ensures_def)

lemma ensures_any: "(\<And>r. Q r) \<Longrightarrow> ensures m Q"
  by (simp add: ensures_def)

lemma ensuresD: "ensures m Q \<Longrightarrow> m = Inr r \<Longrightarrow> Q r"
  by (simp add: ensures_def)

lemma ensures_mono: "ensures m P \<Longrightarrow> (\<And>r. P r \<Longrightarrow> Q r) \<Longrightarrow> ensures m Q"
  by (simp add: ensures_def)

section \<open>Well-formed tables\<close>

definition opt_lt :: "nat \<Rightarrow> nat option \<Rightarrow> bool" where
  "opt_lt n x \<longleftrightarrow> (\<forall>i. x = Some i \<longrightarrow> i < n)"

lemma opt_lt_simps [simp]: "opt_lt n None" "opt_lt n (Some i) = (i < n)"
  by (simp_all add: opt_lt_def)

definition wf_proc :: "proc \<Rightarrow> bool" where
  "wf_proc p \<longleftrightarrow> length (ofile p) = NOFILE \<and> (\<forall>f \<in> set (ofile p). opt_lt 64 f) \<and> opt_lt 64 (cwd p)
     \<and> opt_lt NPROC (pproc p) \<and> (wchan p = None \<longleftrightarrow> stat p \<noteq> SLEEP)"

definition wf_file :: "open_file \<Rightarrow> bool" where
  "wf_file f \<longleftrightarrow> opt_lt 64 (finode f)"

definition wf_inode :: "inode \<Rightarrow> bool" where
  "wf_inode ip \<longleftrightarrow> length (iaddr ip) = 124"

definition wf_block :: "block \<Rightarrow> bool" where
  "wf_block b \<longleftrightarrow> length (bdata b) = SECTOR"

definition wf_tables :: "kernel \<Rightarrow> bool" where
  "wf_tables s \<longleftrightarrow>
     (length (procs s) = NPROC \<and> (\<forall>p \<in> set (procs s). wf_proc p)) \<and> opt_lt NPROC (procp s)
     \<and> (length (files s) = 64 \<and> (\<forall>f \<in> set (files s). wf_file f))
     \<and> (length (inodes s) = 64 \<and> (\<forall>ip \<in> set (inodes s). wf_inode ip))
     \<and> (length (blocks s) = 256 \<and> (\<forall>b \<in> set (blocks s). wf_block b))
     \<and> (\<forall>n. length (drive s n) = SECTOR) \<and> opt_lt NPROC (owner (idelock s))"

text \<open>While the process \<open>c\<close> runs and those in \<open>Z\<close> are not asleep.\<close>

definition inv :: "nat option \<Rightarrow> nat set \<Rightarrow> kernel \<Rightarrow> bool" where
  "inv c Z s \<longleftrightarrow> wf_tables s \<and> procp s = c \<and> (\<forall>n \<in> Z. n < NPROC \<and> stat (procs s ! n) \<noteq> SLEEP)"

lemma inv_cong:
  assumes "procs t = procs s" "procp t = procp s" "files t = files s" "inodes t = inodes s" "blocks t = blocks s"
    "drive t = drive s" "idelock t = idelock s"
  shows "inv c Z t = inv c Z s"
  using assms by (simp add: inv_def wf_tables_def)

lemma inv_other [simp]:
  "inv c Z (s\<lparr>mem := m\<rparr>) = inv c Z s" "inv c Z (s\<lparr>coremap := r\<rparr>) = inv c Z s" "inv c Z (s\<lparr>eflags := e\<rparr>) = inv c Z s"
  "inv c Z (s\<lparr>outlog := l\<rparr>) = inv c Z s" "inv c Z (s\<lparr>inindex := n\<rparr>) = inv c Z s" "inv c Z (s\<lparr>inbuf := bs\<rparr>) = inv c Z s"
  "inv c Z (s\<lparr>kbdflags := k\<rparr>) = inv c Z s" "inv c Z (s\<lparr>tick := n\<rparr>) = inv c Z s" "inv c Z (s\<lparr>kbuf := bs\<rparr>) = inv c Z s"
  "inv c Z (s\<lparr>pending := es\<rparr>) = inv c Z s" "inv c Z (s\<lparr>schedix := n\<rparr>) = inv c Z s" "inv c Z (s\<lparr>nextpid := n\<rparr>) = inv c Z s"
  "inv c Z (s\<lparr>devsw := d\<rparr>) = inv c Z s" "inv c Z (s\<lparr>sysfs_of := f\<rparr>) = inv c Z s" "inv c Z (s\<lparr>cursor := p\<rparr>) = inv c Z s"
  "inv c Z (pushcli s) = inv c Z s" "inv c Z (cli s) = inv c Z s" "inv c Z (outb port v s) = inv c Z s"
  by (rule inv_cong; simp add: cli_def outb_def)+

lemma ball_upd_at:
  "\<forall>x \<in> set xs. P x \<Longrightarrow> (i < length xs \<Longrightarrow> P (xs ! i) \<Longrightarrow> P (f (xs ! i))) \<Longrightarrow> \<forall>x \<in> set (upd_at i f xs). P x"
  by (cases "i < length xs") (auto simp: upd_at_def list_update_beyond dest!: set_update_subset_insert [THEN subsetD])

lemma inv_procs:
  assumes "inv c Z s" and "tab = procs s"
    and "i < NPROC \<Longrightarrow> wf_proc (procs s ! i) \<Longrightarrow> (i \<in> Z \<Longrightarrow> stat (procs s ! i) \<noteq> SLEEP)
      \<Longrightarrow> wf_proc (f (procs s ! i)) \<and> (i \<in> Z \<longrightarrow> stat (f (procs s ! i)) \<noteq> SLEEP)"
  shows "inv c Z (s\<lparr>procs := upd_at i f tab\<rparr>)"
proof -
  have wf: "length (procs s) = NPROC" "\<forall>p \<in> set (procs s). wf_proc p" "\<forall>n \<in> Z. n < NPROC \<and> stat (procs s ! n) \<noteq> SLEEP"
    using assms(1) by (simp_all add: inv_def wf_tables_def)
  have f: "wf_proc (f (procs s ! i)) \<and> (i \<in> Z \<longrightarrow> stat (f (procs s ! i)) \<noteq> SLEEP)" if "i < NPROC"
    using assms(3) wf that by auto
  have "\<forall>p \<in> set (upd_at i f (procs s)). wf_proc p" using wf f by (intro ball_upd_at) auto
  moreover have "\<forall>n \<in> Z. stat (upd_at i f (procs s) ! n) \<noteq> SLEEP" using wf f by (auto simp: nth_upd_at)
  ultimately show ?thesis using assms(1,2) by (auto simp: inv_def wf_tables_def)
qed

lemma inv_files:
  "inv c Z s \<Longrightarrow> xs = files s \<Longrightarrow> (\<And>f. wf_file f \<Longrightarrow> wf_file (g f)) \<Longrightarrow> inv c Z (s\<lparr>files := upd_at i g xs\<rparr>)"
  using ball_upd_at [of "files s" wf_file i g] by (auto simp: inv_def wf_tables_def)

lemma inv_inodes:
  "inv c Z s \<Longrightarrow> xs = inodes s \<Longrightarrow> (\<And>f. wf_inode f \<Longrightarrow> wf_inode (g f)) \<Longrightarrow> inv c Z (s\<lparr>inodes := upd_at i g xs\<rparr>)"
  using ball_upd_at [of "inodes s" wf_inode i g] by (auto simp: inv_def wf_tables_def)

lemma inv_blocks:
  "inv c Z s \<Longrightarrow> xs = blocks s \<Longrightarrow> (\<And>f. wf_block f \<Longrightarrow> wf_block (g f)) \<Longrightarrow> inv c Z (s\<lparr>blocks := upd_at i g xs\<rparr>)"
  using ball_upd_at [of "blocks s" wf_block i g] by (auto simp: inv_def wf_tables_def)

lemma wf_upds [simp]:
  "wf_file (f\<lparr>frefcnt := n\<rparr>) = wf_file f" "wf_file (f\<lparr>foffset := n\<rparr>) = wf_file f"
  "wf_file (f\<lparr>finode := x\<rparr>) = opt_lt 64 x"
  "wf_inode (ip\<lparr>irefcnt := r\<rparr>) = wf_inode ip" "wf_inode (ip\<lparr>ivalid := r\<rparr>) = wf_inode ip"
  "wf_inode (ip\<lparr>inum := n\<rparr>) = wf_inode ip" "wf_inode (ip\<lparr>idevno := n\<rparr>) = wf_inode ip"
  "wf_inode (ip\<lparr>itype := r\<rparr>) = wf_inode ip" "wf_inode (ip\<lparr>ilock := k\<rparr>) = wf_inode ip"
  "wf_inode (load_dinode bs ip)"
  "wf_block (b\<lparr>brefcnt := r\<rparr>) = wf_block b" "wf_block (b\<lparr>bflags := r\<rparr>) = wf_block b"
  "wf_block (b\<lparr>blockno := n\<rparr>) = wf_block b" "wf_block (b\<lparr>block_lock := k\<rparr>) = wf_block b"
  "wf_block (b\<lparr>bdata := bs\<rparr>) = (length bs = SECTOR)"
  by (simp_all add: wf_file_def wf_inode_def wf_block_def load_dinode_def)

lemma inv_current: "inv c Z s \<Longrightarrow> procp s = c \<and> opt_lt 64 c"
  by (auto simp: inv_def wf_tables_def)

lemma inv_nth:
  assumes "inv c Z s"
  shows "i < 64 \<Longrightarrow> wf_proc (procs s ! i)" and "i < 64 \<Longrightarrow> wf_file (files s ! i)"
    and "i < 64 \<Longrightarrow> wf_inode (inodes s ! i)" and "i < 256 \<Longrightarrow> wf_block (blocks s ! i)"
    and "length (drive s n) = 512" and "opt_lt 64 (owner (idelock s))"
  using assms by (auto simp: inv_def wf_tables_def)

section \<open>Rules for the operations\<close>

text \<open>Those that leave every table alone.\<close>

lemma inv_kept: "kept s t \<Longrightarrow> inv c Z t = inv c Z s"
  for s t :: kernel
  by (rule inv_cong) (simp_all add: kept_tables)

named_theorems keeps \<open>operations that keep the invariant, as rules for \<open>ensures\<close>\<close>

lemma ensures_kept:
  fixes s :: kernel
  assumes "\<And>t. m = Inr t \<Longrightarrow> kept s t" and "inv c Z s" and "\<And>t. inv c Z t \<Longrightarrow> Q t"
  shows "ensures m Q"
  using assms inv_kept by (intro ensuresI) blast

lemma ensures_kept_pair:
  fixes s :: kernel
  assumes "\<And>r t. m = Inr (r, t) \<Longrightarrow> kept s t" and "inv c Z s" and "\<And>r t. inv c Z t \<Longrightarrow> Q (r, t)"
  shows "ensures m Q"
  using assms inv_kept by (intro ensuresI) (metis surj_pair)

lemma ensures_kept_ops [keeps]:
  fixes s :: kernel
  assumes "inv c Z s" and "\<And>t. inv c Z t \<Longrightarrow> Q t"
  shows "ensures (popcli s) Q"
    and "ensures (printf fmt args s) Q"
    and "ensures (putchar ch s) Q"
    and "ensures (kfree a s) Q"
    and "ensures (freevm pg s) Q"
    and "ensures (inituvm pg bs s) Q"
  by (rule ensures_kept [where s = s and c = c and Z = Z],
      (erule kept_popcli | erule kept_printf | erule kept_console [OF more_put_char] | erule kept_kfree | erule kept_freevm
        | erule kept_inituvm), rule assms(1), erule assms(2))+

lemma ensures_kept_pairs [keeps]:
  fixes s :: kernel
  assumes "inv c Z s" and "\<And>r t. inv c Z t \<Longrightarrow> Q (r, t)"
  shows "ensures (kalloc s) Q"
    and "ensures (walkpgdir pg va al s) Q"
    and "ensures (setupkvm s) Q"
    and "ensures (allocuvm pg va new s) Q"
    and "ensures (copyuvm pg va s) Q"
    and "ensures (ustack pg va s) Q"
  by (rule ensures_kept_pair [where s = s and c = c and Z = Z],
      (erule kept_kalloc | erule kept_walkpgdir | erule kept_setupkvm | erule kept_allocuvm | erule kept_copyuvm
        | erule kept_ustack), rule assms(1), erule assms(2))+

text \<open>Those on processes, files and inodes.\<close>

lemma ensures_cur_upd [keeps]:
  assumes "inv c Z s"
    and "\<And>i. c = Some i \<Longrightarrow> i < NPROC \<Longrightarrow> wf_proc (procs s ! i) \<Longrightarrow> (i \<in> Z \<Longrightarrow> stat (procs s ! i) \<noteq> SLEEP)
      \<Longrightarrow> wf_proc (f (procs s ! i)) \<and> (i \<in> Z \<longrightarrow> stat (f (procs s ! i)) \<noteq> SLEEP)"
    and "\<And>t. inv c Z t \<Longrightarrow> Q t"
  shows "ensures (cur_upd f s) Q"
  using assms inv_current [OF assms(1)] by (auto simp: cur_upd_def intro!: assms(3) inv_procs split: option.split)

lemma ensures_cur [keeps]:
  assumes "inv c Z s" and "\<And>i. c = Some i \<Longrightarrow> i < NPROC \<Longrightarrow> wf_proc (procs s ! i) \<Longrightarrow> Q (procs s ! i)"
  shows "ensures (cur s) Q"
  using assms inv_current [OF assms(1)] inv_nth(1) [OF assms(1)] by (auto simp: cur_def split: option.split)

lemma ensures_fget [keeps]:
  "inv c Z s \<Longrightarrow> (\<And>t. inv c Z t \<Longrightarrow> Q (i, t)) \<Longrightarrow> ensures (fget i s) Q"
  unfolding fget_def Let_def by (auto intro!: keeps inv_files)

lemma ensures_falloc [keeps]:
  assumes "inv c Z s" and "\<And>x t. opt_lt 64 x \<Longrightarrow> inv c Z t \<Longrightarrow> Q (x, t)"
  shows "ensures (falloc s) Q"
proof -
  have "i < 64" if "find_idx P (files s) = Some i" for P i
    using find_idx_SomeD(1) [OF that] assms(1) by (simp add: inv_def wf_tables_def)
  then show ?thesis unfolding falloc_def Let_def
    by (auto simp: assms(1) split: option.split intro!: keeps inv_files assms)
qed

lemma ensures_ffree [keeps]: "inv c Z s \<Longrightarrow> (\<And>t. inv c Z t \<Longrightarrow> Q t) \<Longrightarrow> ensures (ffree f s) Q"
  unfolding ffree_def Let_def by (auto split: option.split intro!: keeps inv_files)

lemma ensures_fdup [keeps]: "inv c Z s \<Longrightarrow> (\<And>t. inv c Z t \<Longrightarrow> Q (f, t)) \<Longrightarrow> ensures (fdup f s) Q"
  unfolding fdup_def Let_def by (auto split: option.split intro!: keeps inv_files)

lemma ensures_ialloc [keeps]:
  assumes "inv c Z s" and "\<And>x t. opt_lt 64 x \<Longrightarrow> inv c Z t \<Longrightarrow> Q (x, t)"
  shows "ensures (ialloc s) Q"
proof -
  have "i < 64" if "find_idx P (inodes s) = Some i" for P i
    using find_idx_SomeD(1) [OF that] assms(1) by (simp add: inv_def wf_tables_def)
  then show ?thesis unfolding ialloc_def Let_def
    by (auto simp: assms(1) split: option.split intro!: keeps inv_inodes assms)
qed

lemma ensures_irelse [keeps]: "inv c Z s \<Longrightarrow> (\<And>t. inv c Z t \<Longrightarrow> Q t) \<Longrightarrow> ensures (irelse f s) Q"
  unfolding irelse_def Let_def by (auto split: option.split intro!: keeps inv_inodes)

lemma ensures_idup [keeps]: "inv c Z s \<Longrightarrow> (\<And>t. inv c Z t \<Longrightarrow> Q (f, t)) \<Longrightarrow> ensures (idup f s) Q"
  unfolding idup_def Let_def by (auto split: option.split intro!: keeps inv_inodes)

section \<open>Sleeping and waking\<close>

lemma wf_wake: "wf_proc p \<Longrightarrow> wf_proc (wake ch p)"
  by (auto simp: wake_def wf_proc_def)

lemma inv_wake: "inv c Z s \<Longrightarrow> inv c Z (s\<lparr>procs := map (wake ch) (procs s)\<rparr>)"
  by (auto simp: inv_def wf_tables_def wf_wake) (simp add: wake_def split: if_splits)

lemma ensures_wakeup [keeps]:
  assumes "inv c Z s" and "\<And>t. inv c Z t \<Longrightarrow> Q t"
  shows "ensures (wakeup ch s) Q"
proof -
  have "inv c Z ((pushcli s)\<lparr>procs := map (wake ch) (procs s)\<rparr>)" using inv_wake [of c Z "pushcli s" ch] assms(1) by simp
  then show ?thesis unfolding wakeup_def Let_def by (auto intro!: keeps assms(2))
qed

lemma ensures_sched [keeps]:
  assumes "inv c Z s" and "\<And>t. inv c Z t \<Longrightarrow> Q t"
  shows "ensures (sched s) Q"
proof -
  obtain new b where scan: "sched_scan RUN [0..<NPROC] (procs s) (schedix s) None = (new, b)" by fastforce
  have pop: "ensures (popcli ((pushcli s)\<lparr>schedix := b\<rparr>)) Q" using assms by (auto intro!: keeps)
  show ?thesis
  proof (cases new)
    case None
    then show ?thesis using pop scan
      by (auto simp: sched_def sched_to_def Let_def ensures_any split: option.split prod.split intro!: ensures_any)
  next
    case (Some j)
    then show ?thesis using pop scan
      by (auto simp: sched_def sched_to_def Let_def intro!: ensures_any)
  qed
qed

text \<open>\<open>sleep_on\<close> is the one step that puts a process to sleep, the current one.\<close>

lemma ensures_sleep_on:
  assumes "inv c Z s" and "Z \<subseteq> set_option c" and "\<And>t. inv c {} t \<Longrightarrow> Q t"
  shows "ensures (sleep_on ch s) Q"
proof (cases c)
  case None
  then show ?thesis using assms(1) by (simp add: sleep_on_def cur_upd_def inv_def)
next
  case (Some i)
  have "inv c {} s" using assms(1) by (simp add: inv_def)
  then have "inv c {} ((pushcli s)\<lparr>procs := upd_at i (\<lambda>p. p\<lparr>wchan := Some ch, stat := SLEEP\<rparr>) (procs s)\<rparr>)"
    by (intro inv_procs) (simp_all add: wf_proc_def)
  moreover have "procp s = Some i" using assms(1) Some by (simp add: inv_def)
  ultimately show ?thesis
    by (auto simp: sleep_on_def cur_upd_def comp_def intro!: keeps assms(3))
qed

section \<open>Interrupts\<close>

lemma ensures_console_key [keeps]:
  "inv c Z s \<Longrightarrow> (\<And>t. inv c Z t \<Longrightarrow> Q t) \<Longrightarrow> ensures (console_key ch s) Q"
  by (auto simp: console_key_def intro!: keeps)

lemma ensures_kbdintr [keeps]:
  "inv c Z s \<Longrightarrow> (\<And>t. inv c Z t \<Longrightarrow> Q t) \<Longrightarrow> ensures (kbdintr n s) Q"
  by (auto simp: kbdintr_def kbdgetc_def consoleintr_def intro!: keeps)

lemma ensures_ideintr [keeps]:
  assumes "inv c Z s" and "\<And>t. inv c Z t \<Longrightarrow> Q t"
  shows "ensures (ideintr s) Q"
proof -
  have "length (insl_sector s) = SECTOR" using assms(1) by (simp add: insl_sector_def inv_def wf_tables_def)
  then show ?thesis
    unfolding ideintr_def Let_def by (auto split: option.split chan.split intro!: keeps inv_blocks assms)
qed

lemma inv_piceoi [simp]: "inv c Z (piceoi no s) = inv c Z s"
  by (simp add: piceoi_def Let_def)

lemma ensures_irq_trap [keeps]:
  assumes "inv c Z s" and "\<And>t. inv c Z t \<Longrightarrow> Q t"
  shows "ensures (irq_trap e s) Q"
proof (cases e)
  case IrqTimer
  have "wf_proc (p\<lparr>cpu := n\<rparr>) = wf_proc p" for p n by (simp add: wf_proc_def)
  then show ?thesis using IrqTimer assms by (auto simp: irq_trap_def timer_tick_def intro!: keeps)
qed (use assms in \<open>auto simp: irq_trap_def intro!: keeps\<close>)

lemma ensures_interrupt [keeps]:
  "inv c Z s \<Longrightarrow> (\<And>t. inv c Z t \<Longrightarrow> Q t) \<Longrightarrow> ensures (interrupt e s) Q"
  unfolding interrupt_def by (auto intro!: keeps)

lemma inv_awake:
  assumes "inv (Some i) Z s" and "wchan (procs s ! i) = None"
  shows "inv (Some i) {i} s"
proof -
  have "i < 64" using inv_current [OF assms(1)] by simp
  with inv_nth(1) [OF assms(1) this] assms show ?thesis by (simp add: inv_def wf_proc_def)
qed

lemma ensures_sleep_wait:
  assumes "inv c {} s" and "\<And>t. inv c (set_option c) t \<Longrightarrow> Q t"
  shows "ensures (sleep_wait es s) Q"
  using assms(1)
proof (induction es arbitrary: s)
  case Nil
  then have "procp s = c" by (simp add: inv_def)
  then show ?case using Nil inv_awake [of _ "{}" s]
    by (cases c) (auto simp: cur_def intro!: ensures_any assms(2))
next
  case (Cons e es)
  then show ?case
    by (auto intro!: keeps assms(2) inv_awake)
qed

lemma ensures_sleep [keeps]:
  assumes "inv c Z s" and "Z \<subseteq> set_option c" and "\<And>t. inv c (set_option c) t \<Longrightarrow> Q t"
  shows "ensures (sleep ch s) Q"
  unfolding sleep_def using assms by (auto intro!: ensures_sleep_on [OF assms(1,2)] ensures_sleep_wait)

section \<open>Locks, disk and buffers\<close>

text \<open>The current process is not asleep.\<close>

abbreviation running :: "nat option \<Rightarrow> kernel \<Rightarrow> bool" where
  "running c \<equiv> inv c (set_option c)"

lemma ensures_sleeps [keeps]:
  "running c s \<Longrightarrow> (\<And>t. running c t \<Longrightarrow> Q t) \<Longrightarrow> ensures (sleep ch s) Q"
  by (rule ensures_sleep) auto

lemma inv_set_lock: "inv c Z s \<Longrightarrow> opt_lt NPROC (owner k) \<Longrightarrow> inv c Z (set_lock l k s)"
  by (cases l) (auto simp: set_lock_def intro!: inv_inodes inv_blocks, auto simp: inv_def wf_tables_def)

lemma ensures_acquire_loop: "running c s \<Longrightarrow> (\<And>t. running c t \<Longrightarrow> Q t) \<Longrightarrow> ensures (acquire_loop n l s) Q"
proof (induction n arbitrary: s)
  case (Suc n)
  then show ?case using inv_current [OF Suc.prems(1)] by (auto intro!: keeps Suc.prems(2) inv_set_lock)
qed simp

lemma ensures_acquire [keeps]: "running c s \<Longrightarrow> (\<And>t. running c t \<Longrightarrow> Q t) \<Longrightarrow> ensures (acquire l s) Q"
  unfolding acquire_def by (rule ensures_acquire_loop)

lemma ensures_release [keeps]: "inv c Z s \<Longrightarrow> (\<And>t. inv c Z t \<Longrightarrow> Q t) \<Longrightarrow> ensures (release l s) Q"
  unfolding release_def by (auto intro!: keeps inv_set_lock)

lemma inv_drive: "inv c Z s \<Longrightarrow> length bs = SECTOR \<Longrightarrow> inv c Z (s\<lparr>drive := (drive s)(n := bs)\<rparr>)"
  by (auto simp: inv_def wf_tables_def)

lemma ensures_sendreq [keeps]:
  assumes "inv c Z s" and "i < 256" and "\<And>t. inv c Z t \<Longrightarrow> Q t"
  shows "ensures (sendreq i s) Q"
proof -
  have o: "inv c Z (outsl_sector bs u)" if "inv c Z u" "length bs = SECTOR" for bs u
    using that by (simp add: outsl_sector_def inv_drive)
  have "i < length (blocks s)" "length (bdata (blocks s ! i)) = SECTOR"
    using assms(1,2) inv_nth(4) [OF assms(1,2)] by (auto simp: inv_def wf_tables_def wf_block_def)
  then show ?thesis
    unfolding sendreq_def idewait_def Let_def outb_def using assms(1)
    by (auto intro!: assms(3) o inv_blocks)
qed

lemma ensures_iderw_wait: "running c s \<Longrightarrow> (\<And>t. running c t \<Longrightarrow> Q t) \<Longrightarrow> ensures (iderw_wait n i s) Q"
proof (induction n arbitrary: s)
  case (Suc n)
  then show ?case by (auto intro!: keeps)
qed simp

lemma ensures_iderw [keeps]:
  "running c s \<Longrightarrow> i < 256 \<Longrightarrow> (\<And>t. running c t \<Longrightarrow> Q t) \<Longrightarrow> ensures (iderw i s) Q"
  unfolding iderw_def by (auto intro!: keeps ensures_iderw_wait)

lemma ensures_bget [keeps]:
  assumes "inv c Z s" and "\<And>i t. i < 256 \<Longrightarrow> inv c Z t \<Longrightarrow> Q (i, t)"
  shows "ensures (bget no s) Q"
proof -
  have "i < 256" if "find_idx P (blocks s) = Some i" for P i
    using find_idx_SomeD(1) [OF that] assms(1) by (simp add: inv_def wf_tables_def)
  then show ?thesis unfolding bget_def Let_def
    by (auto simp: assms(1) split: option.split intro!: keeps inv_blocks assms)
qed

lemma ensures_bread [keeps]:
  "running c s \<Longrightarrow> (\<And>i t. i < 256 \<Longrightarrow> running c t \<Longrightarrow> Q (i, t)) \<Longrightarrow> ensures (bread no s) Q"
  unfolding bread_def by (auto intro!: keeps)

lemma inv_brelse [simp]: "inv c Z s \<Longrightarrow> inv c Z (brelse b s)"
  by (auto simp: brelse_def intro!: inv_blocks)

section \<open>Inodes\<close>

lemma ensures_uread [keeps]: "(\<And>b. Q b) \<Longrightarrow> ensures (uread a s) Q" "(\<And>w. R w) \<Longrightarrow> ensures (uread32 a s) R"
  by (rule ensures_any, assumption)+

lemma ensures_uwrite [keeps]: "inv c Z s \<Longrightarrow> (\<And>t. inv c Z t \<Longrightarrow> Q t) \<Longrightarrow> ensures (uwrite a b s) Q"
  by (auto simp: uwrite_def split: option.split)

lemma ensures_ustore [keeps]: "inv c Z s \<Longrightarrow> (\<And>t. inv c Z t \<Longrightarrow> Q t) \<Longrightarrow> ensures (ustore a bs s) Q"
  by (induction bs arbitrary: a s) (auto intro!: keeps)

lemma ensures_put_at [keeps]: "inv c Z s \<Longrightarrow> (\<And>t. inv c Z t \<Longrightarrow> Q t) \<Longrightarrow> ensures (put_at d off bs s) Q"
  by (auto simp: put_at_def split: dest.split intro!: keeps)

lemma ensures_uload: "(\<And>bs. length bs = n \<Longrightarrow> Q bs) \<Longrightarrow> ensures (uload n a s) Q"
proof (induction n arbitrary: a Q)
  case (Suc n)
  then show ?case by (auto intro!: ensures_any)
qed simp

lemma ensures_consoleread_loop [keeps]:
  "inv c Z s \<Longrightarrow> (\<And>t. inv c Z t \<Longrightarrow> Q t) \<Longrightarrow> ensures (consoleread_loop is d s) Q"
  by (induction "is" arbitrary: s) (auto intro!: keeps)

lemma ensures_consoleread [keeps]:
  "running c s \<Longrightarrow> (\<And>r t. running c t \<Longrightarrow> Q (r, t)) \<Longrightarrow> ensures (consoleread d sz s) Q"
  unfolding consoleread_def Let_def by (auto intro!: keeps)

lemma ensures_consolewrite_loop [keeps]:
  "inv c Z s \<Longrightarrow> (\<And>t. inv c Z t \<Longrightarrow> Q t) \<Longrightarrow> ensures (consolewrite_loop n src s) Q"
  by (induction n arbitrary: src s) (auto intro!: keeps)

lemma ensures_consolewrite [keeps]:
  "inv c Z s \<Longrightarrow> (\<And>r t. inv c Z t \<Longrightarrow> Q (r, t)) \<Longrightarrow> ensures (consolewrite src sz s) Q"
  unfolding consolewrite_def by (auto intro!: keeps)

lemma ensures_iget [keeps]:
  assumes "running c s" and "\<And>x t. opt_lt 64 x \<Longrightarrow> running c t \<Longrightarrow> Q (x, t)"
  shows "ensures (iget no s) Q"
proof -
  have "i < 64" if "find_idx P (inodes s) = Some i" for P i
    using find_idx_SomeD(1) [OF that] assms(1) by (simp add: inv_def wf_tables_def)
  then show ?thesis unfolding iget_def Let_def
    by (auto simp: assms(1) split: option.split intro!: keeps inv_inodes inv_brelse assms)
qed

lemma ensures_getrootdir [keeps]:
  "running c s \<Longrightarrow> (\<And>i t. i < 64 \<Longrightarrow> running c t \<Longrightarrow> Q (i, t)) \<Longrightarrow> ensures (getrootdir s) Q"
  unfolding getrootdir_def by (auto split: option.split intro!: keeps)

lemma ensures_readi_loop:
  "running c s \<Longrightarrow> (\<And>t. running c t \<Longrightarrow> Q t) \<Longrightarrow> ensures (readi_loop n ip d cnt sz off s) Q"
proof (induction n arbitrary: cnt off s)
  case (Suc n)
  then show ?case by (auto simp: Let_def intro!: keeps Suc.IH inv_brelse)
qed simp

lemma ensures_readi [keeps]:
  "running c s \<Longrightarrow> (\<And>r t. running c t \<Longrightarrow> Q (r, t)) \<Longrightarrow> ensures (readi i d off sz s) Q"
  unfolding readi_def Let_def
  by (auto split: option.split devdrv.split simp del: readi_loop.simps intro!: keeps ensures_readi_loop)

lemma chunk_fits: "unat (off mod SECTSIZE) + unat (chunk cnt sz off) \<le> SECTOR"
proof -
  have m: "unat (off mod 0x200) < 512" by (simp add: unat_mod)
  have "off mod 0x200 \<le> 0x200" using m by (simp add: word_le_nat_alt)
  then have "unat (0x200 - off mod 0x200) = 512 - unat (off mod 0x200)" by (simp add: unat_sub)
  then show ?thesis using m by (auto simp: chunk_def word_less_nat_alt)
qed

lemma ensures_writei_loop:
  "running c s \<Longrightarrow> (\<And>t. running c t \<Longrightarrow> Q t) \<Longrightarrow> ensures (writei_loop n ip src cnt sz off s) Q"
proof (induction n arbitrary: src cnt off s)
  case (Suc n)
  let ?m = "chunk cnt sz off" and ?k = "unat (off mod SECTSIZE)"
  have step: "ensures (uload (unat ?m) src t) (\<lambda>bs. ensures (writei_loop n ip (src + ?m) (cnt + ?m) sz (off + ?m)
      (brelse b (t\<lparr>blocks := upd_at b (\<lambda>x. x\<lparr>bdata := take ?k (bdata x) @ bs @ drop (?k + length bs) (bdata x)\<rparr>) (blocks t)\<rparr>))) Q)"
    if "running c t" for b t
  proof (rule ensures_uload, rule Suc.IH)
    fix bs :: "u8 list"
    assume "length bs = unat ?m"
    then show "running c (brelse b (t\<lparr>blocks := upd_at b (\<lambda>x. x\<lparr>bdata := take ?k (bdata x) @ bs @ drop (?k + length bs) (bdata x)\<rparr>) (blocks t)\<rparr>))"
      using that chunk_fits [of off cnt sz] by (intro inv_brelse inv_blocks) (simp_all add: wf_block_def)
  qed (rule Suc.prems(2))
  have get: "ensures (if ?m = SECTSIZE then bget no s else bread no s) P" if "\<And>i t. running c t \<Longrightarrow> P (i, t)" for no P
    using that Suc.prems(1) by (auto intro!: keeps)
  show ?case
  proof (cases "cnt < sz")
    case True
    then show ?thesis
      unfolding writei_loop.simps Let_def if_P [OF True] ensures_simps by (intro get) (simp del: SECTSIZE_def add: step)
  qed (use Suc.prems in simp)
qed simp

lemma ensures_writei [keeps]:
  "running c s \<Longrightarrow> (\<And>r t. running c t \<Longrightarrow> Q (r, t)) \<Longrightarrow> ensures (writei i src off sz s) Q"
  unfolding writei_def Let_def
  by (auto split: option.split devdrv.split simp del: writei_loop.simps intro!: keeps ensures_writei_loop)

lemma ensures_dirlookup [keeps]:
  "running c s \<Longrightarrow> (\<And>x t. opt_lt 64 x \<Longrightarrow> running c t \<Longrightarrow> Q (x, t)) \<Longrightarrow> ensures (dirlookup d fname s) Q"
proof -
  have "running c s \<Longrightarrow> (\<And>x t. opt_lt 64 x \<Longrightarrow> running c t \<Longrightarrow> Q (x, t)) \<Longrightarrow> ensures (dirlookup_loop is d fname s) Q" for "is"
    by (induction "is" arbitrary: s) (auto intro!: keeps ensures_any [of _ "strcmp p q k" for p q k])
  then show "running c s \<Longrightarrow> (\<And>x t. opt_lt 64 x \<Longrightarrow> running c t \<Longrightarrow> Q (x, t)) \<Longrightarrow> ensures (dirlookup d fname s) Q"
    by (simp add: dirlookup_def)
qed

lemma ensures_namei [keeps]:
  assumes "running c s" and "\<And>x t. opt_lt 64 x \<Longrightarrow> running c t \<Longrightarrow> Q (x, t)"
  shows "ensures (namei path s) Q"
  unfolding namei_def using assms(1) by (auto intro!: keeps assms(2) inv_brelse)

lemma ensures_fsinit [keeps]:
  "inv c Z s \<Longrightarrow> (\<And>t. inv c Z t \<Longrightarrow> Q t) \<Longrightarrow> ensures (fsinit s) Q"
proof -
  have "ensures (console_file fd s) Q" if "inv c Z s" "\<And>t. inv c Z t \<Longrightarrow> Q t" for fd s Q
    unfolding console_file_def by (auto split: option.split intro!: keeps that inv_files inv_inodes)
  then show "inv c Z s \<Longrightarrow> (\<And>t. inv c Z t \<Longrightarrow> Q t) \<Longrightarrow> ensures (fsinit s) Q"
    unfolding fsinit_def by auto
qed

section \<open>Processes\<close>

lemma wf_proc_upds [simp]:
  "wf_proc (p\<lparr>kstack := a\<rparr>) = wf_proc p" "wf_proc (p\<lparr>pgdir := a\<rparr>) = wf_proc p" "wf_proc (p\<lparr>psize := a\<rparr>) = wf_proc p"
  "wf_proc (p\<lparr>tf := a\<rparr>) = wf_proc p" "wf_proc (p\<lparr>pcontext := a\<rparr>) = wf_proc p" "wf_proc (p\<lparr>pid := a\<rparr>) = wf_proc p"
  by (simp_all add: wf_proc_def)

lemma wf_proc_ofile: "wf_proc p \<Longrightarrow> opt_lt 64 f \<Longrightarrow> wf_proc (p\<lparr>ofile := (ofile p)[i := f]\<rparr>)"
  by (auto simp: wf_proc_def dest!: set_update_subset_insert [THEN subsetD])

lemma wf_proc_nth: "wf_proc p \<Longrightarrow> i < 32 \<Longrightarrow> opt_lt 64 (ofile p ! i)"
  by (simp add: wf_proc_def)

lemma ensures_palloc_files:
  assumes "inv c Z s" and "\<And>t. inv c Z t \<Longrightarrow> Q (Some i, t)"
  shows "ensures (palloc_files i s) Q"
proof -
  have f: "inv c Z (t\<lparr>procs := upd_at i (\<lambda>p. p\<lparr>ofile := (ofile p)[k := Some n]\<rparr>) (procs t)\<rparr>)"
    if "inv c Z t" "n < 64" for t k n
    using that by (intro inv_procs) (simp_all add: wf_proc_ofile)
  show ?thesis
    unfolding palloc_files_def by (auto intro!: ensures_fget [where c = c and Z = Z] f assms)
qed

lemma inv_insert:
  "inv c Z s \<Longrightarrow> i < NPROC \<Longrightarrow> stat (procs s ! i) \<noteq> SLEEP \<Longrightarrow> inv c (insert i Z) s"
  by (simp add: inv_def)

text \<open>The process that \<open>palloc\<close> hands out is not asleep.\<close>

lemma ensures_palloc [keeps]:
  assumes "inv c Z s" and "\<And>t. inv c Z t \<Longrightarrow> Q (None, t)"
    and "\<And>n t. n < NPROC \<Longrightarrow> inv c (insert n Z) t \<Longrightarrow> Q (Some n, t)"
  shows "ensures (palloc s) Q"
proof (cases "find_idx (\<lambda>p. stat p = UNUSED) (procs s)")
  case None
  then show ?thesis using assms(1,2) by (auto simp: palloc_def Let_def intro!: keeps)
next
  case (Some i)
  note idx = find_idx_SomeD [OF Some]
  have i: "i < NPROC" "stat (procs s ! i) \<noteq> SLEEP" using idx assms(1) by (auto simp: inv_def wf_tables_def)
  have z: "wf_proc proc_zero" "stat proc_zero \<noteq> SLEEP" by (simp_all add: wf_proc_def proc_zero_def)
  have "inv c (insert i Z) ((pushcli s)\<lparr>procs := upd_at i (\<lambda>_. proc_zero) (procs s)\<rparr>)"
    using inv_insert [OF assms(1) i] z by (intro inv_procs) simp_all
  moreover have fill: "ensures (palloc_fill i k t) Q" if t: "inv c (insert i Z) t" for k t
  proof -
    define P where "P = upd_at i (\<lambda>p. p\<lparr>stat := SET, pid := nextpid t\<rparr>) (procs t)"
    have "inv c (insert i Z) (t\<lparr>procs := P\<rparr>)"
      unfolding P_def using t by (intro inv_procs) (auto simp: wf_proc_def)
    then have "inv c (insert i Z) (t\<lparr>procs := P, nextpid := nextpid t + 1\<rparr>)" by simp
    then show ?thesis
      unfolding palloc_fill_def Let_def ensures_simps P_def [symmetric]
      by (intro ensures_kept_ops(1) ensures_palloc_files assms(3) [OF i(1)]) (auto intro!: inv_procs)
  qed
  moreover have drop: "inv c Z t" if "inv c (insert i Z) t" for t using that by (simp add: inv_def)
  ultimately have ka: "ensures (kalloc ((pushcli s)\<lparr>procs := upd_at i (\<lambda>_. proc_zero) (procs s)\<rparr>)) (\<lambda>(k, t).
      inv c (insert i Z) (t\<lparr>procs := upd_at i (\<lambda>p. p\<lparr>kstack := k\<rparr>) (procs t)\<rparr>))"
    by (intro ensures_kept_pairs(1) [where c = c and Z = "insert i Z"]) (auto intro!: inv_procs)
  show ?thesis
    unfolding palloc_def Let_def Some option.case ensures_simps pushcli_tables
    by (rule ensures_mono [OF ka])
      (auto intro!: fill ensures_kept_ops(1) [where c = c and Z = Z] assms(2) drop)
qed

lemma ensures_pfree_files [keeps]:
  assumes "inv c Z s" and "\<And>t. inv c Z t \<Longrightarrow> Q t"
  shows "ensures (pfree_files i fds s) Q"
  using assms(1)
proof (induction fds arbitrary: s)
  case Nil
  then show ?case by (simp add: assms(2))
next
  case (Cons fd fds)
  have "inv c Z (t\<lparr>procs := upd_at i (\<lambda>p. p\<lparr>ofile := (ofile p)[fd := None]\<rparr>) (procs t)\<rparr>)" if "inv c Z t" for t
    using that by (intro inv_procs) (simp_all add: wf_proc_ofile)
  then show ?case
    using Cons by (cases "ofile (procs s ! i) ! fd") (auto intro!: ensures_ffree [where c = c and Z = Z])
qed

lemma ensures_pfree [keeps]:
  assumes "inv c Z s" and "i \<in> Z" and "\<And>t. inv c Z t \<Longrightarrow> Q t"
  shows "ensures (pfree i s) Q"
proof -
  have "wf_proc (p\<lparr>cwd := None\<rparr>)" if "wf_proc p" for p using that by (simp add: wf_proc_def)
  moreover have "wf_proc (p\<lparr>stat := UNUSED\<rparr>)" if "wf_proc p" "stat p \<noteq> SLEEP" for p using that by (simp add: wf_proc_def)
  ultimately show ?thesis
    unfolding pfree_def using assms(1,2)
    by (auto split: option.split intro!: keeps inv_procs assms(3))
qed

lemma ensures_collect_zombies [keeps]:
  assumes "inv c Z s" and "\<And>t. inv c Z t \<Longrightarrow> Q t"
  shows "ensures (collect_zombies s) Q"
proof -
  have one: "ensures (pfree i s) Q" if "inv c Z s" "stat (procs s ! i) = ZOMB" "i < NPROC" "\<And>t. inv c Z t \<Longrightarrow> Q t" for i s Q
    by (rule ensures_pfree [OF inv_insert [OF that(1,3)]]) (use that in \<open>auto simp: inv_def\<close>)
  have loop: "ensures (collect_loop is s) Q" if "inv c Z s" "\<forall>i \<in> set is. i < NPROC" "\<And>t. inv c Z t \<Longrightarrow> Q t" for "is" s Q
    using that by (induction "is" arbitrary: s) (auto intro!: one)
  show ?thesis
    unfolding collect_zombies_def ensures_simps
    by (rule loop) (use assms in \<open>auto intro!: ensures_kept_ops(1) [where c = c and Z = Z]\<close>)
qed

section \<open>System calls\<close>

lemma ensures_args [keeps]:
  "(\<And>a. Q a) \<Longrightarrow> ensures (argint n s) Q" "(\<And>a. Q a) \<Longrightarrow> ensures (argptr n s) Q"
  by (rule ensures_any, assumption)+

lemma ensures_argfd [keeps]:
  assumes "running c s" and "\<And>f. opt_lt 64 f \<Longrightarrow> Q f"
  shows "ensures (argfd n s) Q"
proof -
  have "opt_lt 64 (ofile p ! unat fd)" if "wf_proc p" "\<not> (sint fd < 0 \<or> sint fd \<ge> int NOFILE)" for p and fd :: u32
  proof -
    have "int (unat fd) < 32"
      using that(2) uint_bounded [of fd]
      by (simp add: sint_uint signed_take_bit_eq_take_bit_minus take_bit_int_eq_self of_bool_def split: if_splits)
    then have "unat fd < 32" by linarith
    then show ?thesis by (rule wf_proc_nth [OF that(1)])
  qed
  then show ?thesis unfolding argfd_def by (auto intro!: keeps ensures_cur [OF assms(1)] assms(2))
qed

lemma ensures_sys_open [keeps]:
  assumes "running c s" and "\<And>r t. running c t \<Longrightarrow> Q (r, t)"
  shows "ensures (sys_open s) Q"
proof -
  have fd: "ensures (fdalloc f t) R" if "running c t" "opt_lt 64 f" "\<And>r u. running c u \<Longrightarrow> R (r, u)" for f t R
    unfolding fdalloc_def using that(1,2)
    by (auto split: option.split intro!: ensures_cur [OF that(1)] ensures_cur_upd [OF that(1)] wf_proc_ofile that(3))
  show ?thesis
    unfolding sys_open_def using assms(1)
    by (auto split: option.split intro!: keeps fd inv_files assms(2))
qed

lemma ensures_sys_close [keeps]:
  assumes "running c s" and "\<And>r t. running c t \<Longrightarrow> Q (r, t)"
  shows "ensures (sys_close s) Q"
  unfolding sys_close_def using assms(1)
  by (auto intro!: ensures_args ensures_cur [OF assms(1)] ensures_ffree [OF assms(1)]
      ensures_cur_upd [where c = c and Z = "set_option c"] wf_proc_ofile assms(2))

lemma ensures_sys_rw:
  assumes "running c s" and "\<And>r t. running c t \<Longrightarrow> Q (r, t)"
    and "\<And>ip buf off sz t R. running c t \<Longrightarrow> (\<And>r u. running c u \<Longrightarrow> R (r, u)) \<Longrightarrow> ensures (io ip buf off sz t) R"
  shows "ensures (sys_rw io s) Q"
proof -
  have rel: "ensures (release l t) R" if "running c t" "\<And>u. running c u \<Longrightarrow> R u" for l t R
    using that by (rule ensures_release)
  have f: "running c (t\<lparr>files := upd_at i (\<lambda>f. f\<lparr>foffset := foffset f + n\<rparr>) (files t)\<rparr>)" if "running c t" for i n t
    using that by (intro inv_files) simp_all
  show ?thesis
    unfolding sys_rw_def using assms(1)
    by (auto split: option.split simp: Let_def
        intro!: ensures_args ensures_argfd [OF assms(1)] ensures_acquire [where c = c] assms(2,3) rel f)
qed

lemma ensures_sys_read_write [keeps]:
  assumes "running c s" and "\<And>r t. running c t \<Longrightarrow> Q (r, t)"
  shows "ensures (sys_read s) Q" and "ensures (sys_write s) Q"
  unfolding sys_read_def sys_write_def
  by (rule ensures_sys_rw [OF assms(1)], erule assms(2), (erule ensures_readi | erule ensures_writei), assumption)+

lemma ensures_fork_files [keeps]:
  assumes "inv c Z s" and "wf_proc p" and "\<forall>i \<in> set is. i < NOFILE" and "\<And>t. inv c Z t \<Longrightarrow> Q t"
  shows "ensures (fork_files is p n s) Q"
  using assms(1,3)
proof (induction "is" arbitrary: s)
  case Nil
  then show ?case by (simp add: assms(4))
next
  case (Cons i js)
  have "inv c Z (t\<lparr>procs := upd_at n (\<lambda>q. q\<lparr>ofile := (ofile q)[i := f]\<rparr>) (procs t)\<rparr>)"
    if "inv c Z t" "opt_lt 64 f" for t f
    using that by (intro inv_procs) (simp_all add: wf_proc_ofile)
  moreover have "opt_lt 64 (ofile p ! i)" using wf_proc_nth [OF assms(2)] Cons.prems by simp
  ultimately show ?case
    using Cons by (cases "ofile p ! i") (auto intro!: ensures_fdup [where c = c and Z = Z])
qed

lemma ensures_sys_fork [keeps]:
  assumes "running c s" and "\<And>r t. running c t \<Longrightarrow> Q (r, t)"
  shows "ensures (sys_fork s) Q"
proof -
  have q: "Q (r, t)" if "inv c (insert n (set_option c)) t" for r t n
    using that by (intro assms(2)) (simp add: inv_def)
  have upd: "inv c Z (t\<lparr>procs := upd_at n (\<lambda>q. q\<lparr>pgdir := a\<rparr>) (procs t)\<rparr>)"
      "opt_lt 64 x \<Longrightarrow> inv c Z (t\<lparr>procs := upd_at n ((\<lambda>q. q\<lparr>psize := a, pproc := x\<rparr>) \<circ> pgdir_update (\<lambda>_. d)) (procs t)\<rparr>)"
    if "inv c Z t" for c Z t n a d x
    by (rule inv_procs [OF that]; simp add: wf_proc_def)+
  have go: "inv c Z (t\<lparr>procs := upd_at n (\<lambda>q. q\<lparr>cwd := cwd p, stat := RUN\<rparr>) (procs t)\<rparr>)"
    if "inv c Z t" "wf_proc p" "n \<in> Z" for c Z t n p
    using that by (intro inv_procs) (auto simp: wf_proc_def)
  have c: "opt_lt 64 c" using inv_current [OF assms(1)] by simp
  show ?thesis
    unfolding sys_fork_def ensures_simps
    apply (rule ensures_palloc [OF assms(1)])
    subgoal by (simp add: assms(2))
    subgoal for n t
      using c
      by (auto simp: Let_def inv_current intro!: ensures_cur [where c = c and Z = "insert n (set_option c)"]
          ensures_kept_pairs(5) [where c = c and Z = "insert n (set_option c)"]
          ensures_pfree [where c = c and Z = "insert n (set_option c)"]
          ensures_fork_files [where c = c and Z = "insert n (set_option c)"]
          ensures_idup [where c = c and Z = "insert n (set_option c)"] upd
          q [where n = n] go)
    done
qed

lemma ensures_exit_current:
  assumes "running c s" and "\<And>t. running c t \<Longrightarrow> Q t"
  shows "ensures (exit_current s) Q"
proof -
  have "wf_proc (p\<lparr>stat := ZOMB\<rparr>)" if "wf_proc p" "stat p \<noteq> SLEEP" for p using that by (simp add: wf_proc_def)
  then show ?thesis
    unfolding exit_current_def using assms
    by (auto split: option.split intro!: ensures_cur_upd [where c = c and Z = "set_option c"]
        ensures_cur [where c = c and Z = "set_option c"] ensures_wakeup [where c = c and Z = "set_option c"]
        ensures_kept_ops(1) [where c = c and Z = "set_option c"])
qed

lemma ensures_sys_exit [keeps]: "ensures (sys_exit s) Q"
  by (simp add: sys_exit_def ensures_any)

lemma ensures_sys_wait [keeps]:
  assumes "running c s" and "\<And>r t. running c t \<Longrightarrow> Q (r, t)"
  shows "ensures (sys_wait s) Q"
  unfolding sys_wait_def using assms(1)
  by (auto split: option.split intro!: ensures_sleeps [where c = c] ensures_collect_zombies [where c = c and Z = "set_option c"] assms(2))

section \<open>Loading a program\<close>

lemma ensures_loaduvm [keeps]:
  assumes "running c s" and "\<And>r t. running c t \<Longrightarrow> Q (r, t)"
  shows "ensures (loaduvm dir va ip off sz s) Q"
proof -
  have "ensures (loaduvm_loop k dir va ip off sz i t) Q" if "running c t" for k i t
    using that
  proof (induction k arbitrary: i t)
    case (Suc k)
    then show ?case
      by (auto simp: Let_def intro!: ensures_kept_pairs(2) [where c = c and Z = "set_option c"]
          ensures_readi [where c = c] assms(2))
  qed simp
  then show ?thesis using assms(1) by (simp add: loaduvm_def del: loaduvm_loop.simps)
qed

lemma ensures_copyout [keeps]:
  assumes "inv c Z s" and "\<And>t. inv c Z t \<Longrightarrow> Q t"
  shows "ensures (copyout dir va src len s) Q"
proof -
  have "ensures (copyout_loop k dir va src off len t) Q" if "inv c Z t" for k va off len t
    using that
  proof (induction k arbitrary: va off len t)
    case (Suc k)
    then show ?case
      by (auto simp: Let_def intro!: ensures_kept_pairs(2) [where c = c and Z = Z]
          ensures_any [of _ "src_bytes src' o' n u" for src' o' n u] assms(2))
  qed simp
  then show ?thesis using assms(1) by (simp add: copyout_def del: copyout_loop.simps)
qed

lemma ensures_read_header [keeps]:
  "running c s \<Longrightarrow> (\<And>r t. running c t \<Longrightarrow> Q (r, t)) \<Longrightarrow> ensures (read_header ip off n s) Q"
  unfolding read_header_def by (auto intro!: ensures_readi [where c = c])

lemma ensures_load_segment [keeps]:
  assumes "running c s" and "\<And>r t. running c t \<Longrightarrow> Q (r, t)"
  shows "ensures (load_segment dir ip ph va s) Q"
  unfolding load_segment_def using assms(1)
  by (auto intro!: ensures_kept_pairs(4) [where c = c and Z = "set_option c"] ensures_loaduvm [where c = c]
      ensures_copyout [where c = c and Z = "set_option c"] assms(2))

lemma ensures_load_segments [keeps]:
  assumes "running c s" and "\<And>r t. running c t \<Longrightarrow> Q (r, t)"
  shows "ensures (load_segments n dir ip off va s) Q"
  using assms(1)
proof (induction n arbitrary: off va s)
  case 0
  then show ?case by (simp add: assms(2))
next
  case (Suc n)
  then show ?case
    by (auto split: option.split intro!: ensures_read_header [where c = c] ensures_load_segment [where c = c] assms(2))
qed

lemma ensures_push_args [keeps]:
  assumes "inv c Z s" and "\<And>ps sp t. inv c Z t \<Longrightarrow> Q (ps, sp, t)"
  shows "ensures (push_args k dir argv ptrs sp s) Q"
  using assms(1)
proof (induction k arbitrary: ptrs sp s)
  case 0
  then show ?case by (auto intro!: ensures_uread(2) assms(2))
next
  case (Suc k)
  then show ?case
    by (auto simp: Let_def intro!: ensures_uread(2) ensures_any [of _ "strlen f" for f]
        ensures_copyout [where c = c and Z = Z] assms(2))
qed

lemma inv_segs [simp]:
  "inv c Z (s\<lparr>gdt := g\<rparr>) = inv c Z s" "inv c Z (s\<lparr>ts := st\<rparr>) = inv c Z s"
  "inv c Z (s\<lparr>tr := h\<rparr>) = inv c Z s" "inv c Z (s\<lparr>cr3 := n\<rparr>) = inv c Z s"
  by (rule inv_cong; simp)+

lemma ensures_switchuvm [keeps]:
  assumes "inv c Z s" and "\<And>t. inv c Z t \<Longrightarrow> Q t"
  shows "ensures (switchuvm stk dir s) Q"
  unfolding switchuvm_def Let_def using assms(1)
  by (auto intro!: ensures_kept_ops(1) [where c = c and Z = Z] assms(2))

lemma ensures_exec_bad [keeps]:
  assumes "inv c Z s" and "\<And>r t. inv c Z t \<Longrightarrow> Q (r, t)"
  shows "ensures (exec_bad dir ip s) Q"
  unfolding exec_bad_def using assms(1)
  by (auto intro!: ensures_kept_ops(5) [where c = c and Z = Z] ensures_release [where c = c and Z = Z] assms(2))

lemma ensures_exec_enter [keeps]:
  assumes "running c s" and "\<And>r t. running c t \<Longrightarrow> Q (r, t)"
  shows "ensures (exec_enter dir argv va entry s) Q"
  unfolding exec_enter_def Let_def using assms(1)
  by (auto intro!: ensures_push_args [where c = c and Z = "set_option c"] ensures_copyout [where c = c and Z = "set_option c"]
      ensures_cur [where c = c and Z = "set_option c"] ensures_cur_upd [where c = c and Z = "set_option c"]
      ensures_switchuvm [where c = c and Z = "set_option c"] ensures_kept_ops(5) [where c = c and Z = "set_option c"] assms(2))

lemma ensures_sys_execv [keeps]:
  assumes "running c s" and "\<And>r t. running c t \<Longrightarrow> Q (r, t)"
  shows "ensures (sys_execv s) Q"
  unfolding sys_execv_def using assms(1)
  by (auto split: option.split simp del: load_segments.simps
      intro!: ensures_args ensures_namei [where c = c] ensures_acquire [where c = c] ensures_read_header [where c = c]
        ensures_exec_bad [where c = c and Z = "set_option c"] ensures_kept_pairs(3,6) [where c = c and Z = "set_option c"]
        ensures_load_segments [where c = c] ensures_release [where c = c and Z = "set_option c"]
        ensures_exec_enter [where c = c] assms(2))

section \<open>Traps\<close>

lemma ensures_syscall [keeps]:
  assumes "running c s" and "\<And>r t. running c t \<Longrightarrow> Q (r, t)"
  shows "ensures (syscall num s) Q"
proof -
  have "ensures (f s) Q" if "syscalls num = Some f" for f
    using that assms
    by (auto simp: syscalls_def split: if_splits
        intro!: ensures_sys_exit ensures_sys_fork ensures_sys_read_write ensures_sys_open ensures_sys_close
          ensures_sys_wait ensures_sys_execv)
  then show ?thesis
    using assms(1) by (auto simp: syscall_def simp del: printf.simps lit_simps split: option.split
        intro!: ensures_cur [where c = c and Z = "set_option c"] ensures_kept_ops(2) [where c = c and Z = "set_option c"] assms(2))
qed

lemma ensures_trap:
  assumes "running c s" and "\<And>t. running c t \<Longrightarrow> Q t"
  shows "ensures (trap addr cr2 sc t s) Q"
  unfolding trap_def Let_def using assms(1)
  by (auto intro!: ensures_cur [where c = c and Z = "set_option c"] ensures_syscall [where c = c]
      ensures_irq_trap [where c = c and Z = "set_option c"] ensures_any [of _ "unknowntrap n u" for n u]
      ensures_any [of _ "dump a b d u" for a b d u] assms(2))

section \<open>The start\<close>

lemma inv_boot:
  "(\<And>n. length (d n) = 512) \<Longrightarrow> inv None {0} (boot_state\<lparr>drive := d, pending := es, ide_status := st\<rparr>)"
  by (simp add: inv_def wf_tables_def wf_proc_def proc_zero_def wf_file_def file_zero_def wf_inode_def inode_zero_def
      wf_block_def block_zero_def lock_zero_def)

lemma inv_starts [simp]:
  "inv c Z (seginit s) = inv c Z s" "inv c Z (idtinit vectors s) = inv c Z s" "inv c Z (picinit s) = inv c Z s"
  "inv c Z (pitinit s) = inv c Z s" "inv c Z (kvminit s) = inv c Z s" "inv c Z (consoleinit s) = inv c Z s"
  "inv c Z (sti s) = inv c Z s"
  by (rule inv_cong; simp add: seginit_def idtinit_def picinit_def pitinit_def kvminit_def kmapinit_def consoleinit_def
      outb_def sti_def Let_def)+

lemma inv_procp: "inv c Z s \<Longrightarrow> n \<in> Z \<Longrightarrow> inv (Some n) {n} (s\<lparr>procp := Some n\<rparr>)"
  by (auto simp: inv_def wf_tables_def)

lemma ensures_uinit_to:
  assumes "inv c {0} s" and "\<And>n t. running (Some n) t \<Longrightarrow> Q (n, t)"
  shows "ensures (uinit_to s) Q"
proof -
  have upd: "inv c Z (t\<lparr>procs := upd_at n (\<lambda>p. p\<lparr>pgdir := a\<rparr>) (procs t)\<rparr>)"
      "inv c Z (t\<lparr>procs := upd_at n (\<lambda>p. p\<lparr>psize := a\<rparr>) (procs t)\<rparr>)"
    if "inv c Z t" for c Z t n a by (rule inv_procs [OF that]; simp)+
  have go: "inv c Z (t\<lparr>procs := upd_at n (\<lambda>p. p\<lparr>cwd := Some i, stat := RUN\<rparr>) (procs t)\<rparr>)"
    if "inv c Z t" "i < 64" "n \<in> Z" for c Z n t i
    using that by (intro inv_procs) (auto simp: wf_proc_def)
  show ?thesis
    unfolding uinit_to_def ensures_simps Let_def
    apply (rule ensures_palloc [where c = c and Z = "{0}"])
    subgoal using assms(1) by (intro inv_procs) (auto simp: wf_proc_def)
    subgoal by simp
    subgoal for n t
      using inv_procp [of c "{n, 0}" t n]
      by (auto simp: assms(2) intro!: upd go ensures_kept_pairs(3) [where c = "Some n" and Z = "{n}"]
          ensures_kept_ops(6) [where c = "Some n" and Z = "{n}"] ensures_getrootdir [where c = "Some n"]
          ensures_switchuvm [where c = "Some n" and Z = "{n}"])
    done
qed

lemma ensures_kinit:
  fixes s :: kernel
  assumes "inv c Z s" and "\<And>t. inv c Z t \<Longrightarrow> Q t"
  shows "ensures (kinit s) Q"
proof -
  have "inv c Z t \<Longrightarrow> ensures (kinit_loop p t) Q" for p and t :: kernel
  proof (induction p t rule: kinit_loop.induct)
    case (1 p t)
    have "ensures (kinit_loop (p + PAGESIZE) x) Q" if "p < MEMSIZE" "kfree p t = Inr x" for x
      using 1 that inv_kept [OF kept_kfree [OF that(2)]] by blast
    then show ?case using 1(2) by (subst kinit_loop.simps) (auto intro!: assms(2) intro: ensuresI)
  qed
  then show ?thesis
    using assms(1) by (auto simp: kinit_def simp del: printf.simps lit_simps intro!: ensures_kept_ops(2) [where c = c and Z = Z])
qed

lemma ensures_kmain:
  assumes "inv None {0} s" and "\<And>n t. running (Some n) t \<Longrightarrow> Q (n, t)"
  shows "ensures (kmain vectors s) Q"
  unfolding kmain_def Let_def using assms(1)
  by (auto intro!: ensures_kinit [where c = None and Z = "{0}"] ensures_fsinit [where c = None and Z = "{0}"]
      ensures_uinit_to [where c = None] assms(2))

text \<open>A context switch to a process that can run.\<close>

lemma ensures_sched_to:
  assumes "running (Some i) s" and "stat (procs s ! i) \<noteq> ZOMB"
  shows "ensures (sched_to s) (\<lambda>(n, t). running (Some (case n of None \<Rightarrow> i | Some j \<Rightarrow> j)) t)"
proof -
  have len: "length (procs s) = 64" and c: "procp s = Some i" using assms(1) by (simp_all add: inv_def wf_tables_def)
  show ?thesis
  proof (rule sched_scan_cases [OF len, of RUN "schedix s"])
    fix j b
    assume scan: "sched_scan RUN [0..<64] (procs s) (schedix s) None = (Some j, b)" and j: "j < 64" "stat (procs s ! j) = RUN"
    have "inv (Some i) {i, j} s" using assms(1) j by (simp add: inv_def)
    then have "inv (Some i) {i, j} (pushcli s)" by simp
    from inv_procp [OF this, of j] have "inv (Some j) {j} (((pushcli s)\<lparr>schedix := b\<rparr>)\<lparr>procp := Some j\<rparr>)"
      by (simp add: inv_def wf_tables_def)
    then show ?thesis using assms(1) scan c
      by (auto simp: sched_to_def Let_def intro!: ensures_kept_ops(1) [where c = "Some i" and Z = "{i}"]
          ensures_kept_ops(1) [where c = "Some j" and Z = "{j}"] ensures_switchuvm [where c = "Some j" and Z = "{j}"])
  next
    assume scan: "sched_scan RUN [0..<64] (procs s) (schedix s) None = (None, schedix s)"
    then show ?thesis using assms c
      by (auto simp: sched_to_def Let_def cur_def intro!: ensures_kept_ops(1) [where c = "Some i" and Z = "{i}"])
  qed
qed

section \<open>Runs of the kernel\<close>

text \<open>
  What can change the tables between two instructions of user code: a trap or an interrupt that returns to
  the process it came from, the switch to another process that can run, user code itself, and the arrival of
  further interrupts.
\<close>

inductive kstep :: "kernel \<Rightarrow> kernel \<Rightarrow> bool" where
  trapped: "trap addr cr2 sc t s = Inr s' \<Longrightarrow> kstep s s'"
| interrupted: "interrupt e s = Inr s' \<Longrightarrow> kstep s s'"
| preempted: "sched_to s = Inr (Some j, s') \<Longrightarrow> procp s = Some i \<Longrightarrow> stat (procs s ! i) \<noteq> ZOMB \<Longrightarrow> kstep s s'"
| user_code: "kstep s (s\<lparr>mem := m\<rparr>)"
| arrivals: "kstep s (s\<lparr>pending := es\<rparr>)"

lemma kstep_running: "kstep s t \<Longrightarrow> running (Some c) s \<Longrightarrow> \<exists>c'. running (Some c') t"
proof (induction rule: kstep.induct)
  case (trapped addr cr2 sc tf s s')
  have "ensures (trap addr cr2 sc tf s) (running (Some c))" by (rule ensures_trap [OF trapped.prems])
  with trapped.hyps show ?case by (blast dest: ensuresD)
next
  case (interrupted e s s')
  have "ensures (interrupt e s) (running (Some c))" by (rule ensures_interrupt [OF interrupted.prems])
  with interrupted.hyps show ?case by (blast dest: ensuresD)
next
  case (preempted s j s' i)
  then have "i = c" by (simp add: inv_def)
  with preempted ensuresD [OF ensures_sched_to, of c s "(Some j, s')"] show ?case by auto
qed auto

lemma ksteps_running: "kstep\<^sup>*\<^sup>* s t \<Longrightarrow> running (Some c) s \<Longrightarrow> \<exists>c'. running (Some c') t"
proof (induction rule: rtranclp_induct)
  case (step y z)
  then obtain c' where "running (Some c') y" by blast
  with step.hyps(2) show ?case by (rule kstep_running)
qed blast




text \<open>A process in slot 2, its parent in slot 1, and a timer interrupt whose frame is at 3 MB.\<close>

definition ex_tick :: kernel where
  "ex_tick = ex_family\<lparr>mem := store32 (\<lambda>_. 0) 0x300030 32\<rparr>"


end
