(* ===== verification/Mix_Boot.thy ===== *)
theory Mix_Boot
  imports Mix_Inode
begin

text \<open>
  The boot loader: \<^verbatim>\<open>bootmain\<close> of \<^verbatim>\<open>boot/bootmain.c\<close> with \<^verbatim>\<open>readseg\<close> and \<^verbatim>\<open>memclr\<close> of
  \<^verbatim>\<open>boot/bootasm.S\<close>. The disk is a map from sectors to their 512 bytes.
\<close>

section \<open>Reading from the disk\<close>

text \<open>
  \<open>count\<close> is a \<^verbatim>\<open>uint8_t\<close>: the register takes its low byte, and \<^verbatim>\<open>mulb\<close> computes the number of words to
  move from the same byte. The address registers take 28 bits of the sector number, and bit 28 selects the
  second drive, whose sectors the map has from there on.
\<close>

definition readseg :: "(u32 \<Rightarrow> u8 list) \<Rightarrow> u32 \<Rightarrow> u8 \<Rightarrow> u32 \<Rightarrow> memory \<Rightarrow> memory" where
  "readseg disk addr count offset m =
     store_bytes addr (concat (map (\<lambda>i. disk ((offset AND 0x1FFFFFFF) + of_nat i)) [0..<unat count])) m"

definition memclr :: "u32 \<Rightarrow> u32 \<Rightarrow> memory \<Rightarrow> memory" where
  "memclr addr count m = stosb addr 0 (unat count) m"

definition SUPERBLOCK :: u32 where [simp]: "SUPERBLOCK = 1"

section \<open>\<open>bootmain\<close>\<close>

text \<open>
  One program header, at the address \<open>ph\<close>. The second argument of \<^verbatim>\<open>readseg\<close> is converted to
  \<^verbatim>\<open>uint8_t\<close>, and \<^verbatim>\<open>(uint32_t *)ph->paddr + ph->filesz\<close> is the address of a word.
\<close>

definition boot_segment :: "(u32 \<Rightarrow> u8 list) \<Rightarrow> u32 \<Rightarrow> u32 \<Rightarrow> memory \<Rightarrow> memory" where
  "boot_segment disk kern ph m =
     (let off = load32 m (ph + 4); paddr = load32 m (ph + 12);
          filesz = load32 m (ph + 16); memsz = load32 m (ph + 20);
          pa = paddr - off mod SECTSIZE;
          count = (filesz + SECTSIZE - 1) div SECTSIZE;
          offset = off div SECTSIZE + kern;
          m' = readseg disk pa (ucast count) offset m
      in if load32 m' (ph + 20) > load32 m' (ph + 16)
         then memclr (load32 m' (ph + 12) + 4 * load32 m' (ph + 16))
                (load32 m' (ph + 20) - load32 m' (ph + 16)) m'
         else m')"

fun boot_loop :: "nat \<Rightarrow> (u32 \<Rightarrow> u8 list) \<Rightarrow> u32 \<Rightarrow> u32 \<Rightarrow> memory \<Rightarrow> memory" where
  "boot_loop 0 disk ph eph m = m"
| "boot_loop (Suc n) disk ph eph m =
     (if ph < eph then boot_loop n disk (ph + 32) eph (boot_segment disk (load32 m (SUPERADDR + 12)) ph m) else m)"

text \<open>The result is the entry point it jumps to, or \<open>None\<close> when it returns, and memory.\<close>

definition bootmain :: "(u32 \<Rightarrow> u8 list) \<Rightarrow> memory \<Rightarrow> u32 option \<times> memory" where
  "bootmain disk m =
     (let elf = 0x8000;
          m = readseg disk SUPERADDR 1 SUPERBLOCK m;
          m = readseg disk elf 8 (load32 m (SUPERADDR + 12)) m
      in if load32 m elf \<noteq> 0x464C457F then (None, m)
         else
           let ph = elf + load32 m (elf + 28);
               phnum = load16 m (elf + 44);
               m = boot_loop (unat phnum) disk ph (ph + 32 * ucast phnum) m
           in (Some (load32 m (elf + 24)), m))"

section \<open>What a segment becomes\<close>

lemma store_bytes_eq:
  "length bs \<le> 2 ^ 32 \<Longrightarrow> store_bytes a bs m x = (if unat (x - a) < length bs then bs ! unat (x - a) else m x)"
proof (induction bs arbitrary: a m)
  case Nil
  then show ?case by simp
next
  case (Cons b bs)
  have IH: "store_bytes (a + 1) bs (m(a := b)) x
      = (if unat (x - (a + 1)) < length bs then bs ! unat (x - (a + 1)) else (m(a := b)) x)"
    by (rule Cons.IH) (use Cons.prems in simp)
  show ?case
  proof (cases "x = a")
    case True
    have "unat (x - (a + 1)) = 2 ^ 32 - 1" using True by (simp add: unsigned_minus_1_eq_mask mask_eq_exp_minus_1)
    with IH True Cons.prems show ?thesis by simp
  next
    case False
    then have "x - a \<noteq> 0" by simp
    then have "unat (x - a) = Suc (unat (x - (a + 1)))"
      using unat_minus_one [of "x - a"] by (simp add: diff_diff_add unat_gt_0)
    with IH False show ?thesis by simp
  qed
qed

text \<open>The file that starts at sector \<open>k\<close>.\<close>

definition file_byte :: "(u32 \<Rightarrow> u8 list) \<Rightarrow> nat \<Rightarrow> nat \<Rightarrow> u8" where
  "file_byte disk k i = disk (of_nat (k + i div 512)) ! (i mod 512)"

lemma length_sectors: "(\<And>i. length (f i) = 512) \<Longrightarrow> length (concat (map f [0..<n])) = 512 * n"
  by (induction n) simp_all

lemma nth_sectors:
  assumes "\<And>i. length (f i) = 512" and "j < 512 * n"
  shows "concat (map f [0..<n]) ! j = f (j div 512) ! (j mod 512)"
  using assms(2)
proof (induction n)
  case 0
  then show ?case by simp
next
  case (Suc n)
  show ?case
  proof (cases "j < 512 * n")
    case True
    with Suc.IH show ?thesis by (simp add: nth_append length_sectors [OF assms(1)])
  next
    case False
    then have d: "j div 512 = n" using Suc.prems by (intro div_nat_eqI) simp_all
    then have "j mod 512 = j - 512 * n" using div_mult_mod_eq [of j 512] by simp
    with d False show ?thesis by (simp add: nth_append length_sectors [OF assms(1)])
  qed
qed

lemma and_mask29: "unat (a :: u32) < 0x10000000 \<Longrightarrow> a AND 0x1FFFFFFF = a"
proof -
  assume "unat a < 0x10000000"
  then have "a mod 2 ^ 29 = a" by (simp add: word_unat_eq_iff unat_mod)
  then have "take_bit 29 a = a" by (simp add: take_bit_eq_mod)
  moreover have "(0x1FFFFFFF :: u32) = mask 29" by (simp add: mask_eq_exp_minus_1)
  ultimately show ?thesis by (simp add: take_bit_eq_mask)
qed

lemma readseg_eq:
  assumes "\<And>i. length (disk i) = 512" and "k + unat count \<le> 0x10000000"
  shows "readseg disk a count (of_nat k) m x
    = (if unat (x - a) < 512 * unat count then file_byte disk k (unat (x - a)) else m x)"
proof -
  have "unat count < 2 ^ LENGTH(8)" by (rule unsigned_less)
  then have c: "unat count \<le> 255" by simp
  have k: "unat (of_nat k :: u32) = k" "k \<le> 0x10000000" using assms(2) by (simp_all add: unat_of_nat)
  have eq: "(of_nat k AND 0x1FFFFFFF) + of_nat i = (of_nat (k + i) :: u32)" if "i < unat count" for i
    using and_mask29 [of "of_nat k"] k that assms(2) by simp
  let ?bs = "concat (map (\<lambda>i. disk (of_nat (k + i))) [0..<unat count])"
  have "readseg disk a count (of_nat k) m = store_bytes a ?bs m"
    unfolding readseg_def using eq by (intro arg_cong [where f = "\<lambda>b. store_bytes a (concat b) m"] map_cong) auto
  moreover have "length ?bs = 512 * unat count" by (rule length_sectors) (rule assms(1))
  ultimately show ?thesis
    using c nth_sectors [of "\<lambda>i. disk (of_nat (k + i))" "unat (x - a)" "unat count"] assms(1)
    by (simp add: store_bytes_eq file_byte_def)
qed

text \<open>A segment as its program header describes it, with sectors counted as natural numbers.\<close>

definition sectors :: "u32 \<Rightarrow> nat" where
  "sectors n = (unat n + 511) div 512"

lemma boot_segment_eq:
  assumes disk: "\<And>i. length (disk i) = 512"
    and h: "load32 m (ph + 4) = off" "load32 m (ph + 12) = paddr" "load32 m (ph + 16) = filesz" "load32 m (ph + 20) = memsz"
    and al: "unat off mod 512 = 0" and k: "k + unat off div 512 + 256 \<le> 0x10000000"
    and sz: "unat filesz + 512 < 2 ^ 32"
    and away: "\<And>i. i < 32 \<Longrightarrow> 512 * sectors filesz \<le> unat (ph + of_nat i - paddr)"
  defines "m' \<equiv> \<lambda>x. if unat (x - paddr) < 512 * (sectors filesz mod 256)
      then file_byte disk k (unat off + unat (x - paddr)) else m x"
  shows "boot_segment disk (of_nat k) ph m
    = (if memsz > filesz then memclr (paddr + 4 * filesz) (memsz - filesz) m' else m')"
proof -
  have r: "off mod 0x200 = 0" using al by (simp add: word_unat_eq_iff unat_mod)
  have cnt: "unat ((filesz + 0x200 - 1) div 0x200) = sectors filesz"
  proof -
    have "unat (filesz + 0x1FF) = unat filesz + 0x1FF" using sz unat_add_small [of filesz "0x1FF"] by simp
    moreover have "filesz + 0x200 - 1 = filesz + 0x1FF" by simp
    ultimately show ?thesis by (simp add: unat_div sectors_def add.commute [of filesz])
  qed
  have c8: "unat (ucast ((filesz + 0x200 - 1) div 0x200) :: u8) = sectors filesz mod 256"
    using cnt by (simp add: unsigned_ucast_eq unsigned_take_bit_eq take_bit_eq_mod)
  have "of_nat (unat off div 512) = off div 0x200" using word_arith_nat_div [of off "0x200"] by simp
  then have dv: "off div 0x200 + of_nat k = (of_nat (k + unat off div 512) :: u32)" by (simp add: add.commute)
  have fb: "file_byte disk (k + unat off div 512) j = file_byte disk k (unat off + j)" for j
  proof -
    obtain q where "unat off = 512 * q" using al by (auto elim: dvdE simp: mod_eq_0_iff_dvd)
    then have "(unat off + j) div 512 = unat off div 512 + j div 512" "(unat off + j) mod 512 = j mod 512"
      by simp_all
    then show ?thesis by (simp add: file_byte_def add.assoc)
  qed
  have rs: "readseg disk (paddr - off mod SECTSIZE) (ucast ((filesz + SECTSIZE - 1) div SECTSIZE))
      (off div SECTSIZE + of_nat k) m = m'"
    using readseg_eq [where k = "k + unat off div 512" and count = "ucast ((filesz + 0x200 - 1) div 0x200)"
        and disk = disk and a = paddr and m = m, OF disk] k c8 fb
    unfolding m'_def by (intro ext) (simp add: r dv)
  have keep: "load32 m' (ph + of_nat c) = load32 m (ph + of_nat c)" if "c \<le> 28" for c
  proof (rule load32_cong)
    fix i :: nat
    assume "i < 4"
    then have "512 * sectors filesz \<le> unat (ph + of_nat (c + i) - paddr)" using away [of "c + i"] that by simp
    moreover have "512 * (sectors filesz mod 256) \<le> 512 * sectors filesz"
      using mod_less_eq_dividend [of "sectors filesz" 256] by (rule mult_le_mono2)
    ultimately have "\<not> unat (ph + of_nat (c + i) - paddr) < 512 * (sectors filesz mod 256)" by linarith
    then show "m' (ph + of_nat c + of_nat i) = m (ph + of_nat c + of_nat i)"
      unfolding m'_def by (simp add: add.assoc)
  qed
  from keep [of 12] keep [of 16] keep [of 20] rs h show ?thesis
    by (simp add: boot_segment_def Let_def)
qed

lemma memclr_outside: "unat n \<le> unat (x - a) \<Longrightarrow> memclr a n m x = m x"
  unfolding memclr_def using stosb_eq [OF unat32_le, of a 0 n m x] by simp

lemma unat_neg32:
  assumes "(w :: u32) \<noteq> 0"
  shows "unat (- w) = 2 ^ 32 - unat w"
proof -
  have "(of_nat (2 ^ 32 - unat w) :: u32) = of_nat (2 ^ 32) - of_nat (unat w)"
    using unat32_le [of w] by (rule of_nat_diff)
  then have "- w = of_nat (2 ^ 32 - unat w)" by simp
  moreover have "2 ^ 32 - unat w < 2 ^ 32" using assms by (simp add: unat_gt_0)
  ultimately show ?thesis by (simp only: unat_of_nat32)
qed

section \<open>Properties\<close>

text \<open>
  C37: what the boot loader makes of a segment. If its offset in the file is a multiple of the sector size
  and it has fewer than 256 sectors, every byte of the file ends up at its address. The sector count is
  passed as a \<^verbatim>\<open>uint8_t\<close>: with 256 sectors, no byte is loaded at all. And the words added to \<^verbatim>\<open>paddr\<close> count
  fourfold: bytes of the zero-initialised part that the last sector does not reach, up to four times the
  file size, are not cleared.
\<close>

theorem boot_segment_loads:
  assumes disk: "\<And>i. length (disk i) = 512"
    and h: "load32 m (ph + 4) = off" "load32 m (ph + 12) = paddr" "load32 m (ph + 16) = filesz" "load32 m (ph + 20) = memsz"
    and al: "unat off mod 512 = 0" and k: "k + unat off div 512 + 256 \<le> 0x10000000"
    and sz: "4 * unat filesz + unat memsz < 2 ^ 32 - 512"
    and away: "\<And>i. i < 32 \<Longrightarrow> 512 * sectors filesz \<le> unat (ph + of_nat i - paddr)"
    and j: "j < 4 * unat filesz"
  shows "boot_segment disk (of_nat k) ph m (paddr + of_nat j)
    = (if j < 512 * (sectors filesz mod 256) then file_byte disk k (unat off + j) else m (paddr + of_nat j))"
proof -
  have u: "unat (of_nat j :: u32) = j" using j sz by (intro unat_of_nat32) simp
  have out: "unat (memsz - filesz) \<le> unat (paddr + of_nat j - (paddr + 4 * filesz))" if "memsz > filesz"
  proof -
    have f: "unat (4 * filesz) = 4 * unat filesz" using sz by (simp add: unat_word_ariths)
    have d: "unat (memsz - filesz) = unat memsz - unat filesz" using that by (intro unat_sub) simp
    define w where "w = 4 * filesz - of_nat j"
    have w: "unat w = 4 * unat filesz - j"
      unfolding w_def using f u j by (subst unat_sub) (simp_all add: word_le_nat_alt)
    then have "w \<noteq> 0" using j by auto
    then have "unat (- w) = 2 ^ 32 - (4 * unat filesz - j)" using unat_neg32 [of w] w by simp
    moreover have "paddr + of_nat j - (paddr + 4 * filesz) = - w" by (simp add: w_def)
    ultimately show ?thesis using d sz by simp
  qed
  have "unat filesz + 512 < 2 ^ 32" using sz by simp
  from boot_segment_eq [OF disk h al k this away] out show ?thesis
    by (auto simp: memclr_outside u)
qed

text \<open>A kernel of one segment of 16 bytes, 8 of them in the file, at sector 5 of a disk.\<close>

definition ex_header :: memory where
  "ex_header = store32 (store32 (store32 (store32 (\<lambda>_. 0xFF) 0x8004 0x1000) 0x800C 0x100000) 0x8010 8) 0x8014 16"

theorem boot_segment_loads_witness:
  "boot_segment (\<lambda>n. replicate 512 (ucast n)) 5 0x8000 ex_header 0x100003 = 13
    \<and> boot_segment (\<lambda>n. replicate 512 (ucast n)) 5 0x8000 ex_header 0x10001F = 13"
proof -
  let ?d = "\<lambda>n :: u32. replicate 512 (ucast n) :: u8 list"
  have h: "load32 ex_header (0x8000 + 4) = 0x1000" "load32 ex_header (0x8000 + 12) = 0x100000"
      "load32 ex_header (0x8000 + 16) = 8" "load32 ex_header (0x8000 + 20) = 16"
    unfolding ex_header_def by (simp_all add: al4_def)
  have s: "sectors 8 = 1" by (simp add: sectors_def)
  have far: "512 * sectors 8 \<le> unat (0x8000 + of_nat i - 0x100000 :: u32)" if "i < 32" for i
  proof -
    have "(0x8000 + of_nat i - 0x100000 :: u32) = of_nat (0xFFF08000 + i)" by simp
    moreover have "0xFFF08000 + i < 2 ^ 32" using that by simp
    ultimately have "unat (0x8000 + of_nat i - 0x100000 :: u32) = 0xFFF08000 + i" by (simp only: unat_of_nat32)
    then show ?thesis by (simp add: s)
  qed
  have "boot_segment ?d (of_nat 5) 0x8000 ex_header (0x100000 + of_nat j) = 13" if "j < 32" for j
  proof -
    have q: "(4096 + j) div 512 = 8" using that by simp
    moreover have "(4096 + j) mod 512 = j"
      using that div_mult_mod_eq [of "4096 + j" 512] unfolding q by simp
    ultimately have q: "(4096 + j) div 512 = 8" "(4096 + j) mod 512 = j" .
    have "file_byte ?d 5 (4096 + j) = 13" using that by (simp add: file_byte_def q)
    then show ?thesis
      using boot_segment_loads [of ?d ex_header "0x8000" "0x1000" "0x100000" 8 16 5 j, OF _ h] that far s by simp
  qed
  from this [of 3] this [of 31] show ?thesis by simp
qed

end
