(* ===== verification/Mix_Mkfs.thy ===== *)
theory Mix_Mkfs
  imports Mix_Boot
begin

text \<open>
  The image builder \<^verbatim>\<open>mkfs.c\<close>: it lays out the boot block, the super block, the kernel, the root directory
  and the files of the disk that \<^verbatim>\<open>boot/bootmain.c\<close> and \<^verbatim>\<open>fs/inode.c\<close> read. The theorem at the end reads the
  image back with the kernel's own decoding.
\<close>

section \<open>The image under construction\<close>

text \<open>
  \<open>bin\<close> is the buffer of 4 MB, \<open>used_block\<close> the array of the allocator. A message printed before an early
  return, which writes no image, is \<open>Panic\<close> here; an access outside an array is \<open>Fault\<close>.
\<close>

record fsimage =
  bin :: "nat \<Rightarrow> u8"
  used_block :: "nat \<Rightarrow> bool"

definition write_at :: "nat \<Rightarrow> u8 list \<Rightarrow> fsimage \<Rightarrow> fsimage" where
  "write_at off bs s =
     s\<lparr>bin := \<lambda>a. if off \<le> a \<and> a < off + length bs then bs ! (a - off) else bin s a\<rparr>"

definition mkfs_ialloc :: "fsimage \<Rightarrow> nat option \<times> fsimage" where
  "mkfs_ialloc s = (case find (\<lambda>i. \<not> used_block s i) [2..<2048] of
      Some i \<Rightarrow> (Some i, s\<lparr>used_block := (used_block s)(i := True)\<rparr>)
    | None \<Rightarrow> (None, s))"

text \<open>The blocks behind the first free one are marked without a look at them, past the array too.\<close>

definition mkfs_balloc :: "nat \<Rightarrow> fsimage \<Rightarrow> (nat option \<times> fsimage) res" where
  "mkfs_balloc n s = (case find (\<lambda>i. \<not> used_block s i) [2048..<8192] of
      Some i \<Rightarrow>
        if i + n > 8192 then Inl (Fault ''balloc: used_block'')
        else Inr (Some i, s\<lparr>used_block := \<lambda>k. (i \<le> k \<and> k < i + n) \<or> used_block s k\<rparr>)
    | None \<Rightarrow> Inr (None, s))"

text \<open>The index \<open>- 1\<close> of a failed allocation is an access before \<open>bin\<close>.\<close>

definition some_block :: "nat option \<times> fsimage \<Rightarrow> (nat \<times> fsimage) res" where
  "some_block r = (case r of (Some i, s) \<Rightarrow> Inr (i, s) | (None, s) \<Rightarrow> Inl (Fault ''bin''))"

definition blocks_of :: "nat \<Rightarrow> nat" where
  "blocks_of len = (len + 511) div 512"

text \<open>\<^verbatim>\<open>fread\<close> stores what the file has, at most \<open>n\<close> sectors, and leaves the rest of the last one.\<close>

definition read_file :: "nat \<Rightarrow> nat \<Rightarrow> u8 list \<Rightarrow> fsimage \<Rightarrow> fsimage" where
  "read_file k n content = write_at (512 * k) (take (512 * n) content)"

definition strncpy28 :: "u8 list \<Rightarrow> u8 list" where
  "strncpy28 name = take FNAMESIZ name @ replicate (FNAMESIZ - length name) 0"

section \<open>The steps of \<^verbatim>\<open>main\<close>\<close>

definition SYSFS :: nat where [simp]: "SYSFS = 512"

definition add_bootblock :: "u8 list option \<Rightarrow> fsimage \<Rightarrow> fsimage res" where
  "add_bootblock boot s = (case boot of
      None \<Rightarrow> Inl (Panic ''no bootblock'')
    | Some bs \<Rightarrow> let s = read_file 0 1 bs s in Inr (s\<lparr>used_block := (used_block s)(0 := True)\<rparr>))"

definition add_kernel :: "u8 list option \<Rightarrow> fsimage \<Rightarrow> fsimage res" where
  "add_kernel kern s = (case kern of
      None \<Rightarrow> Inl (Panic ''no kernel'')
    | Some bs \<Rightarrow>
        bnd (mkfs_balloc (blocks_of (length bs)) s) (\<lambda>r.
        bnd (some_block r) (\<lambda>(k, s).
        Inr (read_file k (blocks_of (length bs)) bs (write_at (SYSFS + 12) (put32 (of_nat k)) s)))))"

text \<open>The fields of the inode in sector \<open>ino\<close>, as the code assigns them.\<close>

definition set_dinode :: "nat \<Rightarrow> u16 \<Rightarrow> u32 \<Rightarrow> u32 list \<Rightarrow> fsimage \<Rightarrow> fsimage" where
  "set_dinode ino ty sz addrs s =
     (let s = write_at (512 * ino) (put16 ty) s;
          s = write_at (512 * ino + 2) (put16 0) s;
          s = write_at (512 * ino + 4) (put16 0) s;
          s = write_at (512 * ino + 6) (put16 0x755) s;
          s = write_at (512 * ino + 8) (put32 1) s;
          s = write_at (512 * ino + 12) (put32 sz) s
      in write_at (512 * ino + 16) (concat (map put32 addrs)) s)"

definition make_rootdir :: "fsimage \<Rightarrow> (nat \<times> fsimage) res" where
  "make_rootdir s =
     bnd (some_block (mkfs_ialloc s)) (\<lambda>(ino, s).
     let s = write_at (SYSFS + 8) (put32 (of_nat ino)) s in
     bnd (mkfs_balloc 512 s) (\<lambda>r.
     bnd (some_block r) (\<lambda>(rb, s).
     Inr (rb, set_dinode ino T_DIR 512 [of_nat rb] s))))"

text \<open>
  One file: \<open>i\<close> counts from 0, \<open>rb\<close> is the block of the root directory, \<^verbatim>\<open>&argv[i][7]\<close> the name without
  \<^verbatim>\<open>build/_\<close>. The directory has 16 entries.
\<close>

definition add_file :: "nat \<Rightarrow> nat \<Rightarrow> u8 list \<times> u8 list option \<Rightarrow> fsimage \<Rightarrow> fsimage res" where
  "add_file rb i f s =
     bnd (some_block (mkfs_ialloc s)) (\<lambda>(ino, s).
     if i \<ge> NDIRENT then Inl (Fault ''rootdir->dir'')
     else if length (fst f) < 7 then Inl (Fault ''argv'')
     else
       (let s = write_at (512 * rb + 32 * i) (put32 (of_nat ino)) s;
            s = write_at (512 * rb + 32 * i + 4) (strncpy28 (drop 7 (fst f))) s
        in case snd f of
             None \<Rightarrow> Inl (Panic ''no file'')
           | Some bs \<Rightarrow>
               let n = blocks_of (length bs) in
               if n > 124 then Inl (Panic ''file size too large'')
               else
                 bnd (mkfs_balloc n s) (\<lambda>r.
                 bnd (some_block r) (\<lambda>(k, s).
                 Inr (read_file k n bs
                   (set_dinode ino T_FILE (of_nat (length bs)) (map (\<lambda>j. of_nat (k + j)) [0..<n]) s))))))"

fun add_files :: "nat \<Rightarrow> nat \<Rightarrow> (u8 list \<times> u8 list option) list \<Rightarrow> fsimage \<Rightarrow> fsimage res" where
  "add_files rb i [] s = Inr s"
| "add_files rb i (f # fs) s = bnd (add_file rb i f s) (add_files rb (Suc i) fs)"

text \<open>A list of free blocks: 128 numbers in a block, and the last one is the next block of the list.\<close>

fun free_list :: "nat list \<Rightarrow> nat \<Rightarrow> nat \<Rightarrow> fsimage \<Rightarrow> fsimage" where
  "free_list [] block cnt s = s"
| "free_list (i # is) block cnt s =
     (let s = write_at (512 * block + 4 * cnt) (put32 (of_nat i)) s
      in if cnt = 127 then free_list is i 0 s else free_list is block (cnt + 1) s)"

definition make_inode_list :: "fsimage \<Rightarrow> fsimage res" where
  "make_inode_list s =
     bnd (some_block (mkfs_ialloc s)) (\<lambda>(k, s).
     Inr (free_list [k..<2048] k 0 (write_at (SYSFS + 20) (put32 (of_nat k)) s)))"

definition make_block_list :: "fsimage \<Rightarrow> fsimage res" where
  "make_block_list s =
     bnd (mkfs_balloc 512 s) (\<lambda>r.
     bnd (some_block r) (\<lambda>(k, s).
     Inr (free_list [k..<8192] k 0 (write_at (SYSFS + 16) (put32 (of_nat k)) s))))"

definition set_super :: "fsimage \<Rightarrow> fsimage" where
  "set_super s = write_at SYSFS (put32 127) (write_at (SYSFS + 4) (put32 127) s)"

text \<open>The image written out, by sector.\<close>

definition sector :: "(nat \<Rightarrow> u8) \<Rightarrow> nat \<Rightarrow> u8 list" where
  "sector b k = map (\<lambda>j. b (512 * k + j)) [0..<512]"

definition mkfs :: "u8 list option \<Rightarrow> u8 list option \<Rightarrow> (u8 list \<times> u8 list option) list \<Rightarrow> (nat \<Rightarrow> u8 list) res" where
  "mkfs boot kern args =
     bnd (add_bootblock boot \<lparr>bin = (\<lambda>_. 0), used_block = (\<lambda>_. False)\<rparr>) (\<lambda>s.
     bnd (add_kernel kern s) (\<lambda>s.
     bnd (make_rootdir s) (\<lambda>(rb, s).
     bnd (add_files rb 0 args s) (\<lambda>s.
     bnd (make_inode_list s) (\<lambda>s.
     bnd (make_block_list s) (\<lambda>s.
     Inr (sector (bin (set_super s)))))))))"

section \<open>Writing\<close>

lemma write_at_sel [simp]:
  "used_block (write_at off bs s) = used_block s"
  "bin (write_at off bs s) a = (if off \<le> a \<and> a < off + length bs then bs ! (a - off) else bin s a)"
  by (simp_all add: write_at_def)

lemma write_at_other: "a < off \<or> off + length bs \<le> a \<Longrightarrow> bin (write_at off bs s) a = bin s a"
  by auto

lemma write_at_append:
  assumes "off' = off + length bs"
  shows "write_at off' bs' (write_at off bs s) = write_at off (bs @ bs') s"
proof -
  have "(if off' \<le> a \<and> a < off' + length bs' then bs' ! (a - off')
      else if off \<le> a \<and> a < off + length bs then bs ! (a - off) else bin s a)
    = (if off \<le> a \<and> a < off + length (bs @ bs') then (bs @ bs') ! (a - off) else bin s a)" for a
    unfolding assms by (auto simp: nth_append)
  then show ?thesis by (simp add: write_at_def cong: if_cong)
qed

lemma concat_put32 [simp]: "length (concat (map put32 vs)) = 4 * length vs"
  by (induction vs) simp_all

lemma nth_concat_put32:
  "j < length vs \<Longrightarrow> r < 4 \<Longrightarrow> concat (map put32 vs) ! (4 * j + r) = put32 (vs ! j) ! r"
proof (induction vs arbitrary: j)
  case Nil
  then show ?case by simp
next
  case (Cons v vs)
  then show ?case by (cases j) (simp_all add: nth_append)
qed

definition dinode_bytes :: "u16 \<Rightarrow> u32 \<Rightarrow> u32 list \<Rightarrow> u8 list" where
  "dinode_bytes ty sz addrs =
     put16 ty @ put16 0 @ put16 0 @ put16 0x755 @ put32 1 @ put32 sz @ concat (map put32 addrs)"

lemma length_dinode_bytes [simp]: "length (dinode_bytes ty sz addrs) = 16 + 4 * length addrs"
  by (simp add: dinode_bytes_def)

lemma set_dinode_eq: "set_dinode ino ty sz addrs s = write_at (512 * ino) (dinode_bytes ty sz addrs) s"
  by (simp add: set_dinode_def dinode_bytes_def Let_def write_at_append)

section \<open>Reading back\<close>

text \<open>The bytes \<open>bs\<close> at the offset \<open>off\<close>.\<close>

definition stored :: "(nat \<Rightarrow> u8) \<Rightarrow> nat \<Rightarrow> u8 list \<Rightarrow> bool" where
  "stored b off bs \<longleftrightarrow> (\<forall>a < length bs. b (off + a) = bs ! a)"

lemma stored_append: "stored b off (xs @ ys) \<longleftrightarrow> stored b off xs \<and> stored b (off + length xs) ys"
proof
  assume l: "stored b off (xs @ ys)"
  have "b (off + length xs + a) = ys ! a" if "a < length ys" for a
    using l [unfolded stored_def, rule_format, of "length xs + a"] that by (simp add: add.assoc)
  with l show "stored b off xs \<and> stored b (off + length xs) ys" by (auto simp: stored_def nth_append)
next
  assume r: "stored b off xs \<and> stored b (off + length xs) ys"
  show "stored b off (xs @ ys)"
    unfolding stored_def
  proof (intro allI impI)
    fix a
    assume "a < length (xs @ ys)"
    then show "b (off + a) = (xs @ ys) ! a"
      using r [unfolded stored_def, THEN conjunct2, rule_format, of "a - length xs"] r
      by (cases "a < length xs") (auto simp: stored_def nth_append)
  qed
qed

lemma stored_cong: "stored b off bs \<Longrightarrow> (\<And>a. a < length bs \<Longrightarrow> b' (off + a) = b (off + a)) \<Longrightarrow> stored b' off bs"
  by (simp add: stored_def)

lemma stored_write: "stored (bin (write_at off bs s)) off bs"
  by (simp add: stored_def)

lemma nth_sector: "j < 512 \<Longrightarrow> sector b k ! j = b (512 * k + j)"
  by (simp add: sector_def)

lemma get32_sector:
  assumes "stored b (512 * k + j) (put32 v)" and "j + 4 \<le> 512"
  shows "get32 (sector b k) j = v"
proof -
  have "b (512 * k + (j + i)) = put32 v ! i" if "i < 4" for i
    using assms(1) that by (simp add: stored_def add.assoc)
  from this [of 0] this [of 1] this [of 2] this [of 3] show ?thesis
    using assms(2) by (simp add: get32_def nth_sector put32_def)
qed

lemma get16_sector:
  assumes "stored b (512 * k + j) (put16 v)" and "j + 2 \<le> 512"
  shows "get16 (sector b k) j = v"
proof -
  have "b (512 * k + (j + i)) = put16 v ! i" if "i < 2" for i
    using assms(1) that by (simp add: stored_def add.assoc)
  from this [of 0] this [of 1] have "get16 (sector b k) j = get16 ([] @ put16 v @ []) (length [])"
    using assms(2) by (simp add: get16_def nth_sector put16_def)
  then show ?thesis using get16_append [of "[]" v "[]"] by simp
qed

lemma stored_concat:
  assumes "stored b off (concat (map put32 vs))" and "j < length vs"
  shows "stored b (off + 4 * j) (put32 (vs ! j))"
  unfolding stored_def
proof (intro allI impI)
  fix a
  assume "a < length (put32 (vs ! j))"
  with assms show "b (off + 4 * j + a) = put32 (vs ! j) ! a"
    using nth_concat_put32 [of j vs a] assms(1) [unfolded stored_def, rule_format, of "4 * j + a"]
    by (simp add: add.assoc)
qed

lemma load_dinode_stored:
  assumes "stored b (512 * ino) (dinode_bytes ty sz addrs)" and "length addrs \<le> 124"
  shows "itype (load_dinode (sector b ino) ip) = ty" and "isize (load_dinode (sector b ino) ip) = sz"
    and "j < length addrs \<Longrightarrow> iaddr (load_dinode (sector b ino) ip) ! j = addrs ! j"
proof -
  have "stored b (512 * ino) (put16 ty)" and sz: "stored b (512 * ino + 12) (put32 sz)"
    and ad: "stored b (512 * ino + 16) (concat (map put32 addrs))"
    using assms(1) by (simp_all add: dinode_bytes_def stored_append add.commute [of "512 * ino"])
  then show "itype (load_dinode (sector b ino) ip) = ty" and "isize (load_dinode (sector b ino) ip) = sz"
    by (simp_all add: load_dinode_def get16_sector [where j = 0, simplified] get32_sector)
  assume j: "j < length addrs"
  then have "stored b (512 * ino + (16 + 4 * j)) (put32 (addrs ! j))"
    using stored_concat [OF ad] by (simp add: add.assoc)
  then show "iaddr (load_dinode (sector b ino) ip) ! j = addrs ! j"
    using j assms(2) by (simp add: load_dinode_def get32_sector)
qed

section \<open>Allocation\<close>

text \<open>The allocator hands out inodes and blocks in order: up to \<open>I\<close> and \<open>B\<close> so far.\<close>

definition allocated :: "fsimage \<Rightarrow> nat \<Rightarrow> nat \<Rightarrow> bool" where
  "allocated s I B \<longleftrightarrow> (\<forall>i. used_block s i \<longleftrightarrow> i = 0 \<or> (2 \<le> i \<and> i < I) \<or> (2048 \<le> i \<and> i < B))"

lemma allocated_write [simp]: "allocated (write_at off bs s) I B = allocated s I B"
  by (simp add: allocated_def)

lemma find_upt:
  assumes "a \<le> k" and "k < b" and "P k" and "\<And>j. a \<le> j \<Longrightarrow> j < k \<Longrightarrow> \<not> P j"
  shows "find P [a..<b] = Some k"
  using assms by (auto simp: find_Some_iff intro!: exI [of _ "k - a"])

lemma mkfs_ialloc_next:
  assumes "allocated s I B" and "2 \<le> I" and "I < 2048"
  shows "mkfs_ialloc s = (Some I, s\<lparr>used_block := (used_block s)(I := True)\<rparr>)"
    and "allocated (s\<lparr>used_block := (used_block s)(I := True)\<rparr>) (Suc I) B"
proof -
  have u: "used_block s j \<longleftrightarrow> j = 0 \<or> (2 \<le> j \<and> j < I) \<or> (2048 \<le> j \<and> j < B)" for j
    using assms(1) by (simp add: allocated_def)
  have find: "find (\<lambda>i. \<not> used_block s i) [2..<2048] = Some I"
    by (rule find_upt) (use assms(2-3) in \<open>simp_all add: u\<close>)
  show "mkfs_ialloc s = (Some I, s\<lparr>used_block := (used_block s)(I := True)\<rparr>)"
    unfolding mkfs_ialloc_def find by simp
  show "allocated (s\<lparr>used_block := (used_block s)(I := True)\<rparr>) (Suc I) B"
    unfolding allocated_def
  proof
    fix i
    show "used_block (s\<lparr>used_block := (used_block s)(I := True)\<rparr>) i
        \<longleftrightarrow> i = 0 \<or> (2 \<le> i \<and> i < Suc I) \<or> (2048 \<le> i \<and> i < B)"
      using assms(2) by (auto simp: u)
  qed
qed

lemma mkfs_balloc_next:
  assumes "allocated s I B" and "I \<le> 2048" and "2048 \<le> B" and "B < 8192" and "B + n \<le> 8192"
  defines "s' \<equiv> s\<lparr>used_block := \<lambda>k. (B \<le> k \<and> k < B + n) \<or> used_block s k\<rparr>"
  shows "mkfs_balloc n s = Inr (Some B, s')" and "allocated s' I (B + n)"
proof -
  have u: "used_block s j \<longleftrightarrow> j = 0 \<or> (2 \<le> j \<and> j < I) \<or> (2048 \<le> j \<and> j < B)" for j
    using assms(1) by (simp add: allocated_def)
  have find: "find (\<lambda>i. \<not> used_block s i) [2048..<8192] = Some B"
    by (rule find_upt) (use assms(2-4) in \<open>simp_all add: u\<close>)
  from assms(5) show "mkfs_balloc n s = Inr (Some B, s')" unfolding mkfs_balloc_def find by (simp add: s'_def)
  show "allocated s' I (B + n)"
    unfolding allocated_def
  proof
    fix i
    have "2048 \<le> i \<and> i < B + n \<longleftrightarrow> (2048 \<le> i \<and> i < B) \<or> (B \<le> i \<and> i < B + n)" using assms(3) by auto
    moreover have "used_block s' i \<longleftrightarrow> (B \<le> i \<and> i < B + n) \<or> used_block s i" by (simp add: s'_def)
    ultimately show "used_block s' i \<longleftrightarrow> i = 0 \<or> (2 \<le> i \<and> i < I) \<or> (2048 \<le> i \<and> i < B + n)"
      using assms(1) unfolding allocated_def by blast
  qed
qed

lemma blocks_of_bound: "len \<le> 512 * blocks_of len"
  unfolding blocks_of_def using div_mult_mod_eq [of "len + 511" 512] mod_less_divisor [of 512 "len + 511"]
  by linarith

lemma blocks_of_index:
  assumes "j < len"
  shows "j div 512 < blocks_of len"
proof -
  have "j < 512 * blocks_of len" using assms blocks_of_bound [of len] by linarith
  then show ?thesis by (simp add: div_less_iff_less_mult mult.commute)
qed

lemma length_strncpy28 [simp]: "length (strncpy28 name) = 28"
  by (simp add: strncpy28_def)

section \<open>The files\<close>

text \<open>A file of the directory in block \<open>rb\<close>: its entry \<open>i\<close>, its inode \<open>ino\<close> and its data from block \<open>B\<close> on.\<close>

definition file_in :: "(nat \<Rightarrow> u8) \<Rightarrow> nat \<Rightarrow> nat \<Rightarrow> nat \<Rightarrow> nat \<Rightarrow> u8 list \<Rightarrow> u8 list \<Rightarrow> bool" where
  "file_in b rb i ino B path bs \<longleftrightarrow>
     stored b (512 * rb + 32 * i) (put32 (of_nat ino) @ strncpy28 (drop 7 path))
     \<and> stored b (512 * ino)
         (dinode_bytes T_FILE (of_nat (length bs)) (map (\<lambda>j. of_nat (B + j)) [0..<blocks_of (length bs)]))
     \<and> stored b (512 * B) bs"

text \<open>The bytes that files \<open>i\<close> to \<open>j\<close> of the directory, inodes \<open>I\<close> to \<open>I'\<close> and blocks \<open>B\<close> to \<open>B'\<close> occupy.\<close>

definition touched :: "nat \<Rightarrow> nat \<Rightarrow> nat \<Rightarrow> nat \<Rightarrow> nat \<Rightarrow> nat \<Rightarrow> nat \<Rightarrow> nat \<Rightarrow> bool" where
  "touched rb i j I I' B B' a \<longleftrightarrow>
     (512 * rb + 32 * i \<le> a \<and> a < 512 * rb + 32 * j)
     \<or> (512 * I \<le> a \<and> a < 512 * I') \<or> (512 * B \<le> a \<and> a < 512 * B')"

lemma add_file_ok:
  assumes al: "allocated s I B" and I: "2 \<le> I" "I < 2048" and rb: "2048 \<le> rb" "rb < B"
    and B: "B < 8192" "B + blocks_of (length bs) \<le> 8192" and n: "blocks_of (length bs) \<le> 124"
    and i: "i < 16" and path: "7 \<le> length path"
  obtains s' where "add_file rb i (path, Some bs) s = Inr s'" and "allocated s' (Suc I) (B + blocks_of (length bs))"
    and "file_in (bin s') rb i I B path bs"
    and "\<And>a. \<not> touched rb i (Suc i) I (Suc I) B (B + blocks_of (length bs)) a \<Longrightarrow> bin s' a = bin s a"
proof -
  let ?n = "blocks_of (length bs)"
  define di where "di = dinode_bytes T_FILE (of_nat (length bs)) (map (\<lambda>j. of_nat (B + j)) [0..<?n])"
  define ent where "ent = put32 (of_nat I) @ strncpy28 (drop 7 path)"
  define s0 where "s0 = s\<lparr>used_block := (used_block s)(I := True)\<rparr>"
  define s1 where "s1 = write_at (512 * rb + 32 * i) ent s0"
  define s2 where "s2 = s1\<lparr>used_block := \<lambda>k. (B \<le> k \<and> k < B + ?n) \<or> used_block s1 k\<rparr>"
  define s3 where "s3 = write_at (512 * I) di s2"
  define s4 where "s4 = write_at (512 * B) bs s3"
  have al1: "allocated s1 (Suc I) B" using mkfs_ialloc_next(2) [OF al I] by (simp add: s1_def s0_def)
  have ba: "mkfs_balloc ?n s1 = Inr (Some B, s2)" and al2: "allocated s2 (Suc I) (B + ?n)"
    using mkfs_balloc_next [OF al1, of ?n] I B rb unfolding s2_def by simp_all
  have "write_at (512 * rb + 32 * i + 4) (strncpy28 (drop 7 path)) (write_at (512 * rb + 32 * i) (put32 (of_nat I)) s0) = s1"
    by (simp add: write_at_append s1_def ent_def)
  then have run: "add_file rb i (path, Some bs) s = Inr s4"
    using mkfs_ialloc_next(1) [OF al I, folded s0_def] i path n ba blocks_of_bound [of "length bs"]
    by (simp add: add_file_def some_block_def set_dinode_eq read_file_def s4_def s3_def di_def)
  have b: "bin s2 = bin s1" "bin s0 = bin s" by (simp_all add: s2_def s0_def)
  have len: "length ent = 32" "length di \<le> 512" "length bs \<le> 512 * ?n"
    using n blocks_of_bound [of "length bs"] by (simp_all add: ent_def di_def)
  have "stored (bin s1) (512 * rb + 32 * i) ent" unfolding s1_def by (rule stored_write)
  then have "stored (bin s4) (512 * rb + 32 * i) ent"
    by (rule stored_cong) (use len i I rb in \<open>simp add: s4_def s3_def b write_at_other del: write_at_sel\<close>)
  moreover have "stored (bin s3) (512 * I) di" unfolding s3_def by (rule stored_write)
  then have "stored (bin s4) (512 * I) di"
    by (rule stored_cong) (use len I rb in \<open>simp add: s4_def write_at_other del: write_at_sel\<close>)
  moreover have "stored (bin s4) (512 * B) bs" unfolding s4_def by (rule stored_write)
  ultimately have fi: "file_in (bin s4) rb i I B path bs" by (simp add: file_in_def ent_def di_def)
  have fr: "bin s4 a = bin s a" if "\<not> touched rb i (Suc i) I (Suc I) B (B + ?n) a" for a
  proof -
    have a: "a < 512 * rb + 32 * i \<or> 512 * rb + 32 * i + length ent \<le> a" "a < 512 * I \<or> 512 * I + length di \<le> a"
        "a < 512 * B \<or> 512 * B + length bs \<le> a"
      using that len unfolding touched_def by auto
    show ?thesis
      unfolding s4_def s3_def write_at_other [OF a(3)] write_at_other [OF a(2)] b
      unfolding s1_def write_at_other [OF a(1)] b ..
  qed
  show thesis by (rule that [OF run _ fi fr]) (use al2 in \<open>simp_all add: s4_def s3_def\<close>)
qed

text \<open>The arguments that make a file system: at most 124 sectors each, and a path with the prefix.\<close>

definition good_file :: "u8 list \<times> u8 list option \<Rightarrow> bool" where
  "good_file f \<longleftrightarrow> 7 \<le> length (fst f) \<and> (case snd f of Some bs \<Rightarrow> length bs \<le> 124 * 512 | None \<Rightarrow> False)"

definition file_blocks :: "(u8 list \<times> u8 list option) list \<Rightarrow> nat" where
  "file_blocks fs = sum_list (map (\<lambda>f. blocks_of (length (the (snd f)))) fs)"

lemma file_blocks_simps [simp]:
  "file_blocks [] = 0" "file_blocks (f # fs) = blocks_of (length (the (snd f))) + file_blocks fs"
  by (simp_all add: file_blocks_def)

lemma blocks_of_le: "len \<le> 124 * 512 \<Longrightarrow> blocks_of len \<le> 124"
  unfolding blocks_of_def using div_le_mono [of "len + 511" "124 * 512 + 511" 512] by simp

lemma file_in_cong:
  assumes "file_in b rb i I B path bs" and "length bs \<le> 124 * 512"
    and "\<And>a. touched rb i (Suc i) I (Suc I) B (B + blocks_of (length bs)) a \<Longrightarrow> b' a = b a"
  shows "file_in b' rb i I B path bs"
  using assms(1) blocks_of_le [OF assms(2)] blocks_of_bound [of "length bs"] unfolding file_in_def
  by (auto elim!: stored_cong intro!: assms(3) simp: touched_def)

lemma add_files_ok:
  assumes "allocated s I B" and "2 \<le> I" and "I + length fs \<le> 2048" and "2048 \<le> rb" and "rb < B"
    and "B + file_blocks fs < 8192" and "i + length fs \<le> 16" and "\<forall>f \<in> set fs. good_file f"
  shows "\<exists>s'. add_files rb i fs s = Inr s' \<and> allocated s' (I + length fs) (B + file_blocks fs)
    \<and> (\<forall>j < length fs. file_in (bin s') rb (i + j) (I + j) (B + file_blocks (take j fs)) (fst (fs ! j)) (the (snd (fs ! j))))
    \<and> (\<forall>a. \<not> touched rb i (i + length fs) I (I + length fs) B (B + file_blocks fs) a \<longrightarrow> bin s' a = bin s a)"
  using assms
proof (induction fs arbitrary: s i I B)
  case Nil
  then show ?case by simp
next
  case (Cons f fs)
  obtain path bs where f: "f = (path, Some bs)" and g: "7 \<le> length path" "length bs \<le> 124 * 512"
    using Cons.prems(8) by (cases f) (auto simp: good_file_def split: option.splits)
  let ?n = "blocks_of (length bs)"
  obtain s1 where one: "add_file rb i (path, Some bs) s = Inr s1" "allocated s1 (Suc I) (B + ?n)"
      "file_in (bin s1) rb i I B path bs"
      "\<And>a. \<not> touched rb i (Suc i) I (Suc I) B (B + ?n) a \<Longrightarrow> bin s1 a = bin s a"
    by (rule add_file_ok [of s I B rb bs i path]) (use Cons.prems g blocks_of_le [OF g(2)] f in simp_all)
  have "\<exists>s'. add_files rb (Suc i) fs s1 = Inr s' \<and> allocated s' (Suc I + length fs) (B + ?n + file_blocks fs)
    \<and> (\<forall>j < length fs. file_in (bin s') rb (Suc i + j) (Suc I + j) (B + ?n + file_blocks (take j fs)) (fst (fs ! j))
        (the (snd (fs ! j))))
    \<and> (\<forall>a. \<not> touched rb (Suc i) (Suc i + length fs) (Suc I) (Suc I + length fs) (B + ?n) (B + ?n + file_blocks fs) a
        \<longrightarrow> bin s' a = bin s1 a)"
    by (rule Cons.IH) (use Cons.prems one(2) f in simp_all)
  then obtain s' where rest: "add_files rb (Suc i) fs s1 = Inr s'"
      "allocated s' (Suc I + length fs) (B + ?n + file_blocks fs)"
      "\<And>j. j < length fs \<Longrightarrow> file_in (bin s') rb (Suc i + j) (Suc I + j) (B + ?n + file_blocks (take j fs)) (fst (fs ! j))
        (the (snd (fs ! j)))"
      "\<And>a. \<not> touched rb (Suc i) (Suc i + length fs) (Suc I) (Suc I + length fs) (B + ?n) (B + ?n + file_blocks fs) a
        \<Longrightarrow> bin s' a = bin s1 a"
    by blast
  have "file_in (bin s') rb i I B path bs"
    by (rule file_in_cong [OF one(3) g(2)], rule rest(4)) (use Cons.prems in \<open>auto simp: touched_def f\<close>)
  then have "file_in (bin s') rb (i + j) (I + j) (B + file_blocks (take j (f # fs))) (fst ((f # fs) ! j))
      (the (snd ((f # fs) ! j)))" if "j < length (f # fs)" for j
    using rest(3) [of "j - 1"] that by (cases j) (simp_all add: f add.assoc)
  moreover have "bin s' a = bin s a"
    if "\<not> touched rb i (i + length (f # fs)) I (I + length (f # fs)) B (B + file_blocks (f # fs)) a" for a
  proof -
    have "\<not> touched rb (Suc i) (Suc i + length fs) (Suc I) (Suc I + length fs) (B + ?n) (B + ?n + file_blocks fs) a"
      "\<not> touched rb i (Suc i) I (Suc I) B (B + ?n) a"
      using that by (auto simp: touched_def f)
    then show ?thesis by (simp add: rest(4) one(4))
  qed
  ultimately show ?case
    using one(1) rest(1,2) by (intro exI [of _ s']) (simp add: f add.assoc)
qed

section \<open>The steps around the files\<close>

lemma free_list_frame:
  assumes "a < 512 * lo \<or> 512 * hi \<le> a" and "\<forall>i \<in> set is. lo \<le> i \<and> i < hi"
    and "lo \<le> block" and "block < hi" and "cnt < 128"
  shows "bin (free_list is block cnt s) a = bin s a"
  using assms
proof (induction "is" block cnt s rule: free_list.induct)
  case (1 block cnt s)
  then show ?case by simp
next
  case (2 i "is" block cnt s)
  have "bin (write_at (512 * block + 4 * cnt) (put32 (of_nat i)) s) a = bin s a"
    by (rule write_at_other) (use 2 in auto)
  with 2 show ?case by (cases "cnt = 127") (simp_all add: Let_def del: write_at_sel)
qed

lemma free_list_used [simp]: "used_block (free_list is block cnt s) = used_block s"
  by (induction "is" block cnt s rule: free_list.induct) (simp_all add: Let_def)

lemma lists_ok:
  assumes al: "allocated s I B" and I: "2 \<le> I" "I < 2048" and B: "2048 \<le> B" "B + 512 \<le> 8192"
  obtains s1 s2 where "make_inode_list s = Inr s1" and "make_block_list s1 = Inr s2"
    and "\<And>a. a < 512 * I \<or> (512 * 2048 \<le> a \<and> a < 512 * B) \<Longrightarrow> a < 528 \<or> 536 \<le> a \<Longrightarrow> bin s2 a = bin s a"
proof -
  define s0 where "s0 = s\<lparr>used_block := (used_block s)(I := True)\<rparr>"
  define s1 where "s1 = free_list [I..<2048] I 0 (write_at (SYSFS + 20) (put32 (of_nat I)) s0)"
  define s1' where "s1' = s1\<lparr>used_block := \<lambda>k. (B \<le> k \<and> k < B + 512) \<or> used_block s1 k\<rparr>"
  define s2 where "s2 = free_list [B..<8192] B 0 (write_at (SYSFS + 16) (put32 (of_nat B)) s1')"
  note ia = mkfs_ialloc_next [OF al I, folded s0_def]
  have one: "make_inode_list s = Inr s1"
    unfolding make_inode_list_def ia(1) some_block_def s1_def by simp
  have al1: "allocated s1 (Suc I) B" using ia(2) by (simp add: s1_def allocated_def)
  note ba = mkfs_balloc_next [OF al1, of 512, folded s1'_def]
  have two: "make_block_list s1 = Inr s2"
    using I B by (simp add: make_block_list_def ba some_block_def s2_def del: upt_rec_numeral)
  have "bin s2 a = bin s a"
    if a: "a < 512 * I \<or> (512 * 2048 \<le> a \<and> a < 512 * B)" "a < 528 \<or> 536 \<le> a" for a
  proof -
    have "bin s2 a = bin (write_at (SYSFS + 16) (put32 (of_nat B)) s1') a"
      unfolding s2_def by (rule free_list_frame [of _ B 8192]) (use a I B in auto)
    also have "\<dots> = bin s1' a" by (rule write_at_other) (use a in auto)
    also have "\<dots> = bin s1 a" by (simp add: s1'_def)
    also have "\<dots> = bin (write_at (SYSFS + 20) (put32 (of_nat I)) s0) a"
      unfolding s1_def by (rule free_list_frame [of _ I 2048]) (use a I B in auto)
    also have "\<dots> = bin s0 a" by (rule write_at_other) (use a in auto)
    finally show ?thesis by (simp add: s0_def)
  qed
  with one two show thesis by (rule that)
qed

lemma prefix_ok:
  assumes "2048 + blocks_of (length kern) + 512 \<le> 8192"
  defines "rb \<equiv> 2048 + blocks_of (length kern)"
  obtains s1 s2 s3 where "add_bootblock (Some boot) \<lparr>bin = (\<lambda>_. 0), used_block = (\<lambda>_. False)\<rparr> = Inr s1"
    and "add_kernel (Some kern) s1 = Inr s2" and "make_rootdir s2 = Inr (rb, s3)"
    and "allocated s3 3 (rb + 512)"
    and "stored (bin s3) 0 (take 512 boot)" and "stored (bin s3) 520 (put32 2 @ put32 2048)"
    and "stored (bin s3) (512 * 2) (dinode_bytes T_DIR 512 [of_nat rb])" and "stored (bin s3) (512 * 2048) kern"
    and "\<And>a. 512 * rb \<le> a \<Longrightarrow> bin s3 a = 0"
proof -
  let ?K = "blocks_of (length kern)"
  define z where "z = \<lparr>bin = (\<lambda>_. 0 :: u8), used_block = (\<lambda>_. False)\<rparr>"
  define s1 where "s1 = (write_at 0 (take 512 boot) z)\<lparr>used_block := (used_block z)(0 := True)\<rparr>"
  define k1 where "k1 = s1\<lparr>used_block := \<lambda>k. (2048 \<le> k \<and> k < 2048 + ?K) \<or> used_block s1 k\<rparr>"
  define s2 where "s2 = write_at (512 * 2048) kern (write_at 524 (put32 2048) k1)"
  define r1 where "r1 = s2\<lparr>used_block := (used_block s2)(2 := True)\<rparr>"
  define r2 where "r2 = write_at 520 (put32 2) r1"
  define r3 where "r3 = r2\<lparr>used_block := \<lambda>k. (rb \<le> k \<and> k < rb + 512) \<or> used_block r2 k\<rparr>"
  define s3 where "s3 = write_at (512 * 2) (dinode_bytes T_DIR 512 [of_nat rb]) r3"
  have 1: "add_bootblock (Some boot) z = Inr s1"
    by (simp add: add_bootblock_def read_file_def s1_def z_def write_at_def)
  have "allocated s1 2 2048" by (auto simp: allocated_def s1_def z_def)
  from mkfs_balloc_next [OF this, of ?K, folded k1_def] assms(1)
  have k: "mkfs_balloc ?K s1 = Inr (Some 2048, k1)" "allocated k1 2 rb" by (simp_all add: rb_def)
  have 2: "add_kernel (Some kern) s1 = Inr s2"
    using k(1) blocks_of_bound [of "length kern"] by (simp add: add_kernel_def some_block_def read_file_def s2_def)
  have "allocated s2 2 rb" using k(2) by (simp add: s2_def)
  note r = mkfs_ialloc_next [OF this, folded r1_def, simplified]
  have "allocated r2 3 rb" using r(2) by (simp add: r2_def)
  from mkfs_balloc_next [OF this, of 512, folded r3_def] assms(1)
  have b: "mkfs_balloc 512 r2 = Inr (Some rb, r3)" "allocated r3 3 (rb + 512)" by (simp_all add: rb_def)
  have 3: "make_rootdir s2 = Inr (rb, s3)"
    using b(1) by (simp add: make_rootdir_def some_block_def r(1) r2_def [symmetric] set_dinode_eq s3_def)
  have eq: "bin r3 = bin r2" "bin r1 = bin s2" "bin k1 = bin s1" by (simp_all add: r3_def r1_def k1_def)
  have "512 * rb = 512 * 2048 + 512 * ?K" by (simp add: rb_def)
  then have far: "512 * 2048 + length kern \<le> 512 * rb" using blocks_of_bound [of "length kern"] by linarith
  have s: "stored (bin s3) 520 (put32 2)" "stored (bin s3) 524 (put32 2048)" "stored (bin s3) 0 (take 512 boot)"
      "stored (bin s3) (512 * 2048) kern"
    by (simp_all add: stored_def s3_def r2_def s2_def s1_def eq)
  show thesis
  proof (rule that [OF 1 [unfolded z_def] 2 3])
    show "stored (bin s3) 520 (put32 2 @ put32 2048)" using s by (simp add: stored_append)
    show "stored (bin s3) (512 * 2) (dinode_bytes T_DIR 512 [of_nat rb])" unfolding s3_def by (rule stored_write)
    show "bin s3 a = 0" if "512 * rb \<le> a" for a
      using that far by (auto simp: s3_def r2_def s2_def s1_def eq z_def rb_def)
  qed (use b s in \<open>simp_all add: s3_def\<close>)
qed

section \<open>The image as the kernel sees it\<close>

definition image_root :: "(nat \<Rightarrow> u8 list) \<Rightarrow> inode" where
  "image_root img = load_dinode (img (unat (get32 (img 1) 8))) inode_zero"

definition image_dir :: "(nat \<Rightarrow> u8 list) \<Rightarrow> u8 list" where
  "image_dir img = img (unat (iaddr (image_root img) ! 0))"

definition image_contents :: "(nat \<Rightarrow> u8 list) \<Rightarrow> inode \<Rightarrow> u8 list" where
  "image_contents img ip =
     map (\<lambda>j. img (unat (iaddr ip ! (j div 512))) ! (j mod 512)) [0..<unat (isize ip)]"

definition image_file :: "(nat \<Rightarrow> u8 list) \<Rightarrow> nat \<Rightarrow> u8 list \<times> u16 \<times> u8 list" where
  "image_file img i =
     (let ip = load_dinode (img (unat (dir_ino (image_dir img) i))) inode_zero
      in (map (dir_fname (image_dir img) i) [0..<FNAMESIZ], itype ip, image_contents img ip))"

lemma nth_stored:
  assumes "stored b (512 * k) bs" and "j < length bs"
  shows "sector b (k + j div 512) ! (j mod 512) = bs ! j"
proof -
  have "512 * (k + j div 512) + j mod 512 = 512 * k + j"
    by (simp add: add_mult_distrib2)
  then show ?thesis using assms by (simp add: nth_sector stored_def add.commute [of j])
qed

lemma image_file_stored:
  assumes f: "file_in b rb i ino B path bs" and "i < 16" and "ino < 2048" and "B + blocks_of (length bs) \<le> 8192"
    and "length bs \<le> 124 * 512" and d: "image_dir (sector b) = sector b rb"
  shows "image_file (sector b) i = (strncpy28 (drop 7 path), T_FILE, bs)"
proof -
  let ?n = "blocks_of (length bs)"
  let ?ip = "load_dinode (sector b ino) inode_zero"
  have st: "stored b (512 * rb + 32 * i) (put32 (of_nat ino))" "stored b (512 * rb + 32 * i + 4) (strncpy28 (drop 7 path))"
      "stored b (512 * ino) (dinode_bytes T_FILE (of_nat (length bs)) (map (\<lambda>j. of_nat (B + j)) [0..<?n]))"
      "stored b (512 * B) bs"
    using f by (simp_all add: file_in_def stored_append)
  have no: "dir_ino (sector b rb) i = of_nat ino"
    unfolding dir_ino_def using assms(2) st(1) by (intro get32_sector) simp_all
  have "dir_fname (sector b rb) i k = strncpy28 (drop 7 path) ! k" if "k < 28" for k
    using st(2) that assms(2) by (simp add: dir_fname_def nth_sector stored_def add.assoc)
  then have nm: "map (dir_fname (sector b rb) i) [0..<FNAMESIZ] = strncpy28 (drop 7 path)"
    by (intro nth_equalityI) simp_all
  have len: "length (map (\<lambda>j. of_nat (B + j) :: u32) [0..<?n]) \<le> 124" using blocks_of_le [OF assms(5)] by simp
  note ld = load_dinode_stored [OF st(3) len, where ip = inode_zero]
  have sz: "unat (isize ?ip) = length bs" using ld(2) assms(5) by (simp add: unat_of_nat32)
  have "sector b (unat (iaddr ?ip ! (j div 512))) ! (j mod 512) = bs ! j" if "j < length bs" for j
  proof -
    have "j div 512 < ?n" by (rule blocks_of_index) (rule that)
    then have "unat (iaddr ?ip ! (j div 512)) = B + j div 512"
      using ld(3) assms(4) unat_of_nat32 [of "B + j div 512"] by simp
    then show ?thesis using nth_stored [OF st(4) that] by simp
  qed
  then have "image_contents (sector b) ?ip = bs"
    unfolding image_contents_def sz by (intro nth_equalityI) simp_all
  with nm ld(1) assms(3) show ?thesis by (simp add: image_file_def d no unat_of_nat32)
qed

lemma file_blocks_take:
  "i < length args \<Longrightarrow> file_blocks (take i args) + blocks_of (length (the (snd (args ! i)))) \<le> file_blocks args"
proof (induction args arbitrary: i)
  case Nil
  then show ?case by simp
next
  case (Cons f args)
  then show ?case by (cases i) auto
qed

lemma good_file_len: "good_file f \<Longrightarrow> length (the (snd f)) \<le> 124 * 512"
  by (auto simp: good_file_def split: option.splits)

lemma mkfs_layout:
  assumes "length args \<le> 16" and "\<forall>f \<in> set args. good_file f"
    and "2048 + blocks_of (length kern) + 512 + file_blocks args + 512 \<le> 8192"
  defines "rb \<equiv> 2048 + blocks_of (length kern)"
  obtains b where "mkfs (Some boot) (Some kern) args = Inr (sector b)"
    and "stored b 0 (take 512 boot)" and "stored b 520 (put32 2 @ put32 2048)"
    and "stored b (512 * 2) (dinode_bytes T_DIR 512 [of_nat rb])" and "stored b (512 * 2048) kern"
    and "\<And>i. i < length args \<Longrightarrow> file_in b rb i (3 + i) (rb + 512 + file_blocks (take i args)) (fst (args ! i)) (the (snd (args ! i)))"
    and "\<And>a. 32 * length args \<le> a \<Longrightarrow> a < 512 \<Longrightarrow> b (512 * rb + a) = 0"
proof -
  let ?n = "length args"
  obtain s1 s2 s3 where pre: "add_bootblock (Some boot) \<lparr>bin = (\<lambda>_. 0), used_block = (\<lambda>_. False)\<rparr> = Inr s1"
      "add_kernel (Some kern) s1 = Inr s2" "make_rootdir s2 = Inr (rb, s3)" "allocated s3 3 (rb + 512)"
      and st: "stored (bin s3) 0 (take 512 boot)" "stored (bin s3) 520 (put32 2 @ put32 2048)"
      "stored (bin s3) (512 * 2) (dinode_bytes T_DIR 512 [of_nat rb])" "stored (bin s3) (512 * 2048) kern"
      and z: "\<And>a. 512 * rb \<le> a \<Longrightarrow> bin s3 a = 0"
    unfolding rb_def by (rule prefix_ok [of kern boot]) (use assms(3) in simp_all)
  have rb: "rb + 512 + file_blocks args + 512 \<le> 8192" "2048 \<le> rb" using assms(3) by (simp_all add: rb_def)
  obtain s4 where fs: "add_files rb 0 args s3 = Inr s4" "allocated s4 (3 + ?n) (rb + 512 + file_blocks args)"
      "\<And>j. j < ?n \<Longrightarrow> file_in (bin s4) rb (0 + j) (3 + j) (rb + 512 + file_blocks (take j args)) (fst (args ! j)) (the (snd (args ! j)))"
      "\<And>a. \<not> touched rb 0 (0 + ?n) 3 (3 + ?n) (rb + 512) (rb + 512 + file_blocks args) a \<Longrightarrow> bin s4 a = bin s3 a"
    using add_files_ok [OF pre(4), of args rb 0] assms rb by auto
  obtain s5 s6 where li: "make_inode_list s4 = Inr s5" "make_block_list s5 = Inr s6"
      "\<And>a. a < 512 * (3 + ?n) \<or> (512 * 2048 \<le> a \<and> a < 512 * (rb + 512 + file_blocks args))
        \<Longrightarrow> a < 528 \<or> 536 \<le> a \<Longrightarrow> bin s6 a = bin s4 a"
    by (rule lists_ok [OF fs(2)]) (use assms(1) rb in simp_all)
  define b where "b = bin (set_super s6)"
  have run: "mkfs (Some boot) (Some kern) args = Inr (sector b)"
    by (simp add: mkfs_def pre fs(1) li(1,2) b_def)
  have b6: "b a = bin s4 a"
    if "a < 512 * (3 + ?n) \<or> (512 * 2048 \<le> a \<and> a < 512 * (rb + 512 + file_blocks args))"
      "a < 512 \<or> 536 \<le> a \<or> (520 \<le> a \<and> a < 528)" for a
    using that li(3) [of a] by (auto simp: b_def set_super_def)
  have b3: "b a = bin s3 a"
    if "a < 512 \<or> (520 \<le> a \<and> a < 528) \<or> (1024 \<le> a \<and> a < 1536) \<or> (512 * 2048 \<le> a \<and> a < 512 * rb)
      \<or> (512 * rb + 32 * ?n \<le> a \<and> a < 512 * rb + 512)" for a
  proof -
    have "\<not> touched rb 0 (0 + ?n) 3 (3 + ?n) (rb + 512) (rb + 512 + file_blocks args) a"
      using that rb(2) assms(1) by (auto simp: touched_def)
    then have "bin s4 a = bin s3 a" by (rule fs(4))
    moreover have "b a = bin s4 a" using that rb(2) by (intro b6) auto
    ultimately show ?thesis by simp
  qed
  have kl: "512 * 2048 + length kern \<le> 512 * rb" using blocks_of_bound [of "length kern"] by (simp add: rb_def)
  show thesis
  proof (rule that [OF run])
    show "stored b 0 (take 512 boot)" by (rule stored_cong [OF st(1)], rule b3) simp
    show "stored b 520 (put32 2 @ put32 2048)" by (rule stored_cong [OF st(2)], rule b3) simp
    show "stored b (512 * 2) (dinode_bytes T_DIR 512 [of_nat rb])" by (rule stored_cong [OF st(3)], rule b3) simp
    show "stored b (512 * 2048) kern" by (rule stored_cong [OF st(4)], rule b3) (use kl in auto)
    show "b (512 * rb + a) = 0" if "32 * ?n \<le> a" "a < 512" for a using that b3 [of "512 * rb + a"] z by simp
    fix i
    assume i: "i < ?n"
    then have le: "file_blocks (take i args) + blocks_of (length (the (snd (args ! i)))) \<le> file_blocks args"
      by (rule file_blocks_take)
    show "file_in b rb i (3 + i) (rb + 512 + file_blocks (take i args)) (fst (args ! i)) (the (snd (args ! i)))"
    proof (rule file_in_cong)
      show "file_in (bin s4) rb i (3 + i) (rb + 512 + file_blocks (take i args)) (fst (args ! i)) (the (snd (args ! i)))"
        using fs(3) [OF i] by simp
      show "length (the (snd (args ! i))) \<le> 124 * 512" using assms(2) i by (intro good_file_len) simp
    qed (rule b6; use i le rb assms(1) in \<open>auto simp: touched_def\<close>)
  qed
qed

text \<open>
  C11: the image that \<^verbatim>\<open>mkfs\<close> builds from arguments that fit is one the boot loader and the kernel can read.
  The boot block is in sector 0; the kernel is, byte by byte, the file that starts at the sector number at
  offset 12 of the super block; and decoding the root inode, its directory and the inode of entry \<open>i\<close> gives
  the name, the type and the contents of the \<open>i\<close>-th argument. The entries behind the last file have the number 0.
\<close>

theorem mkfs_readable:
  assumes "length args \<le> 16" and "\<forall>f \<in> set args. good_file f"
    and "2048 + blocks_of (length kern) + 512 + file_blocks args + 512 \<le> 8192"
  shows "\<exists>img. mkfs (Some boot) (Some kern) args = Inr img
    \<and> take (length (take 512 boot)) (img 0) = take 512 boot
    \<and> (\<forall>j < length kern. file_byte (\<lambda>n. img (unat n)) (unat (get32 (img 1) 12)) j = kern ! j)
    \<and> (\<forall>i < length args. image_file img i = (strncpy28 (drop 7 (fst (args ! i))), T_FILE, the (snd (args ! i))))
    \<and> (\<forall>i < 16. length args \<le> i \<longrightarrow> dir_ino (image_dir img) i = 0)"
proof -
  define rb where "rb = 2048 + blocks_of (length kern)"
  obtain b where run: "mkfs (Some boot) (Some kern) args = Inr (sector b)"
    and st: "stored b 0 (take 512 boot)" "stored b 520 (put32 2 @ put32 2048)"
      "stored b (512 * 2) (dinode_bytes T_DIR 512 [of_nat rb])" "stored b (512 * 2048) kern"
    and fi: "\<And>i. i < length args \<Longrightarrow> file_in b rb i (3 + i) (rb + 512 + file_blocks (take i args)) (fst (args ! i)) (the (snd (args ! i)))"
    and z: "\<And>a. 32 * length args \<le> a \<Longrightarrow> a < 512 \<Longrightarrow> b (512 * rb + a) = 0"
    unfolding rb_def by (rule mkfs_layout [OF assms, of boot]) blast
  have rb: "rb + 512 + file_blocks args + 512 \<le> 8192" using assms(3) by (simp add: rb_def)
  have sup: "get32 (sector b 1) 8 = 2" "get32 (sector b (Suc 0)) 12 = 2048"
    using st(2) by (auto simp: stored_append intro!: get32_sector)
  have "iaddr (image_root (sector b)) ! 0 = of_nat rb"
    unfolding image_root_def sup using load_dinode_stored(3) [OF st(3), of 0] by simp
  then have d: "image_dir (sector b) = sector b rb" using rb by (simp add: image_dir_def unat_of_nat32)
  have "take (length (take 512 boot)) (sector b 0) = take 512 boot"
    using st(1) by (intro nth_equalityI) (simp_all add: sector_def stored_def)
  moreover have "file_byte (\<lambda>n. sector b (unat n)) (unat (get32 (sector b 1) 12)) j = kern ! j" if "j < length kern" for j
  proof -
    have "j div 512 < blocks_of (length kern)" using that by (rule blocks_of_index)
    then have "unat (of_nat (2048 + j div 512) :: u32) = 2048 + j div 512"
      using assms(3) by (intro unat_of_nat32) simp
    then show ?thesis using nth_stored [OF st(4) that] by (simp add: file_byte_def sup)
  qed
  moreover have "image_file (sector b) i = (strncpy28 (drop 7 (fst (args ! i))), T_FILE, the (snd (args ! i)))"
    if "i < length args" for i
    using file_blocks_take [OF that] good_file_len [of "args ! i"] assms(1,2) that rb
    by (intro image_file_stored [OF fi [OF that] _ _ _ _ d]) simp_all
  moreover have "dir_ino (image_dir (sector b)) i = 0" if "i < 16" "length args \<le> i" for i
  proof -
    have "stored b (512 * rb + 32 * i) (put32 0)"
      using z [of "32 * i + k" for k] that by (auto simp: stored_def put32_def byte_of_def nth_Cons' add.assoc)
    then show ?thesis unfolding d dir_ino_def using that by (intro get32_sector) simp_all
  qed
  ultimately show ?thesis using run by auto
qed

theorem mkfs_readable_witness:
  "\<exists>img. mkfs (Some [0xEB]) (Some [1, 2, 3]) [(lit ''build/_sh'', Some [7, 8])] = Inr img
    \<and> image_file img 0 = (lit ''sh'' @ replicate 26 0, T_FILE, [7, 8])"
proof -
  have good: "\<forall>f \<in> set [(lit ''build/_sh'', Some [7, 8 :: u8])]. good_file f" by (simp add: good_file_def)
  obtain img where "mkfs (Some [0xEB]) (Some [1, 2, 3]) [(lit ''build/_sh'', Some [7, 8])] = Inr img"
      "image_file img 0 = (strncpy28 (drop 7 (lit ''build/_sh'')), T_FILE, [7, 8])"
    using mkfs_readable [OF _ good, of "[1, 2, 3]" "[0xEB]"] by (auto simp: blocks_of_def)
  then show ?thesis by (simp add: strncpy28_def)
qed

end
