(* ===== verification/Mix_UserLib.thy ===== *)
theory Mix_UserLib
  imports Mix_Console
begin

text \<open>
  The library of the user programs: the memory routines of \<^verbatim>\<open>usr/lib/ustring.c\<close> and the buffered
  \<^verbatim>\<open>printf\<close> of \<^verbatim>\<open>usr/lib/uprf.c\<close>. Its \<^verbatim>\<open>printf\<close> is the second implementation of the number printer of
  \<open>Mix_Format\<close>; both turn a format into the same text.
\<close>

section \<open>Memory and strings\<close>

text \<open>\<^verbatim>\<open>while (count--) *addr++ = data;\<close> after the test for a negative \<^verbatim>\<open>count\<close>.\<close>

fun umemset_loop :: "u32 \<Rightarrow> u8 \<Rightarrow> nat \<Rightarrow> memory \<Rightarrow> memory" where
  "umemset_loop addr d 0 m = m"
| "umemset_loop addr d (Suc n) m = umemset_loop (addr + 1) d n (m(addr := d))"

definition umemset :: "u32 \<Rightarrow> u8 \<Rightarrow> u32 \<Rightarrow> memory \<Rightarrow> memory" where
  "umemset addr d count m = (if sint count < 0 then m else umemset_loop addr d (nat (sint count)) m)"

fun umemmove_loop :: "u32 \<Rightarrow> u32 \<Rightarrow> nat \<Rightarrow> memory \<Rightarrow> memory" where
  "umemmove_loop src dst 0 m = m"
| "umemmove_loop src dst (Suc n) m = umemmove_loop (src + 1) (dst + 1) n (m(dst := m src))"

definition umemmove :: "u32 \<Rightarrow> u32 \<Rightarrow> u32 \<Rightarrow> memory \<Rightarrow> memory" where
  "umemmove src dst count m = (if sint count < 0 then m else umemmove_loop src dst (nat (sint count)) m)"

text \<open>Unlike the kernel's, this \<^verbatim>\<open>strcmp\<close> does not look at \<^verbatim>\<open>q\<close> once \<^verbatim>\<open>p\<close> has ended.\<close>

fun ustrcmp :: "(nat \<Rightarrow> u8) \<Rightarrow> (nat \<Rightarrow> u8) \<Rightarrow> nat \<Rightarrow> u32" where
  "ustrcmp p q 0 = 1"
| "ustrcmp p q (Suc limit) =
     (if p 0 = 0 then 1 else if p 0 \<noteq> q 0 then 0 else ustrcmp (\<lambda>i. p (Suc i)) (\<lambda>i. q (Suc i)) limit)"

section \<open>Buffered output\<close>

text \<open>
  The buffer, its index, what the \<^verbatim>\<open>write\<close> calls on the standard output were given, in order, and the
  memory of the program, in which strings are.
\<close>

record ulib =
  ubuf :: "u8 list"
  uindex :: u32
  uwrites :: "u8 list list"
  umem :: memory

definition BUFSIZE :: u32 where [simp]: "BUFSIZE = 512"

definition bflush :: "ulib \<Rightarrow> ulib res" where
  "bflush s = Inr (s\<lparr>uwrites := uwrites s @ [take (unat (uindex s)) (ubuf s)]\<rparr>)"

definition put :: "u32 \<Rightarrow> ulib \<Rightarrow> ulib res" where
  "put c s =
     (if unat (uindex s) \<ge> length (ubuf s) then Inl (Fault ''input.buf'')
      else
        (let s = s\<lparr>ubuf := (ubuf s)[unat (uindex s) := ucast c], uindex := uindex s + 1\<rparr>
         in if uindex s = BUFSIZE then bnd (bflush s) (\<lambda>s. Inr (s\<lparr>uindex := 0\<rparr>)) else Inr s))"

function uprintn :: "u32 \<Rightarrow> u32 \<Rightarrow> ulib \<Rightarrow> ulib res" where
  "uprintn n base s =
     (if unat base < 2 then Inl (Fault ''printn: base'')
      else bnd (if n div base \<noteq> 0 then uprintn (n div base) base s else Inr s)
             (\<lambda>s. if unat (n mod base) < length digits then put (sx (digits ! unat (n mod base))) s
                  else Inl (Fault ''printn: digits'')))"
  by pat_completeness auto
termination
proof (relation "measure (\<lambda>(n, base, s). unat n)")
  fix n base :: u32 and s :: ulib
  assume h: "\<not> unat base < 2" "n div base \<noteq> 0"
  have "unat (n div base) = unat n div unat base" by (simp add: unat_div_distrib)
  moreover from h(2) have "unat n \<noteq> 0" by (auto simp: unat_eq_0)
  ultimately show "((n div base, base, s), (n, base, s)) \<in> measure (\<lambda>(n, base, s). unat n)"
    using h(1) by simp
qed simp

declare uprintn.simps [simp del]

text \<open>\<^verbatim>\<open>while ((c = *s++)) put(c);\<close>\<close>

fun uput_str :: "nat \<Rightarrow> u32 \<Rightarrow> ulib \<Rightarrow> ulib res" where
  "uput_str 0 a s = Inl (Fault ''printf: unterminated string'')"
| "uput_str (Suc n) a s =
     (if umem s a \<noteq> 0 then bnd (put (sx (umem s a)) s) (uput_str n (a + 1)) else Inr s)"

definition uprint_conv :: "u8 \<Rightarrow> u32 \<Rightarrow> ulib \<Rightarrow> ulib res" where
  "uprint_conv k a s =
     (if k = 100 then uprintn a 10 s
      else if k = 120 \<or> k = 112 then bnd (emit put (map sx (lit ''0x'')) s) (uprintn a 16)
      else if k = 111 then bnd (emit put (map sx (lit ''0o'')) s) (uprintn a 8)
      else if k = 99 then put a s
      else if a = 0 then emit put (map sx (lit ''(null)'')) s
      else uput_str (2 ^ 32) a s)"

text \<open>
  The default branch calls \<^verbatim>\<open>printf\<close> again, which sets the index of the same buffer to 0, and returns.
\<close>

definition uunknown :: "u8 \<Rightarrow> ulib \<Rightarrow> ulib res" where
  "uunknown k s =
     bnd (emit put (map sx (lit ''Unknown format '')) (s\<lparr>uindex := 0\<rparr>)) (\<lambda>s.
     bnd (put (sx k) s) bflush)"

fun uprintf_loop :: "u8 list \<Rightarrow> u32 list \<Rightarrow> ulib \<Rightarrow> ulib res" where
  "uprintf_loop [] args s = bflush s"
| "uprintf_loop [c] args s = (if c \<noteq> 37 then bnd (put (sx c) s) bflush else uunknown 0 s)"
| "uprintf_loop (c # k # fmt) args s =
     (if c \<noteq> 37 then bnd (put (sx c) s) (uprintf_loop (k # fmt) args)
      else if \<not> is_conv k then uunknown k s
      else (case args of
        [] \<Rightarrow> Inl (Fault ''printf: no argument'')
      | a # as \<Rightarrow> bnd (uprint_conv k a s) (uprintf_loop fmt as)))"

definition uprintf :: "u8 list \<Rightarrow> u32 list \<Rightarrow> ulib \<Rightarrow> ulib res" where
  "uprintf fmt args s = uprintf_loop fmt args (s\<lparr>uindex := 0\<rparr>)"

section \<open>The text that reaches the standard output\<close>

definition lib_ok :: "ulib \<Rightarrow> bool" where
  "lib_ok s \<longleftrightarrow> length (ubuf s) = 512 \<and> unat (uindex s) < 512"

text \<open>What has been written together with what waits in the buffer.\<close>

definition uout :: "ulib \<Rightarrow> u8 list" where
  "uout s = concat (uwrites s) @ take (unat (uindex s)) (ubuf s)"

definition put_ok :: "ulib \<Rightarrow> u32 list \<Rightarrow> ulib \<Rightarrow> bool" where
  "put_ok s cs s' \<longleftrightarrow> lib_ok s' \<and> uout s' = uout s @ map ucast cs \<and> umem s' = umem s"

lemma put_ok_Nil: "lib_ok s \<Longrightarrow> put_ok s [] s"
  by (simp add: put_ok_def)

lemma put_ok_trans: "put_ok s cs t \<Longrightarrow> put_ok t ds u \<Longrightarrow> put_ok s (cs @ ds) u"
  by (simp add: put_ok_def)

lemma put_puts:
  assumes "lib_ok s"
  shows "\<exists>s'. put c s = Inr s' \<and> put_ok s [c] s'"
proof -
  let ?n = "unat (uindex s)"
  have n: "?n < 512" "length (ubuf s) = 512" using assms by (simp_all add: lib_ok_def)
  have u: "unat (uindex s + 1) = ?n + 1" using n(1) by (simp add: unat_word_ariths)
  have b: "take (Suc ?n) ((ubuf s)[?n := ucast c]) = take ?n (ubuf s) @ [ucast c]"
    using n by (simp add: take_Suc_conv_app_nth)
  show ?thesis
  proof (cases "uindex s + 1 = 512")
    case True
    then have "Suc ?n = 512" using u by simp
    then show ?thesis
      using True n b by (auto simp: put_def bflush_def Let_def put_ok_def lib_ok_def uout_def)
  next
    case False
    then have "unat (uindex s + 1) \<noteq> 512" by (auto simp: word_unat_eq_iff)
    then have "Suc ?n \<noteq> 512" using u by simp
    then show ?thesis
      using False n b u by (auto simp: put_def Let_def put_ok_def lib_ok_def uout_def)
  qed
qed

lemma emit_put:
  assumes "lib_ok s"
  shows "\<exists>s'. emit put cs s = Inr s' \<and> put_ok s cs s'"
  using assms
proof (induction cs arbitrary: s)
  case Nil
  then show ?case by (simp add: put_ok_Nil)
next
  case (Cons c cs)
  obtain t where t: "put c s = Inr t" "put_ok s [c] t" using put_puts [OF Cons.prems] by blast
  then obtain s' where "emit put cs t = Inr s'" "put_ok t cs s'"
    using Cons.IH [of t] by (auto simp: put_ok_def)
  with t put_ok_trans [OF t(2), of cs s'] show ?case by auto
qed

interpretation buffer_numbers: number_printer "\<lambda>c. put (sx c)" uprintn
proof unfold_locales
  fix b n :: u32 and s :: ulib
  assume b: "2 \<le> unat b" "unat b \<le> 16"
  then have "unat (n mod b) < 17" using unat_mod16 [OF b, of n] by simp
  then show "uprintn n b s = bnd (if n div b \<noteq> 0 then uprintn (n div b) b s else Inr s)
      (\<lambda>s. put (sx (digits ! unat (n mod b))) s)"
    using b by (subst uprintn.simps) (auto intro!: bnd_cong)
qed

lemma uprintn_emit: "b \<in> {8, 10, 16} \<Longrightarrow> uprintn n b s = emit put (map sx (num_chars (unat b) n)) s"
  using buffer_numbers.pn_prints [of b n s] by (auto simp: emit_map)

text \<open>The string a pointer of the program denotes.\<close>

definition ustr :: "memory \<Rightarrow> u32 \<Rightarrow> u8 list \<Rightarrow> bool" where
  "ustr m a t \<longleftrightarrow> length t < 2 ^ 32 \<and> (\<forall>i < length t. m (a + of_nat i) = t ! i \<and> t ! i \<noteq> 0)
     \<and> m (a + of_nat (length t)) = 0"

definition ustrs :: "(u32 \<Rightarrow> u8 list option) \<Rightarrow> ulib \<Rightarrow> bool" where
  "ustrs str s \<longleftrightarrow> (\<forall>a t. str a = Some t \<longrightarrow> ustr (umem s) a t)"

lemma ustr_Cons:
  assumes "ustr m a (c # t)"
  shows "m a = c" "c \<noteq> 0" "ustr m (a + 1) t"
proof -
  have h: "m (a + of_nat i) = (c # t) ! i \<and> (c # t) ! i \<noteq> 0" if "i < Suc (length t)" for i
    using assms that by (auto simp: ustr_def)
  show "m a = c" "c \<noteq> 0" using h [of 0] by simp_all
  have "m (a + 1 + of_nat i) = t ! i \<and> t ! i \<noteq> 0" if "i < length t" for i
    using h [of "Suc i"] that by (simp add: add.assoc)
  then show "ustr m (a + 1) t" using assms by (simp add: ustr_def add.assoc)
qed

lemma uput_str_emit:
  assumes "lib_ok s" and "ustr (umem s) a t" and "length t < n"
  shows "uput_str n a s = emit put (map sx t) s"
  using assms
proof (induction t arbitrary: n a s)
  case Nil
  then show ?case by (cases n) (simp_all add: ustr_def)
next
  case (Cons c t)
  then obtain k where n: "n = Suc k" by (cases n) auto
  note c = ustr_Cons [OF Cons.prems(2)]
  obtain s' where s': "put (sx c) s = Inr s'" "put_ok s [sx c] s'"
    using put_puts [OF Cons.prems(1)] by blast
  then have "uput_str k (a + 1) s' = emit put (map sx t) s'"
    using Cons.IH [of s' "a + 1" k] c(3) Cons.prems(3) n by (simp add: put_ok_def)
  then show ?case using c s'(1) n by simp
qed

lemma uprint_conv_emit:
  assumes "lib_ok s" and "ustrs str s" and "conv_text str k a = Some t"
  shows "uprint_conv k a s = emit put t s" and "is_conv k"
proof -
  have z: "bnd (emit put (map sx (lit cs)) s) (uprintn a b) = emit put (map sx (lit cs @ num_chars (unat b) a)) s"
    if "b \<in> {8, 16}" for b cs
    using that uprintn_emit [of b a] by (auto simp: emit_append intro!: bnd_cong)
  have p: "uput_str (2 ^ 32) a s = emit put (map sx u) s" if "str a = Some u" for u
    using uput_str_emit [OF assms(1), of a u "2 ^ 32"] assms(2) that by (auto simp: ustrs_def ustr_def)
  show "is_conv k" using assms(3) by (auto simp: conv_text_def is_conv_def split: if_splits)
  show "uprint_conv k a s = emit put t s"
    using assms(3) z [of 16 "''0x''"] z [of 8 "''0o''"] p
    by (auto simp: conv_text_def uprint_conv_def uprintn_emit split: if_splits)
qed

lemma uprintf_loop_prints:
  assumes "lib_ok s" and "ustrs str s" and "fmt_text str fmt args = Some t"
  shows "\<exists>u. put_ok s t u \<and> uprintf_loop fmt args s = bflush u"
  using assms
proof (induction str fmt args arbitrary: s t rule: fmt_text.induct)
  case (1 str args)
  then show ?case using put_ok_Nil by auto
next
  case (2 str c args)
  then show ?case using put_puts [of s "sx c"] by (auto split: if_splits)
next
  case (3 str c k fmt args)
  show ?case
  proof (cases "c = 37")
    case False
    with 3 obtain v where v: "fmt_text str (k # fmt) args = Some v" "t = sx c # v" by auto
    obtain s' where s': "put (sx c) s = Inr s'" "put_ok s [sx c] s'" using put_puts [OF "3.prems"(1)] by blast
    then have "lib_ok s'" "ustrs str s'" using "3.prems"(2) by (simp_all add: put_ok_def ustrs_def)
    from "3.IH"(1) [OF False this v(1)] obtain u where "put_ok s' v u" "uprintf_loop (k # fmt) args s' = bflush u" by blast
    with False s' v(2) put_ok_trans [OF s'(2), of v u] show ?thesis by auto
  next
    case True
    with "3.prems"(3) obtain a as v w where args: "args = a # as"
      and v: "conv_text str k a = Some v" and w: "fmt_text str fmt as = Some w" "t = v @ w"
      by (auto split: list.splits option.splits)
    obtain s' where s': "emit put v s = Inr s'" "put_ok s v s'" using emit_put [OF "3.prems"(1)] by blast
    then have "lib_ok s'" "ustrs str s'" using "3.prems"(2) by (simp_all add: put_ok_def ustrs_def)
    from "3.IH"(2) [OF _ args v this w(1)] obtain u where "put_ok s' w u" "uprintf_loop fmt as s' = bflush u"
      using True by auto
    with True args s' w(2) uprint_conv_emit [OF "3.prems"(1,2) v] put_ok_trans [OF s'(2), of w u]
    show ?thesis by auto
  qed
qed

lemma uprintf_prints:
  assumes "length (ubuf s) = 512" and "ustrs str s" and "fmt_text str fmt args = Some t"
  shows "\<exists>s'. uprintf fmt args s = Inr s' \<and> concat (uwrites s') = concat (uwrites s) @ map ucast t
    \<and> umem s' = umem s \<and> length (ubuf s') = 512"
proof -
  let ?s = "s\<lparr>uindex := 0\<rparr>"
  have "lib_ok ?s" "ustrs str ?s" using assms(1,2) by (simp_all add: lib_ok_def ustrs_def)
  from uprintf_loop_prints [OF this assms(3)] show ?thesis
    by (auto simp: uprintf_def bflush_def put_ok_def uout_def lib_ok_def)
qed

lemma uunknown_drops:
  assumes "length (ubuf s) = 512"
  shows "\<exists>s'. uunknown k s = Inr s' \<and> concat (uwrites s') = concat (uwrites s) @ lit ''Unknown format '' @ [k]"
proof -
  let ?t = "map sx (lit ''Unknown format '')"
  have "lib_ok (s\<lparr>uindex := 0\<rparr>)" using assms by (simp add: lib_ok_def)
  from emit_put [OF this, of ?t] obtain u where u: "emit put ?t (s\<lparr>uindex := 0\<rparr>) = Inr u" "put_ok (s\<lparr>uindex := 0\<rparr>) ?t u" by blast
  then have "lib_ok u" by (simp add: put_ok_def)
  from put_puts [OF this, of "sx k"] obtain v where v: "put (sx k) u = Inr v" "put_ok u [sx k] v" by blast
  have c: "(ucast (sx c) :: u8) = c" for c
    by (rule bit_word_eqI) (simp add: sx_def bit_simps)
  then have "map ucast (map sx cs) = cs" for cs by (simp add: comp_def)
  with u v c show ?thesis by (auto simp: uunknown_def bflush_def put_ok_def uout_def simp del: map_map)
qed

lemma put_buffers:
  assumes "lib_ok s" and "unat (uindex s) + 1 < 512"
  shows "\<exists>s'. put c s = Inr s' \<and> lib_ok s' \<and> unat (uindex s') = unat (uindex s) + 1 \<and> uwrites s' = uwrites s"
proof -
  have u: "unat (uindex s + 1) = unat (uindex s) + 1" using assms(2) by (simp add: unat_word_ariths)
  then have "uindex s + 1 \<noteq> 512" using assms(2) by (auto simp: word_unat_eq_iff)
  with assms u show ?thesis by (auto simp: put_def Let_def lib_ok_def)
qed

lemma uprintf_loop_unknown:
  assumes "lib_ok s" and "unat (uindex s) + length cs < 512" and "37 \<notin> set cs" and "\<not> is_conv k"
  shows "\<exists>u. lib_ok u \<and> uwrites u = uwrites s \<and> uprintf_loop (cs @ 37 # k # rest) args s = uunknown k u"
  using assms
proof (induction cs arbitrary: s)
  case Nil
  then show ?case by auto
next
  case (Cons c cs)
  then obtain s' where s': "put (sx c) s = Inr s'" "lib_ok s'" "unat (uindex s') = unat (uindex s) + 1" "uwrites s' = uwrites s"
    using put_buffers [of s "sx c"] by auto
  have "uprintf_loop ((c # cs) @ 37 # k # rest) args s = bnd (put (sx c) s) (uprintf_loop (cs @ 37 # k # rest) args)"
    using Cons.prems(3) by (cases cs) simp_all
  with Cons.IH [of s'] Cons.prems s' show ?case by simp
qed

lemma ustrcmp_cstr: "ustrcmp p q n = (if cstr n p = take (length (cstr n p)) (cstr n q) then 1 else 0)"
proof (induction n arbitrary: p q)
  case 0
  then show ?case by simp
next
  case (Suc n)
  show ?case using Suc.IH [of "\<lambda>i. p (Suc i)" "\<lambda>i. q (Suc i)"] by (auto simp: cstr_Suc)
qed

section \<open>Properties\<close>

text \<open>
  C30: the two \<^verbatim>\<open>printf\<close>s agree. For any format with known conversions, whose string arguments denote
  the same strings in both memories, what the user library hands to \<^verbatim>\<open>write\<close> is byte for byte the text that
  the kernel's \<^verbatim>\<open>printf\<close> puts on its terminal; no character is lost at the 512 byte boundary.
\<close>

theorem printf_uprintf_agree:
  assumes "con_ok k" and "strs_ok str k" and "length (ubuf s) = 512" and "ustrs str s"
    and "fmt_text str fmt args = Some t"
  shows "(\<exists>k'. printf fmt args k = Inr k' \<and> term_of k' = t_puts t (term_of k))
    \<and> (\<exists>s'. uprintf fmt args s = Inr s' \<and> concat (uwrites s') = concat (uwrites s) @ map ucast t)"
  using emit_putchar [OF assms(1), of t] printf_emit [OF assms(1,2,5)] uprintf_prints [OF assms(3-5)] by metis

definition ex_lib :: ulib where
  "ex_lib = \<lparr>ubuf = replicate 512 0, uindex = 0, uwrites = [], umem = (\<lambda>_. 0)\<rparr>"

theorem printf_uprintf_agree_witness:
  "\<exists>s'. uprintf (lit ''%d - %x'') [64, 255] ex_lib = Inr s' \<and> concat (uwrites s') = lit ''64 - 0xFF''"
proof -
  have n: "num_chars 10 64 = lit ''64''" "num_chars 16 255 = lit ''FF''"
    by (simp_all add: num_chars_def digs.simps digits_def)
  then have t: "fmt_text (\<lambda>_. None) (lit ''%d - %x'') [64, 255] = Some (map sx (lit ''64 - 0xFF''))"
    by (simp add: conv_text_def)
  have "map ucast (map sx (lit ''64 - 0xFF'')) = lit ''64 - 0xFF''" by (simp add: sx_def)
  with printf_uprintf_agree [OF ex_con_ok _ _ t, of ex_lib] show ?thesis
    by (simp add: ex_lib_def ustrs_def del: map_map)
qed

text \<open>
  An unknown conversion loses text. The default branch of the user \<^verbatim>\<open>printf\<close> calls \<^verbatim>\<open>printf\<close> again, which
  resets the index of the buffer they share: of a format that starts with fewer than 512 plain characters
  and an unknown conversion, only the complaint is written, the characters before it are dropped.
\<close>

theorem uprintf_unknown_loses:
  assumes "length (ubuf s) = 512" and "length cs < 512" and "37 \<notin> set cs" and "\<not> is_conv k"
  shows "\<exists>s'. uprintf (cs @ 37 # k # rest) args s = Inr s'
    \<and> concat (uwrites s') = concat (uwrites s) @ lit ''Unknown format '' @ [k]"
proof -
  have "lib_ok (s\<lparr>uindex := 0\<rparr>)" using assms(1) by (simp add: lib_ok_def)
  from uprintf_loop_unknown [OF this _ assms(3,4), of rest args] assms(2)
  obtain u where u: "lib_ok u" "uwrites u = uwrites s" "uprintf (cs @ 37 # k # rest) args s = uunknown k u"
    by (auto simp: uprintf_def)
  then show ?thesis using uunknown_drops [of u k] by (simp add: lib_ok_def)
qed

theorem uprintf_unknown_loses_witness:
  "\<exists>s'. uprintf (lit ''ab%q'') [] ex_lib = Inr s' \<and> concat (uwrites s') = lit ''Unknown format q''"
  using uprintf_unknown_loses [of ex_lib "lit ''ab''" 113 "[]" "[]"] by (simp add: ex_lib_def is_conv_def)

end
