(* ===== verification/Mix_UserProgs.thy ===== *)
theory Mix_UserProgs
  imports Mix_UserLib
begin

text \<open>
  The user programs: the shell (\<^verbatim>\<open>usr/shell.c\<close>) and its splitting of a command line, \<^verbatim>\<open>ls\<close>, \<^verbatim>\<open>cat\<close>,
  \<^verbatim>\<open>argtest\<close> and \<^verbatim>\<open>calc\<close>. The system calls, stubs in assembly, are parameters: functions on the
  state of the program.
\<close>

section \<open>Splitting a command line\<close>

text \<open>
  \<^verbatim>\<open>input\<close> is the array \<^verbatim>\<open>cmd\<close>, of which the loop reads up to the first zero; \<open>buf\<close> is the static buffer,
  and an entry of \<^verbatim>\<open>argv\<close> is an index into it. There is room for 16 entries.
\<close>

fun argparse_loop :: "u8 list \<Rightarrow> nat \<Rightarrow> u8 list \<Rightarrow> nat list \<Rightarrow> (u8 list \<times> nat list) res" where
  "argparse_loop [] i buf argv = Inl (Fault ''argparse: input'')"
| "argparse_loop (c # cs) i buf argv =
     (if c = 0 then Inr (buf, argv)
      else if i \<ge> length buf then Inl (Fault ''argparse: buf'')
      else if c = 32 then
        (if length argv \<ge> 16 then Inl (Fault ''argparse: argv'')
         else argparse_loop cs (i + 1) (buf[i := 0]) (argv @ [i + 1]))
      else argparse_loop cs (i + 1) (buf[i := c]) argv)"

definition argparse :: "u8 list \<Rightarrow> (u8 list \<times> nat list) res" where
  "argparse input = argparse_loop input 0 (replicate 1024 0) [0]"

text \<open>The string at an index of the buffer.\<close>

definition str_at :: "u8 list \<Rightarrow> nat \<Rightarrow> u8 list" where
  "str_at buf i = takeWhile (\<lambda>c. c \<noteq> 0) (drop i buf)"

section \<open>The shell\<close>

record shell = ulib +
  cmd :: "u8 list"
  argvec :: "nat list"
  abuf :: "u8 list"

definition usay :: "u8 list \<Rightarrow> u32 list \<Rightarrow> shell \<Rightarrow> shell res" where
  "usay fmt args s =
     bnd (uprintf fmt args (ulib.truncate s)) (\<lambda>u.
     Inr (s\<lparr>ubuf := ubuf u, uindex := uindex u, uwrites := uwrites u, umem := umem u\<rparr>))"

datatype outcome = Continues | Exits

text \<open>
  One round of the loop of \<^verbatim>\<open>main\<close>. \<open>rd\<close>, \<open>fk\<close>, \<open>ex\<close> and \<open>wt\<close> are the system calls \<^verbatim>\<open>read\<close> into \<^verbatim>\<open>cmd\<close>,
  \<^verbatim>\<open>fork\<close>, \<^verbatim>\<open>execv\<close> and \<^verbatim>\<open>wait\<close>; \<open>cmd_at\<close> is the address of \<^verbatim>\<open>cmd\<close> for \<^verbatim>\<open>printf\<close>.
\<close>

definition shell_round ::
  "(shell \<Rightarrow> shell) \<Rightarrow> (shell \<Rightarrow> int \<times> shell) \<Rightarrow> (nat \<Rightarrow> nat list \<Rightarrow> shell \<Rightarrow> int \<times> shell) \<Rightarrow> (shell \<Rightarrow> shell)
    \<Rightarrow> u32 \<Rightarrow> shell \<Rightarrow> (outcome \<times> shell) res" where
  "shell_round rd fk ex wt cmd_at s =
     bnd (usay (lit ''> '') [] s) (\<lambda>s.
     let s = rd s in
     if cmd s ! 0 = 0 then Inr (Continues, s)
     else
       let is_background = (\<exists>i < 128. cmd s ! i = 38);
           (pid, s) = fk s
       in if pid = 0 then
            bnd (argparse (cmd s)) (\<lambda>(buf, argv).
            let s = s\<lparr>abuf := buf, argvec := argv\<rparr>;
                (r, s) = ex (argv ! 0) argv s
            in bnd (if r < 0 then usay (lit ''exec %s fail'' @ [10]) [cmd_at] s else Inr s) (\<lambda>s.
               Inr (Exits, s)))
          else
            bnd (if pid < 0 then usay (lit ''fork error'' @ [10]) [] s
                 else if is_background then Inr s else Inr (wt s)) (\<lambda>s.
            Inr (Continues, s\<lparr>cmd := replicate 128 0\<rparr>)))"

text \<open>The greeting and the first \<open>k\<close> rounds; a child that could not \<^verbatim>\<open>execv\<close> leaves the loop by \<^verbatim>\<open>exit\<close>.\<close>

fun shell_rounds ::
  "nat \<Rightarrow> (shell \<Rightarrow> shell) \<Rightarrow> (shell \<Rightarrow> int \<times> shell) \<Rightarrow> (nat \<Rightarrow> nat list \<Rightarrow> shell \<Rightarrow> int \<times> shell) \<Rightarrow> (shell \<Rightarrow> shell)
    \<Rightarrow> u32 \<Rightarrow> shell \<Rightarrow> (outcome \<times> shell) res" where
  "shell_rounds 0 rd fk ex wt cmd_at s = Inr (Continues, s)"
| "shell_rounds (Suc k) rd fk ex wt cmd_at s =
     bnd (shell_round rd fk ex wt cmd_at s) (\<lambda>(r, s). case r of
       Exits \<Rightarrow> Inr (Exits, s)
     | Continues \<Rightarrow> shell_rounds k rd fk ex wt cmd_at s)"

definition shell_main ::
  "nat \<Rightarrow> (shell \<Rightarrow> shell) \<Rightarrow> (shell \<Rightarrow> int \<times> shell) \<Rightarrow> (nat \<Rightarrow> nat list \<Rightarrow> shell \<Rightarrow> int \<times> shell) \<Rightarrow> (shell \<Rightarrow> shell)
    \<Rightarrow> u32 \<Rightarrow> shell \<Rightarrow> (outcome \<times> shell) res" where
  "shell_main k rd fk ex wt cmd_at s =
     bnd (usay (10 # 10 # lit ''Shell Ready.'' @ [10]) [] s) (shell_rounds k rd fk ex wt cmd_at)"

section \<open>\<open>ls\<close>, \<open>cat\<close>, \<open>argtest\<close>\<close>

fun ls_loop :: "u32 \<Rightarrow> nat list \<Rightarrow> ulib \<Rightarrow> ulib res" where
  "ls_loop directory [] s = Inr s"
| "ls_loop directory (i # is) s =
     (let ino = load32 (umem s) (directory + 32 * of_nat i) in
      bnd (if ino \<noteq> 0 then uprintf (lit ''%d - %s'' @ [10]) [ino, directory + 32 * of_nat i + 4] s else Inr s)
        (ls_loop directory is))"

definition ls_main ::
  "(u32 \<Rightarrow> ulib \<Rightarrow> u32 \<times> ulib) \<Rightarrow> (u32 \<Rightarrow> u32 \<Rightarrow> u32 \<Rightarrow> ulib \<Rightarrow> int \<times> ulib) \<Rightarrow> (u32 \<Rightarrow> ulib \<Rightarrow> ulib)
    \<Rightarrow> u32 \<Rightarrow> u32 \<Rightarrow> ulib \<Rightarrow> ulib res" where
  "ls_main opn rd cls slash directory s =
     (let (fd, s) = opn slash s;
          (n, s) = rd fd directory 512 s
      in bnd (if n > 0 then ls_loop directory [0..<16] s else Inr s) (\<lambda>s. Inr (cls fd s)))"

definition cat_main ::
  "(u32 \<Rightarrow> ulib \<Rightarrow> u32 \<times> ulib) \<Rightarrow> (u32 \<Rightarrow> u32 \<Rightarrow> u32 \<Rightarrow> ulib \<Rightarrow> int \<times> ulib) \<Rightarrow> (u32 \<Rightarrow> ulib \<Rightarrow> ulib)
    \<Rightarrow> u32 \<Rightarrow> u32 \<Rightarrow> u32 \<Rightarrow> ulib \<Rightarrow> ulib res" where
  "cat_main opn rd cls buf argc argv s =
     (if argc \<noteq> 2 then uprintf (lit ''Usage: cat <filename>'' @ [10]) [] s
      else
        let path = load32 (umem s) (argv + 4);
            (fd, s) = opn path s
        in if fd = - 1 then uprintf (lit ''no such file: %s'' @ [10]) [path] s
           else
             let (n, s) = rd fd buf 1024 s in
             bnd (uprintf (lit ''%s'' @ [10]) [buf] s) (\<lambda>s. Inr (cls fd s)))"

fun argtest_loop :: "u32 \<Rightarrow> nat list \<Rightarrow> ulib \<Rightarrow> ulib res" where
  "argtest_loop argv [] s = Inr s"
| "argtest_loop argv (i # is) s =
     bnd (uprintf (lit ''argv[%d] = %s'' @ [10]) [of_nat i, load32 (umem s) (argv + 4 * of_nat i)] s)
       (argtest_loop argv is)"

definition argtest_main :: "u32 \<Rightarrow> u32 \<Rightarrow> ulib \<Rightarrow> ulib res" where
  "argtest_main argc argv s = argtest_loop argv [0..<nat (sint argc)] s"

section \<open>\<open>calc\<close>\<close>

text \<open>
  The inner loop runs as long as \<^verbatim>\<open>f1\<close> is below \<open>2 ^ 31\<close>; nothing in its text bounds it. The outer loop
  starts it anew each time, and \<^verbatim>\<open>f2\<close> keeps the last sum.
\<close>

partial_function (option) calc_inner :: "u32 \<Rightarrow> u32 \<Rightarrow> u32 \<Rightarrow> u32 option" where
  "calc_inner f0 f1 f2 = (if f1 < 0x80000000 then calc_inner f1 (f1 + f0) (f1 + f0) else Some f2)"

fun calc_outer :: "nat \<Rightarrow> u32 \<Rightarrow> u32 option" where
  "calc_outer 0 f2 = Some f2"
| "calc_outer (Suc n) f2 = (case calc_inner 0 1 f2 of None \<Rightarrow> None | Some f2 \<Rightarrow> calc_outer n f2)"

text \<open>\<open>None\<close> is a program that never gets to its \<^verbatim>\<open>printf\<close>; \<open>f2\<close> is the uninitialised variable.\<close>

definition calc_main :: "u32 \<Rightarrow> ulib \<Rightarrow> ulib res option" where
  "calc_main f2 s = map_option (\<lambda>r. uprintf (lit ''ans:%x'' @ [10]) [r] s) (calc_outer 0x100000 f2)"

section \<open>What the shell splits\<close>

fun join :: "u8 \<Rightarrow> u8 list list \<Rightarrow> u8 list" where
  "join sep [] = []"
| "join sep [w] = w"
| "join sep (w # v # ws) = w @ sep # join sep (v # ws)"

text \<open>Where the words of a joined line start, from \<open>k\<close> on.\<close>

fun starts :: "nat \<Rightarrow> u8 list list \<Rightarrow> nat list" where
  "starts k [] = []"
| "starts k (w # ws) = k # starts (k + length w + 1) ws"

definition word :: "u8 list \<Rightarrow> bool" where
  "word w \<longleftrightarrow> 0 \<notin> set w \<and> 32 \<notin> set w"

lemma length_starts [simp]: "length (starts k ws) = length ws"
  by (induction ws arbitrary: k) simp_all

lemma length_join: "length (join a ws) = length (join b ws)"
  by (induction a ws rule: join.induct) simp_all

text \<open>The buffer behind what has been written is all zeros.\<close>

definition padded :: "u8 list \<Rightarrow> u8 list" where
  "padded d = d @ replicate (1024 - length d) 0"

lemma padded_write:
  assumes "length d < 1024"
  shows "(padded d)[length d := c] = padded (d @ [c])"
proof -
  obtain n where n: "1024 - length d = Suc n" using assms by (cases "1024 - length d") auto
  then have "1024 - Suc (length d) = n" by simp
  with n show ?thesis by (simp add: padded_def list_update_append)
qed

lemma length_padded: "length d \<le> 1024 \<Longrightarrow> length (padded d) = 1024"
  by (simp add: padded_def)

lemma argparse_word:
  assumes "word w" and "length d + length w \<le> 1024"
  shows "argparse_loop (w @ rest) (length d) (padded d) argv
    = argparse_loop rest (length (d @ w)) (padded (d @ w)) argv"
  using assms
proof (induction w arbitrary: d)
  case Nil
  then show ?case by simp
next
  case (Cons c w)
  then have "c \<noteq> 0" "c \<noteq> 32" "word w" by (auto simp: word_def)
  then show ?case
    using Cons.IH [of "d @ [c]"] Cons.prems(2) by (simp add: length_padded padded_write)
qed

lemma argparse_join:
  assumes "ws \<noteq> []" and "\<forall>w \<in> set ws. word w" and "length d + length (join 32 ws) \<le> 1024"
    and "length argv + length ws \<le> 17"
  shows "argparse_loop (join 32 ws @ 0 # rest) (length d) (padded d) argv
    = Inr (padded (d @ join 0 ws), argv @ tl (starts (length d) ws))"
  using assms
proof (induction "32 :: u8" ws arbitrary: d argv rule: join.induct)
  case 1
  then show ?case by simp
next
  case (2 w)
  then show ?case using argparse_word [of w d "0 # rest" argv] by simp
next
  case (3 w v ws)
  let ?d = "d @ w"
  have "argparse_loop (join 32 (w # v # ws) @ 0 # rest) (length d) (padded d) argv
      = argparse_loop (32 # join 32 (v # ws) @ 0 # rest) (length ?d) (padded ?d) argv"
    using argparse_word [of w d "32 # join 32 (v # ws) @ 0 # rest" argv] "3.prems" by simp
  also have "\<dots> = argparse_loop (join 32 (v # ws) @ 0 # rest) (length (?d @ [0])) (padded (?d @ [0])) (argv @ [length ?d + 1])"
    using "3.prems" padded_write [of ?d 0] by (simp add: length_padded)
  also have "\<dots> = Inr (padded ((?d @ [0]) @ join 0 (v # ws)), (argv @ [length ?d + 1]) @ tl (starts (length (?d @ [0])) (v # ws)))"
    by (rule "3.hyps") (use "3.prems" in simp_all)
  finally show ?case by (simp add: algebra_simps)
qed

lemma str_at_join:
  assumes "\<forall>w \<in> set ws. word w" and "j < length ws"
  shows "str_at (d @ join 0 ws @ 0 # z) (starts (length d) ws ! j) = ws ! j"
  using assms
proof (induction "0 :: u8" ws arbitrary: d j rule: join.induct)
  case 1
  then show ?case by simp
next
  case (2 w)
  then have "0 \<notin> set w" by (simp add: word_def)
  then have "takeWhile (\<lambda>c. c \<noteq> 0) (w @ 0 # z) = w" by (subst takeWhile_append2) auto
  with 2 show ?case by (simp add: str_at_def)
next
  case (3 w v ws)
  show ?case
  proof (cases j)
    case 0
    have "0 \<notin> set w" using "3.prems" by (simp add: word_def)
    then have "takeWhile (\<lambda>c. c \<noteq> 0) (w @ 0 # y) = w" for y by (subst takeWhile_append2) auto
    with 0 show ?thesis by (simp add: str_at_def)
  next
    case (Suc i)
    have "str_at ((d @ w @ [0]) @ join 0 (v # ws) @ 0 # z) (starts (length (d @ w @ [0])) (v # ws) ! i) = (v # ws) ! i"
      by (rule "3.hyps") (use "3.prems" Suc in simp_all)
    with Suc show ?thesis by (simp add: algebra_simps)
  qed
qed

lemma argparse_too_many:
  assumes "\<forall>w \<in> set ws. word w" and "length d + length (join 32 ws) \<le> 1024" and "length argv \<le> 16"
    and "16 < length argv + length ws - 1"
  shows "argparse_loop (join 32 ws @ 0 # rest) (length d) (padded d) argv = Inl (Fault ''argparse: argv'')"
  using assms
proof (induction "32 :: u8" ws arbitrary: d argv rule: join.induct)
  case 1
  then show ?case by simp
next
  case (2 w)
  then show ?case by simp
next
  case (3 w v ws)
  let ?d = "d @ w"
  have e: "argparse_loop (join 32 (w # v # ws) @ 0 # rest) (length d) (padded d) argv
      = argparse_loop (32 # join 32 (v # ws) @ 0 # rest) (length ?d) (padded ?d) argv"
    using argparse_word [of w d "32 # join 32 (v # ws) @ 0 # rest" argv] "3.prems" by simp
  show ?case
  proof (cases "length argv = 16")
    case True
    with e "3.prems" show ?thesis by (simp add: length_padded)
  next
    case False
    have "argparse_loop (join 32 (v # ws) @ 0 # rest) (length (?d @ [0])) (padded (?d @ [0])) (argv @ [length ?d + 1])
        = Inl (Fault ''argparse: argv'')"
      by (rule "3.hyps") (use "3.prems" False in simp_all)
    with e False "3.prems" padded_write [of ?d 0] show ?thesis by (simp add: length_padded)
  qed
qed

section \<open>Properties\<close>

text \<open>
  C38: splitting undoes joining. A command line that is up to 16 words joined by single blanks is split
  into exactly these words, in order. A 17th word is written behind the array \<^verbatim>\<open>argv\<close>.
\<close>

theorem argparse_splits:
  assumes "ws \<noteq> []" and "\<forall>w \<in> set ws. word w" and "length (join 32 ws) < 1024"
  shows "if length ws \<le> 16
     then \<exists>buf argv. argparse (join 32 ws @ 0 # rest) = Inr (buf, argv) \<and> map (str_at buf) argv = ws
     else argparse (join 32 ws @ 0 # rest) = Inl (Fault ''argparse: argv'')"
proof (cases "length ws \<le> 16")
  case True
  have p: "padded [] = replicate 1024 0" by (simp add: padded_def)
  have "[0] @ tl (starts 0 ws) = starts 0 ws" using assms(1) by (cases ws) simp_all
  then have e: "argparse (join 32 ws @ 0 # rest) = Inr (padded (join 0 ws), starts 0 ws)"
    using argparse_join [OF assms(1,2), of "[]" "[0]" rest] assms(3) True by (simp add: argparse_def p)
  obtain z where z: "padded (join 0 ws) = join 0 ws @ 0 # z"
    using assms(3) length_join [of 32 ws 0] by (cases "1024 - length (join 0 ws)") (simp_all add: padded_def)
  have "map (str_at (padded (join 0 ws))) (starts 0 ws) = ws"
    using str_at_join [OF assms(2), of _ "[]" z] unfolding z by (intro nth_equalityI) simp_all
  with e True show ?thesis by auto
next
  case False
  then show ?thesis
    using argparse_too_many [OF assms(2), of "[]" "[0]" rest] assms(3) by (simp add: argparse_def padded_def)
qed

theorem argparse_splits_witness:
  "\<exists>buf argv. argparse (lit ''cat file'' @ [0, 0]) = Inr (buf, argv) \<and> map (str_at buf) argv = [lit ''cat'', lit ''file'']"
proof -
  have "join 32 [lit ''cat'', lit ''file''] = lit ''cat file''" by simp
  then show ?thesis using argparse_splits [of "[lit ''cat'', lit ''file'']" "[0]"] by (simp add: word_def)
qed


end
