(* ===== verification/Mix_Input.thy ===== *)
theory Mix_Input
  imports Mix_Tables
begin

text \<open>
  The line editor of the console (\<^verbatim>\<open>consoleintr\<close> of \<^verbatim>\<open>dev/console.c\<close> on the scan codes of
  \<^verbatim>\<open>dev/kbd.c\<close>) against what a line editor is: a list of characters that keys extend and shorten, and the
  two ways in which it stops listening.
\<close>

section \<open>The keyboard\<close>

text \<open>A scan code as a character, with 0 for none, and the shift key held or not.\<close>

definition decode :: "u8 \<Rightarrow> bool \<Rightarrow> u32 \<times> bool" where
  "decode n sh =
     (if n = 0x2A \<or> n = 0x36 then (0, True) else if n = 0xAA \<or> n = 0xB6 then (0, False)
      else (if n < 0x40 then ucast ((if sh then shiftmap else normalmap) ! unat n) else 0, sh))"

lemma flag_1: "(k AND 1 \<noteq> 0) = bit k 0" for k :: u8
  by (simp add: and_one_eq bit_0 odd_iff_mod_2_eq_one)

lemma flag_upd: "bit (k OR 1) 0" "\<not> bit (k AND NOT 1) 0" for k :: u8
  by (simp_all only: bit_or_iff bit_and_iff bit_not_iff bit_1_0) simp_all

lemmas flag_upd' = flag_upd [simplified]

lemma kbdgetc_decode:
  "kbdgetc n s = (c, t) \<Longrightarrow> decode n (bit (kbdflags s) 0) = (c, bit (kbdflags t) 0) \<and> t = s\<lparr>kbdflags := kbdflags t\<rparr>"
  by (auto simp: kbdgetc_def decode_def flag_1 flag_upd flag_upd' split: if_splits)

section \<open>A line\<close>

text \<open>
  \<open>Deaf\<close>: a backspace in the empty line took one from the unsigned index, or the buffer is full; every key
  is ignored then, the newline that would wake the reader too.
\<close>

datatype line = Editing "u8 list" | Deaf

fun key :: "u32 \<Rightarrow> line \<Rightarrow> line" where
  "key c Deaf = Deaf"
| "key c (Editing cs) =
     (if c = 0 \<or> c = 10 then Editing cs
      else if c = 8 then (if cs = [] then Deaf else Editing (butlast cs))
      else if length cs = 126 then Deaf else Editing (cs @ [ucast c]))"

fun typed :: "u8 list \<Rightarrow> bool \<Rightarrow> line \<Rightarrow> line" where
  "typed [] sh l = l"
| "typed (n # ns) sh l = (case decode n sh of (c, sh') \<Rightarrow> typed ns sh' (key c l))"

fun type_keys :: "u8 list \<Rightarrow> kernel \<Rightarrow> kernel res" where
  "type_keys [] s = Inr s"
| "type_keys (n # ns) s = bnd (kbdintr n s) (type_keys ns)"

definition line_rep :: "line \<Rightarrow> kernel \<Rightarrow> bool" where
  "line_rep l s \<longleftrightarrow> length (inbuf s) = 128 \<and>
     (case l of Editing cs \<Rightarrow> unat (inindex s) = length cs \<and> length cs < 127 \<and> take (length cs) (inbuf s) = cs
      | Deaf \<Rightarrow> inindex s \<ge> 127)"

definition input_ok :: "line \<Rightarrow> kernel \<Rightarrow> bool" where
  "input_ok l s \<longleftrightarrow> con_ok s \<and> cli_ok s \<and> line_rep l s"

lemma con_only_input:
  fixes s t :: kernel
  assumes "con_only s t"
  shows "inbuf t = inbuf s \<and> inindex t = inindex s \<and> kbdflags t = kbdflags s \<and> cli_ok t = cli_ok s \<and> procs t = procs s"
  using assms by (auto simp: con_only_def cli_ok_def)

lemma input_ok_putchar:
  fixes s :: kernel
  assumes "input_ok l s"
  obtains t where "putchar c s = Inr t" and "input_ok l t" and "kbdflags t = kbdflags s"
proof -
  have "con_ok s" using assms by (simp add: input_ok_def)
  then obtain t where t: "putchar c s = Inr t" "con_ok t" by (rule putchar_refines)
  have "con_only s t" by (rule putchar_con_only) fact+
  then show thesis using that t assms con_only_input [of s t] by (simp add: input_ok_def line_rep_def split: line.splits)
qed

lemma console_key_line:
  assumes "input_ok (Editing cs) s" and "c \<noteq> 0"
  obtains t where "console_key c s = Inr t" and "input_ok (key c (Editing cs)) t" and "kbdflags t = kbdflags s"
proof -
  have ok: "con_ok s" "cli_ok s" "length (inbuf s) = 128" "unat (inindex s) = length cs" "length cs < 127"
    "take (length cs) (inbuf s) = cs"
    using assms(1) by (simp_all add: input_ok_def line_rep_def)
  consider "c = 10" | "c = 8" "cs = []" | "c = 8" "cs \<noteq> []" | "c \<noteq> 10" "c \<noteq> 8" by blast
  then show thesis
  proof cases
    case 1
    with ok assms that show thesis
      by (simp add: console_key_def wakeup_eq input_ok_def line_rep_def con_ok_def)
  next
    case 2
    then have "inindex s = 0" using ok by (simp add: unat_eq_0)
    with 2 ok assms(2) show thesis
      by (intro that [of "s\<lparr>inindex := inindex s - 1\<rparr>"])
        (simp_all add: console_key_def input_ok_def line_rep_def con_ok_def cli_ok_def)
  next
    case 3
    then have "inindex s \<noteq> 0" using ok(4) by auto
    then have "unat (inindex s - 1) = length cs - 1" using ok(4) by (simp add: unat_diff_1)
    moreover have "take (length cs - 1) (inbuf s) = butlast cs"
      using ok(3,5,6) butlast_take [of "length cs" "inbuf s"] by simp
    ultimately show thesis using 3 ok assms(2)
      by (intro that [of "s\<lparr>inindex := inindex s - 1\<rparr>"])
        (simp_all add: console_key_def input_ok_def line_rep_def con_ok_def)
  next
    case 4
    have u: "unat (inindex s + 1) = Suc (length cs)" using unat_add_small [of "inindex s" 1] ok(4,5) by simp
    have tk: "take (Suc (length cs)) ((inbuf s)[length cs := ucast c]) = cs @ [ucast c]"
      using ok(3,5,6) by (simp add: take_Suc_conv_app_nth take_update_swap)
    have "127 \<le> inindex s + 1" if "length cs = 126" using u that by (simp add: word_le_nat_alt)
    with u tk 4 ok assms(2) show thesis
      by (intro that [of "s\<lparr>inbuf := (inbuf s)[unat (inindex s) := ucast c], inindex := inindex s + 1\<rparr>"])
        (auto simp: console_key_def input_ok_def line_rep_def con_ok_def cli_ok_def)
  qed
qed

lemma key_zero: "key 0 l = l"
  by (cases l) simp_all

lemma input_ok_full: "input_ok l s \<Longrightarrow> inindex s \<ge> 127 \<longleftrightarrow> l = Deaf"
  by (cases l) (auto simp: input_ok_def line_rep_def word_le_nat_alt)

lemma kbdintr_key:
  assumes "input_ok l s" and "decode n (bit (kbdflags s) 0) = (c, sh)"
  obtains t where "kbdintr n s = Inr t" and "input_ok (key c l) t" and "bit (kbdflags t) 0 = sh"
    and "l = Deaf \<Longrightarrow> t = s\<lparr>kbdflags := kbdflags t\<rparr>"
proof -
  obtain u where u: "kbdgetc n s = (c, u)" "bit (kbdflags u) 0 = sh" "u = s\<lparr>kbdflags := kbdflags u\<rparr>"
    using kbdgetc_decode [of n s] assms(2) by (metis prod.inject surj_pair)
  have ok: "input_ok l u" using assms(1) by (subst u(3)) (cases l; simp add: input_ok_def line_rep_def con_ok_def cli_ok_def)
  show thesis
  proof (cases "l = Deaf \<or> c = 0")
    case True
    then have "kbdintr n s = Inr u" using u(1) input_ok_full [OF ok] by (auto simp: kbdintr_def consoleintr_def)
    moreover have "key c l = l" using True by (auto simp: key_zero)
    ultimately show thesis using that ok u(2,3) by simp
  next
    case False
    then obtain cs where cs: "l = Editing cs" by (cases l) auto
    obtain v where v: "console_key c u = Inr v" "input_ok (key c l) v" "kbdflags v = kbdflags u"
      using console_key_line [of cs u c] ok False cs by blast
    obtain t where t: "putchar c v = Inr t" "input_ok (key c l) t" "kbdflags t = kbdflags v"
      by (rule input_ok_putchar [OF v(2)])
    have "kbdintr n s = Inr t"
      using False u(1) v(1) t(1) input_ok_full [OF ok] by (simp add: kbdintr_def consoleintr_def)
    then show thesis using that t v(3) u(2) False by simp
  qed
qed

lemma kbdflags_once:
  fixes s t u :: kernel
  assumes "t = u\<lparr>kbdflags := kbdflags t\<rparr>" and "u = s\<lparr>kbdflags := kbdflags u\<rparr>"
  shows "t = s\<lparr>kbdflags := kbdflags t\<rparr>"
  by (subst assms(1), subst assms(2)) simp

lemma typed_Deaf [simp]: "typed ns sh Deaf = Deaf"
  by (induction ns arbitrary: sh) (auto split: prod.split)

section \<open>Properties\<close>

text \<open>
  C27: typing. For any sequence of scan codes the console keeps in its buffer the line that a line editor
  would have, without ever storing past the buffer, until a backspace comes in an empty line or the 127th
  character; from then on no key has any effect, and no newline wakes the reader.
\<close>

theorem typing_edits_line:
  assumes "input_ok l s"
  shows "\<exists>t. type_keys ns s = Inr t \<and> input_ok (typed ns (bit (kbdflags s) 0) l) t
    \<and> (l = Deaf \<longrightarrow> t = s\<lparr>kbdflags := kbdflags t\<rparr>)"
  using assms
proof (induction ns arbitrary: s l)
  case Nil
  then show ?case by simp
next
  case (Cons n ns)
  obtain c sh where d: "decode n (bit (kbdflags s) 0) = (c, sh)" by fastforce
  obtain u where u: "kbdintr n s = Inr u" "input_ok (key c l) u" "bit (kbdflags u) 0 = sh"
      "l = Deaf \<Longrightarrow> u = s\<lparr>kbdflags := kbdflags u\<rparr>"
    using kbdintr_key [OF Cons.prems d] by metis
  from Cons.IH [OF u(2)] obtain t where t: "type_keys ns u = Inr t" "input_ok (typed ns sh (key c l)) t"
      "key c l = Deaf \<longrightarrow> t = u\<lparr>kbdflags := kbdflags t\<rparr>"
    using u(3) by blast
  have "t = s\<lparr>kbdflags := kbdflags t\<rparr>" if "l = Deaf"
  proof -
    have "t = u\<lparr>kbdflags := kbdflags t\<rparr>" using t(3) that by simp
    then show ?thesis using u(4) [OF that] by (rule kbdflags_once)
  qed
  with t u(1) d show ?case by simp
qed

text \<open>The letters l and s; then three backspaces and a newline, of which the last two are lost.\<close>

lemma input_ok_boot: "input_ok (Editing []) boot_state"
  by (simp add: input_ok_def line_rep_def con_ok_def cli_ok_def)

theorem typing_edits_line_witness:
  "(\<exists>t. type_keys [0x26, 0x1F] boot_state = Inr t \<and> take (length (lit ''ls'')) (inbuf t) = lit ''ls'')
   \<and> (\<exists>t. type_keys [0x26, 0x1F, 0x0E, 0x0E, 0x0E, 0x1C, 0x26] boot_state = Inr t \<and> inindex t \<ge> 127)"
proof -
  have "typed [0x26, 0x1F] False (Editing []) = Editing (lit ''ls'')"
    "typed [0x26, 0x1F, 0x0E, 0x0E, 0x0E, 0x1C, 0x26] False (Editing []) = Deaf"
    by (simp_all add: decode_def normalmap_def)
  then show ?thesis
    using typing_edits_line [OF input_ok_boot, of "[0x26, 0x1F]"]
      typing_edits_line [OF input_ok_boot, of "[0x26, 0x1F, 0x0E, 0x0E, 0x0E, 0x1C, 0x26]"]
    by (auto simp: input_ok_def line_rep_def boot_state_def)
qed

end
