(* ===== verification/Mix_Cache.thy ===== *)
theory Mix_Cache
  imports Mix_Process Mix_Mkfs
begin

text \<open>
  Reading through the buffer cache (\<^verbatim>\<open>fs/bio.c\<close>, \<^verbatim>\<open>dev/ide.c\<close>): the request, the sleep, the disk interrupt
  and the return, for a process that has the machine to itself; then \<^verbatim>\<open>readi\<close> of \<^verbatim>\<open>fs/inode.c\<close> over it.
\<close>

section \<open>Sector addresses\<close>

lemma lba_bytes:
  "ucast (no AND 0xFF) = byte_of 0 no" "ucast (drop_bit 8 no AND 0xFF) = byte_of 1 no"
  "ucast (drop_bit 16 no AND 0xFF) = byte_of 2 no" for no :: u32
proof -
  have m: "(0xFF :: u32) = mask 8" by (simp add: mask_eq_exp_minus_1)
  show "ucast (no AND 0xFF) = byte_of 0 no" "ucast (drop_bit 8 no AND 0xFF) = byte_of 1 no"
    "ucast (drop_bit 16 no AND 0xFF) = byte_of 2 no"
    unfolding m byte_of_def by (rule bit_eqI; auto simp: bit_simps)+
qed

lemma lba_top:
  assumes "no < 0x10000000"
  shows "ucast (drop_bit 24 no OR 0xE0 :: u32) AND 0x0F = byte_of 3 no"
proof (rule bit_eqI)
  fix k
  assume k: "possible_bit TYPE(u8) k"
  have tb: "take_bit 28 no = no" using assms by (simp add: take_bit_eq_mod word_unat_eq_iff unat_mod word_less_nat_alt)
  have hi: "\<not> bit no (24 + k)" if "4 \<le> k"
  proof -
    have "\<not> bit (take_bit 28 no) (24 + k)" using that by (simp add: bit_take_bit_iff)
    then show ?thesis unfolding tb .
  qed
  have m: "(0x0F :: u8) = mask 4" by (simp add: mask_eq_exp_minus_1)
  have e: "\<not> bit (0xE0 :: u32) k" if "k < 4"
  proof -
    have "k = 0 \<or> k = 1 \<or> k = 2 \<or> k = 3" using that by auto
    then show ?thesis by (elim disjE) (simp_all add: bit_iff_odd drop_bit_eq_div)
  qed
  show "bit (ucast (drop_bit 24 no OR 0xE0 :: u32) AND 0x0F :: u8) k = bit (byte_of 3 no) k"
    unfolding m byte_of_def using k hi e by (cases "k < 4") (auto simp: bit_simps)
qed

section \<open>Alone on the machine\<close>

text \<open>
  The process \<open>c\<close> runs, no other can run or waits for anything, interrupts are enabled, the drive answers
  and its lock is free.
\<close>

definition alone :: "nat \<Rightarrow> kernel \<Rightarrow> bool" where
  "alone c s \<longleftrightarrow> procp s = Some c \<and> c < NPROC \<and> length (procs s) = NPROC \<and> stat (procs s ! c) = RUN
     \<and> (\<forall>j < NPROC. wchan (procs s ! j) = None \<and> (j \<noteq> c \<longrightarrow> stat (procs s ! j) \<noteq> RUN))
     \<and> cli_ok s \<and> ncli s = 0 \<and> interruptible s \<and> ide_status s AND 0xC0 = 0x40 \<and> locked (idelock s) = 0"

lemma wake_nobody: "(\<And>j. j < length tab \<Longrightarrow> wchan (tab ! j) \<noteq> Some ch) \<Longrightarrow> map (wake ch) tab = tab"
  by (auto simp: wake_def intro!: nth_equalityI)

lemma alone_wake: "alone c s \<Longrightarrow> map (wake ch) (procs s) = procs s"
  by (rule wake_nobody) (simp add: alone_def)

lemma release_alone:
  assumes "cli_ok s" and "\<And>j. j < length (procs s) \<Longrightarrow> wchan (procs s ! j) \<noteq> Some (ChLock l)"
  shows "release l s = Inr (set_lock l \<lparr>locked = 0, owner = None\<rparr> s)"
proof -
  have "cli_ok (set_lock l k s)" "procs (set_lock l k s) = procs s" for k
    using assms(1) by (cases l; simp add: set_lock_def)+
  then show ?thesis using assms(2) by (cases l) (simp_all add: release_def wakeup_eq wake_nobody set_lock_def)
qed

lemma acquire_free: "locked (lock_of l s) = 0 \<Longrightarrow> acquire l s = Inr (set_lock l \<lparr>locked = 1, owner = procp s\<rparr> s)"
  by (simp add: acquire_def)

section \<open>Sleeping for the disk\<close>

text \<open>While \<open>c\<close> sleeps on buffer \<open>i\<close>, \<open>sched\<close> finds nobody and returns.\<close>

lemma sched_idle:
  assumes "procp s = Some c" and "length (procs s) = NPROC" and "c < NPROC" and "\<And>j. j < NPROC \<Longrightarrow> stat (procs s ! j) \<noteq> RUN"
    and "stat (procs s ! c) \<noteq> ZOMB" and "cli_ok s"
  shows "sched s = Inr s"
proof (rule sched_scan_cases [of "procs s" RUN "schedix s"])
  show "length (procs s) = 64" using assms(2) by simp
next
  fix j b
  assume "j < 64" "stat (procs s ! j) = RUN"
  with assms(4) show ?thesis by simp
next
  assume "sched_scan RUN [0..<64] (procs s) (schedix s) None = (None, schedix s)"
  moreover have "(pushcli s)\<lparr>schedix := schedix s\<rparr> = pushcli s" by (cases s) (simp add: pushcli_upd)
  ultimately show ?thesis
    using assms by (simp add: sched_def sched_to_def Let_def cur_def popcli_table)
qed

definition filled :: "u8 list \<Rightarrow> block \<Rightarrow> block" where
  "filled bs b = b\<lparr>bdata := bs, bflags := (bflags b OR B_VALID) AND NOT B_DIRTY\<rparr>"

lemma ideintr_fills:
  assumes "owner (idelock s) = Some c" and "procs s = tab[c := p\<lparr>wchan := Some (ChBlock i), stat := SLEEP\<rparr>]"
    and "c < length tab" and "bflags (blocks s ! i) AND B_DIRTY = 0" and "i < length (blocks s)" and "cli_ok s"
    and "\<And>j. j < length tab \<Longrightarrow> wchan (tab ! j) = None"
  shows "ideintr s = Inr (s\<lparr>blocks := upd_at i (filled (insl_sector s)) (blocks s), procs := tab[c := p\<lparr>wchan := None, stat := RUN\<rparr>]\<rparr>)"
proof -
  have "map (wake (ChBlock i)) (tab[c := p\<lparr>wchan := Some (ChBlock i), stat := SLEEP\<rparr>]) = tab[c := p\<lparr>wchan := None, stat := RUN\<rparr>]"
    using assms(3,7) by (auto simp: nth_list_update wake_def intro!: nth_equalityI)
  then show ?thesis using assms
    by (simp add: ideintr_def Let_def wakeup_eq filled_def [abs_def] comp_def)
qed

lemma interrupt_ide:
  assumes "ideintr (cli s) = Inr t"
  shows "interrupt IrqIde s = Inr (t\<lparr>eflags := eflags s, outlog := (PIC0_CMD, PIC_EOI) # (PIC1_CMD, PIC_EOI) # outlog t\<rparr>)"
  using assms by (cases t) (simp add: interrupt_def irq_trap_def piceoi_def outb_def)

lemma cli_ok_cli: "cli_ok s \<Longrightarrow> cli_ok (cli s)"
  by (simp add: cli_ok_def cli_def)

text \<open>The state after a read of buffer \<open>i\<close> from the disk.\<close>

definition after_read :: "nat \<Rightarrow> irq list \<Rightarrow> kernel \<Rightarrow> kernel" where
  "after_read i es s = s\<lparr>blocks := upd_at i (filled (insl_sector s)) (blocks s), pending := es,
     outlog := (PIC0_CMD, PIC_EOI) # (PIC1_CMD, PIC_EOI) # outlog s\<rparr>"

lemma sleep_for_disk:
  assumes al: "alone c (s\<lparr>idelock := lock_zero\<rparr>)" and own: "owner (idelock s) = Some c" and "pending s = IrqIde # es"
    and "bflags (blocks s ! i) AND B_DIRTY = 0" and "i < length (blocks s)"
  shows "sleep (ChBlock i) s = Inr (after_read i es s)"
proof -
  let ?p = "procs s ! c"
  let ?tab = "(procs s)[c := ?p\<lparr>wchan := Some (ChBlock i), stat := SLEEP\<rparr>]"
  have c: "procp s = Some c" "c < 64" "length (procs s) = 64" "stat ?p = RUN" "wchan ?p = None" "cli_ok s" "ncli s = 0"
      "interruptible s"
    and others: "\<And>j. j < 64 \<Longrightarrow> wchan (procs s ! j) = None" "\<And>j. j < 64 \<Longrightarrow> j \<noteq> c \<Longrightarrow> stat (procs s ! j) \<noteq> RUN"
    using al by (auto simp: alone_def cli_ok_def)
  have on: "sleep_on (ChBlock i) s = Inr (s\<lparr>procs := ?tab\<rparr>)"
    using c by (simp add: sleep_on_def cur_upd_def popcli_table upd_at_def)
  have idle: "sched (s\<lparr>procs := ?tab\<rparr>) = Inr (s\<lparr>procs := ?tab\<rparr>)"
    by (rule sched_idle [of _ c]) (use c others in \<open>auto simp: nth_list_update\<close>)
  have same: "(procs s)[c := ?p\<lparr>wchan := None, stat := RUN\<rparr>] = procs s"
  proof -
    have "?p\<lparr>wchan := None, stat := RUN\<rparr> = ?p" using c(4,5) by (cases ?p) simp
    then show ?thesis by simp
  qed
  have "ideintr (cli (s\<lparr>procs := ?tab\<rparr>)) = Inr ((cli (s\<lparr>procs := ?tab\<rparr>))\<lparr>blocks := upd_at i (filled (insl_sector s)) (blocks s), procs := procs s\<rparr>)"
    using ideintr_fills [where s = "cli (s\<lparr>procs := ?tab\<rparr>)" and c = c and tab = "procs s" and p = ?p and i = i] own c others assms(4,5) same
    by (simp add: cli_ok_cli) (simp add: cli_def insl_sector_def ide_lba_def port_val_def)
  from interrupt_ide [OF this] have intr: "interrupt IrqIde (s\<lparr>procs := ?tab\<rparr>) = Inr ((after_read i es s)\<lparr>pending := pending s\<rparr>)"
    by (cases s) (simp add: after_read_def cli_def)
  show ?thesis
    using on idle intr assms(3) c by (cases es) (simp_all add: sleep_def cur_def after_read_def)
qed

section \<open>One request\<close>

lemma sendreq_read:
  assumes "blockno (blocks s ! i) = no" and "no < NSECTOR" and "bflags (blocks s ! i) AND B_DIRTY = 0"
    and "ide_status s AND 0xC0 = 0x40"
  obtains L where "sendreq i s = Inr (s\<lparr>outlog := L\<rparr>)" and "ide_lba (s\<lparr>outlog := L\<rparr>) = no"
proof -
  have m: "no AND 0x0FFFFFFF = no"
  proof -
    have "take_bit 28 no = no" using assms(2) by (simp add: take_bit_eq_mod word_unat_eq_iff unat_mod word_less_nat_alt)
    moreover have "(0x0FFFFFFF :: u32) = mask 28" by (simp add: mask_eq_exp_minus_1)
    ultimately show ?thesis by (simp add: take_bit_eq_mask)
  qed
  have "no < 0x10000000" using assms(2) by (simp add: word_less_nat_alt)
  note b = lba_bytes [of no] lba_top [OF this]
  have "(blocks s ! i)\<lparr>blockno := no\<rparr> = blocks s ! i" using assms(1) by (cases "blocks s ! i") simp
  then have ub: "upd_at i (\<lambda>b. b\<lparr>blockno := no\<rparr>) (blocks s) = blocks s" by (simp add: upd_at_def)
  then have "s\<lparr>blocks := upd_at i (\<lambda>b. b\<lparr>blockno := no\<rparr>) (blocks s)\<rparr> = s" by simp
  note blk = this
  define L where "L = (IDE_COMMAND, IDE_RDCMD) # (IDE_ADDR4, ucast (drop_bit 24 no OR 0xE0)) # (IDE_ADDR3, byte_of 2 no)
    # (IDE_ADDR2, byte_of 1 no) # (IDE_ADDR1, byte_of 0 no) # (IDE_SECTCNT, 1) # outlog s"
  show thesis
  proof (rule that [of L])
    show "sendreq i s = Inr (s\<lparr>outlog := L\<rparr>)"
      using assms m b blk ub by (simp add: sendreq_def idewait_def outb_def L_def Let_def not_le)
    show "ide_lba (s\<lparr>outlog := L\<rparr>) = no"
      using b le32_bytes [of no] by (simp add: ide_lba_def port_val_def L_def le32_def)
  qed
qed

lemma bits_1_2: "bit (1 :: u16) n \<longleftrightarrow> n = 0" "bit (2 :: u16) n \<longleftrightarrow> n = 1"
proof -
  have p: "(2 :: u16) = push_bit 1 1" by (simp add: push_bit_eq_mult)
  show "bit (2 :: u16) n \<longleftrightarrow> n = 1" unfolding p bit_push_bit_iff by (auto simp: bit_1_iff)
qed (simp add: bit_1_iff)

lemma filled_flags [simp]:
  "((f OR 1) AND NOT 2) AND (1 OR 2) = 1" "((f OR 1) AND NOT 2) AND 2 = 0" "((f OR 1) AND NOT 2) AND 1 = 1" for f :: u16
  by (rule bit_eqI; simp only: bit_and_iff bit_or_iff bit_not_iff bits_1_2 bit_0_eq bot_fun_def; auto)+

lemmas filled_flags_simp [simp] = filled_flags [simplified]

lemma iderw_reads:
  assumes al: "alone c s" and hold: "holding (LkBlock i) s" and i: "i < length (blocks s)"
    and no: "blockno (blocks s ! i) = no" "no < NSECTOR"
    and f: "bflags (blocks s ! i) AND (B_VALID OR B_DIRTY) \<noteq> B_VALID" "bflags (blocks s ! i) AND B_DIRTY = 0"
    and p: "pending s = IrqIde # es"
  shows "\<exists>L. iderw i s = Inr (s\<lparr>blocks := upd_at i (filled (drive s no)) (blocks s), pending := es, outlog := L, idelock := lock_zero\<rparr>)"
proof -
  have c: "procp s = Some c" "locked (idelock s) = 0" "ide_status s AND 0xC0 = 0x40" "cli_ok s"
    and w: "\<And>j. j < length (procs s) \<Longrightarrow> wchan (procs s ! j) = None"
    using al by (simp_all add: alone_def)
  define s1 where "s1 = s\<lparr>idelock := \<lparr>locked = 1, owner = Some c\<rparr>\<rparr>"
  have acq: "acquire LkIde s = Inr s1" using c by (simp add: acquire_free lock_of_def set_lock_def s1_def)
  obtain L where req: "sendreq i s1 = Inr (s1\<lparr>outlog := L\<rparr>)" "ide_lba (s1\<lparr>outlog := L\<rparr>) = no"
    using sendreq_read [of s1 i no] no f(2) c(3) by (auto simp: s1_def)
  define s2 where "s2 = s1\<lparr>outlog := L\<rparr>"
  have "alone c (s2\<lparr>idelock := lock_zero\<rparr>)" using al by (simp add: s2_def s1_def alone_def lock_zero_def cli_ok_def)
  then have sl: "sleep (ChBlock i) s2 = Inr (after_read i es s2)"
    by (rule sleep_for_disk) (use i f p in \<open>simp_all add: s2_def s1_def\<close>)
  have "insl_sector s2 = drive s no" using req(2) by (simp add: insl_sector_def s2_def s1_def)
  then have ar: "blocks (after_read i es s2) = upd_at i (filled (drive s no)) (blocks s)" "procs (after_read i es s2) = procs s"
      "cli_ok (after_read i es s2) = cli_ok s"
    by (simp_all add: after_read_def s2_def s1_def cli_ok_def)
  have fl: "bflags (upd_at i (filled (drive s no)) (blocks s) ! i) AND (B_VALID OR B_DIRTY) = B_VALID"
    using i by (simp add: filled_def)
  have "iderw_wait (Suc (length (pending s2))) i s2 = Inr (after_read i es s2)"
    using sl f(1) ar(1) fl p by (simp add: s2_def s1_def)
  moreover have "release LkIde (after_read i es s2) = Inr (set_lock LkIde \<lparr>locked = 0, owner = None\<rparr> (after_read i es s2))"
    by (rule release_alone) (use ar w c(4) in simp_all)
  ultimately have "iderw i s = Inr (set_lock LkIde \<lparr>locked = 0, owner = None\<rparr> (after_read i es s2))"
    using hold f(1) acq req(1) by (simp add: iderw_def s2_def del: iderw_wait.simps)
  moreover have "set_lock LkIde \<lparr>locked = 0, owner = None\<rparr> (after_read i es s2)
      = s\<lparr>blocks := upd_at i (filled (drive s no)) (blocks s), pending := es, outlog := outlog (after_read i es s2), idelock := lock_zero\<rparr>"
    using ar(1) by (cases s) (simp add: set_lock_def after_read_def s2_def s1_def lock_zero_def)
  ultimately show ?thesis by auto
qed

section \<open>The cache\<close>

text \<open>
  A buffer no process has a lock on: if it is valid it has what the drive has, and it is if somebody holds it.
\<close>

definition sound :: "(u32 \<Rightarrow> u8 list) \<Rightarrow> block \<Rightarrow> bool" where
  "sound d b \<longleftrightarrow> bflags b AND B_DIRTY = 0 \<and> block_lock b = lock_zero \<and> (bflags b AND B_VALID \<noteq> 0 \<longrightarrow> bdata b = d (blockno b))
     \<and> (brefcnt b \<noteq> 0 \<longrightarrow> bflags b AND B_VALID \<noteq> 0) \<and> unat (brefcnt b) + 1 < 2 ^ 16"

definition coherent :: "kernel \<Rightarrow> bool" where
  "coherent s \<longleftrightarrow> (\<forall>b \<in> set (blocks s). sound (drive s) b) \<and> (\<exists>b \<in> set (blocks s). brefcnt b = 0)"

text \<open>No buffer is held; the buffers that are held are not touched.\<close>

definition idle :: "kernel \<Rightarrow> bool" where
  "idle s \<longleftrightarrow> (\<forall>b \<in> set (blocks s). brefcnt b = 0)"

definition kept_bufs :: "kernel \<Rightarrow> kernel \<Rightarrow> bool" where
  "kept_bufs s t \<longleftrightarrow> map brefcnt (blocks t) = map brefcnt (blocks s)
     \<and> (\<forall>j < length (blocks s). brefcnt (blocks s ! j) \<noteq> 0 \<longrightarrow> blocks t ! j = blocks s ! j)"

lemma idle_kept: "kept_bufs s t \<Longrightarrow> idle s \<Longrightarrow> idle t"
  unfolding idle_def kept_bufs_def by (metis (no_types, lifting) image_iff set_map)

text \<open>At least \<open>k\<close> disk interrupts will come, one for each request.\<close>

definition solo :: "nat \<Rightarrow> nat \<Rightarrow> kernel \<Rightarrow> bool" where
  "solo c k s \<longleftrightarrow> alone c s \<and> coherent s \<and> length (blocks s) = 256 \<and> (\<exists>es. pending s = replicate k IrqIde @ es)"

text \<open>What a read of the disk changes.\<close>

definition disk_only :: "kernel \<Rightarrow> kernel \<Rightarrow> bool" where
  "disk_only s t \<longleftrightarrow> (\<exists>B P L K. t = s\<lparr>blocks := B, pending := P, outlog := L, idelock := K\<rparr>)"

lemma disk_only_refl: "disk_only s s"
  unfolding disk_only_def
  by (rule exI [of _ "blocks s"], rule exI [of _ "pending s"], rule exI [of _ "outlog s"], rule exI [of _ "idelock s"])
    (cases s, simp)

lemma disk_only_blocks: "disk_only s t \<Longrightarrow> disk_only s (t\<lparr>blocks := B\<rparr>)"
proof -
  assume "disk_only s t"
  then obtain B' P L K where "t = s\<lparr>blocks := B', pending := P, outlog := L, idelock := K\<rparr>" by (auto simp: disk_only_def)
  then have "t\<lparr>blocks := B\<rparr> = s\<lparr>blocks := B, pending := P, outlog := L, idelock := K\<rparr>" by (cases s) simp
  then show ?thesis unfolding disk_only_def by blast
qed

lemma disk_only_trans: "disk_only s t \<Longrightarrow> disk_only t u \<Longrightarrow> disk_only s u"
  by (auto simp: disk_only_def) (metis (no_types) kernel.update_convs(6,9,10))

lemma not_valid: "f AND B_VALID = 0 \<Longrightarrow> f AND (B_VALID OR B_DIRTY) \<noteq> B_VALID" for f :: u16
proof
  assume "f AND B_VALID = 0" "f AND (B_VALID OR B_DIRTY) = B_VALID"
  then have "(f AND (B_VALID OR B_DIRTY)) AND B_VALID = B_VALID" by (simp only: and.idem)
  moreover have "(f AND (B_VALID OR B_DIRTY)) AND B_VALID = f AND B_VALID" by (simp add: and.assoc)
  ultimately show False using \<open>f AND B_VALID = 0\<close> by simp
qed

text \<open>A buffer that \<open>bget\<close> handed out, and what \<open>bread\<close> makes of it.\<close>

definition got :: "kernel \<Rightarrow> u32 \<Rightarrow> block \<Rightarrow> bool" where
  "got s no b \<longleftrightarrow> blockno b = no \<and> brefcnt b = 1 \<and> bflags b AND B_DIRTY = 0 \<and> block_lock b = lock_zero
     \<and> (bflags b AND B_VALID \<noteq> 0 \<longrightarrow> bdata b = drive s no)"

lemma bget_solo:
  assumes "solo c k s"
  obtains (taken) i b where "bget no s = Inr (i, s\<lparr>blocks := (blocks s)[i := b]\<rparr>)" and "i < 256" and "got s no b"
      and "brefcnt (blocks s ! i) = 0"
  | (held) i where "bget no s = Inr (i, s\<lparr>blocks := upd_at i (\<lambda>b. b\<lparr>brefcnt := brefcnt b + 1\<rparr>) (blocks s)\<rparr>)" and "i < 256"
      and "blockno (blocks s ! i) = no" and "brefcnt (blocks s ! i) \<noteq> 0"
proof -
  have s: "cli_ok s" "coherent s" "length (blocks s) = 256" using assms by (simp_all add: solo_def alone_def)
  have sd: "sound (drive s) (blocks s ! i)" if "i < 256" for i using s(2,3) that by (simp add: coherent_def)
  show thesis
  proof (cases "find_idx (\<lambda>b. blockno b = no) (blocks s)")
    case (Some i)
    note F = find_idx_SomeD [OF Some]
    have i: "i < 256" using F(1) s(3) by simp
    have g: "bget no s = Inr (i, s\<lparr>blocks := upd_at i (\<lambda>b. b\<lparr>brefcnt := brefcnt b + 1\<rparr>) (blocks s)\<rparr>)"
      using Some s(1) by (simp add: bget_eq)
    show thesis
    proof (cases "brefcnt (blocks s ! i) = 0")
      case True
      then have "got s no ((blocks s ! i)\<lparr>brefcnt := 1\<rparr>)" using sd [OF i] F(2) by (simp add: got_def sound_def)
      then show thesis using g i True by (intro taken [of i "(blocks s ! i)\<lparr>brefcnt := 1\<rparr>"]) (simp_all add: upd_at_def)
    next
      case False
      then show thesis using g i F(2) by (intro held)
    qed
  next
    case None
    obtain x where x: "x \<in> set (blocks s)" "brefcnt x = 0" using s(2) by (auto simp: coherent_def)
    then have "bflags x AND B_DIRTY = 0" using s(2) by (auto simp: coherent_def sound_def)
    then obtain i where i: "find_idx (\<lambda>b. brefcnt b = 0 \<and> bflags b AND B_DIRTY = 0) (blocks s) = Some i"
      using find_idx_exists [of x "blocks s" "\<lambda>b. brefcnt b = 0 \<and> bflags b AND B_DIRTY = 0"] x by blast
    from find_idx_SomeD [OF i] s have "i < 256" "brefcnt (blocks s ! i) = 0" by auto
    moreover from this have "got s no ((blocks s ! i)\<lparr>blockno := no, bflags := 0, brefcnt := 1\<rparr>)"
      using sd by (simp add: got_def sound_def)
    ultimately show thesis using None i s(1) by (intro taken [of i]) (simp_all add: bget_eq upd_at_def)
  qed
qed

lemma alone_blocks [simp]: "alone c (s\<lparr>blocks := B\<rparr>) = alone c s"
  by (simp add: alone_def cli_ok_def)

lemma bread_got:
  assumes al: "alone c s" and b: "got s no (blocks s ! i)" and i: "i < length (blocks s)" and no: "no < NSECTOR"
    and p: "pending s = IrqIde # es"
  obtains t b' where "bnd (acquire (LkBlock i) s) (\<lambda>s. bnd (if bflags (blocks s ! i) AND B_VALID = 0 then iderw i s else Inr s)
      (\<lambda>s. bnd (release (LkBlock i) s) (\<lambda>s. Inr (i, s)))) = Inr (i, t)"
    and "blocks t = (blocks s)[i := b']" and "got s no b'" and "bdata b' = drive s no" and "bflags b' AND B_VALID \<noteq> 0"
    and "alone c t" and "disk_only s t" and "pending t = pending s \<or> pending t = es"
proof -
  have c: "procp s = Some c" "cli_ok s" and w: "\<And>j. j < length (procs s) \<Longrightarrow> wchan (procs s ! j) = None"
    using al by (simp_all add: alone_def)
  define b1 where "b1 = (blocks s ! i)\<lparr>block_lock := \<lparr>locked = 1, owner = Some c\<rparr>\<rparr>"
  define s1 where "s1 = s\<lparr>blocks := (blocks s)[i := b1]\<rparr>"
  have acq: "acquire (LkBlock i) s = Inr s1"
    using b c by (simp add: acquire_free lock_of_def got_def lock_zero_def set_lock_def upd_at_def s1_def b1_def)
  have rel: "release (LkBlock i) u = Inr (u\<lparr>blocks := upd_at i (\<lambda>b. b\<lparr>block_lock := lock_zero\<rparr>) (blocks u)\<rparr>)"
    if "procs u = procs s" "cli_ok u" for u
    using release_alone [of u "LkBlock i"] that w by (simp add: set_lock_def lock_zero_def)
  show thesis
  proof (cases "bflags (blocks s ! i) AND B_VALID = 0")
    case False
    have same: "(blocks s ! i)\<lparr>block_lock := lock_zero\<rparr> = blocks s ! i" using b by (cases "blocks s ! i") (simp add: got_def)
    then have "(blocks s)[i := b1\<lparr>block_lock := lock_zero\<rparr>] = blocks s" by (simp add: b1_def)
    then have "release (LkBlock i) s1 = Inr s" using rel [of s1] c i by (simp add: s1_def upd_at_def cli_ok_def)
    then show thesis
      using False acq i b al by (intro that [of s "blocks s ! i"]) (simp_all add: s1_def b1_def got_def disk_only_refl)
  next
    case True
    have "\<exists>L. iderw i s1 = Inr (s1\<lparr>blocks := upd_at i (filled (drive s1 no)) (blocks s1), pending := es, outlog := L, idelock := lock_zero\<rparr>)"
      by (rule iderw_reads [where c = c])
        (use al b i no p True not_valid c in \<open>simp_all add: s1_def b1_def got_def holding_def lock_of_def\<close>)
    then obtain L where rd: "iderw i s1 = Inr (s1\<lparr>blocks := upd_at i (filled (drive s no)) (blocks s1), pending := es,
        outlog := L, idelock := lock_zero\<rparr>)" by (auto simp: s1_def)
    define b' where "b' = (filled (drive s no) b1)\<lparr>block_lock := lock_zero\<rparr>"
    define t where "t = s\<lparr>blocks := (blocks s)[i := b'], pending := es, outlog := L, idelock := lock_zero\<rparr>"
    have "release (LkBlock i) (s1\<lparr>blocks := upd_at i (filled (drive s no)) (blocks s1), pending := es, outlog := L, idelock := lock_zero\<rparr>)
      = Inr t" using rel i c by (simp add: s1_def t_def b'_def upd_at_def cli_ok_def)
    with acq rd True i have "bnd (acquire (LkBlock i) s) (\<lambda>s. bnd (if bflags (blocks s ! i) AND B_VALID = 0 then iderw i s else Inr s)
      (\<lambda>s. bnd (release (LkBlock i) s) (\<lambda>s. Inr (i, s)))) = Inr (i, t)"
      by (simp add: s1_def b1_def)
    moreover have "got s no b'" "bdata b' = drive s no" "bflags b' AND B_VALID \<noteq> 0"
      using b by (simp_all add: b'_def b1_def got_def filled_def)
    moreover have "alone c t" using al by (simp add: t_def alone_def cli_ok_def lock_zero_def)
    ultimately show thesis by (intro that [of t b']) (auto simp: t_def disk_only_def)
  qed
qed

text \<open>One buffer changes to a sound one.\<close>

lemma coherent_set:
  assumes "coherent s" and "sound (drive s) b" and "drive t = drive s" and "blocks t = (blocks s)[i := b]"
    and "brefcnt b = 0 \<or> (\<exists>j < length (blocks s). j \<noteq> i \<and> brefcnt (blocks s ! j) = 0)" and "i < length (blocks s)"
  shows "coherent t"
proof -
  have "\<forall>x \<in> set (blocks t). sound (drive t) x"
    using assms(1-4) set_update_subset_insert [of "blocks s" i b] by (auto simp: coherent_def)
  moreover have "\<exists>x \<in> set (blocks t). brefcnt x = 0"
    using assms(5)
  proof
    assume "brefcnt b = 0"
    then show ?thesis using assms(4,6) set_update_memI [of i "blocks s" b] by auto
  next
    assume "\<exists>j < length (blocks s). j \<noteq> i \<and> brefcnt (blocks s ! j) = 0"
    then obtain j where "j < length (blocks t)" "brefcnt (blocks t ! j) = 0" using assms(4) by auto
    then show ?thesis by (metis nth_mem)
  qed
  ultimately show ?thesis by (simp add: coherent_def)
qed

lemma solo_fewer: "solo c k s \<Longrightarrow> j \<le> k \<Longrightarrow> solo c j s"
  unfolding solo_def by (metis append.assoc le_add_diff_inverse replicate_add)

lemma bread_solo:
  assumes solo: "solo c (Suc k) s" and no: "no < NSECTOR"
  obtains i t where "bread no s = Inr (i, t)" and "bdata (blocks t ! i) = drive s no" and "disk_only s (brelse i t)"
    and "solo c k (brelse i t)" and "disk_only s t" and "i < 256" and "brefcnt (blocks t ! i) \<noteq> 0"
    and "kept_bufs s (brelse i t)" and "idle s \<Longrightarrow> solo c k t"
proof -
  obtain es where al: "alone c s" and co: "coherent s" "length (blocks s) = 256" and p: "pending s = IrqIde # replicate k IrqIde @ es"
    using solo by (auto simp: solo_def)
  have idle0: "brefcnt (blocks s ! i) = 0" if "idle s" "i < 256" for i using that co(2) by (simp add: idle_def)
  show thesis
  proof (rule bget_solo [OF solo, of no])
    fix i
    assume h: "bget no s = Inr (i, s\<lparr>blocks := upd_at i (\<lambda>b. b\<lparr>brefcnt := brefcnt b + 1\<rparr>) (blocks s)\<rparr>)" "i < 256"
      "blockno (blocks s ! i) = no" "brefcnt (blocks s ! i) \<noteq> 0"
    let ?t = "s\<lparr>blocks := upd_at i (\<lambda>b. b\<lparr>brefcnt := brefcnt b + 1\<rparr>) (blocks s)\<rparr>"
    have sd: "sound (drive s) (blocks s ! i)" using co h(2) by (simp add: coherent_def)
    then have u: "unat (brefcnt (blocks s ! i) + 1) = unat (brefcnt (blocks s ! i)) + 1"
      by (simp add: sound_def unat_word_ariths)
    then have more: "brefcnt (blocks s ! i) + 1 > 1" using h(4) by (simp add: word_less_nat_alt unat_gt_0)
    have br: "brelse i ?t = s" using h(2) co(2) by (simp add: brelse_def upd_at_def)
    have "bread no s = Inr (i, ?t)" using h more co(2) by (simp add: bread_def)
    moreover have "bdata (blocks ?t ! i) = drive s no" using sd h co(2) by (simp add: sound_def)
    moreover have "solo c k (brelse i ?t)" unfolding br using solo by (rule solo_fewer) simp
    moreover have "brefcnt (blocks ?t ! i) \<noteq> 0" using more h(2) co(2) by auto
    moreover have "disk_only s ?t" using disk_only_refl by (rule disk_only_blocks)
    ultimately show thesis
      using h(2,4) idle0 by (intro that [of i ?t]) (simp_all add: br disk_only_refl kept_bufs_def)
  next
    fix i b
    assume g: "bget no s = Inr (i, s\<lparr>blocks := (blocks s)[i := b]\<rparr>)" "i < 256" "got s no b" "brefcnt (blocks s ! i) = 0"
    let ?s = "s\<lparr>blocks := (blocks s)[i := b]\<rparr>"
    have s0: "got ?s no (blocks ?s ! i)" "i < length (blocks ?s)" using g(2,3) co(2) by (simp_all add: got_def)
    obtain t b' where t: "bnd (acquire (LkBlock i) ?s) (\<lambda>s. bnd (if bflags (blocks s ! i) AND B_VALID = 0 then iderw i s else Inr s)
        (\<lambda>s. bnd (release (LkBlock i) s) (\<lambda>s. Inr (i, s)))) = Inr (i, t)"
      and u: "blocks t = (blocks ?s)[i := b']" "got ?s no b'" "bdata b' = drive ?s no" "bflags b' AND B_VALID \<noteq> 0" "alone c t"
        "disk_only ?s t" "pending t = pending ?s \<or> pending t = replicate k IrqIde @ es"
      by (rule bread_got [of c ?s no i "replicate k IrqIde @ es"]) (use al s0 no p in simp_all)
    have bt: "blocks t = (blocks s)[i := b']" using u(1) by simp
    have "bread no s = Inr (i, t)" using g(1,3) t s0 co(2) g(2) by (simp add: bread_def got_def)
    moreover have "bdata (blocks t ! i) = drive s no" using u(3) bt co(2) g(2) by simp
    moreover have d: "disk_only s t" using u(6) by (auto simp: disk_only_def)
    moreover have "disk_only s (brelse i t)" using d unfolding brelse_def by (rule disk_only_blocks)
    moreover have dr: "drive t = drive s" using d by (auto simp: disk_only_def)
    have pe: "\<exists>es. pending t = replicate k IrqIde @ es"
      using u(7) p by (auto simp: replicate_append_same [symmetric]) (metis append_Cons append_assoc replicate_app_Cons_same)
    have sd: "sound (drive s) b'" "sound (drive s) (b'\<lparr>brefcnt := 0\<rparr>)" using u(2-4) by (simp_all add: sound_def got_def)
    have br: "brelse i t = t\<lparr>blocks := (blocks s)[i := b'\<lparr>brefcnt := 0\<rparr>]\<rparr>"
      using bt u(2) co(2) g(2) by (simp add: brelse_def upd_at_def got_def)
    moreover have "solo c k (brelse i t)"
    proof -
      have "coherent (brelse i t)"
        using coherent_set [OF co(1) sd(2), of "brelse i t" i] dr br co(2) g(2) by simp
      then show ?thesis using u(5) br co(2) pe by (simp add: solo_def)
    qed
    moreover have "kept_bufs s (brelse i t)"
      using g(2,4) co(2) by (auto simp: kept_bufs_def br map_update list_update_same_conv nth_list_update)
    moreover have "solo c k t" if "idle s"
    proof -
      define j where "j = (if i = 0 then 1 else 0 :: nat)"
      have "j < length (blocks s)" "j \<noteq> i" "brefcnt (blocks s ! j) = 0" using idle0 [OF that, of j] co(2) by (auto simp: j_def)
      then have "brefcnt b' = 0 \<or> (\<exists>j < length (blocks s). j \<noteq> i \<and> brefcnt (blocks s ! j) = 0)" by blast
      then have "coherent t" by (rule coherent_set [OF co(1) sd(1) dr bt]) (use co(2) g(2) in simp)
      then show ?thesis using u(5) bt co(2) pe by (simp add: solo_def)
    qed
    moreover have "brefcnt (blocks t ! i) \<noteq> 0" using bt u(2) g(2) co(2) by (simp add: got_def)
    ultimately show thesis using g(2) by (intro that [of i t])
  qed
qed

text \<open>Giving back a buffer that was held.\<close>

lemma solo_brelse:
  assumes "solo c k s" and "b < 256" and "brefcnt (blocks s ! b) \<noteq> 0"
  shows "solo c k (brelse b s)"
proof -
  let ?b = "(blocks s ! b)\<lparr>brefcnt := brefcnt (blocks s ! b) - 1\<rparr>"
  have l: "length (blocks s) = 256" and co: "coherent s" using assms(1) by (simp_all add: solo_def)
  have u: "unat (brefcnt (blocks s ! b) - 1) = unat (brefcnt (blocks s ! b)) - 1" using assms(3) by (rule unat_minus_one)
  have "sound (drive s) (blocks s ! b)" using co l assms(2) by (simp add: coherent_def)
  then have "sound (drive s) ?b" using assms(3) u by (auto simp: sound_def)
  moreover obtain x where "x \<in> set (blocks s)" "brefcnt x = 0" using co by (auto simp: coherent_def)
  then obtain j where "j < length (blocks s)" "brefcnt (blocks s ! j) = 0" by (metis in_set_conv_nth)
  moreover from this have "j \<noteq> b" using assms(3) by auto
  ultimately have "coherent (brelse b s)"
    using coherent_set [OF co, of ?b "brelse b s" b] l assms(2) by (auto simp: brelse_def upd_at_def)
  then show ?thesis using assms(1) by (simp add: solo_def brelse_def)
qed

section \<open>Reading a file\<close>

lemma store_bytes_append: "store_bytes a (xs @ ys) m = store_bytes (a + of_nat (length xs)) ys (store_bytes a xs m)"
  by (induction xs arbitrary: a m) (simp_all add: add.assoc)

text \<open>
  What \<^verbatim>\<open>readi\<close> does to its destination: a frame, or the header buffer of \<^verbatim>\<open>sys_execv\<close> that is filled from
  its start.
\<close>

definition delivered :: "dest \<Rightarrow> u32 \<Rightarrow> u8 list \<Rightarrow> kernel \<Rightarrow> kernel" where
  "delivered d off bs s = (case d of
      Phys a \<Rightarrow> s\<lparr>mem := store_bytes (a + off) bs (mem s)\<rparr>
    | HeaderBuf \<Rightarrow> s\<lparr>kbuf := kbuf s @ bs\<rparr>
    | UserPtr a \<Rightarrow> s)"

definition fillable :: "dest \<Rightarrow> u32 \<Rightarrow> kernel \<Rightarrow> bool" where
  "fillable d off s \<longleftrightarrow> (case d of Phys a \<Rightarrow> True | HeaderBuf \<Rightarrow> unat off = length (kbuf s) | UserPtr a \<Rightarrow> False)"

lemma put_at_delivered: "fillable d off s \<Longrightarrow> put_at d off bs s = Inr (delivered d off bs s)"
  by (cases d) (simp_all add: fillable_def put_at_def delivered_def)

lemma delivered_append: "delivered d (off + of_nat (length xs)) ys (delivered d off xs s) = delivered d off (xs @ ys) s"
  by (cases d) (simp_all add: delivered_def store_bytes_append add.assoc)

lemma delivered_Nil: "fillable d off s \<Longrightarrow> delivered d off [] s = s"
  by (cases d) (simp_all add: delivered_def fillable_def)

lemma fillable_delivered:
  "fillable d off s \<Longrightarrow> unat off + length bs < 2 ^ 32 \<Longrightarrow> fillable d (off + of_nat (length bs)) (delivered d off bs s)"
  using unat_add_small [of off "length bs"] by (cases d) (simp_all add: fillable_def delivered_def)

lemma delivered_sel [simp]:
  "inodes (delivered d off bs s) = inodes s" "drive (delivered d off bs s) = drive s" "blocks (delivered d off bs s) = blocks s"
  "solo c k (delivered d off bs s) = solo c k s" "brelse b (delivered d off bs s) = delivered d off bs (brelse b s)"
  "fillable d off (brelse b s) = fillable d off s"
  by (cases d; simp add: delivered_def solo_def alone_def coherent_def brelse_def fillable_def cli_ok_def)+

lemma disk_only_delivered: "disk_only s t \<Longrightarrow> disk_only (delivered d off bs s) (delivered d off bs t)"
proof -
  assume "disk_only s t"
  then obtain B P L K where t: "t = s\<lparr>blocks := B, pending := P, outlog := L, idelock := K\<rparr>" by (auto simp: disk_only_def)
  have "delivered d off bs t = (delivered d off bs s)\<lparr>blocks := B, pending := P, outlog := L, idelock := K\<rparr>"
    unfolding t by (cases s; cases d) (simp_all add: delivered_def)
  then show ?thesis unfolding disk_only_def by blast
qed

lemma disk_only_fillable: "disk_only s t \<Longrightarrow> fillable d off t = fillable d off s"
  by (cases d) (auto simp: disk_only_def fillable_def)

text \<open>Reading to physical memory, and what that changes.\<close>

definition read_only_mem :: "memory \<Rightarrow> kernel \<Rightarrow> kernel \<Rightarrow> bool" where
  "read_only_mem m s t \<longleftrightarrow> disk_only (s\<lparr>mem := m\<rparr>) t"

lemma disk_only_sel:
  "disk_only s t \<Longrightarrow> mem t = mem s \<and> inodes t = inodes s \<and> drive t = drive s \<and> procp t = procp s \<and> procs t = procs s
    \<and> files t = files s \<and> cr3 t = cr3 s \<and> coremap t = coremap s"
  by (auto simp: disk_only_def)

lemma solo_mem [simp]: "solo c k (s\<lparr>mem := m\<rparr>) = solo c k s"
  by (simp add: solo_def alone_def coherent_def cli_ok_def)

definition sectors_for :: "nat \<Rightarrow> nat \<Rightarrow> nat" where
  "sectors_for off r = (if r = 0 then 0 else (off mod 512 + r + 511) div 512)"

definition file_part :: "(u32 \<Rightarrow> u8 list) \<Rightarrow> inode \<Rightarrow> nat \<Rightarrow> nat \<Rightarrow> u8 list" where
  "file_part d ip off r = map (\<lambda>j. d (iaddr ip ! (j div 512)) ! (j mod 512)) [off..<off + r]"

lemma mod_512: "n mod 512 < (512 :: nat)"
  by simp

lemma to_next_sector:
  fixes off m :: nat
  assumes "m = 512 - off mod 512"
  shows "off + m = 512 * (off div 512 + 1)"
proof -
  define q x where "q = off div 512" and "x = off mod 512"
  then have "off = 512 * q + x" "x < 512" by simp_all
  with assms show ?thesis by (simp add: q_def [symmetric] x_def [symmetric])
qed

lemma same_sector:
  fixes off j r :: nat
  assumes "j < r" and "r \<le> 512 - off mod 512"
  shows "(off + j) div 512 = off div 512" and "(off + j) mod 512 = off mod 512 + j"
proof -
  have o: "off = 512 * (off div 512) + off mod 512" by simp
  have x: "off mod 512 + j < 512" using assms by simp
  have "off + j = 512 * (off div 512) + (off mod 512 + j)" by simp
  then show "(off + j) div 512 = off div 512" and "(off + j) mod 512 = off mod 512 + j"
    using x by (simp_all only: div_mult_self4 mod_mult_self4 div_less mod_less add_0_right)
qed

lemma sectors_for_step:
  fixes off r :: nat
  assumes "0 < r"
  defines "m \<equiv> min r (512 - off mod 512)"
  shows "sectors_for off r = Suc (sectors_for (off + m) (r - m))"
proof (cases "r \<le> 512 - off mod 512")
  case True
  then have "(off mod 512 + r + 511) div 512 = 1" using assms(1) mod_512 [of off] by (intro div_nat_eqI) simp_all
  then show ?thesis using True assms(1) by (simp add: sectors_for_def m_def)
next
  case False
  then have m: "m = 512 - off mod 512" "0 < r - m" by (simp_all add: m_def)
  have "(off + m) mod 512 = 0"
  proof -
    have "off + m = 512 * (off div 512 + 1)" by (rule to_next_sector) (rule m(1))
    then show ?thesis by simp
  qed
  moreover have "off mod 512 + r + 511 = 512 + (r - m + 511)" using m mod_512 [of off] by simp
  ultimately show ?thesis using m(2) assms(1) by (simp add: sectors_for_def)
qed

lemma part_file:
  assumes "r \<le> 512 - off mod 512" and "length (d (iaddr ip ! (off div 512))) = 512"
  shows "take r (drop (off mod 512) (d (iaddr ip ! (off div 512)))) = file_part d ip off r"
proof (rule nth_equalityI)
  show "length (take r (drop (off mod 512) (d (iaddr ip ! (off div 512))))) = length (file_part d ip off r)"
    using assms by (simp add: file_part_def)
  fix j
  assume "j < length (take r (drop (off mod 512) (d (iaddr ip ! (off div 512)))))"
  then have j: "j < r" by simp
  note same_sector [OF j assms(1)]
  then show "take r (drop (off mod 512) (d (iaddr ip ! (off div 512)))) ! j = file_part d ip off r ! j"
    using j assms by (simp add: file_part_def)
qed

lemma file_part_append: "m \<le> r \<Longrightarrow> file_part d ip off r = file_part d ip off m @ file_part d ip (off + m) (r - m)"
  unfolding file_part_def map_append [symmetric] using upt_add_eq_append [of off "off + m" "r - m"] by simp

lemma length_file_part [simp]: "length (file_part d ip off r) = r"
  by (simp add: file_part_def)

text \<open>The inode's sectors are on the disk, and every sector has its length.\<close>

definition sectors_ok :: "(u32 \<Rightarrow> u8 list) \<Rightarrow> inode \<Rightarrow> bool" where
  "sectors_ok d ip \<longleftrightarrow> length (iaddr ip) = 124 \<and> (\<forall>no \<in> set (iaddr ip). no < NSECTOR) \<and> (\<forall>n. length (d n) = 512)"

lemma unat_chunk:
  assumes "unat cnt \<le> unat sz"
  shows "unat (chunk cnt sz off) = min (unat sz - unat cnt) (512 - unat off mod 512)"
proof -
  have m: "unat (off mod 0x200) = unat off mod 512" by (simp add: unat_mod)
  then have "unat (0x200 - off mod 0x200) = 512 - unat off mod 512"
    using unat_sub [of "off mod 0x200" "0x200"] by (simp add: word_le_nat_alt)
  moreover have "unat (sz - cnt) = unat sz - unat cnt" using assms by (simp add: unat_sub word_le_nat_alt)
  ultimately show ?thesis by (auto simp: chunk_def word_less_nat_alt min_def)
qed

lemma readi_loop_reads:
  assumes "sectors_ok (drive s) (inodes s ! i)" and "solo c k s" and "unat cnt \<le> unat sz"
    and "unat off + (unat sz - unat cnt) \<le> 124 * 512" and "unat sz - unat cnt < n"
    and "sectors_for (unat off) (unat sz - unat cnt) \<le> k"
    and "fillable d cnt s"
  shows "\<exists>t. readi_loop n i d cnt sz off s = Inr t
    \<and> disk_only (delivered d cnt (file_part (drive s) (inodes s ! i) (unat off) (unat sz - unat cnt)) s) t
    \<and> solo c (k - sectors_for (unat off) (unat sz - unat cnt)) t"
  using assms
proof (induction n arbitrary: cnt off k s)
  case 0
  then show ?case by simp
next
  case (Suc n)
  let ?ip = "inodes s ! i"
  let ?r = "unat sz - unat cnt" and ?o = "unat off"
  show ?case
  proof (cases "cnt < sz")
    case False
    then have "?r = 0" by (simp add: word_less_nat_alt)
    then show ?thesis using False Suc.prems(2)
      by (intro exI [of _ s]) (simp add: delivered_Nil [OF Suc.prems(7)] file_part_def disk_only_refl sectors_for_def)
  next
    case True
    then have r: "0 < ?r" by (simp add: word_less_nat_alt)
    let ?m = "chunk cnt sz off"
    have m: "unat ?m = min ?r (512 - ?o mod 512)" by (rule unat_chunk) (rule Suc.prems(3))
    have o: "unat (off div 0x200) = ?o div 512" by (simp add: unat_div)
    have blk: "?o div 512 < 124" using Suc.prems(4) r by (simp add: div_less_iff_less_mult)
    have ip: "length (iaddr ?ip) = 124" "iaddr ?ip ! (?o div 512) < NSECTOR" "\<And>x. length (drive s x) = 512"
      using Suc.prems(1) blk by (simp_all add: sectors_ok_def)
    have st: "sectors_for ?o ?r = Suc (sectors_for (?o + unat ?m) (?r - unat ?m))"
      using sectors_for_step [OF r, of ?o] unfolding m .
    have le: "unat ?m \<le> ?r" unfolding m by simp
    obtain k' where k: "k = Suc k'" using Suc.prems(6) unfolding st by (cases k) simp_all
    obtain b u where u: "bread (iaddr ?ip ! (?o div 512)) s = Inr (b, u)"
        "bdata (blocks u ! b) = drive s (iaddr ?ip ! (?o div 512))" "disk_only s (brelse b u)" "solo c k' (brelse b u)"
        "disk_only s u"
      by (rule bread_solo [OF Suc.prems(2) [unfolded k] ip(2)]) (rule that; assumption)
    have part: "part (bdata (blocks u ! b)) (off mod SECTSIZE) ?m = file_part (drive s) ?ip ?o (unat ?m)"
      using part_file [of "unat ?m" ?o "drive s" ?ip] m ip(3) u(2) by (simp add: part_def unat_mod)
    let ?f = "file_part (drive s) ?ip ?o (unat ?m)"
    let ?v = "delivered d cnt ?f (brelse b u)"
    have "fillable d cnt u" using Suc.prems(7) disk_only_fillable [OF u(5)] by simp
    from put_at_delivered [OF this, of ?f]
    have step: "readi_loop (Suc n) i d cnt sz off s = readi_loop n i d (cnt + ?m) sz (off + ?m) ?v"
      using True o blk ip(1) u(1) part by (simp add: Let_def)
    have dv: "disk_only (delivered d cnt ?f s) ?v" by (rule disk_only_delivered [OF u(3)])
    have sel: "inodes ?v = inodes s" "drive ?v = drive s" using disk_only_sel [OF u(3)] by simp_all
    have w: "unat (cnt + ?m) = unat cnt + unat ?m" "unat (off + ?m) = ?o + unat ?m"
    proof -
      have "unat cnt + unat ?m < 2 ^ 32" using le Suc.prems(3) unat32_lt [of sz] by simp
      then show "unat (cnt + ?m) = unat cnt + unat ?m" using unat_add_small [of cnt "unat ?m"] by simp
      have "?o + unat ?m < 2 ^ 32" using le Suc.prems(4) by simp
      then show "unat (off + ?m) = ?o + unat ?m" using unat_add_small [of off "unat ?m"] by simp
    qed
    have rr: "unat sz - unat (cnt + ?m) = ?r - unat ?m" using w by simp
    have ls: "sectors_for (?o + unat ?m) (?r - unat ?m) \<le> k'" using st Suc.prems(6) k by simp
    have cm: "cnt + ?m = cnt + of_nat (length ?f)" by simp
    have "\<exists>t. readi_loop n i d (cnt + ?m) sz (off + ?m) ?v = Inr t
      \<and> disk_only (delivered d (cnt + ?m) (file_part (drive ?v) (inodes ?v ! i) (unat (off + ?m)) (unat sz - unat (cnt + ?m))) ?v) t
      \<and> solo c (k' - sectors_for (unat (off + ?m)) (unat sz - unat (cnt + ?m))) t"
    proof (rule Suc.IH)
      show "solo c k' ?v" using u(4) by simp
      have "0 < unat ?m" unfolding m using r mod_512 [of ?o] by simp
      then show "unat sz - unat (cnt + ?m) < n" using Suc.prems(5) rr r by simp
      have "fillable d cnt (brelse b u)" using Suc.prems(7) disk_only_fillable [OF u(3)] by simp
      then show "fillable d (cnt + ?m) ?v"
        unfolding cm by (rule fillable_delivered) (use w le Suc.prems(3) unat32_lt [of sz] in simp)
    qed (use Suc.prems(1,3,4) w rr le ls sel in simp_all)
    then obtain t where t: "readi_loop n i d (cnt + ?m) sz (off + ?m) ?v = Inr t"
      "solo c (k' - sectors_for (?o + unat ?m) (?r - unat ?m)) t"
      "disk_only (delivered d (cnt + ?m) (file_part (drive s) ?ip (?o + unat ?m) (?r - unat ?m)) ?v) t"
      using sel w rr by auto
    have "delivered d (cnt + ?m) (file_part (drive s) ?ip (?o + unat ?m) (?r - unat ?m)) ?v
      = delivered d cnt (file_part (drive s) ?ip ?o ?r) (brelse b u)"
      unfolding cm delivered_append using file_part_append [OF le, of "drive s" ?ip ?o] by simp
    then have "disk_only (delivered d cnt (file_part (drive s) ?ip ?o ?r) s) t"
      using disk_only_trans [OF disk_only_delivered [OF u(3)]] t(3) by metis
    with t(1,2) step show ?thesis by (auto simp: st k)
  qed
qed

lemma file_part_contents:
  assumes "r + off \<le> unat (isize ip)"
  shows "file_part d ip off r = take r (drop off (image_contents (\<lambda>k. d (of_nat k)) ip))"
  using assms by (intro nth_equalityI) (simp_all add: file_part_def image_contents_def)

lemma sint_small:
  assumes "unat (w :: u32) < 2 ^ 31"
  shows "sint w = int (unat w)"
proof -
  have "int (unat w) < int (2 ^ 31)" using assms by (simp only: of_nat_less_iff)
  then have u: "int (unat w) < 2 ^ 31" by simp
  have u': "- (2 ^ 31) \<le> int (unat w)" by (rule order_trans [OF _ of_nat_0_le_iff]) simp
  have "uint w = int (unat w)" by simp
  then show ?thesis unfolding sint_uint using signed_take_bit_int_eq_self [OF u' u] by simp
qed

lemma readi_reads:
  assumes "solo c k s" and "holding (LkInode i) s" and "itype (inodes s ! i) \<noteq> T_DEV"
    and "sectors_ok (drive s) (inodes s ! i)" and "unat (isize (inodes s ! i)) \<le> 124 * 512"
    and "unat off \<le> unat (isize (inodes s ! i))" and "unat off < 124 * 512" and "unat off + unat sz < 2 ^ 32"
    and "n = min (unat sz) (unat (isize (inodes s ! i)) - unat off)" and "sectors_for (unat off) n \<le> k" and "fillable d 0 s"
  shows "\<exists>t. readi i d off sz s = Inr (int n, t) \<and> solo c (k - sectors_for (unat off) n) t
    \<and> disk_only (delivered d 0 (file_part (drive s) (inodes s ! i) (unat off) n) s) t"
proof -
  let ?ip = "inodes s ! i"
  define z where "z = (if off + sz > isize ?ip then isize ?ip - off else sz)"
  have add: "unat (off + sz) = unat off + unat sz" using unat_add_small [of off "unat sz"] assms(8) by simp
  have z: "unat z = n"
    using assms(6,9) add by (auto simp: z_def word_less_nat_alt unat_sub word_le_nat_alt min_def)
  have n: "unat off + n \<le> 124 * 512" "n + unat off \<le> unat (isize ?ip)" using assms(5,6,9) by auto
  have chk: "\<not> (off > isize ?ip \<or> off + sz < off \<or> off div SECTSIZE \<ge> 124)"
  proof -
    have "unat (off div 0x200) < 124" using assms(7) by (simp add: unat_div div_less_iff_less_mult)
    then show ?thesis using assms(6) add by (simp add: word_less_nat_alt word_le_nat_alt)
  qed
  have "\<exists>t. readi_loop (Suc (unat z)) i d 0 z off s = Inr t
    \<and> disk_only (delivered d 0 (file_part (drive s) ?ip (unat off) (unat z - unat (0 :: u32))) s) t
    \<and> solo c (k - sectors_for (unat off) (unat z - unat (0 :: u32))) t"
    by (rule readi_loop_reads [OF assms(4,1)]) (use n z assms(10,11) in simp_all)
  then obtain t where t: "readi_loop (Suc (unat z)) i d 0 z off s = Inr t"
      "disk_only (delivered d 0 (file_part (drive s) ?ip (unat off) n) s) t"
      "solo c (k - sectors_for (unat off) n) t"
    using z by auto
  have "sint z = int n" using sint_small [of z] z n by simp
  moreover have "readi i d off sz s = bnd (readi_loop (Suc (unat z)) i d 0 z off s) (\<lambda>s. Inr (sint z, s))"
    using assms(2,3) chk by (simp add: readi_def z_def Let_def del: readi_loop.simps)
  ultimately show ?thesis using t by simp
qed

text \<open>Into a frame.\<close>

lemma readi_frame:
  assumes "solo c k s" and "holding (LkInode i) s" and "itype (inodes s ! i) \<noteq> T_DEV"
    and "sectors_ok (drive s) (inodes s ! i)" and "unat (isize (inodes s ! i)) \<le> 124 * 512"
    and "unat off \<le> unat (isize (inodes s ! i))" and "unat off < 124 * 512" and "unat off + unat sz < 2 ^ 32"
    and "n = min (unat sz) (unat (isize (inodes s ! i)) - unat off)" and "sectors_for (unat off) n \<le> k"
  shows "\<exists>t. readi i (Phys a) off sz s = Inr (int n, t) \<and> solo c (k - sectors_for (unat off) n) t
    \<and> read_only_mem (store_bytes a (file_part (drive s) (inodes s ! i) (unat off) n) (mem s)) s t"
  using readi_reads [OF assms, of "Phys a"] by (simp add: fillable_def delivered_def read_only_mem_def)

section \<open>Properties\<close>

text \<open>
  C7: reading a file. For a process alone on the machine, \<^verbatim>\<open>readi\<close> of an inode it has locked returns the
  number of bytes there are from the offset on, at most as many as asked for, and has stored exactly these
  bytes of the file at the destination, whatever was in the buffer cache, with one disk interrupt per sector
  at most; apart from memory nothing changed but buffers, the ports of the drive and its lock.
\<close>

theorem readi_reads_file:
  assumes "solo c k s" and "holding (LkInode i) s" and "itype (inodes s ! i) \<noteq> T_DEV"
    and "sectors_ok (drive s) (inodes s ! i)" and "unat (isize (inodes s ! i)) \<le> 124 * 512"
    and "unat off \<le> unat (isize (inodes s ! i))" and "unat off < 124 * 512" and "unat off + unat sz < 2 ^ 32"
    and "n = min (unat sz) (unat (isize (inodes s ! i)) - unat off)" and "sectors_for (unat off) n \<le> k"
  shows "\<exists>t. readi i (Phys a) off sz s = Inr (int n, t)
    \<and> read_only_mem (store_bytes a (take n (drop (unat off) (image_contents (\<lambda>k. drive s (of_nat k)) (inodes s ! i)))) (mem s)) s t"
proof -
  have "n + unat off \<le> unat (isize (inodes s ! i))" using assms(6,9) by simp
  then show ?thesis using readi_frame [OF assms, of a] file_part_contents [of n "unat off" "inodes s ! i" "drive s"] by auto
qed

text \<open>A file of 600 bytes in the sectors 3000 and 3001; the disk has the low byte of its number in each sector.\<close>

definition ex_inode :: inode where
  "ex_inode = inode_zero\<lparr>ivalid := 1, irefcnt := 1, itype := T_FILE, isize := 600, ilock := \<lparr>locked = 1, owner = Some 1\<rparr>,
     iaddr := map (\<lambda>j. of_nat (3000 + j)) [0..<124]\<rparr>"

definition ex_reader :: kernel where
  "ex_reader = boot_state\<lparr>procs := proc_zero # ex_proc RUN 0 # replicate 62 proc_zero, procp := Some 1,
     inodes := ex_inode # replicate 63 inode_zero, drive := \<lambda>n. replicate 512 (ucast n), pending := [IrqIde, IrqIde]\<rparr>"

theorem readi_reads_file_witness:
  "\<exists>t. readi 0 (Phys 0x500000) 510 4 ex_reader = Inr (4, t)
    \<and> read_only_mem (store_bytes 0x500000 [0xB8, 0xB8, 0xB9, 0xB9] (mem ex_reader)) ex_reader t"
proof -
  have solo: "solo 1 2 ex_reader"
  proof -
    have "alone 1 ex_reader"
      by (auto simp: alone_def ex_reader_def ex_proc_def proc_zero_def lock_zero_def cli_ok_def nth_Cons')
    moreover have "coherent ex_reader" "length (blocks ex_reader) = 256"
      by (simp_all add: coherent_def sound_def ex_reader_def block_zero_def)
    moreover have "pending ex_reader = replicate 2 IrqIde @ []" by (simp add: ex_reader_def numeral_2_eq_2)
    ultimately show ?thesis unfolding solo_def by blast
  qed
  have ip: "inodes ex_reader ! 0 = ex_inode" "drive ex_reader = (\<lambda>n. replicate 512 (ucast n))" by (simp_all add: ex_reader_def)
  have so: "sectors_ok (drive ex_reader) (inodes ex_reader ! 0)"
  proof -
    have "unat (of_nat (3000 + j) :: u32) < 8192" if "j < 124" for j
      using that unat_of_nat32 [of "3000 + j"] by simp
    then show ?thesis by (auto simp: sectors_ok_def ip ex_inode_def word_less_nat_alt)
  qed
  have h: "holding (LkInode 0) ex_reader" by (simp add: holding_def lock_of_def ex_reader_def ex_inode_def)
  have ad: "iaddr ex_inode ! j = of_nat (3000 + j)" if "j < 124" for j
    using that by (simp add: ex_inode_def del: upt_rec_numeral)
  have up: "[510..<510 + 4] = [510, 511, 512, 513 :: nat]" by (simp add: upt_conv_Cons)
  have "file_part (drive ex_reader) ex_inode 510 4 = [0xB8, 0xB8, 0xB9, 0xB9]"
    unfolding file_part_def up by (simp add: ip(2) ad)
  moreover have "4 + 510 \<le> unat (isize ex_inode)" by (simp add: ex_inode_def)
  ultimately have "take 4 (drop 510 (image_contents (\<lambda>k. drive ex_reader (of_nat k)) ex_inode)) = [0xB8, 0xB8, 0xB9, 0xB9]"
    using file_part_contents [of 4 510 ex_inode "drive ex_reader"] by (simp only:)
  moreover have "\<exists>t. readi 0 (Phys 0x500000) 510 4 ex_reader = Inr (int 4, t)
    \<and> read_only_mem (store_bytes 0x500000 (take 4 (drop (unat (510 :: u32)) (image_contents (\<lambda>k. drive ex_reader (of_nat k))
        (inodes ex_reader ! 0)))) (mem ex_reader)) ex_reader t"
    by (rule readi_reads_file [OF solo h _ so]) (simp_all add: ip ex_inode_def inode_zero_def sectors_for_def)
  ultimately show ?thesis by (simp add: ip(1) del: readi_loop.simps)
qed

end
