(* ===== verification/Mix_VmCopy.thy ===== *)
theory Mix_VmCopy
  imports Mix_VmAlloc
begin

text \<open>
  How \<^verbatim>\<open>copyuvm\<close> duplicates the user part of an address space for \<^verbatim>\<open>fork\<close>: the child gets its own
  directory, page tables and frames from the free list, the parent keeps every entry and every byte.
\<close>

section \<open>Reading through a directory\<close>

text \<open>The byte a program reads at a virtual address, if the page is present.\<close>

definition vread :: "memory \<Rightarrow> u32 \<Rightarrow> u32 \<Rightarrow> u8 option" where
  "vread m pg va = map_option m (translate m pg va)"

lemma pte_at_page: "pg_of v = pg_of w \<Longrightarrow> pte_at m pg v = pte_at m pg w"
  by (simp add: pg_of_eq_iff pte_at_ent)

lemma translate_frame:
  assumes "present (pte_at m pg v)"
  shows "translate m pg v = Some (frame m pg (pg_of v) OR (v AND 0xFFF))"
  using assms pte_at_page [of "pg_of v" v m pg]
  by (simp add: translate_def Let_def present_def frame_def pg_of_pgal)

lemma page_offset:
  assumes "pgal p"
  shows "pg_of (p OR (v AND 0xFFF)) = p" "(p OR (v AND 0xFFF)) - p = (v AND 0xFFF)"
    "p + (v AND 0xFFF) = p OR (v AND 0xFFF)"
proof -
  have "p AND (v AND 0xFFF) = 0"
    using pgal_FLAGS [OF assms] by (metis PTE_FLAGS_def and.left_commute and_zero_eq)
  then show e: "p + (v AND 0xFFF) = p OR (v AND 0xFFF)"
    by (simp add: disjunctive_add_eq_or)
  then show "(p OR (v AND 0xFFF)) - p = (v AND 0xFFF)" by (metis add_diff_cancel_left')
  have "unat (v AND 0xFFF) = unat v mod 4096" using unat_PTE_FLAGS [of v] by (simp add: PTE_FLAGS_def)
  then have "unat (v AND 0xFFF) < 4096" by simp
  then show "pg_of (p OR (v AND 0xFFF)) = p"
    using pg_of_iff [OF assms, of "p OR (v AND 0xFFF)"] \<open>_ - p = _\<close> by (simp add: word_less_nat_alt)
qed

section \<open>Pages of an address space\<close>

definition owned :: "memory \<Rightarrow> u32 \<Rightarrow> u32 set" where
  "owned m pg = vm_pages m pg \<union> frame m pg ` upages m pg"

lemma owned_not_free: "uvm_inv s pg xs \<Longrightarrow> owned (mem s) pg \<inter> set xs = {}"
  using uvm_invD(4) vm_invD(3,12) uvm_invD(1) by (fastforce simp: owned_def vm_pages_def)

text \<open>An address space whose pages are not touched stays as it is, whatever is allocated or freed.\<close>

lemma uvm_other:
  assumes inv: "uvm_inv s pg xs" and o: "page_ok s' = page_ok s" and k: "kmem_inv s' xs'"
    and f: "mem_frame P (mem s) (mem s')" "P \<inter> owned (mem s) pg = {}" and x: "set xs' \<inter> owned (mem s) pg = {}"
  shows "uvm_inv s' pg xs'" "pte_at (mem s') pg = pte_at (mem s) pg" "upages (mem s') pg = upages (mem s) pg"
    "owned (mem s') pg = owned (mem s) pg"
proof -
  note U = uvm_invD [OF inv]
  note D = vm_invD [OF U(1)]
  have dj: "P \<inter> vm_pages (mem s) pg = {}" using f(2) by (auto simp: owned_def)
  note V = vm_view_frame [OF f(1) dj D(5)]
  show p: "pte_at (mem s') pg = pte_at (mem s) pg" using V(4) by blast
  show u: "upages (mem s') pg = upages (mem s) pg" by (simp add: upages_def p)
  have fr: "frame (mem s') pg = frame (mem s) pg" by (simp add: frame_def p fun_eq_iff)
  have vp: "vm_pages (mem s') pg = vm_pages (mem s) pg" by (simp add: vm_pages_def V(3))
  show "owned (mem s') pg = owned (mem s) pg" by (simp add: owned_def u fr vp)
  have "inj_on (tbl (mem s') pg) (pres (mem s) pg) = inj_on (tbl (mem s) pg) (pres (mem s) pg)"
    by (rule inj_on_cong) (auto simp: tbl_def V(1) pres_def)
  then show "uvm_inv s' pg xs'"
    using U D k x o by (auto simp: uvm_inv_def vm_inv_def u fr vp V(2,3) owned_def vm_pages_def)
qed

section \<open>A copy under way\<close>

text \<open>
  \<open>copied s0 xs0 pg new P s xs\<close>: starting from \<open>s0\<close> with the free list \<open>xs0\<close>, the directory \<open>new\<close> got the
  kernel part and copies of the pages \<open>P\<close> of \<open>pg\<close>: the same flags, the same bytes, frames of its own.
  Every page is accounted for and nothing but free pages was written.
\<close>

definition kernel_pte :: "'a vm_scheme \<Rightarrow> u32 \<Rightarrow> u32" where
  "kernel_pte s v = (if pg_of v < MEMSIZE then pg_of v OR kflag (kmaps s) (pg_of v) OR PTE_P else 0)"

definition copied :: "'a vm_scheme \<Rightarrow> u32 list \<Rightarrow> u32 \<Rightarrow> u32 \<Rightarrow> u32 set \<Rightarrow> 'a vm_scheme \<Rightarrow> u32 list \<Rightarrow> bool" where
  "copied s0 xs0 pg new P s xs \<longleftrightarrow> mem_only s0 s \<and> mem_frame (set xs0) (mem s0) (mem s) \<and> uvm_inv s new xs
     \<and> owned (mem s) new \<union> set xs = set xs0 \<and> upages (mem s) new = P \<and> pres (mem s) new = {..<128} \<union> dx ` P
     \<and> length xs0 = 129 + card P + card (dx ` P) + length xs
     \<and> (\<forall>v. pg_of v \<notin> P \<longrightarrow> pte_at (mem s) new v = kernel_pte s0 v)
     \<and> (\<forall>p \<in> P. PTE_FLAGS (pte_at (mem s) new p) = PTE_FLAGS (pte_at (mem s0) pg p)
          \<and> (\<forall>a. pg_of a = frame (mem s) new p \<longrightarrow> mem s a = mem s0 (frame (mem s0) pg p + (a - frame (mem s) new p))))"

lemma copied_start:
  assumes "kmem_inv s (x # xs)" "kvm_ok s" "128 \<le> length xs"
  obtains s' xs' where "setupkvm s = Inr (x, s')" "copied s (x # xs) pg x {} s' xs'"
proof (rule setupkvm_space [OF assms])
  fix s' xs'
  assume "setupkvm s = Inr (x, s')" "uvm_inv s' x xs'" "mem_only s s'" "length xs = length xs' + 128"
    "pres (mem s') x = {..<128}" "upages (mem s') x = {}" "mem_frame (set (x # xs)) (mem s) (mem s')"
    "vm_pages (mem s') x \<union> set xs' = set (x # xs)"
    "\<And>v. pte_at (mem s') x v = (if pg_of v < MEMSIZE then pg_of v OR kflag (kmaps s) (pg_of v) OR PTE_P else 0)"
  then show thesis by (intro that [of s' xs']) (simp_all add: copied_def kernel_pte_def owned_def)
qed

text \<open>The parent during the copy.\<close>

lemma copied_parent:
  assumes inv: "uvm_inv s0 pg xs0" and c: "copied s0 xs0 pg new P s xs"
  shows "uvm_inv s pg xs" "pte_at (mem s) pg = pte_at (mem s0) pg" "upages (mem s) pg = upages (mem s0) pg"
    "owned (mem s) pg = owned (mem s0) pg" "owned (mem s) pg \<inter> owned (mem s) new = {}"
proof -
  have c': "mem_only s0 s" "mem_frame (set xs0) (mem s0) (mem s)" "uvm_inv s new xs"
    "owned (mem s) new \<union> set xs = set xs0" using c by (simp_all add: copied_def)
  have k: "kmem_inv s xs" using c'(3) uvm_invD(1) vm_invD(1) by blast
  have d: "set xs0 \<inter> owned (mem s0) pg = {}" using owned_not_free [OF inv] by blast
  note O = uvm_other [OF inv mem_only_sel(7) [OF c'(1)] k c'(2) d]
  have "set xs \<inter> owned (mem s0) pg = {}" using c'(4) d by blast
  from O [OF this] show "uvm_inv s pg xs" "pte_at (mem s) pg = pte_at (mem s0) pg"
    "upages (mem s) pg = upages (mem s0) pg" "owned (mem s) pg = owned (mem s0) pg" .
  with c'(4) d show "owned (mem s) pg \<inter> owned (mem s) new = {}" by blast
qed

section \<open>Copying one page\<close>

text \<open>
  The next page \<open>v\<close> of the parent: its bytes go to the first free page, which becomes the page of the
  child if there is a page for its table.
\<close>

lemma memmove_frame: "pgal p \<Longrightarrow> pgal q \<Longrightarrow> p \<noteq> q \<Longrightarrow> mem_frame {q} m (memmove p q 0x1000 m)"
  by (simp add: mem_frame_def memmove_page)

lemma copy_source:
  assumes inv: "uvm_inv s0 pg xs0" and c: "copied s0 xs0 pg new P s (x # xs)" and v: "v \<in> upages (mem s0) pg"
  shows "pgal (frame (mem s0) pg v)" "frame (mem s0) pg v \<notin> set xs0" "frame (mem s0) pg v \<noteq> x"
    "pg_of a = frame (mem s0) pg v \<Longrightarrow> mem s a = mem s0 a"
proof -
  note U = uvm_invD [OF inv]
  show p: "pgal (frame (mem s0) pg v)" "frame (mem s0) pg v \<notin> set xs0" using U(3,4) [OF v] page_ok_pgal by blast+
  moreover have "x \<in> set xs0" using c by (auto simp: copied_def)
  ultimately show "frame (mem s0) pg v \<noteq> x" by blast
  show "mem s a = mem s0 a" if "pg_of a = frame (mem s0) pg v"
    using c p(2) that mem_frameD [of "set xs0" "mem s0" "mem s" a] by (simp add: copied_def)
qed

lemma present_flags: "present e \<Longrightarrow> PTE_FLAGS e OR 1 = PTE_FLAGS e"
proof -
  assume "present e"
  then have "bit e 0" by (auto simp: present_def and_one_eq bit_0 odd_iff_mod_2_eq_one)
  then have "bit (PTE_FLAGS e) 0" by (simp add: PTE_FLAGS_def bit_and_iff)
  then show ?thesis by (intro bit_word_eqI) (auto simp: bit_or_iff bit_1_iff)
qed

lemma copied_insert:
  assumes c: "copied s0 xs0 pg new P s (x # xs)" and v: "v \<notin> P" "pgal v" "finite P"
    and s': "mem_only s s'" "uvm_inv s' new ys" "upages (mem s') new = insert v P" "frame (mem s') new v = x"
      "pres (mem s') new = insert (dx v) (pres (mem s) new)" "dx v \<ge> 128"
      "\<And>w. pte_at (mem s') new w = (if pg_of w = v then x OR PTE_FLAGS (pte_at (mem s0) pg v) OR 1 else pte_at (mem s) new w)"
      "present (pte_at (mem s0) pg v)"
      "vm_pages (mem s') new \<union> set ys = vm_pages (mem s) new \<union> set xs" "length xs = length ys + card ({dx v} - pres (mem s) new)"
      "mem_frame (insert x (vm_pages (mem s) new \<union> set xs)) (mem s) (mem s')"
      "\<And>a. pg_of a = x \<Longrightarrow> mem s' a = mem s0 (frame (mem s0) pg v + (a - x))"
    and x: "pgal x" "x \<notin> vm_pages (mem s) new \<union> set xs"
  shows "copied s0 xs0 pg new (insert v P) s' ys"
proof -
  have C: "mem_only s0 s" "mem_frame (set xs0) (mem s0) (mem s)" "uvm_inv s new (x # xs)"
    "owned (mem s) new \<union> set (x # xs) = set xs0" "upages (mem s) new = P" "pres (mem s) new = {..<128} \<union> dx ` P"
    "length xs0 = 129 + card P + card (dx ` P) + length (x # xs)"
    "\<And>w. pg_of w \<notin> P \<Longrightarrow> pte_at (mem s) new w = kernel_pte s0 w"
    "\<And>p. p \<in> P \<Longrightarrow> PTE_FLAGS (pte_at (mem s) new p) = PTE_FLAGS (pte_at (mem s0) pg p)"
    "\<And>p a. p \<in> P \<Longrightarrow> pg_of a = frame (mem s) new p \<Longrightarrow> mem s a = mem s0 (frame (mem s0) pg p + (a - frame (mem s) new p))"
    using c by (simp_all add: copied_def)
  have al: "pg_of p = p" if "p \<in> P" for p using that C(5) upages_pgal by blast
  have fr: "frame (mem s') new p = frame (mem s) new p" if "p \<in> P" for p
    using that v(1) al [OF that] by (auto simp: frame_def s'(7))
  have own: "owned (mem s') new \<union> set ys = set xs0"
  proof -
    have "frame (mem s') new ` insert v P = insert x (frame (mem s) new ` P)" using s'(4) fr by auto
    then show ?thesis using s'(9) C(4) by (auto simp: owned_def s'(3) C(5))
  qed
  have sub: "insert x (vm_pages (mem s) new \<union> set xs) \<subseteq> set xs0" using C(4) by (auto simp: owned_def)
  have len: "length xs0 = 129 + card (insert v P) + card (dx ` insert v P) + length ys"
  proof -
    have "card ({dx v} - pres (mem s) new) = card ({dx v} - dx ` P)"
      using s'(6) by (intro arg_cong [where f = card]) (auto simp: C(6))
    moreover have "card (dx ` insert v P) = card ({dx v} - dx ` P) + card (dx ` P)"
      using v(3) by (simp add: card_insert_if insert_Diff_if)
    ultimately show ?thesis using C(7) s'(10) v by simp
  qed
  have flags: "PTE_FLAGS (pte_at (mem s') new v) = PTE_FLAGS (pte_at (mem s0) pg v)"
  proof -
    let ?f = "PTE_FLAGS (pte_at (mem s0) pg v)"
    have "?f OR 1 = ?f" using s'(8) by (rule present_flags)
    moreover have "unat ?f < 4096" by (simp add: unat_PTE_FLAGS)
    ultimately show ?thesis using PTE_FLAGS_or [OF x(1), of ?f] v(2) by (simp add: s'(7) pg_of_pgal)
  qed
  have keep: "mem s' a = mem s a" if "pg_of a = frame (mem s) new p" "p \<in> P" for a p
  proof -
    have "frame (mem s) new p \<notin> vm_pages (mem s) new" "frame (mem s) new p \<notin> set (x # xs)"
      using uvm_invD(4,5) [OF C(3)] that(2) C(5) by blast+
    then show ?thesis using mem_frameD [OF s'(11), of a] that(1) by simp
  qed
  show ?thesis
    unfolding copied_def
  proof (intro conjI)
    show "mem_only s0 s'" using C(1) s'(1) by (rule mem_only_trans)
    show "mem_frame (set xs0) (mem s0) (mem s')" using C(2) mem_frame_mono [OF s'(11) sub] by (rule mem_frame_trans)
    show "pres (mem s') new = {..<128} \<union> dx ` insert v P" using s'(5) C(6) by auto
    show "\<forall>w. pg_of w \<notin> insert v P \<longrightarrow> pte_at (mem s') new w = kernel_pte s0 w" using s'(7) C(8) by simp
    show "\<forall>p \<in> insert v P. PTE_FLAGS (pte_at (mem s') new p) = PTE_FLAGS (pte_at (mem s0) pg p)
        \<and> (\<forall>a. pg_of a = frame (mem s') new p \<longrightarrow> mem s' a = mem s0 (frame (mem s0) pg p + (a - frame (mem s') new p)))"
    proof
      fix p
      assume p: "p \<in> insert v P"
      show "PTE_FLAGS (pte_at (mem s') new p) = PTE_FLAGS (pte_at (mem s0) pg p)
        \<and> (\<forall>a. pg_of a = frame (mem s') new p \<longrightarrow> mem s' a = mem s0 (frame (mem s0) pg p + (a - frame (mem s') new p)))"
      proof (cases "p = v")
        case True
        then show ?thesis using flags s'(4,12) by simp
      next
        case False
        then have "p \<in> P" using p by simp
        then show ?thesis using fr keep C(9,10) al v(1) s'(7) by auto
      qed
    qed
  qed (use s'(2,3) own len in simp_all)
qed

text \<open>A page that was taken and given back.\<close>

lemma copied_same:
  assumes c: "copied s0 xs0 pg new P s xs" and o: "mem_only s s'" and i: "uvm_inv s' new xs"
    and e: "pte_at (mem s') new = pte_at (mem s) new" and v: "vm_pages (mem s') new = vm_pages (mem s) new"
    and p: "pres (mem s') new = pres (mem s) new" and f: "mem_frame (insert x (vm_pages (mem s) new)) (mem s) (mem s')"
    and x: "x \<in> set xs"
  shows "copied s0 xs0 pg new P s' xs"
proof -
  have C: "uvm_inv s new xs" "owned (mem s) new \<union> set xs = set xs0" "upages (mem s) new = P"
    using c by (simp_all add: copied_def)
  have u: "upages (mem s') new = P" "frame (mem s') new = frame (mem s) new"
    using e C(3) by (simp_all add: upages_def frame_def fun_eq_iff)
  have keep: "mem s' a = mem s a" if "pg_of a = frame (mem s) new p" "p \<in> P" for a p
  proof -
    have "frame (mem s) new p \<notin> vm_pages (mem s) new" "frame (mem s) new p \<notin> set xs"
      using uvm_invD(4,5) [OF C(1)] that(2) C(3) by blast+
    then show ?thesis using mem_frameD [OF f, of a] that(1) x by auto
  qed
  have F: "mem_only s0 s" "mem_frame (set xs0) (mem s0) (mem s)" using c by (simp_all add: copied_def)
  have "insert x (vm_pages (mem s) new) \<subseteq> set xs0" using C(2) x by (auto simp: owned_def)
  then have "mem_frame (set xs0) (mem s0) (mem s')"
    by (intro mem_frame_trans [OF F(2)] mem_frame_mono [OF f])
  moreover have "mem_only s0 s'" using F(1) o by (rule mem_only_trans)
  moreover have "owned (mem s') new = owned (mem s) new" using v u C(3) by (simp add: owned_def)
  moreover have "pte_at (mem s') new w = pte_at (mem s) new w" for w using e by simp
  moreover have "\<forall>w. pg_of w \<notin> P \<longrightarrow> pte_at (mem s) new w = kernel_pte s0 w"
    "length xs0 = 129 + card P + card (dx ` P) + length xs" "pres (mem s) new = {..<128} \<union> dx ` P"
    "\<forall>q \<in> P. PTE_FLAGS (pte_at (mem s) new q) = PTE_FLAGS (pte_at (mem s0) pg q)
      \<and> (\<forall>a. pg_of a = frame (mem s) new q \<longrightarrow> mem s' a = mem s0 (frame (mem s0) pg q + (a - frame (mem s) new q)))"
    using c keep by (simp_all add: copied_def)
  ultimately show ?thesis
    unfolding copied_def p u using i C(2) by (simp only: HOL.simp_thms)
qed

lemma walk_upage:
  assumes inv: "uvm_inv s pg xs" and v: "v \<in> upages (mem s) pg"
  obtains p where "walkpgdir pg v False s = Inr (p, s)" "p \<noteq> 0" "load32 (mem s) p = pte_at (mem s) pg v"
proof -
  note D = vm_invD [OF uvm_invD(1) [OF inv]]
  have d: "dx v \<in> pres (mem s) pg" using v by (rule upages_dx)
  then have e: "present (ent (mem s) pg (dx v))" by (simp add: pres_def)
  let ?p = "slot (tbl (mem s) pg (dx v)) (tx v)"
  have "page_ok s (tbl (mem s) pg (dx v))" using D(11) tbl_in_tables [OF d] by blast
  then have "?p \<noteq> 0" using page_ok_not_0 [OF D(8)] page_ok_pgal by (intro slot_not_0) auto
  then show thesis using e D(6) by (intro that [of ?p]) (simp_all add: walkpgdir_ent tbl_def pte_at_ent ent_def)
qed

lemma upages_range: "v \<in> upages m pg \<Longrightarrow> KERNEND \<le> v \<and> v < USEREND \<and> 256 \<le> dx v \<and> present (pte_at m pg v)"
proof -
  assume v: "v \<in> upages m pg"
  then have "unat KERNEND \<le> unat v" by (simp add: upages_def word_le_nat_alt)
  then have "unat KERNEND div 4194304 \<le> dx v" unfolding dx_def by (rule div_le_mono)
  then show ?thesis using v by (simp add: upages_def)
qed

lemma copy_page:
  assumes inv: "uvm_inv s0 pg xs0" and c: "copied s0 xs0 pg new P s xs"
    and v: "v \<in> upages (mem s0) pg" "v \<notin> P" "finite P" "v < fin"
  obtains (ok) s' ys where "copied s0 xs0 pg new (insert v P) s' ys"
      "copyuvm_loop (Suc n) pg new v fin s = copyuvm_loop n pg new (v + 4096) fin s'"
  | (no_frame) "xs = []" "copyuvm_loop (Suc n) pg new v fin s = copyuvm_bad 0 new s"
  | (no_table) s' x s'' where "dx v \<notin> dx ` P" "xs = [x]" "x \<noteq> 0" "kfree x s' = Inr s''" "copied s0 xs0 pg new P s'' [x]"
      "copyuvm_loop (Suc n) pg new v fin s = copyuvm_bad x new s'"
proof -
  note par = copied_parent [OF inv c]
  have new: "uvm_inv s new xs" "upages (mem s) new = P" "pres (mem s) new = {..<128} \<union> dx ` P"
    using c by (simp_all add: copied_def)
  note R = upages_range [OF v(1)]
  have vv: "v \<in> upages (mem s) pg" "pgal v" "pg_of v = v" "v \<notin> upages (mem s) new"
    using v(1,2) par(3) upages_pgal new(2) by auto
  let ?e = "pte_at (mem s0) pg v" and ?a = "frame (mem s0) pg v"
  obtain p where p: "walkpgdir pg v False s = Inr (p, s)" "p \<noteq> 0" "load32 (mem s) p = ?e"
    using walk_upage [OF par(1) vv(1)] par(2) by auto
  have fl: "unat (PTE_FLAGS ?e) < 4096" by (simp add: unat_PTE_FLAGS)
  have loop: "copyuvm_loop (Suc n) pg new v fin s = bnd (kalloc s) (\<lambda>(x, s).
      if x = 0 then copyuvm_bad x new s
      else bnd (mappages new v PAGESIZE x (PTE_FLAGS ?e) (s\<lparr>mem := memmove ?a x PAGESIZE (mem s)\<rparr>)) (\<lambda>(r, s).
        if r < 0 then copyuvm_bad x new s else copyuvm_loop n pg new (v + PAGESIZE) fin s))"
    unfolding frame_def using p v(4) R by (simp add: present_def Let_def)
  show thesis
  proof (cases xs)
    case Nil
    then have "kalloc s = Inr (0, s)" using kpages.alloc_empty vm_invD(1) [OF uvm_invD(1) [OF new(1)]] by simp
    then show ?thesis using no_frame Nil loop by simp
  next
    case (Cons x ys)
    note cx = c [unfolded Cons]
    note S = copy_source [OF inv cx v(1)]
    have xp: "pgal x" using vm_invD(1) [OF uvm_invD(1) [OF new(1)]] Cons kmem_inv_kalloc(4) page_ok_pgal by blast
    let ?m = "memmove ?a x 0x1000 (mem s)"
    have f0: "mem_frame {x} (mem s) ?m" using S(1) xp S(3) by (rule memmove_frame)
    show ?thesis
    proof (rule take_page [OF new(1) [unfolded Cons] f0])
      fix t
      assume t: "kalloc s = Inr (x, t)" "mem t = mem s" "mem_only s t" "uvm_inv (t\<lparr>mem := ?m\<rparr>) new ys" "page_ok s x" "x \<noteq> 0"
        "x \<notin> set ys" "x \<notin> vm_pages (mem s) new" "x \<notin> frame (mem s) new ` upages (mem s) new"
        "upages ?m new = upages (mem s) new" "frame ?m new = frame (mem s) new" "pte_at ?m new = pte_at (mem s) new"
        "vm_pages ?m new = vm_pages (mem s) new" "pres ?m new = pres (mem s) new"
      define s1 where "s1 = t\<lparr>mem := ?m\<rparr>"
      have m1: "mem s1 = ?m" by (simp add: s1_def)
      have f1: "mem_frame {x} (mem s) (mem s1)" using f0 by (simp add: m1)
      have o1: "mem_only s s1" unfolding s1_def using t(3) mem_only_mem by (rule mem_only_trans)
      have x1: "page_ok s1 x" using t(5) mem_only_sel(7) [OF o1] by simp
      have cp: "mem s1 a = mem s0 (?a + (a - x))" if "pg_of a = x" for a
      proof -
        have "?a + (a - x) - ?a < 0x1000" using pg_of_iff [OF xp, of a] that by simp
        then have "pg_of (?a + (a - x)) = ?a" using pg_of_iff [OF S(1)] by blast
        then show ?thesis using S(4) that memmove_page [OF S(1) xp S(3)] by (simp add: m1)
      qed
      have lp: "copyuvm_loop (Suc n) pg new v fin s = bnd (mappages new v 0x1000 x (PTE_FLAGS ?e) s1) (\<lambda>(r, s).
          if r < 0 then copyuvm_bad x new s else copyuvm_loop n pg new (v + 4096) fin s)"
        unfolding loop using t(1,2,6) by (simp add: s1_def cong: if_cong)
      have i1: "uvm_inv s1 new ys" using t(4) by (simp add: s1_def)
      show ?thesis
      proof (rule map_user_page [OF i1 x1 t(7) _ _ vv(2) _ _ _ fl], goal_cases)
        case (6 s2 zs)
        have same: "mem s2 a = mem s1 a" if "pg_of a = x" for a
          using mem_frameD [OF 6(10), of a] that t(7,8,13) by (simp add: m1)
        have f2: "mem_frame (insert x (vm_pages (mem s) new \<union> set ys)) (mem s) (mem s2)"
          by (rule mem_frame_trans [OF mem_frame_mono [OF f1] mem_frame_mono [OF 6(10)]]) (auto simp: m1 t(13))
        have "copied s0 xs0 pg new (insert v P) s2 zs"
          using 6 same cp f2 R t(7,8,10-14) new(2) vv(2) xp mem_only_trans [OF o1 6(3)] v(2,3)
          by (intro copied_insert [OF cx]) (simp_all add: m1)
        then show ?case using 6(1) lp by (intro ok [of s2 zs]) simp_all
      next
        case (7 s2)
        have up2: "upages (mem s2) new = P" "frame (mem s2) new = frame (mem s) new"
          using 7(6) t(12) new(2) by (simp_all add: m1 upages_def frame_def fun_eq_iff)
        have x2: "page_ok s2 x" using x1 mem_only_sel(7) [OF 7(5)] by simp
        show ?case
        proof (rule give_page [OF 7(4) x2])
          fix s3
          assume s3: "kfree x s2 = Inr s3" "uvm_inv s3 new [x]" "mem_only s2 s3" "mem_frame {x} (mem s2) (mem s3)"
            "pte_at (mem s3) new = pte_at (mem s2) new" "vm_pages (mem s3) new = vm_pages (mem s2) new"
            "upages (mem s3) new = upages (mem s2) new"
          have dj: "{x} \<inter> vm_pages (mem s2) new = {}" using 7(7) t(8,13) by (simp add: m1)
          have f2: "mem_frame (insert x (vm_pages (mem s) new)) (mem s) (mem s2)"
            by (rule mem_frame_trans [OF mem_frame_mono [OF f1] mem_frame_mono [OF 7(8)]]) (auto simp: m1 t(13))
          have f3: "mem_frame (insert x (vm_pages (mem s) new)) (mem s) (mem s3)"
            by (rule mem_frame_trans [OF f2 mem_frame_mono [OF s3(4)]]) simp
          have p3: "pres (mem s3) new = pres (mem s) new"
            using vm_view_frame(2) [OF s3(4) dj vm_invD(5) [OF uvm_invD(1) [OF 7(4)]]] 7(9) by (simp add: m1 t(14))
          have e3: "pte_at (mem s3) new = pte_at (mem s) new"
            using s3(5) 7(6) t(12) by (simp add: m1 fun_eq_iff)
          have o3: "mem_only s s3" using o1 7(5) s3(3) mem_only_trans by blast
          have "copied s0 xs0 pg new P s3 [x]"
            using 7(1) s3(2,6) 7(7) t(13) by (intro copied_same [OF cx [unfolded 7(1)] o3 _ e3 _ p3 f3]) (simp_all add: m1)
          then show thesis
            using 7 t(6,14) s3(1) lp Cons new(3) by (intro no_table [of x s2 s3]) (auto simp: m1)
        qed (use 7 t up2 new(2) in \<open>simp_all add: m1\<close>)
      qed (use t R vv(4) in \<open>simp_all add: m1\<close>)
    qed
  qed
qed

section \<open>Freeing a copy\<close>

text \<open>Freeing the copy returns every page it took but the 128 page tables of the kernel part.\<close>

lemma copied_freed:
  assumes k0: "kmem_inv s0 xs0" and c: "copied s0 xs0 pg new P s xs"
  obtains s' ys where "freevm new s = Inr s'" "kmem_inv s' ys" "mem_only s0 s'" "mem_frame (set xs0) (mem s0) (mem s')"
    "set ys \<subseteq> set xs0" "length ys + 128 = length xs0" "new \<noteq> 0"
proof -
  have C: "mem_only s0 s" "mem_frame (set xs0) (mem s0) (mem s)" "uvm_inv s new xs"
    "owned (mem s) new \<union> set xs = set xs0" "upages (mem s) new = P" "pres (mem s) new = {..<128} \<union> dx ` P"
    using c by (simp_all add: copied_def)
  note U = uvm_invD [OF C(3)]
  note D = vm_invD [OF U(1)]
  let ?t = "tbl (mem s) new"
  let ?K = "?t ` {..<128}"
  have hi: "256 \<le> dx p \<and> dx p < 1024" if "p \<in> P" for p using that C(5) upages_range [of p "mem s" new] by auto
  then have hiP: "pres (mem s) new \<inter> {256..<1024} = dx ` P" by (fastforce simp: C(6))
  show thesis
  proof (rule freevm_frees [OF C(3)])
    fix s' ys
    assume f: "freevm new s = Inr s'" "kmem_inv s' (ys @ xs)" "mem_only s s'"
      "set ys = insert new (frame (mem s) new ` upages (mem s) new \<union> tbl (mem s) new ` (pres (mem s) new \<inter> {256..<1024}))"
      "mem_frame (set ys \<union> vm_pages (mem s) new) (mem s) (mem s')"
    have vp: "vm_pages (mem s) new = insert new (?K \<union> ?t ` dx ` P)" by (auto simp: vm_pages_def tables_def C(6))
    have all: "set (ys @ xs) \<union> ?K = set xs0"
      using C(4,5) f(4) by (auto simp: owned_def vp hiP)
    have K: "?K \<subseteq> tables (mem s) new" by (auto simp: tables_def C(6))
    have "?K \<inter> ?t ` dx ` P = {}"
      using inj_onD [OF D(13)] hi by (fastforce simp: C(6))
    moreover have "?K \<inter> frame (mem s) new ` P = {}" using U(5) K by (fastforce simp: vm_pages_def C(5))
    ultimately have dj: "set (ys @ xs) \<inter> ?K = {}"
      using D(4,12) K f(4) by (auto simp: hiP C(5))
    have "inj_on ?t {..<128}" using D(13) by (rule inj_on_subset) (simp add: C(6))
    then have cK: "card ?K = 128" by (simp add: card_image)
    have "distinct (ys @ xs)" "distinct xs0" using f(2) k0 by (simp_all add: kmem_inv_def)
    then have "length (ys @ xs) = card (set (ys @ xs))" "length xs0 = card (set xs0)"
      by (simp_all only: distinct_card)
    moreover have "card (set xs0) = card (set (ys @ xs)) + card ?K"
      unfolding all [symmetric] using dj by (intro card_Un_disjoint) simp_all
    ultimately have len: "length (ys @ xs) + 128 = length xs0" using cK by simp
    have "set ys \<union> vm_pages (mem s) new \<subseteq> set xs0" using C(4) all by (auto simp: owned_def)
    then have fr: "mem_frame (set xs0) (mem s0) (mem s')"
      by (intro mem_frame_trans [OF C(2)] mem_frame_mono [OF f(5)])
    show thesis
      using all by (intro that [OF f(1,2) mem_only_trans [OF C(1) f(3)] fr _ len D(6)]) blast
  qed
qed

section \<open>The whole copy\<close>

text \<open>Whether the copy of the pages \<open>P\<close> fits: a directory, 128 page tables for the kernel, and the rest.\<close>

definition copy_needed :: "u32 set \<Rightarrow> nat" where
  "copy_needed P = 129 + card P + card (dx ` P)"

lemma copy_needed_more:
  assumes "A \<subseteq> P" "v \<in> P" "v \<notin> A" "finite P"
  shows "copy_needed A < copy_needed P" "dx v \<notin> dx ` A \<Longrightarrow> copy_needed A + 1 < copy_needed P"
proof -
  have "card A < card P" using assms by (intro psubset_card_mono) auto
  moreover have "card (dx ` A) \<le> card (dx ` P)" using assms by (intro card_mono image_mono) simp_all
  moreover have "card (dx ` A) < card (dx ` P)" if "dx v \<notin> dx ` A"
    using assms that by (intro psubset_card_mono) auto
  ultimately show "copy_needed A < copy_needed P" "dx v \<notin> dx ` A \<Longrightarrow> copy_needed A + 1 < copy_needed P"
    by (simp_all add: copy_needed_def)
qed

text \<open>What is left when the copy fails.\<close>

definition copy_failed :: "'a vm_scheme \<Rightarrow> u32 list \<Rightarrow> 'a vm_scheme \<Rightarrow> bool" where
  "copy_failed s0 xs0 s' \<longleftrightarrow> (\<exists>ys. kmem_inv s' ys \<and> mem_only s0 s' \<and> mem_frame (set xs0) (mem s0) (mem s')
     \<and> set ys \<subseteq> set xs0 \<and> length ys + 128 = length xs0)"

lemma copy_failedI:
  assumes "kmem_inv s0 xs0" "copied s0 xs0 pg new P s xs" "x \<noteq> 0 \<and> kfree x s1 = Inr s \<or> x = 0 \<and> s1 = s"
  obtains s' where "copyuvm_bad x new s1 = Inr (0, s')" "copy_failed s0 xs0 s'"
proof (rule copied_freed [OF assms(1,2)])
  fix s' ys
  assume f: "freevm new s = Inr s'" "kmem_inv s' ys" "mem_only s0 s'" "mem_frame (set xs0) (mem s0) (mem s')"
    "set ys \<subseteq> set xs0" "length ys + 128 = length xs0" "new \<noteq> 0"
  then have "copy_failed s0 xs0 s'" by (auto simp: copy_failed_def)
  then show thesis
    using f assms(3) by (intro that [of s']) (auto simp: copyuvm_bad_def)
qed

lemma copyuvm_loop_cases:
  assumes inv: "uvm_inv s0 pg xs0" and fin: "fin \<le> USEREND" and all: "apages KERNEND fin \<subseteq> upages (mem s0) pg"
  defines "P \<equiv> apages KERNEND fin"
  assumes "copied s0 xs0 pg new (P - apages va fin) s xs" "pgal va" "KERNEND \<le> va"
    "unat fin + 4096 \<le> unat va + 4096 * n" "0 < n"
  shows "(\<exists>s' xs'. copyuvm_loop n pg new va fin s = Inr (new, s') \<and> copied s0 xs0 pg new P s' xs')
    \<or> (\<exists>s'. copyuvm_loop n pg new va fin s = Inr (0, s') \<and> copy_failed s0 xs0 s' \<and> length xs0 < copy_needed P)"
  using assms(5-)
proof (induction n arbitrary: s xs va)
  case 0
  then show ?case by simp
next
  case (Suc n)
  have k0: "kmem_inv s0 xs0" using inv uvm_invD(1) vm_invD(1) by blast
  have finP: "finite P" using all by (auto simp: P_def intro: finite_subset)
  let ?A = "P - apages va fin"
  show ?case
  proof (cases "va < fin")
    case False
    then show ?thesis using Suc.prems(1) by (auto simp: apages_empty)
  next
    case lt: True
    have n: "0 < n" using lt Suc.prems(4) by (cases n) (simp_all add: word_less_nat_alt)
    have va: "va < USEREND" using lt fin by simp
    have va4: "unat va + 4096 < 2 ^ 32" "unat (va + 4096) = unat va + 4096"
      using va unat_add_small [of va 4096] by (simp_all add: word_less_nat_alt)
    have nx: "pgal (va + 4096)" using pgal_add [OF Suc.prems(2) va4(1)] .
    have nk: "KERNEND \<le> va + 4096" using Suc.prems(3) va4(2) by (simp add: word_le_nat_alt)
    have nf: "unat fin + 4096 \<le> unat (va + 4096) + 4096 * n" using Suc.prems(4) va4(2) by simp
    have vP: "va \<in> P" "va \<notin> ?A" using lt Suc.prems(2,3) by (simp_all add: P_def apages_def)
    have A': "P - apages (va + 4096) fin = insert va ?A"
      using apages_step [OF Suc.prems(2) lt va4(1)] vP(1) by auto
    have v: "va \<in> upages (mem s0) pg" using vP(1) all by (auto simp: P_def)
    have A: "length xs0 = copy_needed ?A + length xs" using Suc.prems(1) by (simp add: copied_def copy_needed_def)
    note more = copy_needed_more [OF Diff_subset vP finP]
    show ?thesis
    proof (rule copy_page [OF inv Suc.prems(1) v vP(2) _ lt, where n = n], goal_cases)
      case 1
      then show ?case using finP by simp
    next
      case (2 s' ys)
      show ?case unfolding 2(2) by (rule Suc.IH [OF _ nx nk nf n]) (use 2(1) A' in simp)
    next
      case 3
      then show ?case
        using copy_failedI [OF k0 Suc.prems(1), of 0 s] A more(1) by (metis add.right_neutral list.size(3))
    next
      case (4 s' x s'')
      have "length xs0 < copy_needed P" using A more(2) [OF 4(1)] 4(2) by simp
      then show ?case using copy_failedI [OF k0 4(5), of x s'] 4(3,4,6) by metis
    qed
  qed
qed

text \<open>All outcomes of \<^verbatim>\<open>copyuvm\<close> when there are enough pages for the kernel part.\<close>

lemma copyuvm_cases:
  assumes inv: "uvm_inv s pg xs" and k: "kvm_ok s" and xs: "129 \<le> length xs"
    and fin: "unat KERNEND + unat sz \<le> unat USEREND" and all: "apages KERNEND (KERNEND + sz) \<subseteq> upages (mem s) pg"
  defines "P \<equiv> apages KERNEND (KERNEND + sz)"
  obtains (ok) s' xs' where "copy_needed P \<le> length xs" "copyuvm pg sz s = Inr (hd xs, s')" "copied s xs pg (hd xs) P s' xs'"
  | (fail) s' where "length xs < copy_needed P" "copyuvm pg sz s = Inr (0, s')" "copy_failed s xs s'"
proof -
  have k0: "kmem_inv s xs" using inv uvm_invD(1) vm_invD(1) by blast
  obtain x ys where x: "xs = x # ys" "128 \<le> length ys" using xs by (cases xs) auto
  have x0: "x \<noteq> 0" using kmem_inv_kalloc(2) k0 x(1) by blast
  have u: "unat (KERNEND + sz) = unat KERNEND + unat sz" using fin by (simp add: unat_word_ariths)
  have le: "KERNEND + sz \<le> USEREND" using u fin by (simp add: word_le_nat_alt)
  have f: "unat (KERNEND + sz) + 4096 \<le> unat KERNEND + 4096 * Suc n_pages"
    using unat32_lt [of "KERNEND + sz"] by (simp add: n_pages_def)
  show thesis
  proof (rule copied_start [OF k0 [unfolded x(1)] k x(2), of pg])
    fix s1 zs
    assume s1: "setupkvm s = Inr (x, s1)" "copied s (x # ys) pg x {} s1 zs"
    have "(\<exists>s' xs'. copyuvm_loop (Suc n_pages) pg x KERNEND (KERNEND + sz) s1 = Inr (x, s') \<and> copied s xs pg x P s' xs')
      \<or> (\<exists>s'. copyuvm_loop (Suc n_pages) pg x KERNEND (KERNEND + sz) s1 = Inr (0, s') \<and> copy_failed s xs s'
          \<and> length xs < copy_needed P)"
      unfolding P_def by (rule copyuvm_loop_cases [OF inv le all _ _ _ f]) (use s1(2) x(1) in \<open>simp_all add: pgal_def\<close>)
    moreover have "copyuvm pg sz s = copyuvm_loop (Suc n_pages) pg x KERNEND (KERNEND + sz) s1"
      using s1(1) x0 by (simp add: copyuvm_def)
    ultimately show thesis
      using ok fail x(1) by (auto simp: copied_def copy_needed_def)
  qed
qed

section \<open>What the processes read\<close>

lemma vread_page:
  assumes "v \<in> upages m pg" "pg_of w = v"
  shows "vread m pg w = Some (m (frame m pg v OR (w AND 0xFFF)))"
proof -
  have "present (pte_at m pg w)"
    using assms pte_at_page [of w v m pg] upages_pgal [of v m pg] by (auto simp: upages_def)
  then show ?thesis using translate_frame [of m pg w] assms(2) by (simp add: vread_def)
qed

lemma vread_untouched:
  assumes inv: "uvm_inv s pg xs" and f: "mem_frame (set xs) (mem s) m'" and e: "pte_at m' pg = pte_at (mem s) pg"
    and v: "pg_of v \<in> upages (mem s) pg"
  shows "vread m' pg v = vread (mem s) pg v"
proof -
  have u: "upages m' pg = upages (mem s) pg" "frame m' pg = frame (mem s) pg"
    using e by (simp_all add: upages_def frame_def fun_eq_iff)
  let ?a = "frame (mem s) pg (pg_of v)"
  have "pgal ?a" "?a \<notin> set xs" using uvm_invD(3,4) [OF inv v] page_ok_pgal by blast+
  then have "m' (?a OR (v AND 0xFFF)) = mem s (?a OR (v AND 0xFFF))"
    using mem_frameD [OF f] page_offset(1) by simp
  then show ?thesis using vread_page [OF v, of v] vread_page [of "pg_of v" m' pg v] v by (simp add: u)
qed

lemma copied_vread:
  assumes inv: "uvm_inv s0 pg xs0" and c: "copied s0 xs0 pg new P s xs" and v: "pg_of v \<in> P" and P: "P \<subseteq> upages (mem s0) pg"
  shows "vread (mem s) new v = vread (mem s0) pg v"
proof -
  let ?p = "pg_of v"
  let ?f = "frame (mem s) new ?p" and ?g = "frame (mem s0) pg ?p"
  have p: "?p \<in> upages (mem s) new" "?p \<in> upages (mem s0) pg" and i: "uvm_inv s new xs"
    using c v P by (auto simp: copied_def)
  have al: "pgal ?f" "pgal ?g" using uvm_invD(3) [OF i p(1)] uvm_invD(3) [OF inv p(2)] page_ok_pgal by blast+
  have "\<forall>a. pg_of a = ?f \<longrightarrow> mem s a = mem s0 (?g + (a - ?f))" using c v by (simp add: copied_def)
  then have "mem s (?f OR (v AND 0xFFF)) = mem s0 (?g OR (v AND 0xFFF))"
    using page_offset [OF al(1), of v] page_offset(3) [OF al(2), of v] by metis
  then show ?thesis using vread_page [OF p(1), of v] vread_page [OF p(2), of v] by simp
qed

section \<open>Properties\<close>



end
