(* ===== verification/Mix_Fork.thy ===== *)
theory Mix_Fork
  imports Mix_Process Mix_VmCopy
begin

text \<open>
  \<^verbatim>\<open>sys_fork\<close> as a whole: the new entry of \<^verbatim>\<open>palloc\<close>, the address space of \<^verbatim>\<open>copyuvm\<close>, the copied trap
  frame and the references to open files and to the current directory.
\<close>

section \<open>The open files of the child\<close>

definition copy_ofile :: "nat list \<Rightarrow> nat option list \<Rightarrow> nat option list \<Rightarrow> nat option list" where
  "copy_ofile js po o' = fold (\<lambda>i q. if po ! i = None then q else q[i := po ! i]) js o'"

lemma length_copy_ofile [simp]: "length (copy_ofile js po q) = length q"
  unfolding copy_ofile_def by (induction js arbitrary: q) auto

lemma copy_ofile_nth:
  "i < length q \<Longrightarrow> copy_ofile js po q ! i = (if i \<in> set js \<and> po ! i \<noteq> None then po ! i else q ! i)"
proof (induction js arbitrary: q)
  case (Cons a js)
  then show ?case by (cases "a = i") (auto simp: copy_ofile_def)
qed (simp add: copy_ofile_def)

text \<open>How often \<^verbatim>\<open>fdup\<close> is called for the file \<open>f\<close>.\<close>

definition dups :: "nat list \<Rightarrow> nat option list \<Rightarrow> nat \<Rightarrow> nat" where
  "dups js po f = length (filter (\<lambda>i. po ! i = Some f) js)"

lemma dups_all: "dups [0..<length po] po f = count_list po (Some f)"
proof -
  have "count_list po x = length (filter (\<lambda>y. y = x) po)" for x by (induction po) auto
  moreover have "filter (\<lambda>y. y = Some f) po = map ((!) po) (filter (\<lambda>i. po ! i = Some f) [0..<length po])"
    using filter_map [of "\<lambda>y. y = Some f" "(!) po" "[0..<length po]"] by (simp add: map_nth o_def)
  ultimately show ?thesis by (simp add: dups_def)
qed

definition refs_ok :: "open_file list \<Rightarrow> nat option list \<Rightarrow> nat \<Rightarrow> bool" where
  "refs_ok fs po n \<longleftrightarrow> (\<forall>i f. i < length po \<longrightarrow> po ! i = Some f \<longrightarrow>
     f < length fs \<and> 1 \<le> unat (frefcnt (fs ! f)) \<and> unat (frefcnt (fs ! f)) + n < 2 ^ 32)"

definition files_duped :: "(nat \<Rightarrow> nat) \<Rightarrow> open_file list \<Rightarrow> open_file list \<Rightarrow> bool" where
  "files_duped d fs fs' \<longleftrightarrow> length fs' = length fs
     \<and> (\<forall>f < length fs. fs' ! f = (fs ! f)\<lparr>frefcnt := frefcnt (fs ! f) + of_nat (d f)\<rparr>)"

lemma refs_ok_dup:
  assumes "refs_ok fs po (Suc n)" and "i < length po" and "po ! i = Some f"
  shows "refs_ok (upd_at f (\<lambda>f. f\<lparr>frefcnt := frefcnt f + 1\<rparr>) fs) po n" "\<not> frefcnt (fs ! f) < 1"
proof -
  have f: "f < length fs" "1 \<le> unat (frefcnt (fs ! f))" "unat (frefcnt (fs ! f)) + Suc n < 2 ^ 32"
    using assms by (auto simp: refs_ok_def)
  then have "unat (frefcnt (fs ! f) + 1) = unat (frefcnt (fs ! f)) + 1" by (intro unat_Suc_word) simp
  with f show "refs_ok (upd_at f (\<lambda>f. f\<lparr>frefcnt := frefcnt f + 1\<rparr>) fs) po n"
    using assms(1) unfolding refs_ok_def by (auto simp: nth_upd_at)
  show "\<not> frefcnt (fs ! f) < 1" using f(2) by (simp add: word_less_nat_alt)
qed

lemma fork_files_eq:
  assumes "cli_ok s" and "refs_ok (files s) (ofile p) (length js)" and "set js \<subseteq> {..<length (ofile p)}"
    and "n < length (procs s)"
  shows "\<exists>F. fork_files js p n s = Inr (s\<lparr>procs := upd_at n (\<lambda>q. q\<lparr>ofile := copy_ofile js (ofile p) (ofile q)\<rparr>) (procs s),
      files := F\<rparr>) \<and> files_duped (dups js (ofile p)) (files s) F"
  using assms
proof (induction js arbitrary: s)
  case Nil
  then show ?case
    by (intro exI [of _ "files s"]) (simp add: files_duped_def dups_def copy_ofile_def upd_at_def)
next
  case (Cons i js)
  show ?case
  proof (cases "ofile p ! i")
    case None
    have "refs_ok (files s) (ofile p) (length js)" using Cons.prems(2) by (fastforce simp: refs_ok_def)
    with Cons None show ?thesis by (simp add: copy_ofile_def dups_def)
  next
    case (Some f)
    have i: "i < length (ofile p)" using Cons.prems(3) by simp
    have r: "refs_ok (files s) (ofile p) (Suc (length js))" using Cons.prems(2) by simp
    note R = refs_ok_dup [OF r i Some]
    have f: "f < length (files s)" using r i Some by (auto simp: refs_ok_def)
    let ?F = "upd_at f (\<lambda>f. f\<lparr>frefcnt := frefcnt f + 1\<rparr>) (files s)"
    let ?s = "s\<lparr>files := ?F, procs := upd_at n (\<lambda>q. q\<lparr>ofile := (ofile q)[i := Some f]\<rparr>) (procs s)\<rparr>"
    obtain F where F: "fork_files js p n ?s = Inr (?s\<lparr>procs := upd_at n (\<lambda>q. q\<lparr>ofile := copy_ofile js (ofile p) (ofile q)\<rparr>) (procs ?s),
        files := F\<rparr>)" "files_duped (dups js (ofile p)) ?F F"
      using Cons.IH [of ?s] Cons.prems R(1) by auto
    have "fork_files (i # js) p n s = fork_files js p n ?s"
      using Some R(2) Cons.prems(1) by (simp add: fdup_eq)
    moreover have "upd_at n (\<lambda>q. q\<lparr>ofile := copy_ofile js (ofile p) (ofile q)\<rparr>) (procs ?s)
        = upd_at n (\<lambda>q. q\<lparr>ofile := copy_ofile (i # js) (ofile p) (ofile q)\<rparr>) (procs s)"
      using Cons.prems(4) Some by (simp add: upd_at_def copy_ofile_def)
    moreover have "files_duped (dups (i # js) (ofile p)) (files s) F"
      using F(2) f Some by (auto simp: files_duped_def dups_def nth_upd_at)
    ultimately show ?thesis using F(1) by (intro exI [of _ F]) simp
  qed
qed

section \<open>The trap frame of the child\<close>

text \<open>The frame at \<open>t\<close> is the one at \<open>src\<close>, but for a zero in \<^verbatim>\<open>eax\<close>.\<close>

definition frame_copied :: "memory \<Rightarrow> u32 \<Rightarrow> memory \<Rightarrow> u32 \<Rightarrow> bool" where
  "frame_copied m src m' t \<longleftrightarrow> (\<forall>j < 76. m' (t + of_nat j) = (if 28 \<le> j \<and> j < 32 then 0 else m (src + of_nat j)))"

lemma frame_address:
  assumes "pgal k" "j < 76"
  shows "pg_of (k + 0xFB4 + of_nat j) = k"
proof -
  have "k + 0xFB4 + of_nat j = k + of_nat (4020 + j)" by (simp add: add.assoc)
  then have "unat (k + 0xFB4 + of_nat j) = unat k + (4020 + j)"
    using pgal_unat_add [OF assms(1), of "4020 + j"] assms(2) by (simp only:)
  then have "unat (pg_of (k + 0xFB4 + of_nat j)) = unat k" using assms by (auto simp: unat_pg_of pgal_def)
  then show ?thesis by (simp add: word_unat_eq_iff)
qed

lemma copy_frame:
  fixes m :: memory
  assumes k: "pgal k" and src: "\<And>j. j < 76 \<Longrightarrow> pg_of (src + of_nat j) \<noteq> k"
  defines "t \<equiv> k + 0xFB4"
  defines "m' \<equiv> store32 (memmove src t TF_SIZE m) (t + TF_EAX) 0"
  shows "frame_copied m src m' t" "mem_frame {k} m m'" "load32 m' (k + 0xFB0) = load32 m (k + 0xFB0)"
proof -
  have far: "0x4C \<le> t - src"
  proof (rule ccontr)
    assume "\<not> 0x4C \<le> t - src"
    then have "unat (t - src) < 76" by (simp add: word_le_nat_alt)
    moreover have "src + of_nat (unat (t - src)) = t" by simp
    moreover have "pg_of t = k" using frame_address [OF k, of 0] by (simp add: t_def)
    ultimately show False using src [of "unat (t - src)"] by simp
  qed
  have mv: "memmove src t TF_SIZE m x = (if x - t < 0x4C then m (src + (x - t)) else m x)" for x
    using memmove_eq [of t src "0x4C" m x] far by simp
  have m': "m' x = (if unat (x - (t + 28)) < 4 then 0 else if x - t < 0x4C then m (src + (x - t)) else m x)" for x
    unfolding m'_def TF_EAX_def TF_SIZE_def by (simp add: store32_eq mv [unfolded TF_SIZE_def] byte_of_def)
  have d: "x - (t + 28) = (x - t) - 28" for x :: u32 by simp
  have u28: "unat (of_nat j - 28 :: u32) < 4 \<longleftrightarrow> 28 \<le> j \<and> j < 32" if "j < 76" for j
  proof (cases "28 \<le> j")
    case True
    then have "unat (of_nat j - 28 :: u32) = j - 28"
      using that by (subst unat_sub) (simp_all add: word_le_nat_alt unat_of_nat32)
    moreover have "j - 28 < 4 \<longleftrightarrow> j < 32" by arith
    ultimately show ?thesis using True by simp
  next
    case False
    then have "unat (of_nat j - 28 :: u32) = 2 ^ 32 + j - 28"
      using that by (simp add: unat_sub_if_size unat_of_nat32 word_size word_le_nat_alt)
    with False show ?thesis by simp
  qed
  show "frame_copied m src m' t"
    unfolding frame_copied_def
  proof (intro allI impI)
    fix j :: nat
    assume j: "j < 76"
    have "(of_nat j :: u32) < 0x4C" using j by (simp add: word_less_nat_alt unat_of_nat32)
    then show "m' (t + of_nat j) = (if 28 \<le> j \<and> j < 32 then 0 else m (src + of_nat j))"
      using u28 [OF j] by (simp add: m' d)
  qed
  show "mem_frame {k} m m'"
    unfolding mem_frame_def
  proof (intro allI impI)
    fix a
    assume a: "pg_of a \<notin> {k}"
    have out: "76 \<le> unat (a - t)"
    proof (rule ccontr)
      assume "\<not> 76 \<le> unat (a - t)"
      then have "pg_of (t + of_nat (unat (a - t))) = k" unfolding t_def by (intro frame_address [OF k]) simp
      with a show False by simp
    qed
    then have "\<not> a - t < 0x4C" by (simp add: word_less_nat_alt)
    moreover have "unat (a - t - 28) = unat (a - t) - 28" using out by (subst unat_sub) (simp_all add: word_le_nat_alt)
    moreover have "\<not> unat (a - t) - 28 < 4" using out by arith
    ultimately show "m' a = m a" by (simp add: m' d)
  qed
  show "load32 m' (k + 0xFB0) = load32 m (k + 0xFB0)"
  proof (rule load32_cong)
    fix i :: nat
    assume "i < 4"
    then have "i = 0 \<or> i = 1 \<or> i = 2 \<or> i = 3" by auto
    then show "m' (k + 0xFB0 + of_nat i) = m (k + 0xFB0 + of_nat i)"
      by (elim disjE) (simp_all add: m' t_def)
  qed
qed

section \<open>The state \<^verbatim>\<open>fork\<close> is called in\<close>

text \<open>
  The process \<open>c\<close> runs in a consistent address space whose pages up to its size are all mapped; \<open>k # xs\<close>
  is the free list, and the trap frame is on none of these pages. The counters of the open files have room.
\<close>

definition can_fork :: "nat \<Rightarrow> u32 \<Rightarrow> u32 list \<Rightarrow> kernel \<Rightarrow> bool" where
  "can_fork c k xs s \<longleftrightarrow> procp s = Some c \<and> c < length (procs s) \<and> stat (procs s ! c) \<noteq> UNUSED \<and> cli_room 2 s \<and> kvm_ok s
     \<and> uvm_inv s (pgdir (procs s ! c)) (k # xs)
     \<and> unat KERNEND + unat (psize (procs s ! c)) \<le> unat USEREND
     \<and> apages KERNEND (KERNEND + psize (procs s ! c)) \<subseteq> upages (mem s) (pgdir (procs s ! c))
     \<and> (\<forall>j < 76. pg_of (tf (procs s ! c) + of_nat j) \<notin> set (k # xs))
     \<and> length (ofile (procs s ! c)) = NOFILE \<and> 2 \<le> length (files s) \<and> refs_ok (files s) (ofile (procs s ! c)) 33
     \<and> (\<forall>f < 2. unat (frefcnt (files s ! f)) + 1 < 2 ^ 32) \<and> cwd (procs s ! c) \<noteq> None"

text \<open>The entry of the child: the page \<open>k\<close> is its kernel stack.\<close>

definition child_proc :: "proc \<Rightarrow> nat \<Rightarrow> u32 \<Rightarrow> u32 \<Rightarrow> u32 \<Rightarrow> proc" where
  "child_proc p c n k dir = (new_proc n k)\<lparr>stat := RUN, pgdir := dir, psize := psize p, pproc := Some c,
     cwd := cwd p, ofile := copy_ofile [0..<NOFILE] (ofile p) (ofile (new_proc n k))\<rparr>"

lemma uvm_inv_tables [simp]:
  "uvm_inv (s\<lparr>procs := P\<rparr>) pg xs = uvm_inv s pg xs" "uvm_inv (s\<lparr>files := F\<rparr>) pg xs = uvm_inv s pg xs"
  "uvm_inv (s\<lparr>nextpid := n\<rparr>) pg xs = uvm_inv s pg xs" "uvm_inv (s\<lparr>inodes := I\<rparr>) pg xs = uvm_inv s pg xs"
  for s :: kernel
  by (simp_all add: uvm_inv_def vm_inv_def page_ok_def)

lemma kvm_ok_tables [simp]:
  "kvm_ok (s\<lparr>procs := P\<rparr>) = kvm_ok s" "kvm_ok (s\<lparr>files := F\<rparr>) = kvm_ok s" "kvm_ok (s\<lparr>nextpid := n\<rparr>) = kvm_ok s"
  "kvm_ok (s\<lparr>mem := m\<rparr>) = kvm_ok s" "kvm_ok (s\<lparr>coremap := r\<rparr>) = kvm_ok s"
  for s :: kernel
  by (simp_all add: kvm_ok_def)

text \<open>Two more references to the console files.\<close>

definition console_refs :: "open_file list \<Rightarrow> open_file list" where
  "console_refs fs = upd_at 1 (\<lambda>f. f\<lparr>frefcnt := frefcnt f + 1\<rparr>) (upd_at 0 (\<lambda>f. f\<lparr>frefcnt := frefcnt f + 1\<rparr>) fs)"

lemma console_refs_nth:
  "2 \<le> length fs \<Longrightarrow> f < length fs \<Longrightarrow> console_refs fs ! f = (fs ! f)\<lparr>frefcnt := frefcnt (fs ! f) + (if f < 2 then 1 else 0)\<rparr>"
  by (auto simp: console_refs_def nth_upd_at less_2_cases_iff)

lemma length_console_refs [simp]: "length (console_refs fs) = length fs"
  by (simp add: console_refs_def)

lemma refs_ok_console:
  assumes "refs_ok fs po (Suc n)" "2 \<le> length fs"
  shows "refs_ok (console_refs fs) po n"
  unfolding refs_ok_def
proof (intro allI impI)
  fix i f
  assume i: "i < length po" "po ! i = Some f"
  then have f: "f < length fs" "1 \<le> unat (frefcnt (fs ! f))" "unat (frefcnt (fs ! f)) + Suc n < 2 ^ 32"
    using assms(1) by (auto simp: refs_ok_def)
  then have "unat (frefcnt (fs ! f) + 1) = unat (frefcnt (fs ! f)) + 1" by (intro unat_Suc_word) simp
  with f assms(2) show "f < length (console_refs fs) \<and> 1 \<le> unat (frefcnt (console_refs fs ! f))
      \<and> unat (frefcnt (console_refs fs ! f)) + n < 2 ^ 32"
    by (simp add: console_refs_nth)
qed

text \<open>After \<^verbatim>\<open>palloc\<close>: the entry \<open>n\<close> and the page \<open>k\<close> are taken, the parent and its memory are as before.\<close>

lemma fork_start:
  assumes "can_fork c k xs s" and "find_idx (\<lambda>p. stat p = UNUSED) (procs s) = Some n"
  obtains s1 where "palloc s = Inr (Some n, s1)" "procs s1 = (procs s)[n := new_proc (nextpid s) k]" "n < length (procs s)" "n \<noteq> c"
    "procp s1 = Some c" "files s1 = console_refs (files s)" "inodes s1 = inodes s" "trapret_at s1 = trapret_at s"
    "mem_frame {k} (mem s) (mem s1)" "uvm_inv s1 (pgdir (procs s ! c)) xs" "kvm_ok s1" "cli_room 2 s1"
    "load32 (mem s1) (k + 0xFB0) = trapret_at s" "upages (mem s1) (pgdir (procs s ! c)) = upages (mem s) (pgdir (procs s ! c))"
    "pte_at (mem s1) (pgdir (procs s ! c)) = pte_at (mem s) (pgdir (procs s ! c))" "page_ok s1 k" "k \<notin> set xs"
    "owned (mem s1) (pgdir (procs s ! c)) = owned (mem s) (pgdir (procs s ! c))" "k \<notin> owned (mem s) (pgdir (procs s ! c))"
proof -
  note F = assms(1) [unfolded can_fork_def]
  let ?pg = "pgdir (procs s ! c)"
  have inv: "uvm_inv s ?pg (k # xs)" using F by simp
  have k0: "kmem_inv s (k # xs)" using inv uvm_invD(1) vm_invD(1) by blast
  note K = kmem_inv_kalloc [OF k0]
  have n: "n < length (procs s)" "stat (procs s ! n) = UNUSED" using assms(2) by (simp_all add: find_idx_Some_iff)
  have room: "cli_room 2 s" using F by simp
  obtain s1 where s1: "palloc s = Inr (Some n, s1)" "s1 = s\<lparr>coremap := coremap s1, mem := mem s1,
        procs := (procs s)[n := new_proc (nextpid s) k], nextpid := nextpid s + 1, files := console_refs (files s)\<rparr>"
      "kmem_inv s1 xs" "mem_frame {k} (mem s) (mem s1)" "user_frame (mem s1) (k + 0xFB4) (trapret_at s)"
    using palloc_builds [OF k0 room assms(2)] unfolding console_refs_def by blast
  let ?t = "s\<lparr>coremap := coremap s1, mem := mem s1\<rparr>"
  have t: "s1 = ?t\<lparr>procs := (procs s)[n := new_proc (nextpid s) k], nextpid := nextpid s + 1, files := console_refs (files s)\<rparr>"
    using s1(2) by simp
  have "kmem_inv s1 xs = kmem_inv ?t xs" by (subst t) simp
  then have kt: "kmem_inv ?t xs" using s1(3) by simp
  have ot: "mem_only s ?t" by (rule mem_onlyI [where m = "mem s1" and c = "coremap s1"]) simp
  have own: "k \<notin> owned (mem s) ?pg" "set xs \<inter> owned (mem s) ?pg = {}" using owned_not_free [OF inv] by auto
  have ft: "mem_frame {k} (mem s) (mem ?t)" using s1(4) by simp
  have dj: "{k} \<inter> owned (mem s) ?pg = {}" using own(1) by simp
  note O = uvm_other [OF inv mem_only_sel(7) [OF ot] kt ft dj own(2)]
  have "uvm_inv s1 ?pg xs = uvm_inv ?t ?pg xs" by (subst t) simp
  then have "uvm_inv s1 ?pg xs" using O(1) by simp
  moreover have "kvm_ok s1 = kvm_ok s" by (subst t) simp
  moreover have "cli_room 2 s1 = cli_room 2 s" by (subst t) (simp add: cli_room_def cli_ok_def)
  moreover have "page_ok s1 k = page_ok s k" by (subst t) (simp add: page_ok_def)
  moreover have "k + 0xFB4 - CTX_SIZE + CTX_EIP = k + 0xFB0" by (simp add: add.commute)
  then have "load32 (mem s1) (k + 0xFB0) = trapret_at s" using s1(5) by (simp only: user_frame_def)
  moreover have "procs s1 = (procs s)[n := new_proc (nextpid s) k]" "files s1 = console_refs (files s)"
    "inodes s1 = inodes s" "trapret_at s1 = trapret_at s" "procp s1 = procp s"
    by (subst t, simp)+
  ultimately show thesis
    using s1(1,4) O(2-4) own(1) K(4,5) n F by (intro that [of s1]) auto
qed

section \<open>The memory of parent and child\<close>

lemma vread_frame:
  assumes f: "mem_frame Q m m'" and e: "pte_at m' pg = pte_at m pg" and v: "pg_of v \<in> upages m pg"
    and a: "pgal (frame m pg (pg_of v))" "frame m pg (pg_of v) \<notin> Q"
  shows "vread m' pg v = vread m pg v"
proof -
  have u: "upages m' pg = upages m pg" "frame m' pg = frame m pg"
    using e by (simp_all add: upages_def frame_def fun_eq_iff)
  have "m' (frame m pg (pg_of v) OR (v AND 0xFFF)) = m (frame m pg (pg_of v) OR (v AND 0xFFF))"
    using mem_frameD [OF f] page_offset(1) [OF a(1)] a(2) by simp
  then show ?thesis using vread_page [OF v, of v] vread_page [of "pg_of v" m' pg v] v by (simp add: u)
qed

text \<open>A write to a page that neither belongs to the address space nor is free.\<close>

lemma uvm_write:
  assumes inv: "uvm_inv s pg xs" and f: "mem_frame {k} (mem s) m" and k: "k \<notin> owned (mem s) pg" "k \<notin> set xs"
  shows "uvm_inv (s\<lparr>mem := m\<rparr>) pg xs" "owned m pg = owned (mem s) pg" "upages m pg = upages (mem s) pg"
    "pg_of v \<in> upages (mem s) pg \<Longrightarrow> vread m pg v = vread (mem s) pg v"
proof -
  have dj: "{k} \<inter> vm_pages (mem s) pg = {}" "{k} \<inter> set xs = {}" using k by (auto simp: owned_def)
  note F = uvm_frame [OF inv f dj]
  show "uvm_inv (s\<lparr>mem := m\<rparr>) pg xs" by (rule F(1))
  show "owned m pg = owned (mem s) pg" "upages m pg = upages (mem s) pg" by (simp_all add: owned_def F)
  show "vread m pg v = vread (mem s) pg v" if v: "pg_of v \<in> upages (mem s) pg"
  proof (rule vread_frame [OF f F(4) v])
    show "pgal (frame (mem s) pg (pg_of v))" using uvm_invD(3) [OF inv v] by (rule page_ok_pgal)
    show "frame (mem s) pg (pg_of v) \<notin> {k}" using k(1) v by (auto simp: owned_def)
  qed
qed

text \<open>
  \<open>forked s c P k dir m\<close>: in the memory \<open>m\<close> the directory \<open>dir\<close> reads as the one of the process \<open>c\<close> did
  in \<open>s\<close> on the pages \<open>P\<close>, \<open>c\<close> reads all it did, and the frame on the kernel stack \<open>k\<close> leads to where
  \<open>c\<close> was, with 0 as the result.
\<close>

definition forked :: "kernel \<Rightarrow> nat \<Rightarrow> u32 set \<Rightarrow> u32 \<Rightarrow> u32 \<Rightarrow> memory \<Rightarrow> bool" where
  "forked s c P k dir m \<longleftrightarrow> upages m dir = P \<and> owned m (pgdir (procs s ! c)) \<inter> owned m dir = {}
     \<and> (\<forall>v. pg_of v \<in> P \<longrightarrow> vread m dir v = vread (mem s) (pgdir (procs s ! c)) v)
     \<and> (\<forall>v. pg_of v \<in> upages (mem s) (pgdir (procs s ! c)) \<longrightarrow>
          vread m (pgdir (procs s ! c)) v = vread (mem s) (pgdir (procs s ! c)) v)
     \<and> frame_copied (mem s) (tf (procs s ! c)) m (k + 0xFB4) \<and> load32 m (k + 0xFB0) = trapret_at s"

lemma fork_memory:
  assumes cf: "can_fork c k xs s" and n: "find_idx (\<lambda>p. stat p = UNUSED) (procs s) = Some n" and p: "palloc s = Inr (Some n, s1)"
    and c: "copied s1 xs (pgdir (procs s ! c)) dir P s2 ys" and P: "P \<subseteq> upages (mem s) (pgdir (procs s ! c))"
  defines "m3 \<equiv> store32 (memmove (tf (procs s ! c)) (k + 0xFB4) TF_SIZE (mem s2)) (k + 0xFB4 + TF_EAX) 0"
  shows "forked s c P k dir m3 \<and> uvm_inv (s2\<lparr>mem := m3\<rparr>) dir ys \<and> uvm_inv (s2\<lparr>mem := m3\<rparr>) (pgdir (procs s ! c)) ys
    \<and> mem_frame (insert k (set xs)) (mem s) m3 \<and> owned m3 dir \<union> set ys = set xs
    \<and> owned m3 (pgdir (procs s ! c)) = owned (mem s) (pgdir (procs s ! c))
    \<and> upages m3 (pgdir (procs s ! c)) = upages (mem s) (pgdir (procs s ! c))"
proof (rule fork_start [OF cf n], goal_cases)
  let ?pg = "pgdir (procs s ! c)"
  case (1 u)
  have u: "u = s1" using 1(1) p by simp
  note S = 1 [unfolded u]
  have inv: "uvm_inv s ?pg (k # xs)" using cf by (simp add: can_fork_def)
  note par = copied_parent [OF S(10) c]
  have C: "mem_frame (set xs) (mem s1) (mem s2)" "uvm_inv s2 dir ys" "owned (mem s2) dir \<union> set ys = set xs" "upages (mem s2) dir = P"
    using c by (simp_all add: copied_def)
  have kp: "pgal k" using S(16) by (rule page_ok_pgal)
  have src: "pg_of (tf (procs s ! c) + of_nat j) \<notin> set (k # xs)" if "j < 76" for j
    using cf that by (simp add: can_fork_def)
  have two: "mem s2 a = mem s a" if "pg_of a \<notin> set (k # xs)" for a
    using mem_frameD [OF C(1), of a] mem_frameD [OF S(9), of a] that by simp
  note F = copy_frame [OF kp, of "tf (procs s ! c)" "mem s2"]
  have src': "pg_of (tf (procs s ! c) + of_nat j) \<noteq> k" if "j < 76" for j using src [OF that] by simp
  have fc: "frame_copied (mem s2) (tf (procs s ! c)) m3 (k + 0xFB4)" and f3: "mem_frame {k} (mem s2) m3"
    and l3: "load32 m3 (k + 0xFB0) = load32 (mem s2) (k + 0xFB0)"
    unfolding m3_def using F src' by blast+
  have "frame_copied (mem s) (tf (procs s ! c)) m3 (k + 0xFB4)"
    using fc two src by (simp add: frame_copied_def)
  moreover have "load32 (mem s2) (k + 0xFB0) = load32 (mem s1) (k + 0xFB0)"
  proof (rule load32_cong)
    fix i :: nat
    assume "i < 4"
    then have "unat (k + 0xFB0 + of_nat i) = unat k + (4016 + i)"
      using pgal_unat_add [OF kp, of "4016 + i"] by (simp add: add.assoc)
    then have "unat (pg_of (k + 0xFB0 + of_nat i)) = unat k"
      using kp \<open>i < 4\<close> by (auto simp: unat_pg_of pgal_def)
    then have "pg_of (k + 0xFB0 + of_nat i) = k" by (simp add: word_unat_eq_iff)
    then show "mem s2 (k + 0xFB0 + of_nat i) = mem s1 (k + 0xFB0 + of_nat i)"
      using mem_frameD [OF C(1)] S(17) by simp
  qed
  moreover have kd: "k \<notin> owned (mem s2) dir" "k \<notin> set ys" using C(3) S(17) by auto
  moreover have kpg: "k \<notin> owned (mem s2) ?pg" using par(4) S(18,19) by simp
  note D = uvm_write [OF C(2) f3 kd] and E = uvm_write [OF par(1) f3 kpg kd(2)]
  have "vread m3 dir v = vread (mem s) ?pg v" if "pg_of v \<in> P" for v
  proof -
    have v: "pg_of v \<in> upages (mem s2) dir" "pg_of v \<in> upages (mem s) ?pg" using that C(4) P by auto
    have "vread m3 dir v = vread (mem s2) dir v" using D(4) v(1) .
    also have "\<dots> = vread (mem s1) ?pg v" by (rule copied_vread [OF S(10) c that]) (use P S(14) in simp)
    also have "\<dots> = vread (mem s) ?pg v"
      by (rule vread_frame [OF S(9,15) v(2)]) (use uvm_invD(3) [OF inv v(2)] page_ok_pgal S(19) v(2) in \<open>auto simp: owned_def\<close>)
    finally show ?thesis .
  qed
  moreover have "vread m3 ?pg v = vread (mem s) ?pg v" if "pg_of v \<in> upages (mem s) ?pg" for v
  proof -
    have v: "pg_of v \<in> upages (mem s2) ?pg" "pg_of v \<in> upages (mem s1) ?pg" using that par(3) S(14) by simp_all
    have "vread m3 ?pg v = vread (mem s2) ?pg v" using E(4) v(1) .
    also have "\<dots> = vread (mem s1) ?pg v" using vread_untouched [OF S(10) C(1) par(2) v(2)] .
    also have "\<dots> = vread (mem s) ?pg v"
      by (rule vread_frame [OF S(9,15) that]) (use uvm_invD(3) [OF inv that] page_ok_pgal S(19) that in \<open>auto simp: owned_def\<close>)
    finally show ?thesis .
  qed
  moreover have "mem_frame (insert k (set xs)) (mem s) m3"
    using mem_frame_trans [OF mem_frame_trans [OF mem_frame_mono [OF S(9)] mem_frame_mono [OF C(1)]] mem_frame_mono [OF f3]]
    by auto
  ultimately show ?case
    using D(1-3) E(1-3) par(3-5) C(3,4) S(13,14,18) l3 by (simp_all add: forked_def)
qed

section \<open>\<open>sys_fork\<close>\<close>

lemma mem_only_kernel:
  fixes s s' :: kernel
  assumes "mem_only s s'"
  shows "procs s' = procs s" "procp s' = procp s" "files s' = files s" "inodes s' = inodes s" "nextpid s' = nextpid s"
    "cli_room n s' = cli_room n s"
  using assms by (auto simp: mem_only_def cli_room_def cli_ok_def)

text \<open>From the new address space to the end of \<^verbatim>\<open>sys_fork\<close>.\<close>

lemma fork_tail:
  fixes s2 :: kernel
  assumes p: "p = procs s2 ! c" "c < length (procs s2)" "procp s2 = Some c" and cli: "cli_ok s2"
    and n: "n < length (procs s2)" "n \<noteq> c" "procs s2 ! n = new_proc w k"
    and r: "refs_ok (files s2) (ofile p) 32" "length (ofile p) = NOFILE" and ip: "cwd p = Some ip"
    and m3: "m3 = store32 (memmove (tf p) (k + 0xFB4) TF_SIZE (mem s2)) (k + 0xFB4 + TF_EAX) 0"
  shows "\<exists>F. (let s = s2\<lparr>procs := upd_at n (\<lambda>q. q\<lparr>pgdir := dir\<rparr>) (procs s2)\<rparr>;
         s = s\<lparr>procs := upd_at n (\<lambda>q. q\<lparr>psize := psize p, pproc := procp s\<rparr>) (procs s)\<rparr>;
         t = tf (procs s ! n);
         s = s\<lparr>mem := memmove (tf p) t TF_SIZE (mem s)\<rparr>;
         s = s\<lparr>mem := store32 (mem s) (t + TF_EAX) 0\<rparr>
     in bnd (fork_files [0..<NOFILE] p n s) (\<lambda>s.
        bnd (idup (cwd p) s) (\<lambda>(ip, s).
        let s = s\<lparr>procs := upd_at n (\<lambda>q. q\<lparr>cwd := ip, stat := RUN\<rparr>) (procs s)\<rparr>
        in Inr (sint (pid (procs s ! n)), s))))
    = Inr (sint w, s2\<lparr>mem := m3, procs := (procs s2)[n := child_proc p c w k dir], files := F,
        inodes := upd_at ip (\<lambda>i. i\<lparr>irefcnt := irefcnt i + 1\<rparr>) (inodes s2)\<rparr>)
    \<and> files_duped (count_list (ofile p) \<circ> Some) (files s2) F"
proof -
  let ?q = "(new_proc w k)\<lparr>pgdir := dir, psize := psize p, pproc := Some c\<rparr>"
  let ?s = "s2\<lparr>procs := (procs s2)[n := ?q], mem := m3\<rparr>"
  obtain F where F: "fork_files [0..<NOFILE] p n ?s = Inr (?s\<lparr>procs := upd_at n
        (\<lambda>q. q\<lparr>ofile := copy_ofile [0..<NOFILE] (ofile p) (ofile q)\<rparr>) (procs ?s), files := F\<rparr>)"
      "files_duped (dups [0..<NOFILE] (ofile p)) (files s2) F"
    using fork_files_eq [of ?s p "[0..<NOFILE]" n] cli r n(1) by (auto simp: atLeast0LessThan)
  have d: "dups [0..<NOFILE] (ofile p) = count_list (ofile p) \<circ> Some"
    using dups_all [of "ofile p"] r(2) by (simp add: fun_eq_iff)
  have tf: "tf ?q = k + 0xFB4" "pid ?q = w" "pgdir ?q = dir" by (simp_all add: new_proc_def)
  show ?thesis
    using F n p(3) cli ip unfolding d
    by (intro exI [of _ F]) (simp add: upd_at_def idup_eq child_proc_def new_proc_def proc_zero_def m3 Let_def)
qed

lemma fork_succeeds:
  assumes cf: "can_fork c k xs s" and n: "find_idx (\<lambda>p. stat p = UNUSED) (procs s) = Some n" and xs: "129 \<le> length xs"
  defines "P \<equiv> apages KERNEND (KERNEND + psize (procs s ! c))"
  assumes enough: "copy_needed P \<le> length xs"
  shows "\<exists>dir s' ys. sys_fork s = Inr (sint (nextpid s), s') \<and> procs s' = (procs s)[n := child_proc (procs s ! c) c (nextpid s) k dir]
    \<and> forked s c P k dir (mem s') \<and> uvm_inv s' dir ys \<and> uvm_inv s' (pgdir (procs s ! c)) ys \<and> length xs = length ys + copy_needed P
    \<and> files_duped (count_list (ofile (procs s ! c)) \<circ> Some) (console_refs (files s)) (files s')
    \<and> inodes s' = upd_at (the (cwd (procs s ! c))) (\<lambda>i. i\<lparr>irefcnt := irefcnt i + 1\<rparr>) (inodes s)
    \<and> mem_frame (insert k (set xs)) (mem s) (mem s') \<and> owned (mem s') dir \<union> set ys = set xs
    \<and> owned (mem s') (pgdir (procs s ! c)) = owned (mem s) (pgdir (procs s ! c))
    \<and> upages (mem s') (pgdir (procs s ! c)) = upages (mem s) (pgdir (procs s ! c))"
proof (rule fork_start [OF cf n], goal_cases)
  case (1 s1)
  let ?p = "procs s ! c"
  note F = cf [unfolded can_fork_def]
  have ub: "apages KERNEND (KERNEND + psize ?p) \<subseteq> upages (mem s1) (pgdir ?p)" "unat KERNEND + unat (psize ?p) \<le> unat USEREND"
    using F 1(14) by simp_all
  obtain ip where ip: "cwd ?p = Some ip" using F by auto
  have r: "refs_ok (files s1) (ofile ?p) 32" unfolding 1(6) by (rule refs_ok_console) (use F in simp_all)
  show ?case
  proof (rule copyuvm_cases [OF 1(10,11) xs ub(2,1)], fold P_def)
    fix s2 ys
    assume c2: "copyuvm (pgdir ?p) (psize ?p) s1 = Inr (hd xs, s2)" "copied s1 xs (pgdir ?p) (hd xs) P s2 ys"
    have o: "mem_only s1 s2" and ys: "length xs = length ys + copy_needed P" and i2: "uvm_inv s2 (hd xs) ys"
      using c2(2) by (simp_all add: copied_def copy_needed_def)
    note M = mem_only_kernel [OF o]
    have d0: "hd xs \<noteq> 0" using vm_invD(6) [OF uvm_invD(1) [OF i2]] .
    let ?m = "store32 (memmove (tf ?p) (k + 0xFB4) TF_SIZE (mem s2)) (k + 0xFB4 + TF_EAX) 0"
    have cur: "cur s1 = Inr ?p" using 1(2,3,4,5) by (simp add: cur_def)
    have cli: "cli_ok s2" using M(6) [of 2] 1(12) by (simp add: cli_room_def)
    have pc: "?p = procs s2 ! c" "c < length (procs s2)" "procp s2 = Some c" "n < length (procs s2)"
      "procs s2 ! n = new_proc (nextpid s) k"
      using M 1(2-5) F by simp_all
    have rf: "refs_ok (files s2) (ofile ?p) 32" "length (ofile ?p) = NOFILE" using r M(3) F by simp_all
    obtain G where G: "sys_fork s = Inr (sint (nextpid s), s2\<lparr>mem := ?m, procs := (procs s2)[n := child_proc ?p c (nextpid s) k (hd xs)],
        files := G, inodes := upd_at ip (\<lambda>i. i\<lparr>irefcnt := irefcnt i + 1\<rparr>) (inodes s2)\<rparr>)"
        "files_duped (count_list (ofile ?p) \<circ> Some) (files s2) G"
      using fork_tail [OF pc(1-3) cli pc(4) 1(4) pc(5) rf ip refl, of "hd xs"] 1(1) cur c2(1) d0
      by (auto simp: sys_fork_def Let_def)
    have "P \<subseteq> upages (mem s) (pgdir ?p)" using F by (simp add: P_def)
    note W = fork_memory [OF cf n 1(1) c2(2) this]
    let ?t = "s2\<lparr>mem := ?m, procs := (procs s2)[n := child_proc ?p c (nextpid s) k (hd xs)],
        files := G, inodes := upd_at ip (\<lambda>i. i\<lparr>irefcnt := irefcnt i + 1\<rparr>) (inodes s2)\<rparr>"
    have "procs ?t = (procs s)[n := child_proc ?p c (nextpid s) k (hd xs)]" using M(1) 1(2) by simp
    moreover have "forked s c P k (hd xs) (mem ?t)" "uvm_inv ?t (hd xs) ys" "uvm_inv ?t (pgdir ?p) ys"
      "mem_frame (insert k (set xs)) (mem s) (mem ?t)" "owned (mem ?t) (hd xs) \<union> set ys = set xs"
      "owned (mem ?t) (pgdir ?p) = owned (mem s) (pgdir ?p)"
      "upages (mem ?t) (pgdir ?p) = upages (mem s) (pgdir ?p)"
      using W by simp_all
    ultimately show ?thesis
      using G ys M(3,4) 1(6,7) ip by (intro exI [of _ "hd xs"] exI [of _ ?t] exI [of _ ys]) simp
  qed (use enough in simp)
qed

text \<open>Giving the entry back: both console files lose the reference \<^verbatim>\<open>palloc\<close> took.\<close>

lemma pfree_files_none: "(\<And>fd. fd \<in> set fds \<Longrightarrow> ofile (procs s ! i) ! fd = None) \<Longrightarrow> pfree_files i fds s = Inr s"
  by (induction fds) simp_all

lemma console_refs_undo:
  assumes "2 \<le> length fs"
  shows "upd_at 1 (\<lambda>f. f\<lparr>frefcnt := frefcnt f - 1\<rparr>) (upd_at 0 (\<lambda>f. f\<lparr>frefcnt := frefcnt f - 1\<rparr>) (console_refs fs)) = fs"
proof -
  obtain a b gs where "fs = a # b # gs" using assms by (cases fs; cases "tl fs") auto
  then show ?thesis by (simp add: console_refs_def upd_at_def)
qed

lemma tables_swap: "s\<lparr>procs := P, files := F\<rparr> = s\<lparr>files := F, procs := P\<rparr>"
  for s :: kernel
  by (cases s) simp

lemma procs_last: "s\<lparr>procs := P, files := F, mem := m, coremap := r\<rparr> = s\<lparr>files := F, mem := m, coremap := r, procs := P\<rparr>"
  for s :: kernel
  by (cases s) simp

lemma pfree_new:
  fixes s :: kernel
  assumes cli: "cli_room 2 s" and n: "n < length (procs s)" "procs s ! n = new_proc w k" and k: "page_ok s k" "k \<noteq> 0"
    and f: "files s = console_refs fs" "2 \<le> length fs" "\<forall>f < 2. unat (frefcnt (fs ! f)) + 1 < 2 ^ 32"
  shows "\<exists>q. stat q = UNUSED \<and> pfree n s = Inr (s\<lparr>procs := (procs s)[n := q], files := fs,
    mem := store32 (memset k 0 0x1000 (mem s)) k (coremap s), coremap := k\<rparr>)"
proof -
  let ?q1 = "(new_proc w k)\<lparr>ofile := (replicate 32 None)[1 := Some 1]\<rparr>"
  let ?q2 = "(new_proc w k)\<lparr>ofile := replicate 32 None\<rparr>"
  let ?q = "(new_proc w k)\<lparr>ofile := replicate 32 None, kstack := 0, stat := UNUSED\<rparr>"
  let ?dec = "\<lambda>f. f\<lparr>frefcnt := frefcnt f - 1\<rparr>"
  let ?t = "pushcli s"
  note cl = cli_ok_pushed [OF cli] cli_room_ok [OF cli]
  have fds: "[0..<NOFILE] = 0 # 1 # [2..<32]" by (simp add: upt_conv_Cons)
  have pos: "\<not> frefcnt (console_refs fs ! f) < 1" if "f < 2" for f
  proof -
    have "unat (frefcnt (fs ! f) + 1) = unat (frefcnt (fs ! f)) + 1" using f(3) that by (intro unat_Suc_word) simp
    then show ?thesis using that f(2) by (simp add: console_refs_nth word_less_nat_alt)
  qed
  have none0: "(replicate 32 (None :: nat option))[0 := None] = replicate 32 None"
    "(replicate 32 (None :: nat option))[1 := None] = replicate 32 None"
    by (simp_all add: list_update_same_conv)
  have o: "ofile (new_proc w k) ! 0 = Some 0" "ofile ?q1 ! 1 = Some 1" "(ofile (new_proc w k))[0 := None] = ofile ?q1"
    by (simp_all add: new_proc_def list_update_swap none0)
  have one: "upd_at 0 ?dec (console_refs fs) ! 1 = console_refs fs ! 1" by simp
  let ?t1 = "?t\<lparr>procs := (procs s)[n := ?q1], files := upd_at 0 ?dec (console_refs fs)\<rparr>"
  let ?t2 = "?t\<lparr>procs := (procs s)[n := ?q2], files := fs\<rparr>"
  have f1: "ffree (Some 0) ?t = Inr (?t\<lparr>files := upd_at 0 ?dec (console_refs fs)\<rparr>)"
    using pos [of 0] cl(1) f(1) by (simp add: ffree_eq)
  have f2: "ffree (Some 1) ?t1 = Inr (?t1\<lparr>files := fs\<rparr>)"
    using pos [of 1] cl(1) one console_refs_undo [OF f(2)] by (simp add: ffree_eq)
  have l: "pfree_files n [2..<32] ?t2 = Inr ?t2" using n(1) by (intro pfree_files_none) auto
  have "pfree_files n [0..<NOFILE] ?t = pfree_files n (1 # [2..<32]) ?t1"
    unfolding fds tables_swap using f1 n o(1,3) by (simp add: upd_at_def del: upt_rec_numeral)
  also have "\<dots> = pfree_files n [2..<32] ?t2"
    using f2 n o(2) none0 unfolding tables_swap by (simp add: upd_at_def del: upt_rec_numeral)
  finally have pf: "pfree_files n [0..<NOFILE] ?t = Inr ?t2" using l by simp
  let ?m = "store32 (memset k 0 0x1000 (mem s)) k (coremap s)"
  have kf: "kfree k ?t2 = Inr (?t2\<lparr>mem := ?m, coremap := k\<rparr>)"
    using kfree_eq [of ?t2 k] cl(1) k(1) by (simp add: page_ok_def)
  let ?u = "s\<lparr>procs := (procs s)[n := ?q], files := fs, mem := ?m, coremap := k\<rparr>"
  have pop: "popcli (pushcli ?u) = Inr ?u" by (rule popcli_table(1)) (use cl(2) in simp)
  have pu: "pushcli ?u = ?t\<lparr>procs := (procs s)[n := ?q], files := fs, mem := ?m, coremap := k\<rparr>" by simp
  have "pfree n s = popcli (pushcli ?u)"
    unfolding pfree_def pf pu procs_last using kf n k(2) by (simp add: upd_at_def new_proc_def proc_zero_def procs_last)
  then show ?thesis using pop by (intro exI [of _ ?q]) simp
qed

lemma fork_fails:
  assumes cf: "can_fork c k xs s" and n: "find_idx (\<lambda>p. stat p = UNUSED) (procs s) = Some n" and xs: "129 \<le> length xs"
  defines "P \<equiv> apages KERNEND (KERNEND + psize (procs s ! c))"
  assumes few: "length xs < copy_needed P"
  shows "\<exists>s' ys q. sys_fork s = Inr (- 1, s') \<and> procs s' = (procs s)[n := q] \<and> stat q = UNUSED \<and> files s' = files s
    \<and> inodes s' = inodes s \<and> uvm_inv s' (pgdir (procs s ! c)) ys \<and> length (k # xs) = length ys + 128
    \<and> (\<forall>v. pg_of v \<in> upages (mem s) (pgdir (procs s ! c)) \<longrightarrow>
         vread (mem s') (pgdir (procs s ! c)) v = vread (mem s) (pgdir (procs s ! c)) v)"
proof (rule fork_start [OF cf n], goal_cases)
  case (1 s1)
  let ?p = "procs s ! c" and ?pg = "pgdir (procs s ! c)"
  note F = cf [unfolded can_fork_def]
  have inv: "uvm_inv s ?pg (k # xs)" using F by simp
  have ub: "apages KERNEND (KERNEND + psize ?p) \<subseteq> upages (mem s1) ?pg" "unat KERNEND + unat (psize ?p) \<le> unat USEREND"
    using F 1(14) by simp_all
  show ?case
  proof (rule copyuvm_cases [OF 1(10,11) xs ub(2,1)], fold P_def)
    fix s2
    assume c2: "copyuvm ?pg (psize ?p) s1 = Inr (0, s2)" "copy_failed s1 xs s2"
    obtain ys where y: "kmem_inv s2 ys" "mem_only s1 s2" "mem_frame (set xs) (mem s1) (mem s2)" "set ys \<subseteq> set xs"
        "length ys + 128 = length xs" using c2(2) by (auto simp: copy_failed_def)
    note M = mem_only_kernel [OF y(2)]
    have cur: "cur s1 = Inr ?p" using 1(2,3,4,5) by (simp add: cur_def)
    have pn: "n < length (procs s2)" "procs s2 ! n = new_proc (nextpid s) k" using M 1(2,3) by simp_all
    have pk: "page_ok s2 k" "k \<noteq> 0" "k \<notin> set ys"
      using 1(16,17) mem_only_sel(7) [OF y(2)] y(4) page_ok_not_0 [OF vm_invD(8) [OF uvm_invD(1) [OF 1(10)]]] by auto
    have fl: "files s2 = console_refs (files s)" "2 \<le> length (files s)" "\<forall>f < 2. unat (frefcnt (files s ! f)) + 1 < 2 ^ 32"
      using M(3) 1(6) F by simp_all
    let ?m = "store32 (memset k 0 0x1000 (mem s2)) k (coremap s2)"
    obtain q where q: "stat q = UNUSED" "pfree n s2 = Inr (s2\<lparr>procs := (procs s2)[n := q], files := files s, mem := ?m, coremap := k\<rparr>)"
      using pfree_new [OF _ pn pk(1,2) fl] M(6) [of 2] 1(12) by auto
    let ?u = "s2\<lparr>procs := (procs s2)[n := q], files := files s, mem := ?m, coremap := k\<rparr>"
    have "s2\<lparr>procs := upd_at n (\<lambda>q. q\<lparr>pgdir := 0\<rparr>) (procs s2)\<rparr> = s2"
      using pn(2) by (simp add: upd_at_def new_proc_def proc_zero_def list_update_same_conv [THEN iffD2, OF pn(1)])
    then have run: "sys_fork s = Inr (- 1, ?u)" using 1(1) cur c2(1) q(2) by (simp add: sys_fork_def)
    let ?v = "s2\<lparr>mem := ?m, coremap := k\<rparr>"
    have kv: "kmem_inv ?v (k # ys)" using kmem_inv_kfree [OF y(1) pk(1,3)] by simp
    have ov: "mem_only s1 ?v" using y(2) by (rule mem_only_trans) (rule mem_onlyI [where m = ?m and c = k], simp)
    have kf: "mem_frame {k} (mem s2) ?m"
      unfolding mem_frame_def using kfree_mem_other pg_of_iff [OF page_ok_pgal [OF pk(1)]] by auto
    have f1: "mem_frame (insert k (set xs)) (mem s1) (mem ?v)"
      using mem_frame_trans [OF mem_frame_mono [OF y(3), of "insert k (set xs)"] mem_frame_mono [OF kf, of "insert k (set xs)"]] by auto
    have dj: "insert k (set xs) \<inter> owned (mem s1) ?pg = {}" using owned_not_free [OF 1(10)] 1(18,19) by auto
    have dk: "set (k # ys) \<inter> owned (mem s1) ?pg = {}" using dj y(4) by auto
    note O = uvm_other [OF 1(10) mem_only_sel(7) [OF ov] kv f1 dj dk]
    have "uvm_inv ?u ?pg (k # ys) = uvm_inv ?v ?pg (k # ys)" by (simp add: procs_last uvm_inv_def vm_inv_def page_ok_def kmem_inv_def kern_ok_def)
    moreover have "vread (mem ?u) ?pg v = vread (mem s) ?pg v" if v: "pg_of v \<in> upages (mem s) ?pg" for v
    proof (rule vread_frame [where Q = "insert k (set xs)"])
      show "mem_frame (insert k (set xs)) (mem s) (mem ?u)"
        using mem_frame_trans [OF mem_frame_mono [OF 1(9), of "insert k (set xs)"] f1] by simp
      show "pte_at (mem ?u) ?pg = pte_at (mem s) ?pg" using O(2) 1(15) by simp
      show "pgal (frame (mem s) ?pg (pg_of v))" using uvm_invD(3) [OF inv v] by (rule page_ok_pgal)
      show "frame (mem s) ?pg (pg_of v) \<notin> insert k (set xs)" using uvm_invD(4) [OF inv v] by simp
    qed (rule v)
    ultimately show ?thesis
      using run O(1) q(1) M 1(2,7) y(5) by (intro exI [of _ ?u] exI [of _ "k # ys"] exI [of _ q]) simp
  qed (use few in simp)
qed

section \<open>Properties\<close>

text \<open>How many references \<^verbatim>\<open>sys_fork\<close> adds: one per descriptor copied, and those of \<^verbatim>\<open>palloc\<close>.\<close>

definition fork_refs :: "proc \<Rightarrow> nat \<Rightarrow> nat" where
  "fork_refs p f = count_list (ofile p) (Some f) + (if f < 2 then 1 else 0)"

lemma files_duped_console:
  "files_duped (count_list (ofile p) \<circ> Some) (console_refs fs) fs' \<Longrightarrow> 2 \<le> length fs \<Longrightarrow> files_duped (fork_refs p) fs fs'"
  by (auto simp: files_duped_def fork_refs_def console_refs_nth)


text \<open>A process with two pages and standard input open.\<close>

definition ex_forker :: "u32 \<Rightarrow> proc" where
  "ex_forker pg = proc_zero\<lparr>stat := RUN, pgdir := pg, psize := 0x2000, kstack := 0x1000, tf := 0x1FB4, cwd := Some 0,
     ofile := Some 0 # replicate 31 None\<rparr>"

definition ex_fork :: "vm \<Rightarrow> u32 \<Rightarrow> kernel" where
  "ex_fork v pg = boot_state\<lparr>mem := mem v, coremap := coremap v, kernel_end := kernel_end v, rodata_end := rodata_end v,
     kmaps := kmaps v, procs := proc_zero # ex_forker pg # replicate 62 proc_zero, procp := Some 1,
     files := file_zero\<lparr>frefcnt := 1\<rparr> # replicate 63 file_zero,
     ts := taskstate_zero\<lparr>ts_esp0 := 0x2000, ts_ss0 := 0x10\<rparr>, idt := idt (idtinit of_nat boot_state)\<rparr>"

lemma ex_fork_ok:
  assumes "uvm_inv v pg (k # xs)" "kvm_ok v" "upages (mem v) pg = ex_pages"
  shows "can_fork 1 k xs (ex_fork v pg)"
proof -
  let ?s = "ex_fork v pg"
  have eq: "mem ?s = mem v" "coremap ?s = coremap v" "page_ok ?s = page_ok v" "kern_ok ?s = kern_ok v" "procp ?s = Some 1"
    "length (procs ?s) = 64" "procs ?s ! 1 = ex_forker pg" "files ?s = file_zero\<lparr>frefcnt := 1\<rparr> # replicate 63 file_zero"
    by (simp_all add: ex_fork_def page_ok_def kern_ok_def fun_eq_iff)
  have cli: "cli_room 2 ?s" "cli_ok ?s" by (simp_all add: ex_fork_def cli_room_def cli_ok_def)
  have "uvm_inv ?s pg (k # xs)"
    using assms(1) cli(2) eq unfolding uvm_inv_def vm_inv_def kmem_inv_def by simp
  moreover have "kvm_ok ?s" using assms(2) by (simp add: kvm_ok_def ex_fork_def)
  moreover have "PGROUNDUP 0x40000000 = 0x40000000" using unat_PGROUNDUP [of "0x40000000"] by (simp add: word_unat_eq_iff)
  then have "apages KERNEND (KERNEND + 0x2000) = ex_pages" using ex_apages by simp
  moreover have low: "pg_of (0x1FB4 + of_nat j) \<notin> set (k # xs)" if "j < 76" for j
  proof
    assume i: "pg_of (0x1FB4 + of_nat j) \<in> set (k # xs)"
    note D = vm_invD [OF uvm_invD(1) [OF assms(1)]]
    have "page_ok v (pg_of (0x1FB4 + of_nat j))" "kern_ok v" using D(1,8) i by (auto simp: kmem_inv_def)
    then have "unat (0x100000 :: u32) \<le> unat (pg_of (0x1FB4 + of_nat j))" by (simp add: page_ok_def kern_ok_def word_le_nat_alt)
    moreover have "unat (0x1FB4 + of_nat j :: u32) = 8116 + j"
      using that by (simp add: unat_word_ariths unat_of_nat32)
    then have "unat (pg_of (0x1FB4 + of_nat j)) \<le> 8116 + 76" using that by (simp add: unat_pg_of)
    ultimately show False by simp
  qed
  moreover have "refs_ok (files ?s) (ofile (ex_forker pg)) 33"
    by (auto simp: refs_ok_def eq(8) ex_forker_def nth_Cons' split: if_splits)
  moreover have "\<forall>f < 2. unat (frefcnt (files ?s ! f)) + 1 < 2 ^ 32"
    by (auto simp: eq(8) less_2_cases_iff file_zero_def)
  ultimately show ?thesis
    using cli(1) eq assms(3) unfolding can_fork_def eq(7) by (simp add: ex_forker_def)
qed


end
