(* ===== verification/Mix_Locks.thy ===== *)
theory Mix_Locks
  imports Mix_Process
begin

text \<open>
  The locks of \<^verbatim>\<open>kernel/lock.c\<close> under several processes. \<open>Mix_Intr\<close> follows one process through
  \<^verbatim>\<open>acquire\<close>; here the processes take turns, one statement of \<^verbatim>\<open>acquire\<close> and \<^verbatim>\<open>release\<close> at a time. System
  calls enter through a trap gate, so the timer can switch between any two statements outside a
  critical section.
\<close>

section \<open>One statement at a time\<close>

text \<open>
  Where a process is: outside; before the test of the loop in \<^verbatim>\<open>acquire\<close>, before its call of \<^verbatim>\<open>sleep\<close>, in
  the loop of \<^verbatim>\<open>sleep\<close>, before the first and the second assignment; behind \<^verbatim>\<open>acquire\<close>; before the second
  and the third statement of \<^verbatim>\<open>release\<close>.
\<close>

datatype lpc = Out | Test | DoSleep | Asleep | SetLocked | SetOwner | Inside | RelOwner | RelWake

fun lstep :: "lockref \<Rightarrow> lpc \<Rightarrow> kernel \<Rightarrow> (lpc \<times> kernel) res" where
  "lstep l Out s = Inr (Test, s)"
| "lstep l Test s = Inr (if locked (lock_of l s) \<noteq> 0 then DoSleep else SetLocked, s)"
| "lstep l DoSleep s = bnd (sleep_on (ChLock l) s) (\<lambda>s. Inr (Asleep, s))"
| "lstep l Asleep s = bnd (cur s) (\<lambda>p. Inr (if wchan p \<noteq> None then Asleep else Test, s))"
| "lstep l SetLocked s = Inr (SetOwner, set_lock l ((lock_of l s)\<lparr>locked := 1\<rparr>) s)"
| "lstep l SetOwner s = Inr (Inside, set_lock l ((lock_of l s)\<lparr>owner := procp s\<rparr>) s)"
| "lstep l Inside s = Inr (RelOwner, set_lock l ((lock_of l s)\<lparr>locked := 0\<rparr>) s)"
| "lstep l RelOwner s = Inr (RelWake, set_lock l ((lock_of l s)\<lparr>owner := None\<rparr>) s)"
| "lstep l RelWake s = bnd (wakeup (ChLock l) s) (\<lambda>s. Inr (Out, s))"

text \<open>The process \<open>i\<close> is switched to and executes its next statement.\<close>

definition turn :: "lockref \<Rightarrow> nat \<Rightarrow> (nat \<Rightarrow> lpc) \<times> kernel \<Rightarrow> ((nat \<Rightarrow> lpc) \<times> kernel) res" where
  "turn l i c = (case c of (pcs, s) \<Rightarrow>
     bnd (lstep l (pcs i) (s\<lparr>procp := Some i\<rparr>)) (\<lambda>(pc, s). Inr (pcs(i := pc), s)))"

definition lock_valid :: "lockref \<Rightarrow> kernel \<Rightarrow> bool" where
  "lock_valid l s \<longleftrightarrow> (case l of LkIde \<Rightarrow> True | LkInode i \<Rightarrow> i < length (inodes s) | LkBlock i \<Rightarrow> i < length (blocks s))"

definition lock_free :: "lockref \<Rightarrow> kernel \<Rightarrow> bool" where
  "lock_free l s \<longleftrightarrow> lock_valid l s \<and> cli_ok s \<and> locked (lock_of l s) = 0 \<and> (\<forall>p \<in> set (procs s). wchan p = None)"

text \<open>Where a process may be when the others run, if the timer never switches in the kernel.\<close>

definition resting :: "lpc \<Rightarrow> bool" where
  "resting pc \<longleftrightarrow> pc = Out \<or> pc = Asleep \<or> pc = Inside"

inductive lock_reach :: "bool \<Rightarrow> lockref \<Rightarrow> kernel \<Rightarrow> (nat \<Rightarrow> lpc) \<times> kernel \<Rightarrow> bool" for pre l s0 where
  start: "lock_free l s0 \<Longrightarrow> lock_reach pre l s0 (\<lambda>_. Out, s0)"
| step: "lock_reach pre l s0 (pcs, s) \<Longrightarrow> i < length (procs s) \<Longrightarrow> pre \<or> (\<forall>j. j \<noteq> i \<longrightarrow> resting (pcs j))
    \<Longrightarrow> turn l i (pcs, s) = Inr c \<Longrightarrow> lock_reach pre l s0 c"

section \<open>Without preemption\<close>

lemma lock_of_set_lock [simp]: "lock_valid l s \<Longrightarrow> lock_of l (set_lock l k s) = k"
  by (cases l) (simp_all add: lock_of_def set_lock_def lock_valid_def)

lemma set_lock_sel [simp]:
  "procs (set_lock l k s) = procs s" "cli_ok (set_lock l k s) = cli_ok s" "lock_valid l (set_lock l k s) = lock_valid l s"
  by (cases l; simp add: set_lock_def lock_valid_def)+

lemma lock_sel [simp]:
  "lock_of l (s\<lparr>procs := P\<rparr>) = lock_of l s" "lock_of l (s\<lparr>procp := c\<rparr>) = lock_of l s"
  "lock_valid l (s\<lparr>procs := P\<rparr>) = lock_valid l s" "lock_valid l (s\<lparr>procp := c\<rparr>) = lock_valid l s"
  by (cases l; simp add: lock_of_def lock_valid_def)+

lemma sleep_on_eq:
  assumes "cli_ok s" "procp s = Some i"
  shows "sleep_on ch s = Inr (s\<lparr>procs := upd_at i (\<lambda>p. p\<lparr>wchan := Some ch, stat := SLEEP\<rparr>) (procs s)\<rparr>)"
proof -
  have "upd_at i (\<lambda>p. p\<lparr>stat := SLEEP\<rparr>) (upd_at i (\<lambda>p. p\<lparr>wchan := Some ch\<rparr>) P)
      = upd_at i (\<lambda>p. p\<lparr>wchan := Some ch, stat := SLEEP\<rparr>) P" for P :: "proc list"
    by (cases "i < length P") (simp_all add: upd_at_def list_update_beyond)
  then show ?thesis using assms by (simp add: sleep_on_def cur_upd_def popcli_table)
qed

text \<open>
  The invariant: the lock is taken exactly while a process is between the first assignment of \<^verbatim>\<open>acquire\<close>
  and the first of \<^verbatim>\<open>release\<close>, which at most one is; who sleeps on the lock will be woken by another one.
\<close>

definition taken :: "lpc \<Rightarrow> bool" where
  "taken pc \<longleftrightarrow> pc = SetOwner \<or> pc = Inside"

definition releasing :: "lpc \<Rightarrow> bool" where
  "releasing pc \<longleftrightarrow> pc = RelOwner \<or> pc = RelWake"

definition lock_inv :: "lockref \<Rightarrow> (nat \<Rightarrow> lpc) \<Rightarrow> kernel \<Rightarrow> bool" where
  "lock_inv l pcs s \<longleftrightarrow> lock_valid l s \<and> cli_ok s
     \<and> (\<forall>i j. \<not> resting (pcs i) \<longrightarrow> \<not> resting (pcs j) \<longrightarrow> i = j)
     \<and> (\<forall>i j. taken (pcs i) \<longrightarrow> taken (pcs j) \<longrightarrow> i = j)
     \<and> (locked (lock_of l s) \<noteq> 0 \<longleftrightarrow> (\<exists>i. taken (pcs i)))
     \<and> (\<forall>i. pcs i = Inside \<longrightarrow> owner (lock_of l s) = Some i)
     \<and> (\<forall>i. pcs i = SetLocked \<or> releasing (pcs i) \<longrightarrow> locked (lock_of l s) = 0)
     \<and> (\<forall>i. pcs i = DoSleep \<longrightarrow> locked (lock_of l s) \<noteq> 0)
     \<and> (\<forall>i < length (procs s). wchan (procs s ! i) \<noteq> None \<longrightarrow>
          wchan (procs s ! i) = Some (ChLock l) \<and> pcs i = Asleep \<and> (\<exists>j. taken (pcs j) \<or> releasing (pcs j)))"

lemmas pc_defs = resting_def taken_def releasing_def

lemma lock_inv_start: "lock_free l s \<Longrightarrow> lock_inv l (\<lambda>_. Out) s"
  by (auto simp: lock_inv_def lock_free_def pc_defs)

lemma lock_invD:
  assumes "lock_inv l pcs s"
  shows "lock_valid l s" "cli_ok s" "taken (pcs i) \<Longrightarrow> taken (pcs j) \<Longrightarrow> i = j"
    "locked (lock_of l s) \<noteq> 0 \<longleftrightarrow> (\<exists>i. taken (pcs i))" "pcs i = Inside \<Longrightarrow> owner (lock_of l s) = Some i"
    "pcs i = SetLocked \<or> releasing (pcs i) \<Longrightarrow> locked (lock_of l s) = 0" "pcs i = DoSleep \<Longrightarrow> locked (lock_of l s) \<noteq> 0"
    "i < length (procs s) \<Longrightarrow> wchan (procs s ! i) \<noteq> None \<Longrightarrow>
      wchan (procs s ! i) = Some (ChLock l) \<and> pcs i = Asleep \<and> (\<exists>j. taken (pcs j) \<or> releasing (pcs j))"
  using assms unfolding lock_inv_def by blast+

lemma pc_simps [simp]:
  "\<not> taken Out" "\<not> taken Test" "\<not> taken DoSleep" "\<not> taken Asleep" "\<not> taken SetLocked" "taken SetOwner" "taken Inside"
  "\<not> taken RelOwner" "\<not> taken RelWake" "\<not> releasing Out" "\<not> releasing Test" "\<not> releasing DoSleep" "\<not> releasing Asleep"
  "\<not> releasing SetLocked" "\<not> releasing SetOwner" "\<not> releasing Inside" "releasing RelOwner" "releasing RelWake"
  by (simp_all add: pc_defs)

text \<open>
  The invariant as the process \<open>i\<close> sees it while the others rest: \<open>E\<close> is whether another one has the lock.
\<close>

definition lock_view :: "lockref \<Rightarrow> (nat \<Rightarrow> lpc) \<Rightarrow> nat \<Rightarrow> bool \<Rightarrow> lpc \<Rightarrow> kernel \<Rightarrow> bool" where
  "lock_view l pcs i E pc s \<longleftrightarrow> lock_valid l s \<and> cli_ok s \<and> (taken pc \<longrightarrow> \<not> E)
     \<and> (locked (lock_of l s) \<noteq> 0 \<longleftrightarrow> taken pc \<or> E)
     \<and> (pc = Inside \<longrightarrow> owner (lock_of l s) = Some i)
     \<and> (\<forall>j. j \<noteq> i \<longrightarrow> pcs j = Inside \<longrightarrow> owner (lock_of l s) = Some j)
     \<and> (pc = SetLocked \<or> releasing pc \<longrightarrow> locked (lock_of l s) = 0)
     \<and> (pc = DoSleep \<longrightarrow> locked (lock_of l s) \<noteq> 0)
     \<and> (\<forall>j < length (procs s). wchan (procs s ! j) \<noteq> None \<longrightarrow> wchan (procs s ! j) = Some (ChLock l)
          \<and> (if j = i then pc = Asleep else pcs j = Asleep) \<and> (taken pc \<or> releasing pc \<or> E))
     \<and> (\<forall>j. j \<noteq> i \<longrightarrow> pcs j = Inside \<longrightarrow> E)"

lemma lock_inv_view:
  assumes rest: "\<And>j. j \<noteq> i \<Longrightarrow> resting (pcs j)"
    and one: "\<And>j k. j \<noteq> i \<Longrightarrow> k \<noteq> i \<Longrightarrow> taken (pcs j) \<Longrightarrow> taken (pcs k) \<Longrightarrow> j = k"
  defines "E \<equiv> \<exists>j. j \<noteq> i \<and> taken (pcs j)"
  shows "lock_inv l (pcs(i := pc)) s \<longleftrightarrow> lock_view l pcs i E pc s"
proof -
  let ?q = "pcs(i := pc)"
  have nr: "resting (?q j)" if "j \<noteq> i" for j using rest that by simp
  have no: "\<not> releasing (?q j)" "?q j \<noteq> SetLocked" "?q j \<noteq> DoSleep" if "j \<noteq> i" for j
    using nr [OF that] by (auto simp: pc_defs)
  have ex: "(\<exists>j. taken (?q j)) \<longleftrightarrow> taken pc \<or> E" unfolding E_def by (metis fun_upd_apply)
  have rl: "(\<exists>j. taken (?q j) \<or> releasing (?q j)) \<longleftrightarrow> taken pc \<or> releasing pc \<or> E"
    using ex no(1) by (metis fun_upd_same)
  have a: "(\<forall>j k. \<not> resting (?q j) \<longrightarrow> \<not> resting (?q k) \<longrightarrow> j = k) = True" using nr by metis
  have b: "(\<forall>j k. taken (?q j) \<longrightarrow> taken (?q k) \<longrightarrow> j = k) = (taken pc \<longrightarrow> \<not> E)"
    unfolding E_def using one by (metis fun_upd_apply)
  have c: "(\<forall>j. ?q j = Inside \<longrightarrow> owner (lock_of l s) = Some j)
      = ((pc = Inside \<longrightarrow> owner (lock_of l s) = Some i) \<and> (\<forall>j. j \<noteq> i \<longrightarrow> pcs j = Inside \<longrightarrow> owner (lock_of l s) = Some j))"
    by (metis fun_upd_apply)
  have d: "(\<forall>j. ?q j = SetLocked \<or> releasing (?q j) \<longrightarrow> locked (lock_of l s) = 0)
      = (pc = SetLocked \<or> releasing pc \<longrightarrow> locked (lock_of l s) = 0)" using no by (metis fun_upd_same)
  have e: "(\<forall>j. ?q j = DoSleep \<longrightarrow> locked (lock_of l s) \<noteq> 0) = (pc = DoSleep \<longrightarrow> locked (lock_of l s) \<noteq> 0)"
    using no(3) by (metis fun_upd_same)
  have f: "(?q j = Asleep) = (if j = i then pc = Asleep else pcs j = Asleep)" for j by simp
  have g: "(\<forall>j. j \<noteq> i \<longrightarrow> pcs j = Inside \<longrightarrow> E) = True" unfolding E_def by (metis pc_simps(7))
  show ?thesis
    unfolding lock_inv_def lock_view_def ex rl by (simp only: a b c d e f g simp_thms conj_assoc)
qed

text \<open>A step keeps the view.\<close>

lemma lock_view_step:
  assumes v: "lock_view l pcs i E (pcs i) s" and i: "i < length (procs s)"
    and t: "lstep l (pcs i) (s\<lparr>procp := Some i\<rparr>) = Inr (pc, s')"
  shows "lock_view l pcs i E pc s'"
proof -
  have k: "lock_valid l s" "cli_ok s" using v by (simp_all add: lock_view_def)
  show ?thesis
  proof (cases "pcs i")
    case DoSleep
    then have "pc = Asleep" "s' = s\<lparr>procp := Some i, procs := upd_at i (\<lambda>p. p\<lparr>wchan := Some (ChLock l), stat := SLEEP\<rparr>) (procs s)\<rparr>"
      using t k by (auto simp: sleep_on_eq)
    then show ?thesis using v DoSleep i by (auto simp: lock_view_def nth_upd_at)
  next
    case RelWake
    then have "pc = Out" "s' = s\<lparr>procp := Some i, procs := map (wake (ChLock l)) (procs s)\<rparr>"
      using t k by (auto simp: wakeup_eq)
    moreover have "wchan (wake (ChLock l) (procs s ! j)) = None" if "j < length (procs s)" for j
      using v that unfolding lock_view_def wake_def by (cases "wchan (procs s ! j)") auto
    ultimately show ?thesis using v RelWake unfolding lock_view_def by auto
  next
    case Out
    then have "pc = Test" "s' = s\<lparr>procp := Some i\<rparr>" using t by auto
    then show ?thesis using v Out unfolding lock_view_def by auto
  next
    case Test
    then have "pc = (if locked (lock_of l s) \<noteq> 0 then DoSleep else SetLocked)" "s' = s\<lparr>procp := Some i\<rparr>" using t by auto
    then show ?thesis using v Test unfolding lock_view_def by auto
  next
    case Asleep
    then have "pc = (if wchan (procs s ! i) \<noteq> None then Asleep else Test)" "s' = s\<lparr>procp := Some i\<rparr>"
      using t by (auto simp: cur_def)
    then show ?thesis using v Asleep unfolding lock_view_def by auto
  next
    case SetLocked
    then have "pc = SetOwner" "s' = set_lock l ((lock_of l s)\<lparr>locked := 1\<rparr>) (s\<lparr>procp := Some i\<rparr>)" using t by auto
    then show ?thesis using v SetLocked k unfolding lock_view_def by auto
  next
    case SetOwner
    then have "pc = Inside" "s' = set_lock l ((lock_of l s)\<lparr>owner := Some i\<rparr>) (s\<lparr>procp := Some i\<rparr>)" using t by auto
    then show ?thesis using v SetOwner k unfolding lock_view_def by auto
  next
    case Inside
    then have "pc = RelOwner" "s' = set_lock l ((lock_of l s)\<lparr>locked := 0\<rparr>) (s\<lparr>procp := Some i\<rparr>)" using t by auto
    then show ?thesis using v Inside k unfolding lock_view_def by auto
  next
    case RelOwner
    then have "pc = RelWake" "s' = set_lock l ((lock_of l s)\<lparr>owner := None\<rparr>) (s\<lparr>procp := Some i\<rparr>)" using t by auto
    then show ?thesis using v RelOwner k unfolding lock_view_def by auto
  qed
qed

lemma lock_inv_turn:
  assumes inv: "lock_inv l pcs s" and i: "i < length (procs s)" and rest: "\<forall>j. j \<noteq> i \<longrightarrow> resting (pcs j)"
    and t: "turn l i (pcs, s) = Inr (pcs', s')"
  shows "lock_inv l pcs' s'"
proof -
  have r: "resting (pcs j)" if "j \<noteq> i" for j using rest that by blast
  have one: "j = k" if "taken (pcs j)" "taken (pcs k)" for j k using lock_invD(3) [OF inv that] .
  note V = lock_inv_view [where pcs = pcs and i = i, OF r one]
  obtain pc where pc: "lstep l (pcs i) (s\<lparr>procp := Some i\<rparr>) = Inr (pc, s')" "pcs' = pcs(i := pc)"
    using t by (auto simp: turn_def elim!: bndE)
  have "lock_inv l (pcs(i := pcs i)) s" using inv by simp
  then have "lock_view l pcs i (\<exists>j. j \<noteq> i \<and> taken (pcs j)) (pcs i) s" using V by blast
  from lock_view_step [OF this i pc(1)] show ?thesis unfolding pc(2) using V by blast
qed

text \<open>At most one process has the lock, as its owner, and who sleeps on it has someone to wake it.\<close>

definition lock_safe :: "lockref \<Rightarrow> (nat \<Rightarrow> lpc) \<Rightarrow> kernel \<Rightarrow> bool" where
  "lock_safe l pcs s \<longleftrightarrow> (\<forall>i j. pcs i = Inside \<longrightarrow> pcs j = Inside \<longrightarrow> i = j)
     \<and> (\<forall>i. pcs i = Inside \<longrightarrow> holding l (s\<lparr>procp := Some i\<rparr>))
     \<and> (\<forall>i < length (procs s). wchan (procs s ! i) = Some (ChLock l) \<longrightarrow>
          (\<exists>j. pcs j \<in> {SetOwner, Inside, RelOwner, RelWake}))"

lemma lock_inv_safe: "lock_inv l pcs s \<Longrightarrow> lock_safe l pcs s"
proof -
  assume inv: "lock_inv l pcs s"
  note D = lock_invD [OF inv]
  have "i = j" if "pcs i = Inside" "pcs j = Inside" for i j using D(3) [of i j] that by simp
  moreover have "holding l (s\<lparr>procp := Some i\<rparr>)" if "pcs i = Inside" for i
    using D(4) D(5) [OF that] that by (auto simp: holding_def intro: exI [of _ i])
  moreover have "\<exists>j. pcs j \<in> {SetOwner, Inside, RelOwner, RelWake}"
    if "i < length (procs s)" "wchan (procs s ! i) = Some (ChLock l)" for i
    using D(8) [OF that(1)] that(2) by (auto simp: pc_defs)
  ultimately show ?thesis unfolding lock_safe_def by blast
qed

lemma lock_reach_inv: "lock_reach False l s0 c \<Longrightarrow> lock_inv l (fst c) (snd c)"
proof (induction rule: lock_reach.induct)
  case start
  then show ?case by (simp add: lock_inv_start)
next
  case (step pcs s i c)
  then show ?case using lock_inv_turn [of l pcs s i "fst c" "snd c"] by simp
qed

section \<open>With preemption\<close>

text \<open>A schedule: the processes whose turn it is, one after the other.\<close>

fun turns :: "lockref \<Rightarrow> nat list \<Rightarrow> (nat \<Rightarrow> lpc) \<times> kernel \<Rightarrow> ((nat \<Rightarrow> lpc) \<times> kernel) res" where
  "turns l [] c = Inr c"
| "turns l (i # is) c = bnd (turn l i c) (turns l is)"

lemma turn_length: "turn l i (pcs, s) = Inr (pcs', s') \<Longrightarrow> length (procs s') = length (procs s)"
  by (cases "pcs i") (auto simp: turn_def sleep_on_def wakeup_def cur_upd_def cur_def Let_def popcli_def sti_def
    split: if_splits option.splits elim!: bndE)

lemma turns_reach:
  "lock_reach True l s0 c \<Longrightarrow> turns l is c = Inr c' \<Longrightarrow> set is \<subseteq> {..<length (procs (snd c))} \<Longrightarrow> lock_reach True l s0 c'"
proof (induction "is" arbitrary: c)
  case (Cons i js)
  obtain pcs s where c: "c = (pcs, s)" by (cases c)
  obtain d where d: "turn l i c = Inr d" "turns l js d = Inr c'" using Cons.prems(2) by (auto elim: bndE)
  have "lock_reach True l s0 d" using lock_reach.step [of True l s0 pcs s i d] Cons.prems(1,3) d(1) c by simp
  moreover have "length (procs (snd d)) = length (procs s)" using turn_length d(1) c by (cases d) auto
  ultimately show ?case using Cons.IH [of d] d(2) Cons.prems(3) c by simp
qed simp

lemma turns_alone:
  "lock_reach pre l s0 (pcs, s) \<Longrightarrow> turns l js (pcs, s) = Inr c \<Longrightarrow> i < length (procs s)
    \<Longrightarrow> \<forall>j. j \<noteq> i \<longrightarrow> resting (pcs j) \<Longrightarrow> set js \<subseteq> {i} \<Longrightarrow> lock_reach pre l s0 c"
proof (induction js arbitrary: pcs s)
  case (Cons k js)
  obtain pcs' s' where d: "turn l i (pcs, s) = Inr (pcs', s')" "turns l js (pcs', s') = Inr c"
    using Cons.prems(2,5) by (auto elim: bndE)
  have "lock_reach pre l s0 (pcs', s')" using lock_reach.step [OF Cons.prems(1,3) _ d(1)] Cons.prems(4) by simp
  moreover have "pcs' j = pcs j" if "j \<noteq> i" for j using d(1) that by (auto simp: turn_def elim!: bndE)
  ultimately show ?case using Cons.IH d(2) turn_length [OF d(1)] Cons.prems(3-5) by simp
qed simp

definition ex_race :: kernel where
  "ex_race = boot_state\<lparr>procs := ex_proc RUN 0 # ex_proc RUN 1 # replicate 62 proc_zero\<rparr>"

lemma ex_race_free: "lock_free LkIde ex_race"
  by (auto simp: lock_free_def lock_valid_def ex_race_def cli_ok_def lock_of_def lock_zero_def ex_proc_def proc_zero_def)

lemma race_two:
  "\<exists>pcs s. turns LkIde [0, 0, 1, 1, 0, 0, 1, 1] (\<lambda>_. Out, ex_race) = Inr (pcs, s) \<and> pcs 0 = Inside \<and> pcs 1 = Inside"
  by (simp add: turn_def lock_of_def set_lock_def ex_race_def lock_zero_def)

lemma race_lost:
  "\<exists>pcs s. turns LkIde [0, 0, 0, 0, 1, 1, 0, 0, 0, 1] (\<lambda>_. Out, ex_race) = Inr (pcs, s) \<and> pcs 1 = Asleep \<and> (\<forall>j. j \<noteq> 1 \<longrightarrow> pcs j = Out)
    \<and> locked (lock_of LkIde s) = 0 \<and> wchan (procs s ! 1) = Some (ChLock LkIde)"
  by (simp add: turn_def lock_of_def set_lock_def ex_race_def lock_zero_def wakeup_eq sleep_on_eq cli_ok_def
    ex_proc_def proc_zero_def wake_def map_replicate upd_at_def)

lemma race_rests:
  "\<exists>c. turns LkIde [0, 0, 0, 0] (\<lambda>_. Out, ex_race) = Inr c \<and> fst c 0 = Inside \<and> (\<forall>j. j \<noteq> 0 \<longrightarrow> fst c j = Out)
    \<and> length (procs (snd c)) = 64 \<and> (\<exists>pcs s. turns LkIde [1, 1, 1] c = Inr (pcs, s) \<and> pcs 0 = Inside \<and> pcs 1 = Asleep)"
  by (simp add: turn_def lock_of_def set_lock_def ex_race_def lock_zero_def sleep_on_eq cli_ok_def)

section \<open>Properties\<close>

text \<open>
  C5: the locks. As long as the timer never switches between two statements of \<^verbatim>\<open>acquire\<close> and \<^verbatim>\<open>release\<close>, at
  most one process is behind \<^verbatim>\<open>acquire\<close>, it is the owner, and every process that sleeps on the lock has one
  before it that will call \<^verbatim>\<open>wakeup\<close>. The kernel does not exclude such a switch, and then two processes can
  have the lock at once, and one can sleep on a free lock with everybody else outside.
\<close>

theorem lock_excludes:
  assumes "lock_reach False l s0 (pcs, s)"
  shows "lock_safe l pcs s
    \<and> (\<exists>pcs s. lock_reach True LkIde ex_race (pcs, s) \<and> pcs 0 = Inside \<and> pcs 1 = Inside)
    \<and> (\<exists>pcs s. lock_reach True LkIde ex_race (pcs, s) \<and> pcs 1 = Asleep \<and> (\<forall>j. j \<noteq> 1 \<longrightarrow> pcs j = Out)
         \<and> locked (lock_of LkIde s) = 0 \<and> wchan (procs s ! 1) = Some (ChLock LkIde))"
proof (intro conjI)
  show "lock_safe l pcs s" using lock_reach_inv [OF assms] by (simp add: lock_inv_safe)
  note st = lock_reach.start [OF ex_race_free, of True]
  have two: "length (procs ex_race) = 64" by (simp add: ex_race_def)
  have run: "lock_reach True LkIde ex_race (pcs, s)"
    if "turns LkIde is (\<lambda>_. Out, ex_race) = Inr (pcs, s)" "set is \<subseteq> {0, 1}" for "is" pcs s
    by (rule turns_reach [OF st that(1)]) (use that(2) two in auto)
  obtain pcs s where r: "turns LkIde [0, 0, 1, 1, 0, 0, 1, 1] (\<lambda>_. Out, ex_race) = Inr (pcs, s)" "pcs 0 = Inside" "pcs 1 = Inside"
    using race_two by blast
  have "lock_reach True LkIde ex_race (pcs, s)" using r(1) by (rule run) simp
  with r(2,3) show "\<exists>pcs s. lock_reach True LkIde ex_race (pcs, s) \<and> pcs 0 = Inside \<and> pcs 1 = Inside"
    by (intro exI [of _ pcs] exI [of _ s]) simp
  obtain pcs s where r: "turns LkIde [0, 0, 0, 0, 1, 1, 0, 0, 0, 1] (\<lambda>_. Out, ex_race) = Inr (pcs, s)" "pcs 1 = Asleep"
      "\<forall>j. j \<noteq> 1 \<longrightarrow> pcs j = Out" "locked (lock_of LkIde s) = 0" "wchan (procs s ! 1) = Some (ChLock LkIde)"
    using race_lost by blast
  have "lock_reach True LkIde ex_race (pcs, s)" using r(1) by (rule run) simp
  with r(2-5) show "\<exists>pcs s. lock_reach True LkIde ex_race (pcs, s) \<and> pcs 1 = Asleep \<and> (\<forall>j. j \<noteq> 1 \<longrightarrow> pcs j = Out)
      \<and> locked (lock_of LkIde s) = 0 \<and> wchan (procs s ! 1) = Some (ChLock LkIde)"
    by (intro exI [of _ pcs] exI [of _ s]) simp
qed

text \<open>Process 0 takes the lock, process 1 finds it taken and sleeps, both without a switch in between.\<close>

theorem lock_excludes_witness:
  "\<exists>pcs s. lock_reach False LkIde ex_race (pcs, s) \<and> pcs 0 = Inside \<and> pcs 1 = Asleep \<and> lock_safe LkIde pcs s"
proof -
  obtain c where c: "turns LkIde [0, 0, 0, 0] (\<lambda>_. Out, ex_race) = Inr c" "fst c 0 = Inside" "\<forall>j. j \<noteq> 0 \<longrightarrow> fst c j = Out"
      "length (procs (snd c)) = 64"
      "\<exists>pcs s. turns LkIde [1, 1, 1] c = Inr (pcs, s) \<and> pcs 0 = Inside \<and> pcs 1 = Asleep"
    using race_rests by blast
  have "length (procs ex_race) = 64" by (simp add: ex_race_def)
  then have r: "lock_reach False LkIde ex_race c"
    using turns_alone [OF lock_reach.start [OF ex_race_free] c(1)] by (simp add: resting_def)
  obtain pcs s where s: "turns LkIde [1, 1, 1] c = Inr (pcs, s)" "pcs 0 = Inside" "pcs 1 = Asleep" using c(5) by blast
  have "resting (fst c j)" if "j \<noteq> 1" for j using c(2,3) by (cases "j = 0") (simp_all add: resting_def)
  then have "lock_reach False LkIde ex_race (pcs, s)"
    using turns_alone [of False LkIde ex_race "fst c" "snd c" "[1, 1, 1]" _ 1] r s(1) c(4) by simp
  then show ?thesis using lock_excludes s(2,3) by blast
qed

end
