(* ===== verification/Mix_Load.thy ===== *)
theory Mix_Load
  imports Mix_Fork Mix_Cache
begin

text \<open>
  How \<^verbatim>\<open>sys_execv\<close> brings a segment of a program into an address space: \<^verbatim>\<open>allocuvm\<close> adds its pages,
  \<^verbatim>\<open>loaduvm\<close> reads the file into their frames page by page, \<^verbatim>\<open>copyout\<close> clears the rest.
\<close>

section \<open>User memory\<close>

text \<open>What a program reads at an address of the user part; \<open>overlay a bs f\<close> is \<open>f\<close> with \<open>bs\<close> from \<open>a\<close> on.\<close>

definition user_mem :: "memory \<Rightarrow> u32 \<Rightarrow> u32 \<Rightarrow> u8 option" where
  "user_mem m pg v = (if pg_of v \<in> upages m pg then vread m pg v else None)"

definition overlay :: "u32 \<Rightarrow> u8 list \<Rightarrow> (u32 \<Rightarrow> u8 option) \<Rightarrow> u32 \<Rightarrow> u8 option" where
  "overlay a bs f = (\<lambda>v. if unat (v - a) < length bs then Some (bs ! unat (v - a)) else f v)"

lemma overlay_Nil [simp]: "overlay a [] f = f"
  by (simp add: overlay_def)

lemma unat_sub_of_nat:
  fixes w :: u32
  assumes "n < 2 ^ 32"
  shows "unat (w - of_nat n) = (if n \<le> unat w then unat w - n else unat w + 2 ^ 32 - n)"
  using assms unat_of_nat32 [of n] by (simp add: unat_sub_if')

lemma overlay_append:
  assumes "length xs + length ys \<le> 2 ^ 32"
  shows "overlay (a + of_nat (length xs)) ys (overlay a xs f) = overlay a (xs @ ys) f"
proof (cases "ys = []")
  case False
  then have n: "length xs < 2 ^ 32" using assms by (cases ys) simp_all
  show ?thesis
  proof
    fix v
    have "v - (a + of_nat (length xs)) = (v - a) - of_nat (length xs)" by simp
    then have u: "unat (v - (a + of_nat (length xs)))
        = (if length xs \<le> unat (v - a) then unat (v - a) - length xs else unat (v - a) + 2 ^ 32 - length xs)"
      using unat_sub_of_nat [OF n] by metis
    show "overlay (a + of_nat (length xs)) ys (overlay a xs f) v = overlay a (xs @ ys) f v"
    proof (cases "length xs \<le> unat (v - a)")
      case True
      then show ?thesis unfolding overlay_def using u by (auto simp: nth_append)
    next
      case False
      then have "\<not> unat (v - (a + of_nat (length xs))) < length ys" using u assms by simp
      then show ?thesis unfolding overlay_def using False by (auto simp: nth_append)
    qed
  qed
qed simp

lemma page_plus_offset: "pg_of v + (v AND 0xFFF) = v"
proof -
  have o: "unat (v AND 0xFFF) = unat v mod 4096" using unat_PTE_FLAGS [of v] by (simp add: PTE_FLAGS_def)
  have "unat (pg_of v) + unat (v AND 0xFFF) = unat v" unfolding unat_pg_of o by simp
  then show ?thesis using unat32_lt [of v] by (simp add: word_unat_eq_iff unat_word_ariths)
qed

lemma near_page:
  assumes "pgal p" and "unat (x - (p + d)) < n" and "unat d + n \<le> 4096"
  shows "pg_of x = p"
proof -
  have h: "unat (x - (p + d)) + unat d < 4096" using assms(2,3) by simp
  then have "unat ((x - (p + d)) + of_nat (unat d)) = unat (x - (p + d)) + unat d" by (intro unat_add_small) simp
  with h have "unat (x - p) < 4096" by simp
  then show ?thesis using pg_of_iff [OF assms(1)] by (simp add: word_less_nat_alt)
qed

text \<open>Writing within the pages of an address space, with every mapping kept.\<close>

definition inside :: "u32 \<Rightarrow> memory \<Rightarrow> memory \<Rightarrow> bool" where
  "inside pg m m' \<longleftrightarrow> mem_frame (owned m pg) m m' \<and> pte_at m' pg = pte_at m pg \<and> vm_pages m' pg = vm_pages m pg
     \<and> pres m' pg = pres m pg"

lemma inside_refl [simp]: "inside pg m m"
  by (simp add: inside_def)

lemma insideD:
  assumes "inside pg m m'"
  shows "upages m' pg = upages m pg" "frame m' pg = frame m pg" "owned m' pg = owned m pg" "mem_frame (owned m pg) m m'"
    "pte_at m' pg = pte_at m pg" "pres m' pg = pres m pg" "vm_pages m' pg = vm_pages m pg"
  using assms by (simp_all add: inside_def upages_def frame_def owned_def fun_eq_iff)

lemma inside_trans: "inside pg m m' \<Longrightarrow> inside pg m' m'' \<Longrightarrow> inside pg m m''"
  using insideD(3) [of pg m m'] mem_frame_trans by (simp add: inside_def) blast

lemma store_user:
  assumes inv: "uvm_inv s pg xs" and v: "pg_of v \<in> upages (mem s) pg" and l: "unat (v AND 0xFFF) + length bs \<le> 4096"
    and m: "m = store_bytes (frame (mem s) pg (pg_of v) OR (v AND 0xFFF)) bs (mem s)"
  shows "uvm_inv (s\<lparr>mem := m\<rparr>) pg xs \<and> inside pg (mem s) m \<and> user_mem m pg = overlay v bs (user_mem (mem s) pg)"
proof -
  note U = uvm_invD [OF inv]
  let ?fr = "frame (mem s) pg" and ?d = "v AND 0xFFF"
  let ?p = "?fr (pg_of v)"
  have al: "pgal (?fr q)" if "q \<in> upages (mem s) pg" for q using U(3) [OF that] by (rule page_ok_pgal)
  have a: "?p OR ?d = ?p + ?d" using page_offset(3) [OF al [OF v]] by simp
  have st: "m x = (if unat (x - (?p + ?d)) < length bs then bs ! unat (x - (?p + ?d)) else mem s x)" for x
    unfolding m a by (rule store_bytes_eq) (use l in simp)
  have f: "mem_frame {?p} (mem s) m"
    unfolding mem_frame_def using st near_page [OF al [OF v] _ l] by auto
  have "{?p} \<inter> vm_pages (mem s) pg = {}" "{?p} \<inter> set xs = {}" using U(4,5) v by auto
  note F = uvm_frame [OF inv f this]
  have "user_mem m pg w = overlay v bs (user_mem (mem s) pg) w" for w
  proof (cases "pg_of w \<in> upages (mem s) pg")
    case False
    have "unat (w - v) < length bs \<Longrightarrow> pg_of w = pg_of v"
      using near_page [of "pg_of v" w ?d, OF _ _ l] by (simp add: page_plus_offset)
    then show ?thesis using False v by (auto simp: user_mem_def overlay_def F(2))
  next
    case True
    let ?b = "?fr (pg_of w) + (w AND 0xFFF)"
    have b: "?fr (pg_of w) OR (w AND 0xFFF) = ?b" using page_offset(3) [OF al [OF True]] by simp
    have pb: "pg_of ?b = ?fr (pg_of w)" using page_offset(1) [OF al [OF True], of w] b by simp
    have r: "user_mem m pg w = Some (m ?b)" "user_mem (mem s) pg w = Some (mem s ?b)"
      using True vread_page [of "pg_of w" m pg w] vread_page [of "pg_of w" "mem s" pg w] b by (simp_all add: user_mem_def F)
    show ?thesis
    proof (cases "pg_of w = pg_of v")
      case same: True
      have "?b - (?p + ?d) = (pg_of w + (w AND 0xFFF)) - (pg_of v + ?d)" by (simp add: same)
      also have "\<dots> = w - v" by (simp only: page_plus_offset)
      finally show ?thesis using r st [of ?b] by (simp add: overlay_def)
    next
      case False
      then have "?fr (pg_of w) \<noteq> ?p" using U(2) True v by (auto dest: inj_onD)
      then have "m ?b = mem s ?b" using mem_frameD [OF f, of ?b] pb by simp
      moreover have "\<not> unat (w - v) < length bs"
        using near_page [of "pg_of v" w ?d, OF _ _ l] False by (auto simp: page_plus_offset)
      ultimately show ?thesis using r by (simp add: overlay_def)
    qed
  qed
  moreover have "mem_frame (owned (mem s) pg) (mem s) m" using f by (rule mem_frame_mono) (use v in \<open>simp add: owned_def\<close>)
  ultimately show ?thesis using F by (auto simp: inside_def)
qed

section \<open>Walking to a page that is there\<close>

lemma walk_slot:
  assumes inv: "vm_inv s pg xs" and v: "present (pte_at (mem s) pg v)"
  shows "walkpgdir pg v False s = Inr (slot (tbl (mem s) pg (dx v)) (tx v), s)" "dx v \<in> pres (mem s) pg"
    "load32 (mem s) (slot (tbl (mem s) pg (dx v)) (tx v)) = pte_at (mem s) pg v" "slot (tbl (mem s) pg (dx v)) (tx v) \<noteq> 0"
proof -
  note D = vm_invD [OF inv]
  have e: "present (ent (mem s) pg (dx v))" using v by (auto simp: pte_at_ent split: if_splits)
  then show d: "dx v \<in> pres (mem s) pg" by (simp add: pres_def)
  have "page_ok s (tbl (mem s) pg (dx v))" using D(11) tbl_in_tables [OF d] by blast
  then show "slot (tbl (mem s) pg (dx v)) (tx v) \<noteq> 0" using page_ok_not_0 [OF D(8)] page_ok_pgal by (intro slot_not_0) auto
  show "walkpgdir pg v False s = Inr (slot (tbl (mem s) pg (dx v)) (tx v), s)"
    "load32 (mem s) (slot (tbl (mem s) pg (dx v)) (tx v)) = pte_at (mem s) pg v"
    using e D(6) by (simp_all add: walkpgdir_ent tbl_def pte_at_ent ent_def)
qed

lemma walk_present:
  assumes "vm_inv s pg xs" and "present (pte_at (mem s) pg v)"
  obtains p where "walkpgdir pg v False s = Inr (p, s)" "p \<noteq> 0" "load32 (mem s) p = pte_at (mem s) pg v"
  using walk_slot [OF assms] that by blast

lemma walk_user:
  assumes inv: "uvm_inv s pg xs" and v: "pg_of v \<in> upages (mem s) pg"
  obtains p where "walkpgdir pg v False s = Inr (p, s)" "p \<noteq> 0" "load32 (mem s) p AND 1 \<noteq> 0"
    "PTE_ADDR (load32 (mem s) p) = frame (mem s) pg (pg_of v)" "frame (mem s) pg (pg_of v) \<noteq> 0"
proof -
  have e: "pte_at (mem s) pg v = pte_at (mem s) pg (pg_of v)" by (rule pte_at_page) (simp add: pg_of_pgal)
  then have "present (pte_at (mem s) pg v)" using v by (simp add: upages_def)
  with uvm_invD(1) [OF inv] obtain p where
    "walkpgdir pg v False s = Inr (p, s)" "p \<noteq> 0" "load32 (mem s) p = pte_at (mem s) pg v" by (rule walk_present)
  moreover have "frame (mem s) pg (pg_of v) \<noteq> 0"
    using uvm_invD(3) [OF inv v] page_ok_not_0 vm_invD(8) [OF uvm_invD(1) [OF inv]] by blast
  ultimately show thesis using that \<open>present _\<close> e by (simp add: frame_def present_def)
qed

section \<open>What loading changes\<close>

definition loaded_only :: "kernel \<Rightarrow> kernel \<Rightarrow> bool" where
  "loaded_only s t \<longleftrightarrow> (\<exists>m r B P L K. t = s\<lparr>mem := m, coremap := r, blocks := B, pending := P, outlog := L, idelock := K\<rparr>)"

lemma loaded_onlyI:
  "t = s\<lparr>mem := m, coremap := r, blocks := B, pending := P, outlog := L, idelock := K\<rparr> \<Longrightarrow> loaded_only s t"
  unfolding loaded_only_def by blast

lemma loaded_only_mem_only: "mem_only s t \<Longrightarrow> loaded_only s t"
proof -
  assume "mem_only s t"
  then obtain m r where "t = s\<lparr>mem := m, coremap := r\<rparr>" by (auto simp: mem_only_def)
  then have "t = s\<lparr>mem := m, coremap := r, blocks := blocks s, pending := pending s, outlog := outlog s, idelock := idelock s\<rparr>"
    by (cases s) simp
  then show ?thesis by (rule loaded_onlyI)
qed

lemma loaded_only_read: "read_only_mem m s t \<Longrightarrow> loaded_only s t"
proof -
  assume "read_only_mem m s t"
  then obtain B P L K where "t = s\<lparr>mem := m, blocks := B, pending := P, outlog := L, idelock := K\<rparr>"
    by (auto simp: read_only_mem_def disk_only_def)
  then have "t = s\<lparr>mem := m, coremap := coremap s, blocks := B, pending := P, outlog := L, idelock := K\<rparr>" by (cases s) simp
  then show ?thesis by (rule loaded_onlyI)
qed

lemma loaded_only_trans: "loaded_only s t \<Longrightarrow> loaded_only t u \<Longrightarrow> loaded_only s u"
proof -
  assume "loaded_only s t" "loaded_only t u"
  then obtain m r B P L K m' r' B' P' L' K' where
    "t = s\<lparr>mem := m, coremap := r, blocks := B, pending := P, outlog := L, idelock := K\<rparr>"
    "u = t\<lparr>mem := m', coremap := r', blocks := B', pending := P', outlog := L', idelock := K'\<rparr>"
    unfolding loaded_only_def by blast
  then have "u = s\<lparr>mem := m', coremap := r', blocks := B', pending := P', outlog := L', idelock := K'\<rparr>" by (cases s) simp
  then show ?thesis by (rule loaded_onlyI)
qed

lemma loaded_only_sel:
  assumes "loaded_only s t"
  shows "inodes t = inodes s \<and> drive t = drive s \<and> procp t = procp s \<and> procs t = procs s \<and> files t = files s
    \<and> cr3 t = cr3 s \<and> kmaps t = kmaps s \<and> con_ok t = con_ok s"
proof -
  obtain m r B P L K where "t = s\<lparr>mem := m, coremap := r, blocks := B, pending := P, outlog := L, idelock := K\<rparr>"
    using assms unfolding loaded_only_def by blast
  then show ?thesis by (simp add: con_ok_def)
qed

lemma uvm_inv_disk: "disk_only s t \<Longrightarrow> uvm_inv t pg xs = uvm_inv s pg xs"
proof -
  assume "disk_only s t"
  then obtain B P L K where t: "t = s\<lparr>blocks := B, pending := P, outlog := L, idelock := K\<rparr>"
    unfolding disk_only_def by blast
  have "page_ok t = page_ok s" "kmem_inv t xs = kmem_inv s xs" "mem t = mem s"
    by (simp_all add: t kmem_inv_def page_ok_def kern_ok_def cli_ok_def fun_eq_iff)
  then show ?thesis by (simp add: uvm_inv_def vm_inv_def)
qed

section \<open>Reading a page\<close>

text \<open>A file, locked by the process, that \<^verbatim>\<open>readi\<close> can read.\<close>

definition readable :: "nat \<Rightarrow> kernel \<Rightarrow> bool" where
  "readable i s \<longleftrightarrow> holding (LkInode i) s \<and> itype (inodes s ! i) \<noteq> T_DEV \<and> sectors_ok (drive s) (inodes s ! i)
     \<and> unat (isize (inodes s ! i)) \<le> 124 * 512"

lemma readable_same: "loaded_only s t \<Longrightarrow> readable i t = readable i s"
  using loaded_only_sel [of s t] by (simp add: readable_def holding_def lock_of_def)

lemma sectors_page: "r \<le> 4096 \<Longrightarrow> sectors_for off r \<le> 9"
  using mod_512 [of off]
  by (auto simp: sectors_for_def intro!: less_Suc_eq_le [THEN iffD1] div_less_iff_less_mult [THEN iffD2])

lemma readi_page:
  assumes inv: "uvm_inv s pg xs" and v: "v \<in> upages (mem s) pg" and solo: "solo c (9 + k) s" and rd: "readable i s"
    and sz: "0 < unat sz" "unat sz \<le> 4096" "unat off + unat sz \<le> unat (isize (inodes s ! i))"
  shows "\<exists>t. readi i (Phys (frame (mem s) pg v)) off sz s = Inr (int (unat sz), t) \<and> loaded_only s t \<and> solo c k t
    \<and> uvm_inv t pg xs \<and> inside pg (mem s) (mem t)
    \<and> user_mem (mem t) pg = overlay v (file_part (drive s) (inodes s ! i) (unat off) (unat sz)) (user_mem (mem s) pg)"
proof -
  note R = rd [unfolded readable_def]
  let ?bs = "file_part (drive s) (inodes s ! i) (unat off) (unat sz)"
  have sec: "sectors_for (unat off) (unat sz) \<le> 9" by (rule sectors_page [OF sz(2)])
  have n: "unat sz = min (unat sz) (unat (isize (inodes s ! i)) - unat off)" using sz by simp
  obtain t where t: "readi i (Phys (frame (mem s) pg v)) off sz s = Inr (int (unat sz), t)"
      "solo c (9 + k - sectors_for (unat off) (unat sz)) t" "read_only_mem (store_bytes (frame (mem s) pg v) ?bs (mem s)) s t"
    using readi_frame [OF solo _ _ _ _ _ _ _ n] R sz sec by auto
  have p: "pg_of v = v" "v AND 0xFFF = 0" using upages_pgal [OF v] page_plus_offset [of v] by auto
  let ?m = "store_bytes (frame (mem s) pg v) ?bs (mem s)"
  have S: "uvm_inv (s\<lparr>mem := ?m\<rparr>) pg xs" "inside pg (mem s) ?m" "user_mem ?m pg = overlay v ?bs (user_mem (mem s) pg)"
    using store_user [OF inv, of v ?bs ?m] v sz(2) p by simp_all
  have d: "disk_only (s\<lparr>mem := ?m\<rparr>) t" using t(3) by (simp add: read_only_mem_def)
  have m: "mem t = ?m" using disk_only_sel [OF d] by simp
  have "solo c k t" using t(2) by (rule solo_fewer) (use sec in simp)
  moreover have "uvm_inv t pg xs" using S(1) by (simp add: uvm_inv_disk [OF d])
  ultimately show ?thesis using t(1) loaded_only_read [OF t(3)] S(2,3) m by auto
qed

section \<open>The loops\<close>

text \<open>Every address of the range lies on a user page.\<close>

definition range_mapped :: "memory \<Rightarrow> u32 \<Rightarrow> u32 \<Rightarrow> nat \<Rightarrow> bool" where
  "range_mapped m pg va k \<longleftrightarrow> (\<forall>d < k. pg_of (va + of_nat d) \<in> upages m pg)"

lemma pgal_offset: "pgal p \<Longrightarrow> p AND 0xFFF = 0"
  using page_plus_offset [of p] by (simp add: pg_of_pgal)

lemma loaduvm_loop_reads:
  assumes "uvm_inv s pg xs" and "range_mapped (mem s) pg va (unat sz)" and "pgal va" and "pgal j"
    and "solo c (9 * n + k) s" and "readable i s" and "unat off + unat sz \<le> unat (isize (inodes s ! i))"
    and "unat va + unat sz < 2 ^ 32" and "unat sz \<le> unat j + 4096 * n" and "n \<le> N"
  shows "\<exists>t. loaduvm_loop (Suc N) pg va i off sz j s = Inr (0, t) \<and> loaded_only s t \<and> solo c k t
    \<and> uvm_inv t pg xs \<and> inside pg (mem s) (mem t)
    \<and> user_mem (mem t) pg
        = overlay (va + j) (file_part (drive s) (inodes s ! i) (unat off + unat j) (unat sz - unat j)) (user_mem (mem s) pg)"
  using assms
proof (induction n arbitrary: N j s)
  case (0 N j s)
  then have "\<not> j < sz" "solo c k s" by (simp_all add: word_less_nat_alt)
  then show ?case using 0 by (auto simp: word_less_nat_alt file_part_def loaded_only_mem_only intro!: exI [of _ s])
next
  case (Suc n N j s)
  show ?case
  proof (cases "j < sz")
    case False
    then have "unat sz - unat j = 0" by (simp add: word_less_nat_alt)
    moreover have "solo c k s" using Suc.prems(5) by (rule solo_fewer) simp
    ultimately show ?thesis using False Suc.prems(1) by (intro exI [of _ s]) (simp add: file_part_def loaded_only_mem_only)
  next
    case True
    then have js: "unat j < unat sz" by (simp add: word_less_nat_alt)
    have big: "unat (isize (inodes s ! i)) \<le> 124 * 512" using Suc.prems(6) by (simp add: readable_def)
    let ?n = "if sz - j < PAGESIZE then sz - j else PAGESIZE"
    have n: "unat ?n = min (unat sz - unat j) 4096"
      using True by (auto simp: word_less_nat_alt unat_sub word_le_nat_alt)
    have w: "unat (va + j) = unat va + unat j" "unat (off + j) = unat off + unat j" "unat (j + 0x1000) = unat j + 4096"
      using unat_add_small [of va "unat j"] unat_add_small [of off "unat j"] unat_add_small [of j 4096]
        js Suc.prems(7,8) big by simp_all
    have al: "pgal (va + j)" "pgal (j + 0x1000)" using Suc.prems(3,4) w unfolding pgal_def by simp_all
    have v: "va + j \<in> upages (mem s) pg"
      using Suc.prems(2) js al(1) by (auto simp: range_mapped_def pg_of_pgal dest!: spec [of _ "unat j"])
    have pv: "pg_of (va + j) = va + j" using al(1) by (rule pg_of_pgal)
    obtain p where p: "walkpgdir pg (va + j) False s = Inr (p, s)" "p \<noteq> 0"
        "PTE_ADDR (load32 (mem s) p) = frame (mem s) pg (va + j)" "frame (mem s) pg (va + j) \<noteq> 0"
      using walk_user [OF Suc.prems(1), of "va + j"] v unfolding pv by blast
    have so: "solo c (9 + (9 * n + k)) s" using Suc.prems(5) by (simp add: add.assoc)
    have r: "0 < unat ?n" "unat ?n \<le> 4096" "unat (off + j) + unat ?n \<le> unat (isize (inodes s ! i))"
      unfolding n w using js Suc.prems(7) by simp_all
    obtain t where t: "readi i (Phys (frame (mem s) pg (va + j))) (off + j) ?n s = Inr (int (unat ?n), t)"
        "loaded_only s t" "solo c (9 * n + k) t" "uvm_inv t pg xs" "inside pg (mem s) (mem t)"
        "user_mem (mem t) pg = overlay (va + j) (file_part (drive s) (inodes s ! i) (unat off + unat j) (unat ?n))
           (user_mem (mem s) pg)"
      using readi_page [OF Suc.prems(1) v so Suc.prems(6) r] w(2) by auto
    have "unat ?n < 2 ^ 31" using r(2) by simp
    then have sn: "sint ?n = int (unat ?n)" by (rule sint_small)
    have step: "loaduvm_loop (Suc N) pg va i off sz j s = loaduvm_loop N pg va i off sz (j + PAGESIZE) t"
      using True p t(1) sn by (simp add: Let_def)
    obtain N' where N: "N = Suc N'" using Suc.prems(10) by (cases N) simp_all
    note L = loaded_only_sel [OF t(2)]
    have "\<exists>u. loaduvm_loop (Suc N') pg va i off sz (j + 0x1000) t = Inr (0, u) \<and> loaded_only t u \<and> solo c k u
      \<and> uvm_inv u pg xs \<and> inside pg (mem t) (mem u)
      \<and> user_mem (mem u) pg = overlay (va + (j + 0x1000))
          (file_part (drive t) (inodes t ! i) (unat off + unat (j + 0x1000)) (unat sz - unat (j + 0x1000))) (user_mem (mem t) pg)"
    proof (rule Suc.IH [OF t(4)])
      show "range_mapped (mem t) pg va (unat sz)" using Suc.prems(2) insideD(1) [OF t(5)] by (simp add: range_mapped_def)
      show "readable i t" using Suc.prems(6) readable_same [OF t(2)] by simp
    qed (use Suc.prems t(3) al(2) w(3) L N in simp_all)
    then obtain u where u: "loaduvm_loop (Suc N') pg va i off sz (j + 0x1000) t = Inr (0, u)" "loaded_only t u" "solo c k u"
        "uvm_inv u pg xs" "inside pg (mem t) (mem u)"
        "user_mem (mem u) pg = overlay (va + (j + 0x1000))
          (file_part (drive s) (inodes s ! i) (unat off + unat j + 4096) (unat sz - unat j - 4096)) (user_mem (mem t) pg)"
      using L w(3) by (auto simp: add.assoc)
    have "user_mem (mem u) pg
        = overlay (va + j) (file_part (drive s) (inodes s ! i) (unat off + unat j) (unat sz - unat j)) (user_mem (mem s) pg)"
    proof (cases "unat sz - unat j \<le> 4096")
      case small: True
      then have "unat ?n = unat sz - unat j" "unat sz - unat j - 4096 = 0" using n by simp_all
      then show ?thesis using u(6) t(6) by (simp add: file_part_def)
    next
      case False
      let ?f = "file_part (drive s) (inodes s ! i) (unat off + unat j)"
      have m: "unat ?n = 4096" "va + (j + 0x1000) = (va + j) + of_nat (length (?f 4096))" using n False by simp_all
      have "length (?f 4096) + length (file_part (drive s) (inodes s ! i) (unat off + unat j + 4096) (unat sz - unat j - 4096)) \<le> 2 ^ 32"
        using unat32_lt [of sz] False by simp
      from overlay_append [OF this] show ?thesis
        using u(6) t(6) file_part_append [of 4096 "unat sz - unat j" "drive s" "inodes s ! i" "unat off + unat j"] False
        unfolding m by simp
    qed
    then show ?thesis
      using u inside_trans [OF t(5) u(5)] loaded_only_trans [OF t(2) u(2)] step N by auto
  qed
qed

lemma unat_add_word: "unat a + unat b < 2 ^ 32 \<Longrightarrow> unat (a + b) = unat a + unat b" for a b :: u32
  by (simp add: unat_word_ariths)

lemma add_unat_add: "a + of_nat (unat w + d) = a + w + of_nat d" for a w :: u32
  by simp

text \<open>A source that goes on to give \<open>data\<close> while the address space \<open>pg\<close> is written.\<close>

definition supplies :: "u32 \<Rightarrow> csrc \<Rightarrow> u8 list \<Rightarrow> kernel \<Rightarrow> bool" where
  "supplies pg src data s \<longleftrightarrow> (\<forall>m off n. inside pg (mem s) m \<longrightarrow> unat off + unat n \<le> length data \<longrightarrow>
     src_bytes src off n (s\<lparr>mem := m\<rparr>) = Inr (take (unat n) (drop (unat off) data)))"

lemma supplies_Zeros: "supplies pg Zeros (replicate n 0) s"
  by (auto simp: supplies_def src_bytes_def)

lemma supplies_Bytes: "supplies pg (Bytes bs) bs s"
  by (simp add: supplies_def src_bytes_def part_def)

lemma supplies_inside: "supplies pg src data s \<Longrightarrow> inside pg (mem s) m \<Longrightarrow> supplies pg src data (s\<lparr>mem := m\<rparr>)"
  using inside_trans unfolding supplies_def by fastforce

lemma copyout_loop_stores:
  fixes s :: kernel
  assumes "uvm_inv s pg xs" and "range_mapped (mem s) pg va (unat len)" and "unat len < n"
    and "supplies pg src data s" and "unat off + unat len = length data" and "length data < 2 ^ 32"
  shows "\<exists>m. copyout_loop n pg va src off len s = Inr (s\<lparr>mem := m\<rparr>) \<and> uvm_inv (s\<lparr>mem := m\<rparr>) pg xs
    \<and> inside pg (mem s) m \<and> user_mem m pg = overlay va (drop (unat off) data) (user_mem (mem s) pg)"
  using assms
proof (induction n arbitrary: va off len s)
  case 0
  then show ?case by simp
next
  case (Suc n)
  show ?case
  proof (cases "len = 0")
    case True
    then show ?thesis using Suc.prems(1,5) by (intro exI [of _ "mem s"]) simp
  next
    case False
    then have l: "0 < unat len" and lp: "0 < len" by (simp_all add: unat_gt_0 word_neq_0_conv)
    have v: "pg_of va \<in> upages (mem s) pg" using Suc.prems(2) l by (auto simp: range_mapped_def dest: spec [of _ 0])
    let ?fr = "frame (mem s) pg (pg_of va)" and ?o = "va AND 0xFFF"
    obtain p where p: "walkpgdir pg va False s = Inr (p, s)" "p \<noteq> 0" "load32 (mem s) p AND 1 \<noteq> 0"
        "PTE_ADDR (load32 (mem s) p) = ?fr"
      using walk_user [OF Suc.prems(1) v] by blast
    have down: "PGROUNDDOWN va = pg_of va" by (simp add: word_unat_eq_iff unat_PGROUNDDOWN unat_pg_of)
    have o: "va - pg_of va = ?o" using page_plus_offset [of va] by (metis add_diff_cancel_left')
    have uo: "unat ?o < 4096" using unat_PTE_FLAGS [of va] by (simp add: PTE_FLAGS_def)
    let ?n = "if 0x1000 - ?o > len then len else 0x1000 - ?o"
    have uc: "unat (0x1000 - ?o) = 4096 - unat ?o" using uo by (simp add: unat_sub word_le_nat_alt)
    then have n: "unat ?n = min (unat len) (4096 - unat ?o)" by (auto simp: word_less_nat_alt)
    have le: "?n \<le> len" using n by (simp add: word_le_nat_alt)
    let ?bs = "take (unat ?n) (drop (unat off) data)"
    have lb: "length ?bs = unat ?n" using n Suc.prems(5) by simp
    let ?m = "store_bytes (?fr OR ?o) ?bs (mem s)"
    have pl: "?fr + ?o = ?fr OR ?o" using page_offset(3) uvm_invD(3) [OF Suc.prems(1) v] page_ok_pgal by blast
    have "unat ?o + length ?bs \<le> 4096" unfolding lb using n uo by simp
    from store_user [OF Suc.prems(1) v this refl] have S: "uvm_inv (s\<lparr>mem := ?m\<rparr>) pg xs" "inside pg (mem s) ?m"
      "user_mem ?m pg = overlay va ?bs (user_mem (mem s) pg)" by blast+
    have "unat off + unat ?n \<le> length data" using n Suc.prems(5) by simp
    then have sb: "src_bytes src off ?n s = Inr ?bs"
      using Suc.prems(4) inside_refl [of pg "mem s"] by (auto simp: supplies_def dest!: spec [of _ "mem s"])
    have step: "copyout_loop (Suc n) pg va src off len s = copyout_loop n pg (va + ?n) src (off + ?n) (len - ?n) (s\<lparr>mem := ?m\<rparr>)"
      by (cases "len < 0x1000 - ?o") (use lp p o pl sb in \<open>simp_all add: Let_def down\<close>)
    have ln: "unat (len - ?n) = unat len - unat ?n" using le by (rule unat_sub)
    have rm: "range_mapped ?m pg (va + ?n) (unat (len - ?n))"
      unfolding range_mapped_def insideD(1) [OF S(2)]
    proof (intro allI impI)
      fix d
      assume "d < unat (len - ?n)"
      then have "unat ?n + d < unat len" using ln by simp
      then have "pg_of (va + of_nat (unat ?n + d)) \<in> upages (mem s) pg" using Suc.prems(2) unfolding range_mapped_def by blast
      then show "pg_of (va + ?n + of_nat d) \<in> upages (mem s) pg" by (simp only: add_unat_add)
    qed
    have "0 < unat ?n" using n l uo by simp
    then have lt: "unat (len - ?n) < n" using ln Suc.prems(3) l by simp
    have on: "unat (off + ?n) = unat off + unat ?n"
      by (rule unat_add_word) (use n Suc.prems(5,6) in simp)
    have sm: "mem (s\<lparr>mem := ?m\<rparr>) = ?m" by simp
    have "\<exists>m. copyout_loop n pg (va + ?n) src (off + ?n) (len - ?n) (s\<lparr>mem := ?m\<rparr>) = Inr (s\<lparr>mem := ?m\<rparr>\<lparr>mem := m\<rparr>)
      \<and> uvm_inv (s\<lparr>mem := ?m\<rparr>\<lparr>mem := m\<rparr>) pg xs \<and> inside pg (mem (s\<lparr>mem := ?m\<rparr>)) m
      \<and> user_mem m pg = overlay (va + ?n) (drop (unat (off + ?n)) data) (user_mem (mem (s\<lparr>mem := ?m\<rparr>)) pg)"
    proof (rule Suc.IH [OF S(1) _ lt supplies_inside [OF Suc.prems(4) S(2)] _ Suc.prems(6)])
      show "range_mapped (mem (s\<lparr>mem := ?m\<rparr>)) pg (va + ?n) (unat (len - ?n))" using rm by simp
      have "unat ?n \<le> unat len" using le by (simp only: word_le_nat_alt)
      then show "unat (off + ?n) + unat (len - ?n) = length data" unfolding on ln using Suc.prems(5) by simp
    qed
    then obtain m where m: "copyout_loop n pg (va + ?n) src (off + ?n) (len - ?n) (s\<lparr>mem := ?m\<rparr>) = Inr (s\<lparr>mem := ?m\<rparr>\<lparr>mem := m\<rparr>)"
        "uvm_inv (s\<lparr>mem := ?m\<rparr>\<lparr>mem := m\<rparr>) pg xs" "inside pg ?m m"
        "user_mem m pg = overlay (va + ?n) (drop (unat (off + ?n)) data) (user_mem ?m pg)"
      unfolding sm by blast
    have "overlay (va + of_nat (length ?bs)) (drop (unat off + unat ?n) data) (overlay va ?bs (user_mem (mem s) pg))
        = overlay va (?bs @ drop (unat off + unat ?n) data) (user_mem (mem s) pg)"
      by (rule overlay_append) (use lb Suc.prems(5,6) n in simp)
    moreover have "drop (unat off + unat ?n) data = drop (unat ?n) (drop (unat off) data)" by (simp only: drop_drop add.commute)
    then have "?bs @ drop (unat off + unat ?n) data = drop (unat off) data" by (simp only: append_take_drop_id)
    ultimately show ?thesis using m S(3) step inside_trans [OF S(2) m(3)] on lb by (intro exI [of _ m]) simp
  qed
qed

lemma copyout_stores:
  fixes s :: kernel
  assumes "uvm_inv s pg xs" and "range_mapped (mem s) pg va (unat len)" and "supplies pg src data s" and "length data = unat len"
  shows "\<exists>m. copyout pg va src len s = Inr (s\<lparr>mem := m\<rparr>) \<and> uvm_inv (s\<lparr>mem := m\<rparr>) pg xs
    \<and> inside pg (mem s) m \<and> user_mem m pg = overlay va data (user_mem (mem s) pg)"
  using copyout_loop_stores [OF assms(1,2) _ assms(3), of "Suc (unat len)" 0] assms(4) unat32_lt [of len]
  by (auto simp: copyout_def)

section \<open>A segment\<close>

lemma grown_user_mem:
  assumes inv: "uvm_inv s pg xs" and g: "grown pg P {} s xs s' ys"
  shows "user_mem (mem s') pg = (\<lambda>v. if pg_of v \<in> P then Some 0 else user_mem (mem s) pg v)"
proof
  fix v
  have G: "uvm_inv s' pg ys" "upages (mem s') pg = upages (mem s) pg \<union> P"
    "\<And>w. pg_of w \<notin> P \<Longrightarrow> pte_at (mem s') pg w = pte_at (mem s) pg w"
    "\<And>p a. p \<in> P \<Longrightarrow> pg_of a = frame (mem s') pg p \<Longrightarrow> mem s' a = 0"
    "mem_frame (vm_pages (mem s) pg \<union> set xs) (mem s) (mem s')"
    using g by (simp_all add: grown_def)
  have at: "user_mem (mem s') pg v = Some (mem s' (frame (mem s') pg (pg_of v) OR (v AND 0xFFF)))"
      "pg_of (frame (mem s') pg (pg_of v) OR (v AND 0xFFF)) = frame (mem s') pg (pg_of v)" if "pg_of v \<in> upages (mem s') pg"
    using that vread_page [of "pg_of v" "mem s'" pg v] page_offset(1) uvm_invD(3) [OF G(1) that] page_ok_pgal
    by (auto simp: user_mem_def)
  show "user_mem (mem s') pg v = (if pg_of v \<in> P then Some 0 else user_mem (mem s) pg v)"
  proof (cases "pg_of v \<in> P")
    case True
    then show ?thesis using at G(2,4) by simp
  next
    case False
    show ?thesis
    proof (cases "pg_of v \<in> upages (mem s) pg")
      case True
      have "pte_at (mem s') pg (pg_of v) = pte_at (mem s) pg (pg_of v)" using G(3) False by (simp add: pg_of_pgal)
      then have fr: "frame (mem s') pg (pg_of v) = frame (mem s) pg (pg_of v)" by (simp add: frame_def)
      have "frame (mem s) pg (pg_of v) \<notin> vm_pages (mem s) pg \<union> set xs" using uvm_invD(4,5) [OF inv True] by simp
      then have "mem s' (frame (mem s') pg (pg_of v) OR (v AND 0xFFF)) = mem s (frame (mem s) pg (pg_of v) OR (v AND 0xFFF))"
        using mem_frameD [OF G(5)] at(2) True G(2) by (simp add: fr)
      then show ?thesis
        using at(1) True False G(2) vread_page [of "pg_of v" "mem s" pg v] by (simp add: user_mem_def)
    next
      case none: False
      then show ?thesis using False G(2) by (simp add: user_mem_def)
    qed
  qed
qed

text \<open>
  A program header that asks for new pages above \<open>va\<close> and lies within its file; the bytes it stands for;
  the number of pages \<^verbatim>\<open>loaduvm\<close> reads.
\<close>

definition loadable :: "proghdr \<Rightarrow> u32 \<Rightarrow> inode \<Rightarrow> bool" where
  "loadable ph va ip \<longleftrightarrow> ph_type ph = ELF_PROG_LOAD \<and> ph_filesz ph \<le> ph_memsz ph \<and> 0 < ph_memsz ph \<and> pgal (ph_vaddr ph)
     \<and> KERNEND \<le> va \<and> va \<le> ph_vaddr ph \<and> unat (ph_vaddr ph) + unat (ph_memsz ph) < unat USEREND
     \<and> unat (ph_off ph) + unat (ph_filesz ph) \<le> unat (isize ip)"

definition segment_bytes :: "(u32 \<Rightarrow> u8 list) \<Rightarrow> inode \<Rightarrow> proghdr \<Rightarrow> u8 list" where
  "segment_bytes d ip ph = take (unat (ph_filesz ph)) (drop (unat (ph_off ph)) (image_contents (\<lambda>k. d (of_nat k)) ip))
     @ replicate (unat (ph_memsz ph) - unat (ph_filesz ph)) 0"

definition file_pages :: "proghdr \<Rightarrow> nat" where
  "file_pages ph = (unat (ph_filesz ph) + 4095) div 4096"

lemma unat_PGROUNDUP_le: "pgal p \<Longrightarrow> old \<le> p \<Longrightarrow> unat old \<le> 0xFFFFF000 \<Longrightarrow> PGROUNDUP old \<le> p"
  using PGROUNDUP_le_iff by blast

lemma new_range_mapped:
  assumes l: "loadable ph va ip" and A: "apages (PGROUNDUP va) (ph_vaddr ph + ph_memsz ph) \<subseteq> upages m pg"
    and d: "unat b + k \<le> unat (ph_memsz ph)"
  shows "range_mapped m pg (ph_vaddr ph + b) k"
  unfolding range_mapped_def
proof (intro allI impI)
  fix d
  assume d: "d < k"
  note L = l [unfolded loadable_def]
  let ?a = "ph_vaddr ph" and ?x = "ph_vaddr ph + b + of_nat d"
  have x: "unat ?x = unat ?a + (unat b + d)" "unat (?a + ph_memsz ph) = unat ?a + unat (ph_memsz ph)"
    using unat_add_small [of ?a "unat b + d"] unat_add_small [of ?a "unat (ph_memsz ph)"] L d assms(3) by (simp_all add: add.assoc)
  have p: "unat ?a \<le> unat (pg_of ?x)" "unat (pg_of ?x) \<le> unat ?x"
  proof -
    have "unat ?a mod 4096 = 0" using L by (simp add: pgal_def)
    then have "unat ?a = unat ?a div 4096 * 4096" using div_mult_mod_eq [of "unat ?a" 4096] by linarith
    moreover have "unat ?a div 4096 \<le> unat ?x div 4096" using x by (intro div_le_mono) simp
    ultimately show "unat ?a \<le> unat (pg_of ?x)" unfolding unat_pg_of by (metis mult_le_mono1)
    show "unat (pg_of ?x) \<le> unat ?x" unfolding unat_pg_of by simp
  qed
  have "PGROUNDUP va \<le> ?a"
    by (rule unat_PGROUNDUP_le) (use L in \<open>simp_all add: word_le_nat_alt\<close>)
  moreover have "?a \<le> pg_of ?x" "pg_of ?x < ?a + ph_memsz ph"
    using p x d assms(3) by (simp_all add: word_le_nat_alt word_less_nat_alt)
  ultimately have "pg_of ?x \<in> apages (PGROUNDUP va) (?a + ph_memsz ph)" by (auto simp: apages_def)
  then show "pg_of ?x \<in> upages m pg" using A by blast
qed

lemma solo_mem_only: "mem_only s t \<Longrightarrow> solo c k t = solo c k s"
proof -
  assume "mem_only s t"
  then obtain m r where "t = s\<lparr>mem := m, coremap := r\<rparr>" unfolding mem_only_def by blast
  then show ?thesis by (simp add: solo_def alone_def coherent_def cli_ok_def)
qed

text \<open>What follows the growth: reading the file and clearing the rest.\<close>

lemma fill_segment:
  assumes inv: "uvm_inv s dir xs" and rd: "readable i s" and l: "loadable ph va (inodes s ! i)"
    and so: "solo c (9 * file_pages ph + k) s"
    and A: "apages (PGROUNDUP va) (ph_vaddr ph + ph_memsz ph) \<subseteq> upages (mem s) dir"
  shows "\<exists>t. bnd (loaduvm dir (ph_vaddr ph) i (ph_off ph) (ph_filesz ph) s) (\<lambda>(r, s). if r < 0 then Inr (None, s)
        else bnd (copyout dir (ph_vaddr ph + ph_filesz ph) Zeros (ph_memsz ph - ph_filesz ph) s) (\<lambda>s. Inr (Some v, s)))
      = Inr (Some v, t) \<and> uvm_inv t dir xs \<and> loaded_only s t \<and> solo c k t \<and> inside dir (mem s) (mem t)
    \<and> user_mem (mem t) dir = overlay (ph_vaddr ph) (segment_bytes (drive s) (inodes s ! i) ph) (user_mem (mem s) dir)"
proof -
  note L = l [unfolded loadable_def]
  let ?a = "ph_vaddr ph" and ?fz = "ph_filesz ph" and ?mz = "ph_memsz ph" and ?ip = "inodes s ! i"
  have le: "unat ?fz \<le> unat ?mz" using L by (simp add: word_le_nat_alt)
  have al: "?a mod PAGESIZE = 0" using L by (simp add: pgal_def word_unat_eq_iff unat_mod)
  have rm: "range_mapped (mem s) dir ?a (unat ?fz)"
    using new_range_mapped [OF l A, of 0 "unat ?fz"] le by simp
  have fp: "unat ?fz \<le> unat (0 :: u32) + 4096 * file_pages ph" by (simp add: file_pages_def)
  have "file_pages ph \<le> n_pages" using unat32_lt [of ?fz] by (simp add: file_pages_def n_pages_def)
  moreover have "pgal ?a" "pgal (0 :: u32)" "unat ?a + unat ?fz < 2 ^ 32"
    "unat (ph_off ph) + unat ?fz \<le> unat (isize ?ip)" using L le by (simp_all add: pgal_def)
  ultimately obtain t where t: "loaduvm dir ?a i (ph_off ph) ?fz s = Inr (0, t)" "loaded_only s t" "solo c k t" "uvm_inv t dir xs"
      "inside dir (mem s) (mem t)"
      "user_mem (mem t) dir = overlay ?a (file_part (drive s) ?ip (unat (ph_off ph)) (unat ?fz)) (user_mem (mem s) dir)"
    using loaduvm_loop_reads [OF inv rm _ _ so rd _ _ fp, where N = n_pages] al unfolding loaduvm_def by auto
  have mf: "unat (?mz - ?fz) = unat ?mz - unat ?fz" using L by (intro unat_sub) simp
  have "range_mapped (mem t) dir (?a + ?fz) (unat (?mz - ?fz))"
    by (rule new_range_mapped [OF l]) (use A insideD(1) [OF t(5)] mf le in simp_all)
  then obtain m where m: "copyout dir (?a + ?fz) Zeros (?mz - ?fz) t = Inr (t\<lparr>mem := m\<rparr>)" "uvm_inv (t\<lparr>mem := m\<rparr>) dir xs"
      "inside dir (mem t) m"
      "user_mem m dir = overlay (?a + ?fz) (replicate (unat (?mz - ?fz)) 0) (user_mem (mem t) dir)"
    using copyout_stores [OF t(4) _ supplies_Zeros, of "?a + ?fz" "?mz - ?fz" "unat (?mz - ?fz)"] by auto
  have "length (file_part (drive s) ?ip (unat (ph_off ph)) (unat ?fz)) + length (replicate (unat ?mz - unat ?fz) (0 :: u8)) \<le> 2 ^ 32"
    using le unat32_lt [of ?mz] by simp
  note ov = overlay_append [OF this, of ?a "user_mem (mem s) dir", unfolded length_file_part]
  have "unat ?fz + unat (ph_off ph) \<le> unat (isize ?ip)" using L by simp
  then have sb: "segment_bytes (drive s) ?ip ph
      = file_part (drive s) ?ip (unat (ph_off ph)) (unat ?fz) @ replicate (unat ?mz - unat ?fz) 0"
    unfolding segment_bytes_def by (simp only: file_part_contents)
  have "user_mem m dir = overlay ?a (segment_bytes (drive s) ?ip ph) (user_mem (mem s) dir)"
    unfolding m(4) t(6) sb mf using ov by simp
  moreover have "loaded_only s (t\<lparr>mem := m\<rparr>)"
    using loaded_only_trans [OF t(2) loaded_only_mem_only [OF mem_only_mem]] .
  ultimately show ?thesis using t m inside_trans [OF t(5) m(3)] by (intro exI [of _ "t\<lparr>mem := m\<rparr>"]) simp
qed

text \<open>A page of the kernel part: its entry leads to the page itself.\<close>

lemma kernel_page_entry:
  assumes "kvm_ok s" and "pte_at m dir v = kernel_pte s v" and "pgal v" and "v < MEMSIZE"
  shows "present (pte_at m dir v)" "PTE_ADDR (pte_at m dir v) = v"
proof -
  let ?f = "kflag (kmaps s) v OR PTE_P"
  have "kflag (kmaps s) v = 0 \<or> kflag (kmaps s) v = 2" using assms(1) by (auto simp: kvm_ok_def)
  then have f: "unat ?f < 4096" "?f AND 1 = 1" by auto
  have e: "pte_at m dir v = v OR ?f" using assms(2-4) by (simp add: kernel_pte_def pg_of_pgal)
  show "PTE_ADDR (pte_at m dir v) = v" unfolding e by (rule PTE_ADDR_or [OF assms(3) f(1)])
  have "PTE_FLAGS (pte_at m dir v) AND 1 = 1" unfolding e using PTE_FLAGS_or [OF assms(3) f(1)] f(2) by simp
  then show "present (pte_at m dir v)" by (simp add: present_def PTE_FLAGS_def and.assoc)
qed

text \<open>What \<^verbatim>\<open>sys_execv\<close> computes for a program header it accepts.\<close>

lemma loadableD:
  assumes "loadable ph va ip" and "fin = ph_vaddr ph + ph_memsz ph"
  shows "KERNEND \<le> va" "va < fin" "fin < USEREND" "fin \<noteq> 0" "va \<le> ph_vaddr ph" "unat fin = unat (ph_vaddr ph) + unat (ph_memsz ph)"
    "load_segment dir i ph va s = bnd (allocuvm dir va fin s) (\<lambda>(va, s). if va = 0 then Inr (None, s)
      else bnd (loaduvm dir (ph_vaddr ph) i (ph_off ph) (ph_filesz ph) s) (\<lambda>(r, s). if r < 0 then Inr (None, s)
        else bnd (copyout dir (ph_vaddr ph + ph_filesz ph) Zeros (ph_memsz ph - ph_filesz ph) s) (\<lambda>s. Inr (Some va, s))))"
proof -
  note L = assms(1) [unfolded loadable_def]
  show fin: "unat fin = unat (ph_vaddr ph) + unat (ph_memsz ph)"
    unfolding assms(2) using unat_add_small [of "ph_vaddr ph" "unat (ph_memsz ph)"] L by simp
  have pos: "0 < unat (ph_memsz ph)" using L by (simp add: unat_gt_0 word_neq_0_conv)
  show "KERNEND \<le> va" "va < fin" "fin < USEREND" "fin \<noteq> 0" "va \<le> ph_vaddr ph"
    using L fin pos by (auto simp: word_less_nat_alt word_le_nat_alt)
  have "\<not> ph_memsz ph < ph_filesz ph" using L leD by blast
  moreover have "ph_vaddr ph mod PAGESIZE = 0" "\<not> fin < ph_vaddr ph"
    using L fin by (auto simp: pgal_def word_unat_eq_iff unat_mod word_less_nat_alt)
  ultimately show "load_segment dir i ph va s = bnd (allocuvm dir va fin s) (\<lambda>(va, s). if va = 0 then Inr (None, s)
      else bnd (loaduvm dir (ph_vaddr ph) i (ph_off ph) (ph_filesz ph) s) (\<lambda>(r, s). if r < 0 then Inr (None, s)
        else bnd (copyout dir (ph_vaddr ph + ph_filesz ph) Zeros (ph_memsz ph - ph_filesz ph) s) (\<lambda>s. Inr (Some va, s))))"
    using L by (simp add: load_segment_def assms(2) [symmetric] cong: if_cong)
qed

lemma load_segment_fills:
  assumes "uvm_inv s dir xs" and "readable i s" and "loadable ph va (inodes s ! i)"
    and "solo c (9 * file_pages ph + k) s" and "fin = ph_vaddr ph + ph_memsz ph"
    and a: "allocuvm dir va fin s = Inr (fin, s1)" and g: "grown dir (apages (PGROUNDUP va) fin) {} s xs s1 ys"
  shows "\<exists>t. load_segment dir i ph va s = Inr (Some fin, t) \<and> uvm_inv t dir ys \<and> loaded_only s t \<and> solo c k t
    \<and> inside dir (mem s1) (mem t)
    \<and> user_mem (mem t) dir = overlay (ph_vaddr ph) (segment_bytes (drive s) (inodes s ! i) ph)
        (\<lambda>v. if pg_of v \<in> apages (PGROUNDUP va) fin then Some 0 else user_mem (mem s) dir v)"
proof -
  have G: "uvm_inv s1 dir ys" "mem_only s s1" "upages (mem s1) dir = upages (mem s) dir \<union> apages (PGROUNDUP va) fin"
    using g by (simp_all add: grown_def)
  note o = loaded_only_mem_only [OF G(2)]
  note K = loaded_only_sel [OF o]
  obtain t where t: "bnd (loaduvm dir (ph_vaddr ph) i (ph_off ph) (ph_filesz ph) s1) (\<lambda>(r, s). if r < 0 then Inr (None, s)
        else bnd (copyout dir (ph_vaddr ph + ph_filesz ph) Zeros (ph_memsz ph - ph_filesz ph) s) (\<lambda>s. Inr (Some fin, s)))
      = Inr (Some fin, t)" "uvm_inv t dir ys" "loaded_only s1 t" "solo c k t" "inside dir (mem s1) (mem t)"
      "user_mem (mem t) dir = overlay (ph_vaddr ph) (segment_bytes (drive s1) (inodes s1 ! i) ph) (user_mem (mem s1) dir)"
    using fill_segment [OF G(1), of i ph va c k fin] assms(2-5) readable_same [OF o] solo_mem_only [OF G(2)] K G(3) by auto
  have "load_segment dir i ph va s = Inr (Some fin, t)"
    using loadableD(4) [OF assms(3,5)] a t(1) by (simp add: loadableD(7) [OF assms(3,5)])
  then show ?thesis
    using t(2,4-6) loaded_only_trans [OF o t(3)] K grown_user_mem [OF assms(1) g] by auto
qed

section \<open>Properties\<close>

text \<open>
  C4: loading a segment. For a process alone on the machine and a program header that lies above what the
  new address space holds and within its file, \<^verbatim>\<open>sys_execv\<close> either gets a page for every page of the
  segment and every table these need, and the address space then reads, from the address of the header on,
  as the bytes of the file followed by zeros up to the size in memory, 0 on the rest of the new pages and
  what it was elsewhere; or the segment fails and no mapping has changed. Only memory, buffers and the drive
  are touched, with nine disk interrupts per page at most.
\<close>

theorem segment_loaded:
  assumes "uvm_inv s dir xs" and "con_ok s" and "readable i s" and "loadable ph va (inodes s ! i)"
    and "solo c (9 * file_pages ph + k) s" and "fin = ph_vaddr ph + ph_memsz ph"
    and "{v \<in> upages (mem s) dir. va \<le> v \<and> v < fin} = {}"
  shows "if pages_needed dir (mem s) (apages (PGROUNDUP va) fin) \<le> length xs
    then \<exists>t ys. load_segment dir i ph va s = Inr (Some fin, t) \<and> uvm_inv t dir ys \<and> loaded_only s t \<and> solo c k t
      \<and> upages (mem t) dir = upages (mem s) dir \<union> apages (PGROUNDUP va) fin
      \<and> user_mem (mem t) dir = overlay (ph_vaddr ph) (segment_bytes (drive s) (inodes s ! i) ph)
          (\<lambda>v. if pg_of v \<in> apages (PGROUNDUP va) fin then Some 0 else user_mem (mem s) dir v)
    else \<exists>t ys. load_segment dir i ph va s = Inr (None, t) \<and> uvm_inv t dir ys \<and> upages (mem t) dir = upages (mem s) dir
      \<and> (\<forall>v. present (pte_at (mem s) dir v) \<longrightarrow> pte_at (mem t) dir v = pte_at (mem s) dir v)"
proof -
  note b = loadableD [OF assms(4,6)]
  show ?thesis
  proof (rule allocuvm_cases [OF assms(1,2) b(1-3) assms(7)])
    fix s1 ys
    assume n: "pages_needed dir (mem s) (apages (PGROUNDUP va) fin) \<le> length xs"
      and a: "allocuvm dir va fin s = Inr (fin, s1)" and g: "grown dir (apages (PGROUNDUP va) fin) {} s xs s1 ys"
    have "upages (mem s1) dir = upages (mem s) dir \<union> apages (PGROUNDUP va) fin" using g by (simp add: grown_def)
    then show ?thesis using load_segment_fills [OF assms(1,3-6) a g] n insideD(1) by fastforce
  next
    fix t ys
    assume f: "length xs < pages_needed dir (mem s) (apages (PGROUNDUP va) fin)" "allocuvm dir va fin s = Inr (0, t)"
      "uvm_inv t dir ys" "upages (mem t) dir = upages (mem s) dir"
      "\<And>v. present (pte_at (mem s) dir v) \<Longrightarrow> pte_at (mem t) dir v = pte_at (mem s) dir v"
    have "load_segment dir i ph va s = Inr (None, t)" using f(2) by (simp add: b(7))
    then show ?thesis using f by auto
  qed
qed

text \<open>A process alone with a locked file of 600 bytes and nine disk interrupts to come; a segment of two pages.\<close>

definition ex_loader :: "vm \<Rightarrow> kernel" where
  "ex_loader v = boot_state\<lparr>mem := mem v, coremap := coremap v, kernel_end := kernel_end v, rodata_end := rodata_end v,
     kmaps := kmaps v, procs := proc_zero # ex_proc RUN 0 # replicate 62 proc_zero, procp := Some 1,
     inodes := ex_inode # replicate 63 inode_zero, drive := \<lambda>n. replicate 512 (ucast n), pending := replicate 9 IrqIde\<rparr>"

definition ex_segment :: "u32 \<Rightarrow> u32 \<Rightarrow> proghdr" where
  "ex_segment a n = \<lparr>ph_type = 1, ph_off = 0, ph_vaddr = a, ph_filesz = 600, ph_memsz = n\<rparr>"

lemma ex_loader_ok:
  assumes "uvm_inv v pg xs" "kvm_ok v"
  shows "uvm_inv (ex_loader v) pg xs" "kvm_ok (ex_loader v)" "con_ok (ex_loader v)" "readable 0 (ex_loader v)"
    "solo 1 9 (ex_loader v)"
proof -
  let ?s = "ex_loader v"
  have eq: "mem ?s = mem v" "coremap ?s = coremap v" "page_ok ?s = page_ok v" "kern_ok ?s = kern_ok v" "cli_ok ?s"
    by (simp_all add: ex_loader_def page_ok_def kern_ok_def cli_ok_def fun_eq_iff)
  show "uvm_inv ?s pg xs" using assms(1) eq unfolding uvm_inv_def vm_inv_def kmem_inv_def by simp
  show "kvm_ok ?s" using assms(2) by (simp add: kvm_ok_def ex_loader_def)
  show "con_ok ?s" by (simp add: con_ok_def ex_loader_def)
  have "unat (of_nat (3000 + j) :: u32) < 8192" if "j < 124" for j
    using that unat_of_nat32 [of "3000 + j"] by simp
  then show "readable 0 ?s"
    by (auto simp: readable_def holding_def lock_of_def ex_loader_def ex_inode_def sectors_ok_def word_less_nat_alt inode_zero_def)
  have "alone 1 ?s"
    by (auto simp: alone_def ex_loader_def ex_proc_def proc_zero_def lock_zero_def cli_ok_def nth_Cons')
  moreover have "coherent ?s" "length (blocks ?s) = 256" "pending ?s = replicate 9 IrqIde @ []"
    by (simp_all add: coherent_def sound_def ex_loader_def block_zero_def)
  ultimately show "solo 1 9 ?s" unfolding solo_def by blast
qed

lemma ex_loader_file:
  assumes "j < 600"
  shows "segment_bytes (drive (ex_loader v)) ex_inode (ex_segment a n) ! j = ucast (3000 + of_nat (j div 512) :: u32)"
proof -
  have "j div 512 < 124" "j mod 512 < 512" using assms by (auto simp: div_less_iff_less_mult)
  then show ?thesis
    using assms unat_of_nat32 [of "3000 + j div 512"]
    by (simp add: segment_bytes_def ex_segment_def nth_append image_contents_def ex_loader_def ex_inode_def del: upt_rec_numeral)
qed

theorem segment_loaded_witness:
  "\<exists>v pg t. load_segment pg 0 (ex_segment 0x40000000 0x2000) KERNEND (ex_loader v) = Inr (Some 0x40002000, t)
    \<and> user_mem (mem t) pg 0x40000200 = Some 0xB9 \<and> user_mem (mem t) pg 0x40001000 = Some 0"
proof (rule ex_space)
  fix s0 v :: vm and pg xs
  assume v: "uvm_inv v pg xs" "kvm_ok v" "upages (mem v) pg = {}" "length xs = 130431"
  let ?s = "ex_loader v" and ?ph = "ex_segment 0x40000000 0x2000"
  note E = ex_loader_ok [OF v(1,2)]
  have ip: "inodes ?s ! 0 = ex_inode" "mem ?s = mem v" by (simp_all add: ex_loader_def)
  have l: "loadable ?ph KERNEND (inodes ?s ! 0)"
    by (simp add: loadable_def ip ex_segment_def ex_inode_def inode_zero_def pgal_def)
  have so: "solo 1 (9 * file_pages ?ph + 0) ?s" using E(5) by (simp add: file_pages_def ex_segment_def)
  have fin: "0x40002000 = ph_vaddr ?ph + ph_memsz ?ph" by (simp add: ex_segment_def)
  have r: "{w \<in> upages (mem ?s) pg. KERNEND \<le> w \<and> w < 0x40002000} = {}" using v(3) by (simp add: ip)
  have n: "pages_needed pg (mem ?s) (apages (PGROUNDUP KERNEND) 0x40002000) \<le> length xs"
    using ex_needed [of pg "mem v"] v(4) ex_apages by (simp add: ip)
  obtain t where t: "load_segment pg 0 ?ph KERNEND ?s = Inr (Some 0x40002000, t)"
      "user_mem (mem t) pg = overlay 0x40000000 (segment_bytes (drive ?s) ex_inode ?ph)
        (\<lambda>v. if pg_of v \<in> apages (PGROUNDUP KERNEND) 0x40002000 then Some 0 else user_mem (mem ?s) pg v)"
    using segment_loaded [OF E(1,3,4) l so fin r] n by (auto simp: ip ex_segment_def)
  have len: "length (segment_bytes (drive ?s) ex_inode ?ph) = 0x2000"
    by (simp add: segment_bytes_def ex_segment_def image_contents_def ex_inode_def)
  have "segment_bytes (drive ?s) ex_inode ?ph ! 0x1000 = 0"
    by (simp add: segment_bytes_def ex_segment_def image_contents_def ex_inode_def nth_append del: upt_rec_numeral)
  then have "user_mem (mem t) pg 0x40000200 = Some 0xB9 \<and> user_mem (mem t) pg 0x40001000 = Some 0"
    using ex_loader_file [of 512 v "0x40000000" "0x2000"] len by (simp add: t(2) overlay_def)
  with t(1) show ?thesis by blast
qed

text \<open>
  C24: a program can overwrite the kernel. Nothing in \<^verbatim>\<open>sys_execv\<close> compares the address of a segment with
  \<^verbatim>\<open>KERNEND\<close>: for one that lies in the kernel part, below what is mapped, \<^verbatim>\<open>allocuvm\<close> adds nothing, \<^verbatim>\<open>loaduvm\<close>
  finds the identity mapping, and the bytes of the file are stored over the kernel's memory at the address
  of the segment.
\<close>

theorem segment_overwrites_kernel:
  assumes "uvm_inv s dir xs" and "kvm_ok s" and "readable i s" and "solo c (9 + k) s"
    and "ph_type ph = ELF_PROG_LOAD" and "ph_memsz ph = ph_filesz ph" and "0 < ph_filesz ph" and "ph_filesz ph \<le> PAGESIZE"
    and "unat (ph_off ph) + unat (ph_filesz ph) \<le> unat (isize (inodes s ! i))"
    and "pgal (ph_vaddr ph)" and "0 < ph_vaddr ph" and "ph_vaddr ph < MEMSIZE" and "KERNEND \<le> va"
    and "pte_at (mem s) dir (ph_vaddr ph) = kernel_pte s (ph_vaddr ph)"
  shows "\<exists>t. load_segment dir i ph va s = Inr (Some va, t)
    \<and> read_only_mem (store_bytes (ph_vaddr ph) (segment_bytes (drive s) (inodes s ! i) ph) (mem s)) s t"
proof -
  let ?a = "ph_vaddr ph" and ?fz = "ph_filesz ph" and ?ip = "inodes s ! i"
  note R = assms(3) [unfolded readable_def]
  have fz: "0 < unat ?fz" "unat ?fz \<le> 4096" using assms(7,8) by (simp_all add: unat_gt_0 word_neq_0_conv word_le_nat_alt)
  have new: "unat (?a + ?fz) = unat ?a + unat ?fz"
    using unat_add_small [of ?a "unat ?fz"] assms(12) fz(2) by (simp add: word_less_nat_alt)
  have c: "\<not> ?a + ?fz < ?a" "\<not> USEREND \<le> ?a + ?fz" "?a + ?fz < va" "?a mod PAGESIZE = 0" "va \<noteq> 0" "?a \<noteq> 0"
    using new assms(10-13) fz by (auto simp: word_less_nat_alt word_le_nat_alt pgal_def word_unat_eq_iff unat_mod)
  have "\<not> ?a + ?fz \<ge> USEREND \<and> ?a + ?fz < va" using c by simp
  then have al: "allocuvm dir va (?a + ?fz) s = Inr (va, s)" unfolding allocuvm_def by (simp only: if_True if_False)
  note E = kernel_page_entry [OF assms(2,14,10,12)]
  obtain p where p: "walkpgdir dir ?a False s = Inr (p, s)" "p \<noteq> 0" "PTE_ADDR (load32 (mem s) p) = ?a"
    using walk_present [OF uvm_invD(1) [OF assms(1)] E(1)] E(2) by metis
  let ?bs = "file_part (drive s) ?ip (unat (ph_off ph)) (unat ?fz)"
  have n: "unat ?fz = min (unat ?fz) (unat (isize ?ip) - unat (ph_off ph))" using assms(9) by simp
  have sec: "sectors_for (unat (ph_off ph)) (unat ?fz) \<le> 9 + k"
    using sectors_page [OF fz(2)] le_add1 order_trans by blast
  obtain t where t: "readi i (Phys ?a) (ph_off ph) ?fz s = Inr (int (unat ?fz), t)" "read_only_mem (store_bytes ?a ?bs (mem s)) s t"
    using readi_frame [OF assms(4) _ _ _ _ _ _ _ n sec] R assms(9) fz by auto
  have z: "\<not> 0x1000 < ?fz" "0 < ?fz" "sint ?fz = int (unat ?fz)" "(if ?fz - 0 < PAGESIZE then ?fz - 0 else PAGESIZE) = ?fz"
    using assms(7,8) sint_small [of ?fz] fz(2) by (auto simp: not_less)
  obtain N where N: "n_pages = Suc N" by (cases n_pages) (simp_all add: n_pages_def)
  have "loaduvm_loop (Suc n_pages) dir ?a i (ph_off ph) ?fz 0 s = loaduvm_loop n_pages dir ?a i (ph_off ph) ?fz (0 + PAGESIZE) t"
    unfolding loaduvm_loop.simps(2) z(4) using z(2,3) c(6) p t(1) by (simp add: Let_def del: loaduvm_loop.simps)
  also have "\<dots> = Inr (0, t)" using z(1) by (simp add: N)
  finally have "loaduvm dir ?a i (ph_off ph) ?fz s = Inr (0, t)" using c(4) by (simp add: loaduvm_def del: loaduvm_loop.simps)
  then have "load_segment dir i ph va s = Inr (Some va, t)"
    using assms(5,6) c al by (simp add: load_segment_def copyout_def)
  moreover have "segment_bytes (drive s) ?ip ph = ?bs"
    using file_part_contents [of "unat ?fz" "unat (ph_off ph)" ?ip "drive s"] assms(6,9) by (simp add: segment_bytes_def)
  ultimately show ?thesis using t(2) by auto
qed

theorem segment_overwrites_kernel_witness:
  "\<exists>v pg t. load_segment pg 0 (ex_segment 0x102000 600) KERNEND (ex_loader v) = Inr (Some KERNEND, t)
    \<and> mem t 0x102200 = 0xB9"
proof (rule ex_space)
  fix s0 v :: vm and pg xs
  assume v: "uvm_inv v pg xs" "kvm_ok v"
    and e: "\<And>w. pte_at (mem v) pg w = (if pg_of w < MEMSIZE then pg_of w OR kflag (kmaps v) (pg_of w) OR PTE_P else 0)"
  let ?s = "ex_loader v" and ?ph = "ex_segment 0x102000 600"
  note E = ex_loader_ok [OF v]
  have ip: "inodes ?s ! 0 = ex_inode" "mem ?s = mem v" "kmaps ?s = kmaps v" by (simp_all add: ex_loader_def)
  have k: "pte_at (mem ?s) pg (ph_vaddr ?ph) = kernel_pte ?s (ph_vaddr ?ph)" by (simp only: e ip kernel_pte_def)
  have so: "solo 1 (9 + 0) ?s" using E(5) by simp
  obtain t where t: "load_segment pg 0 ?ph KERNEND ?s = Inr (Some KERNEND, t)"
      "read_only_mem (store_bytes 0x102000 (segment_bytes (drive ?s) ex_inode ?ph) (mem v)) ?s t"
    using segment_overwrites_kernel [OF E(1,2,4) so _ _ _ _ _ _ _ _ _ k, of KERNEND]
    by (auto simp: ip ex_segment_def ex_inode_def inode_zero_def pgal_def)
  have "mem t = store_bytes 0x102000 (segment_bytes (drive ?s) ex_inode ?ph) (mem v)"
    using disk_only_sel [OF t(2) [unfolded read_only_mem_def]] by simp
  moreover have "length (segment_bytes (drive ?s) ex_inode ?ph) = 600"
    by (simp add: segment_bytes_def ex_segment_def image_contents_def ex_inode_def)
  ultimately have "mem t 0x102200 = 0xB9" using ex_loader_file [of 512 v "0x102000" 600] by (simp add: store_bytes_eq)
  with t(1) show ?thesis by blast
qed

end
