(* ===== verification/Mix_Path.thy ===== *)
theory Mix_Path
  imports Mix_Load
begin

text \<open>
  How \<^verbatim>\<open>namei\<close> (\<^verbatim>\<open>fs/inode.c\<close>) finds a file: the root inode and the file's come through the table of in-core
  inodes, the directory through the buffer cache, the name from user memory.
\<close>

section \<open>The table of in-core inodes\<close>

text \<open>
  An in-core inode is what the drive has. Every reference to one of the files that are open is counted, with room
  for one more, and there is room for another inode. Number 0 is left to the devices, whose inodes have none.
\<close>

definition on_disk :: "(u32 \<Rightarrow> u8 list) \<Rightarrow> inode \<Rightarrow> bool" where
  "on_disk d ip \<longleftrightarrow> load_dinode (d (inum ip)) ip = ip"

definition icache_ok :: "kernel \<Rightarrow> bool" where
  "icache_ok s \<longleftrightarrow> (\<forall>ip \<in> set (inodes s). ivalid ip \<noteq> 0 \<and> inum ip \<noteq> 0 \<longrightarrow>
       on_disk (drive s) ip \<and> 0 < unat (irefcnt ip) \<and> unat (irefcnt ip) + 1 < 2 ^ 16)
     \<and> (\<exists>ip \<in> set (inodes s). ivalid ip = 0)"

lemma load_dinode_again: "load_dinode bs (load_dinode bs ip) = load_dinode bs ip"
  by (simp add: load_dinode_def)

lemma load_dinode_number [simp]:
  "inum (load_dinode bs ip) = inum ip" "ivalid (load_dinode bs ip) = ivalid ip" "irefcnt (load_dinode bs ip) = irefcnt ip"
  "ilock (load_dinode bs ip) = ilock ip"
  by (simp_all add: load_dinode_def)

lemma on_disk_count [simp]: "on_disk d (ip\<lparr>irefcnt := n\<rparr>) = on_disk d ip" "on_disk d (ip\<lparr>ivalid := v\<rparr>) = on_disk d ip"
  by (cases ip; simp add: on_disk_def load_dinode_def)+

text \<open>Looking at the disk and at the table of inodes.\<close>

definition files_only :: "kernel \<Rightarrow> kernel \<Rightarrow> bool" where
  "files_only s t \<longleftrightarrow> (\<exists>I B P L K. t = s\<lparr>inodes := I, blocks := B, pending := P, outlog := L, idelock := K\<rparr>)"

lemma files_onlyI: "t = s\<lparr>inodes := I, blocks := B, pending := P, outlog := L, idelock := K\<rparr> \<Longrightarrow> files_only s t"
  unfolding files_only_def by blast

lemma files_only_disk: "disk_only s t \<Longrightarrow> files_only s (t\<lparr>inodes := I\<rparr>)"
proof -
  assume "disk_only s t"
  then obtain B P L K where "t = s\<lparr>blocks := B, pending := P, outlog := L, idelock := K\<rparr>" unfolding disk_only_def by blast
  then have "t\<lparr>inodes := I\<rparr> = s\<lparr>inodes := I, blocks := B, pending := P, outlog := L, idelock := K\<rparr>" by (cases s) simp
  then show ?thesis by (rule files_onlyI)
qed

lemma files_only_inodes: "files_only s (s\<lparr>inodes := I\<rparr>)"
  by (rule files_only_disk) (rule disk_only_refl)

lemma files_only_trans: "files_only s t \<Longrightarrow> files_only t u \<Longrightarrow> files_only s u"
proof -
  assume "files_only s t" "files_only t u"
  then obtain I B P L K I' B' P' L' K' where
    "t = s\<lparr>inodes := I, blocks := B, pending := P, outlog := L, idelock := K\<rparr>"
    "u = t\<lparr>inodes := I', blocks := B', pending := P', outlog := L', idelock := K'\<rparr>"
    unfolding files_only_def by blast
  then have "u = s\<lparr>inodes := I', blocks := B', pending := P', outlog := L', idelock := K'\<rparr>" by (cases s) simp
  then show ?thesis by (rule files_onlyI)
qed

lemma files_only_sel:
  assumes "files_only s t"
  shows "mem t = mem s \<and> cr3 t = cr3 s \<and> drive t = drive s \<and> procs t = procs s \<and> procp t = procp s \<and> files t = files s
    \<and> sysfs_of t = sysfs_of s \<and> (\<forall>a. uread a t = uread a s)"
proof -
  obtain I B P L K where "t = s\<lparr>inodes := I, blocks := B, pending := P, outlog := L, idelock := K\<rparr>"
    using assms unfolding files_only_def by blast
  then show ?thesis by (simp add: uread_def split: option.split)
qed

lemma files_only_of_disk: "disk_only s t \<Longrightarrow> files_only s t"
  using files_only_disk [of s t "inodes t"] by simp

lemma solo_inodes [simp]: "solo c k (s\<lparr>inodes := I\<rparr>) = solo c k s"
  by (simp add: solo_def alone_def coherent_def)

section \<open>\<open>iget\<close>\<close>

text \<open>
  \<open>iget\<close> hands out an entry \<open>i\<close> with the inode of the drive; the other entries stay. \<open>was\<close> tells whether it
  was there before, with one reference less.
\<close>

definition handed :: "kernel \<Rightarrow> u32 \<Rightarrow> nat \<Rightarrow> kernel \<Rightarrow> bool" where
  "handed s no i t \<longleftrightarrow> i < length (inodes s) \<and> (\<exists>ip. inodes t = (inodes s)[i := ip] \<and> on_disk (drive s) ip \<and> inum ip = no
     \<and> ivalid ip \<noteq> 0 \<and> ilock ip = ilock (inodes s ! i)
     \<and> (if ivalid (inodes s ! i) = 0 then irefcnt ip = 1 \<and> ivalid ip = 1
        else ip = (inodes s ! i)\<lparr>irefcnt := irefcnt (inodes s ! i) + 1\<rparr>))"

lemma same_locks: "i < length I \<Longrightarrow> ilock ip = ilock (I ! i) \<Longrightarrow> map ilock (I[i := ip]) = map ilock I"
  by (simp add: map_update list_update_same_conv)

lemma handed_locks: "handed s no i t \<Longrightarrow> map ilock (inodes t) = map ilock (inodes s)"
  by (auto simp: handed_def intro: same_locks)

lemma iget_solo:
  assumes so: "solo c (Suc k) s" and ic: "icache_ok s" and no: "no \<noteq> 0" "no < NSECTOR"
  obtains i t where "iget no s = Inr (Some i, t)" "handed s no i t" "solo c k t" "files_only s t" "kept_bufs s t"
proof -
  have cli: "cli_ok s" using so by (simp add: solo_def alone_def)
  show thesis
  proof (cases "find_idx (\<lambda>ip. ivalid ip \<noteq> 0 \<and> inum ip = no) (inodes s)")
    case (Some i)
    note F = find_idx_SomeD [OF Some]
    let ?I = "upd_at i (\<lambda>ip. ip\<lparr>irefcnt := irefcnt ip + 1\<rparr>) (inodes s)"
    have "iget no s = Inr (Some i, s\<lparr>inodes := ?I\<rparr>)" using Some cli by (simp add: iget_def Let_def popcli_table)
    moreover have "on_disk (drive s) (inodes s ! i)" using F no(1) ic by (auto simp: icache_ok_def)
    then have "on_disk (drive s) ((inodes s ! i)\<lparr>irefcnt := irefcnt (inodes s ! i) + 1\<rparr>)"
      by simp
    then have "handed s no i (s\<lparr>inodes := ?I\<rparr>)" using F by (simp add: handed_def upd_at_def)
    moreover have "solo c k (s\<lparr>inodes := ?I\<rparr>)" using so by (auto intro: solo_fewer)
    ultimately show thesis using files_only_inodes by (intro that [of i "s\<lparr>inodes := ?I\<rparr>"]) (simp_all add: kept_bufs_def)
  next
    case None
    obtain x where "x \<in> set (inodes s)" "ivalid x = 0" using ic by (auto simp: icache_ok_def)
    then obtain i where i: "find_idx (\<lambda>ip. ivalid ip = 0) (inodes s) = Some i"
      using find_idx_exists [of x "inodes s" "\<lambda>ip. ivalid ip = 0"] by blast
    note F = find_idx_SomeD [OF i]
    let ?new = "(inodes s ! i)\<lparr>ivalid := 1, inum := no, irefcnt := 1, idevno := 0\<rparr>"
    let ?s1 = "s\<lparr>inodes := (inodes s)[i := ?new]\<rparr>"
    have so1: "solo c (Suc k) ?s1" using so by simp
    obtain b u where u: "bread no ?s1 = Inr (b, u)" "bdata (blocks u ! b) = drive s no" "solo c k (brelse b u)"
        "disk_only ?s1 u" "disk_only ?s1 (brelse b u)" "kept_bufs ?s1 (brelse b u)"
      by (rule bread_solo [OF so1 no(2)]) (rule that; simp)
    have I: "inodes u = (inodes s)[i := ?new]" using disk_only_sel [OF u(4)] by simp
    let ?J = "(inodes s)[i := load_dinode (drive s no) ?new]"
    have br: "brelse b (u\<lparr>inodes := ?J\<rparr>) = (brelse b u)\<lparr>inodes := ?J\<rparr>" by (simp add: brelse_def)
    have "iget no s = Inr (Some i, (brelse b u)\<lparr>inodes := ?J\<rparr>)"
      using None i cli u(1,2) I F(1) br by (simp add: iget_def Let_def popcli_table upd_at_def)
    moreover have "handed s no i ((brelse b u)\<lparr>inodes := ?J\<rparr>)"
      using F by (auto simp: handed_def on_disk_def load_dinode_again)
    moreover have "files_only s ((brelse b u)\<lparr>inodes := ?J\<rparr>)"
      using files_only_trans [OF files_only_inodes files_only_disk [OF u(5)]] .
    ultimately show thesis using u(3,6) by (intro that [of i "(brelse b u)\<lparr>inodes := ?J\<rparr>"]) (simp_all add: kept_bufs_def)
  qed
qed

section \<open>Releasing what was handed out\<close>

text \<open>The same inodes are open, as they were; no lock has changed.\<close>

definition same_open :: "kernel \<Rightarrow> kernel \<Rightarrow> bool" where
  "same_open s t \<longleftrightarrow> length (inodes t) = length (inodes s) \<and> map ilock (inodes t) = map ilock (inodes s) \<and> (\<forall>j < length (inodes s).
     (ivalid (inodes t ! j) \<noteq> 0 \<longleftrightarrow> ivalid (inodes s ! j) \<noteq> 0) \<and> (ivalid (inodes s ! j) \<noteq> 0 \<longrightarrow> inodes t ! j = inodes s ! j))"

lemma irelse_handed:
  assumes h: "handed s no i t" and ic: "icache_ok s" and no: "no \<noteq> 0" and t: "cli_ok t" "drive t = drive s"
  obtains I where "irelse (Some i) t = Inr (t\<lparr>inodes := I\<rparr>)" "icache_ok (t\<lparr>inodes := I\<rparr>)" "same_open s (t\<lparr>inodes := I\<rparr>)"
proof -
  obtain ip where i: "i < length (inodes s)" and ip: "inodes t = (inodes s)[i := ip]" "inum ip = no" "on_disk (drive s) ip" "ilock ip = ilock (inodes s ! i)"
    "if ivalid (inodes s ! i) = 0 then irefcnt ip = 1 \<and> ivalid ip = 1
     else ip = (inodes s ! i)\<lparr>irefcnt := irefcnt (inodes s ! i) + 1\<rparr>"
    using h by (auto simp: handed_def)
  show thesis
  proof (cases "ivalid (inodes s ! i) = 0")
    case True
    then have "irelse (Some i) t = Inr (t\<lparr>inodes := (inodes s)[i := ip\<lparr>ivalid := 0\<rparr>]\<rparr>)"
      using t(1) ip i by (simp add: irelse_eq upd_at_def)
    moreover have "icache_ok (t\<lparr>inodes := (inodes s)[i := ip\<lparr>ivalid := 0\<rparr>]\<rparr>)"
      unfolding icache_ok_def
    proof
      show "\<exists>x \<in> set (inodes (t\<lparr>inodes := (inodes s)[i := ip\<lparr>ivalid := 0\<rparr>]\<rparr>)). ivalid x = 0"
        using set_update_memI [OF i, of "ip\<lparr>ivalid := 0\<rparr>"] by (intro bexI [of _ "ip\<lparr>ivalid := 0\<rparr>"]) simp_all
    qed (use ic t(2) set_update_subset_insert [of "inodes s" i "ip\<lparr>ivalid := 0\<rparr>"] in \<open>auto simp: icache_ok_def\<close>)
    ultimately show thesis using True i by (intro that) (auto simp: same_open_def nth_list_update same_locks ip(4) split: if_splits)
  next
    case False
    let ?r = "irefcnt (inodes s ! i)"
    have e: "ip = (inodes s ! i)\<lparr>irefcnt := ?r + 1\<rparr>" using ip(5) False by simp
    then have "inum (inodes s ! i) \<noteq> 0" using ip(2) no by simp
    then have r: "0 < unat ?r" "unat ?r + 1 < 2 ^ 16" using ic False i by (auto simp: icache_ok_def)
    then have "unat (?r + 1) = unat ?r + 1" by (simp add: unat_word_ariths)
    then have "?r + 1 > 1" using r by (simp add: word_less_nat_alt)
    then have "irelse (Some i) t = Inr (t\<lparr>inodes := (inodes s)[i := ip\<lparr>irefcnt := ?r\<rparr>]\<rparr>)"
      using t(1) ip(1) i by (simp add: irelse_eq upd_at_def e)
    moreover have "(inodes s)[i := ip\<lparr>irefcnt := ?r\<rparr>] = inodes s" by (simp add: e)
    ultimately show thesis using ic t(2) by (intro that [of "inodes s"]) (simp_all add: same_open_def icache_ok_def)
  qed
qed

section \<open>Directories\<close>

lemma strcmp_reads:
  assumes "\<And>i. i \<le> length (cstr n p) \<Longrightarrow> f i = Inr (p i)"
  shows "strcmp f q n = Inr (if cstr n p = cstr n q then 1 else 0)"
  using assms
proof (induction n arbitrary: f p q)
  case 0
  then show ?case by simp
next
  case (Suc n)
  have f0: "f 0 = Inr (p 0)" using Suc.prems by simp
  show ?case
  proof (cases "p 0 = 0")
    case True
    then show ?thesis using f0 by (auto simp: cstr_Suc)
  next
    case False
    have "f (Suc i) = Inr (p (Suc i))" if "i \<le> length (cstr n (\<lambda>i. p (Suc i)))" for i
      using Suc.prems [of "Suc i"] that False by (simp add: cstr_Suc)
    from Suc.IH [OF this] show ?thesis using f0 False by (auto simp: cstr_Suc)
  qed
qed

text \<open>The first entry with the name, the inode of which is looked up.\<close>

definition entry :: "u8 list \<Rightarrow> (nat \<Rightarrow> u8) \<Rightarrow> nat option" where
  "entry d p = find (\<lambda>e. cstr 28 p = cstr 28 (dir_fname d e)) [0..<16]"

lemma dirlookup_loop_finds:
  assumes "\<And>i. i \<le> length (cstr 28 p) \<Longrightarrow> f i = Inr (p i)"
  shows "dirlookup_loop es d f s = (case find (\<lambda>e. cstr 28 p = cstr 28 (dir_fname d e)) es of
      None \<Rightarrow> Inr (None, s) | Some e \<Rightarrow> iget (dir_ino d e) s)"
  using strcmp_reads [OF assms] by (induction es) simp_all

lemma entry_SomeD: "entry d p = Some e \<Longrightarrow> e < 16 \<and> cstr 28 p = cstr 28 (dir_fname d e)"
  by (auto simp: entry_def find_Some_iff simp del: upt_rec_numeral)

definition root_dir :: "(u32 \<Rightarrow> u8 list) \<Rightarrow> u32 \<Rightarrow> u8 list" where
  "root_dir d no = d (iaddr (load_dinode (d no) inode_zero) ! 0)"

lemma on_disk_iaddr: "on_disk d ip \<Longrightarrow> iaddr ip = iaddr (load_dinode (d (inum ip)) inode_zero)"
proof -
  assume "on_disk d ip"
  then have "iaddr ip = iaddr (load_dinode (d (inum ip)) ip)" by (simp add: on_disk_def)
  also have "\<dots> = iaddr (load_dinode (d (inum ip)) inode_zero)" by (simp add: load_dinode_def)
  finally show ?thesis .
qed

text \<open>What a process sees of an inode that was opened.\<close>

definition opened :: "kernel \<Rightarrow> u32 \<Rightarrow> nat \<Rightarrow> kernel \<Rightarrow> bool" where
  "opened s no i t \<longleftrightarrow> i < length (inodes s) \<and> length (inodes t) = length (inodes s)
     \<and> map ilock (inodes t) = map ilock (inodes s)
     \<and> on_disk (drive s) (inodes t ! i) \<and> inum (inodes t ! i) = no \<and> ivalid (inodes t ! i) \<noteq> 0
     \<and> irefcnt (inodes t ! i) = (if ivalid (inodes s ! i) = 0 then 1 else irefcnt (inodes s ! i) + 1)
     \<and> (\<forall>j < length (inodes s). j \<noteq> i \<longrightarrow> (ivalid (inodes t ! j) \<noteq> 0 \<longleftrightarrow> ivalid (inodes s ! j) \<noteq> 0)
          \<and> (ivalid (inodes s ! j) \<noteq> 0 \<longrightarrow> inodes t ! j = inodes s ! j))"

lemma opened_handed:
  assumes "same_open s u" and "handed u no i t" and "drive u = drive s"
  shows "opened s no i t"
  using assms handed_locks [OF assms(2)]
  by (auto simp: opened_def handed_def same_open_def nth_list_update split: if_splits)

section \<open>\<open>namei\<close>\<close>

lemma files_only_blocks: "files_only s (s\<lparr>blocks := B\<rparr>)"
  by (rule files_only_of_disk) (rule disk_only_blocks [OF disk_only_refl])

lemma idle_brelse:
  assumes "map brefcnt (blocks u) = map brefcnt (blocks t)" and "idle (brelse b t)" and "b < length (blocks t)"
  shows "idle (brelse b u)"
proof -
  have "length (blocks u) = length (blocks t)" using assms(1) by (rule map_eq_imp_length_eq)
  moreover have "map brefcnt (blocks (brelse b u)) = map brefcnt (blocks (brelse b t))"
    using assms(1,3) calculation
    by (simp add: brelse_def upd_at_def map_update) (metis nth_map)
  ultimately show ?thesis using assms(2) unfolding idle_def by (metis (no_types, lifting) image_iff set_map)
qed

lemma namei_cases:
  assumes "solo c (3 + k) s" and "idle s" and "icache_ok s" and "path \<noteq> 0"
    and "\<forall>i \<le> length (cstr 28 p). uread (path + of_nat i) s = Inr (p i)" and "p 0 \<noteq> 47"
    and "root = rootdir (sysfs_of s)" and "root \<noteq> 0" and "root < NSECTOR"
    and "iaddr (load_dinode (drive s root) inode_zero) ! 0 < NSECTOR"
    and "\<forall>e. entry (root_dir (drive s) root) p = Some e \<longrightarrow> dir_ino (root_dir (drive s) root) e \<noteq> 0
      \<and> dir_ino (root_dir (drive s) root) e < NSECTOR"
  shows "case entry (root_dir (drive s) root) p of
      None \<Rightarrow> \<exists>t. namei path s = Inr (None, t) \<and> files_only s t \<and> same_open s t \<and> solo c k t \<and> idle t
    | Some e \<Rightarrow> \<exists>i t. namei path s = Inr (Some i, t) \<and> files_only s t \<and> opened s (dir_ino (root_dir (drive s) root) e) i t
        \<and> solo c k t \<and> idle t"
proof -
  let ?d = "root_dir (drive s) root"
  have so: "solo c (Suc (2 + k)) s" by (rule solo_fewer [OF assms(1)]) simp
  obtain i1 s1 where r: "iget root s = Inr (Some i1, s1)" "handed s root i1 s1" "solo c (2 + k) s1" "files_only s s1" "kept_bufs s s1"
    by (rule iget_solo [OF so assms(3,8,9)])
  note F1 = files_only_sel [OF r(4)]
  obtain ip where ip: "inodes s1 = (inodes s)[i1 := ip]" "on_disk (drive s) ip" "inum ip = root" "i1 < length (inodes s)"
    using r(2) by (auto simp: handed_def)
  have ad: "iaddr (inodes s1 ! i1) ! 0 = iaddr (load_dinode (drive s root) inode_zero) ! 0"
    using on_disk_iaddr [OF ip(2)] ip(1,3,4) by simp
  have so1: "solo c (Suc (1 + k)) s1" by (rule solo_fewer [OF r(3)]) simp
  obtain b s2 where b: "bread (iaddr (inodes s1 ! i1) ! 0) s1 = Inr (b, s2)" "bdata (blocks s2 ! b) = ?d" "disk_only s1 s2"
      "b < 256" "brefcnt (blocks s2 ! b) \<noteq> 0" "kept_bufs s1 (brelse b s2)" "solo c (1 + k) s2"
    by (rule bread_solo [OF so1, of "iaddr (inodes s1 ! i1) ! 0"])
      (use ad assms(10) F1 idle_kept [OF r(5) assms(2)] in \<open>auto simp: root_dir_def\<close>)
  note D = disk_only_sel [OF b(3)]
  have h2: "handed s root i1 s2" using r(2) D by (simp add: handed_def)
  have cli: "cli_ok s2" using b(7) by (simp add: solo_def alone_def)
  obtain I where I: "irelse (Some i1) s2 = Inr (s2\<lparr>inodes := I\<rparr>)" "icache_ok (s2\<lparr>inodes := I\<rparr>)" "same_open s (s2\<lparr>inodes := I\<rparr>)"
    by (rule irelse_handed [OF h2 assms(3,8) cli]) (use D F1 in auto)
  let ?s3 = "s2\<lparr>inodes := I\<rparr>"
  have f3: "files_only s ?s3"
    using files_only_trans [OF files_only_trans [OF r(4) files_only_of_disk [OF b(3)]] files_only_inodes] .
  note F3 = files_only_sel [OF f3]
  have l3: "length (blocks ?s3) = 256" using b(7) by (simp add: solo_def)
  have nm: "uread (path + of_nat i) ?s3 = Inr (p i)" if "i \<le> length (cstr 28 p)" for i
    using assms(5) that F3 by simp
  have c0: "uread path s1 = Inr (p 0)" using assms(5) F1 by (auto dest: spec [of _ 0])
  have run: "namei path s = bnd (case entry ?d p of None \<Rightarrow> Inr (None, ?s3) | Some e \<Rightarrow> iget (dir_ino ?d e) ?s3)
      (\<lambda>(ip, s). Inr (ip, brelse b s))"
    using assms(4,6,7) r(1) c0 b(1,2) I(1) dirlookup_loop_finds [OF nm, where es = "[0..<16]" and d = ?d and s = ?s3]
    by (simp add: namei_def getrootdir_def dirlookup_def entry_def del: upt_rec_numeral)
  have id2: "idle (brelse b s2)" using idle_kept [OF b(6) idle_kept [OF r(5) assms(2)]] .
  show ?thesis
  proof (cases "entry ?d p")
    case None
    have "solo c k (brelse b ?s3)" by (rule solo_brelse) (use b(4,5,7) solo_fewer [of c "1 + k" s2 k] in simp_all)
    moreover have "idle (brelse b ?s3)" by (rule idle_brelse [OF _ id2]) (use l3 b(4) in simp_all)
    moreover have "same_open s (brelse b ?s3)" using I(3) by (simp add: same_open_def brelse_def)
    moreover have "files_only s (brelse b ?s3)" unfolding brelse_def using files_only_trans [OF f3 files_only_blocks] .
    moreover have "namei path s = Inr (None, brelse b ?s3)" using run None by simp
    ultimately show ?thesis unfolding None by auto
  next
    case (Some e)
    have no: "dir_ino ?d e \<noteq> 0" "dir_ino ?d e < NSECTOR" using assms(11) Some by auto
    have so3: "solo c (Suc k) ?s3" using b(7) by simp
    obtain i t where t: "iget (dir_ino ?d e) ?s3 = Inr (Some i, t)" "handed ?s3 (dir_ino ?d e) i t" "solo c k t" "files_only ?s3 t"
        "kept_bufs ?s3 t"
      by (rule iget_solo [OF so3 I(2) no])
    have bt: "blocks t ! b = blocks s2 ! b" "map brefcnt (blocks t) = map brefcnt (blocks s2)"
      using t(5) b(4,5) l3 by (simp_all add: kept_bufs_def)
    have "solo c k (brelse b t)" by (rule solo_brelse [OF t(3) b(4)]) (use bt b(5) in simp)
    moreover have "idle (brelse b t)" by (rule idle_brelse [OF bt(2) id2]) (use l3 b(4) in simp)
    moreover have "opened s (dir_ino ?d e) i t" by (rule opened_handed [OF I(3) t(2)]) (use F3 in simp)
    then have "opened s (dir_ino ?d e) i (brelse b t)" by (simp add: opened_def brelse_def)
    moreover have "files_only s (brelse b t)"
      unfolding brelse_def using files_only_trans [OF files_only_trans [OF f3 t(4)] files_only_blocks] .
    moreover have "namei path s = Inr (Some i, brelse b t)" using run Some t(1) by simp
    ultimately show ?thesis unfolding Some by auto
  qed
qed

section \<open>Properties\<close>

text \<open>
  C6: finding a file by its name. For a process alone on the machine, with no buffer held and the in-core
  inodes those of the drive, \<^verbatim>\<open>namei\<close> of a name in user memory that does not start with a slash returns
  the inode of the first entry of the root directory with that name, cut after 28 characters, as it is on
  the drive, with one more reference; every other open inode is as before, the root included. Without
  such an entry it returns 0 and no inode has changed. At most three sectors are read.
\<close>

theorem namei_finds:
  assumes "solo c (3 + k) s" and "idle s" and "icache_ok s" and "path \<noteq> 0"
    and "\<forall>i \<le> length (cstr 28 p). uread (path + of_nat i) s = Inr (p i)" and "p 0 \<noteq> 47"
    and "root = rootdir (sysfs_of s)" and "root \<noteq> 0" and "root < NSECTOR"
    and "iaddr (load_dinode (drive s root) inode_zero) ! 0 < NSECTOR"
    and "\<forall>e. entry (root_dir (drive s) root) p = Some e \<longrightarrow> dir_ino (root_dir (drive s) root) e \<noteq> 0
      \<and> dir_ino (root_dir (drive s) root) e < NSECTOR"
  shows "case entry (root_dir (drive s) root) p of
      None \<Rightarrow> \<exists>t. namei path s = Inr (None, t) \<and> files_only s t \<and> same_open s t \<and> solo c k t \<and> idle t
    | Some e \<Rightarrow> \<exists>i t. namei path s = Inr (Some i, t) \<and> files_only s t \<and> opened s (dir_ino (root_dir (drive s) root) e) i t
        \<and> solo c k t \<and> idle t"
  by (rule namei_cases [OF assms])

text \<open>
  A process alone whose page table maps the page at \<^verbatim>\<open>0x1000\<close>, with \<^verbatim>\<open>sh\<close> there; the drive has the root inode
  in sector 2, its directory in sector 2048 and the inode of \<^verbatim>\<open>sh\<close> in sector 3.
\<close>

definition ex_name :: "nat \<Rightarrow> u8" where
  "ex_name i = (if i = 0 then 115 else if i = 1 then 104 else 0)"

definition ex_drive :: "u32 \<Rightarrow> u8 list" where
  "ex_drive n = (if n = 2 then (replicate 512 0)[17 := 8]
     else if n = 2048 then (replicate 512 0)[0 := 2, 4 := 46, 32 := 3, 36 := 115, 37 := 104] else replicate 512 0)"

definition ex_page :: memory where
  "ex_page a = (if a = 0x2000 then 1 else if a = 0x2001 then 0x30 else if a = 0x3004 then 1 else if a = 0x3005 then 0x10
     else if a = 0x1000 then 115 else if a = 0x1001 then 104 else 0)"

definition ex_opener :: kernel where
  "ex_opener = ex_reader\<lparr>inodes := replicate 64 inode_zero, drive := ex_drive, pending := replicate 3 IrqIde, cr3 := 0x2000,
     mem := ex_page,
     sysfs_of := (sysfs_of boot_state)\<lparr>rootdir := 2\<rparr>\<rparr>"

lemma ex_page_entry: "pte_at ex_page 0x2000 0x1000 = 0x1001"
proof -
  have "load32 ex_page 0x2000 = 0x3001" "load32 ex_page 0x3004 = 0x1001" by (simp_all add: load32_def ex_page_def le32_def)
  moreover have "pde_ptr 0x2000 0x1000 = 0x2000" by (simp add: pde_ptr_def PDX_def)
  moreover have "pte_slot 0x3000 0x1000 = 0x3004" by (simp add: pte_slot_def PTX_def)
  ultimately show ?thesis by (simp add: pte_at_def PTE_ADDR_def)
qed

lemma ex_opener_name: "uread (0x1000 + of_nat i) ex_opener = Inr (ex_name i)" if "i \<le> 2"
proof -
  have i: "i = 0 \<or> i = 1 \<or> i = 2" using that by auto
  have "pte_at ex_page 0x2000 (0x1000 + of_nat i) = pte_at ex_page 0x2000 0x1000"
    by (rule pte_at_page) (use i in \<open>auto simp: pg_of_def PTE_ADDR_def\<close>)
  then show ?thesis
    using i by (auto simp: uread_def translate_def ex_page_entry ex_opener_def PTE_ADDR_def) (auto simp: ex_page_def ex_name_def)
qed

lemma ex_name_cstr: "cstr 28 ex_name = [115, 104]"
proof -
  have "cstr (Suc (Suc (Suc 25))) ex_name = [115, 104]" by (simp only: cstr_Suc) (simp add: ex_name_def)
  then show ?thesis by simp
qed

lemma entry_1:
  assumes "p 0 \<noteq> dir_fname d 0 0" and "p 0 \<noteq> 0" and "cstr 28 p = cstr 28 (dir_fname d 1)"
  shows "entry d p = Some 1"
proof -
  have "[0..<16] = 0 # 1 # [2..<16]" by (simp add: upt_rec)
  moreover have "cstr (Suc 27) p \<noteq> cstr (Suc 27) (dir_fname d 0)" using assms(1,2) by (simp only: cstr_Suc) simp
  ultimately show ?thesis using assms(3) by (simp add: entry_def del: upt_rec_numeral)
qed

lemma ex_dir:
  "iaddr (load_dinode (ex_drive 2) inode_zero) ! 0 = 2048" "entry (root_dir ex_drive 2) ex_name = Some 1"
  "dir_ino (root_dir ex_drive 2) 1 = 3"
proof -
  show ad: "iaddr (load_dinode (ex_drive 2) inode_zero) ! 0 = 2048"
    by (simp add: load_dinode_def ex_drive_def get32_def le32_def del: upt_rec_numeral)
  let ?d = "root_dir ex_drive 2"
  have d: "?d = (replicate 512 0)[0 := 2, 4 := 46, 32 := 3, 36 := 115, 37 := 104]"
    unfolding root_dir_def ad by (simp add: ex_drive_def)
  have "cstr (Suc (Suc (Suc 25))) (dir_fname ?d 1) = [115, 104]" by (simp only: cstr_Suc) (simp add: d dir_fname_def)
  then show "entry ?d ex_name = Some 1" by (intro entry_1) (simp_all add: d dir_fname_def ex_name_cstr, simp_all add: ex_name_def)
  show "dir_ino ?d 1 = 3" by (simp add: d dir_ino_def get32_def le32_def)
qed

theorem namei_finds_witness:
  "\<exists>i t. namei 0x1000 ex_opener = Inr (Some i, t) \<and> inum (inodes t ! i) = 3 \<and> irefcnt (inodes t ! i) = 1"
proof -
  let ?s = ex_opener
  have "alone 1 ?s"
    by (auto simp: alone_def ex_opener_def ex_reader_def ex_proc_def proc_zero_def lock_zero_def cli_ok_def nth_Cons')
  moreover have "coherent ?s" "length (blocks ?s) = 256" "pending ?s = replicate (3 + 0) IrqIde @ []"
    by (simp_all add: coherent_def sound_def ex_opener_def ex_reader_def block_zero_def)
  ultimately have so: "solo 1 (3 + 0) ?s" unfolding solo_def by blast
  have id: "idle ?s" by (simp add: idle_def ex_opener_def ex_reader_def block_zero_def)
  have ic: "icache_ok ?s" by (simp add: icache_ok_def ex_opener_def inode_zero_def)
  have rd: "\<forall>i \<le> length (cstr 28 ex_name). uread (0x1000 + of_nat i) ?s = Inr (ex_name i)"
    using ex_opener_name by (simp add: ex_name_cstr)
  have dr: "drive ?s = ex_drive" by (simp add: ex_opener_def)
  have p0: "ex_name 0 \<noteq> 47" by (simp add: ex_name_def)
  have rt: "2 = rootdir (sysfs_of ?s)" by (simp add: ex_opener_def)
  have iv: "ivalid (inodes ?s ! i) = 0" if "i < length (inodes ?s)" for i
    using that by (simp add: ex_opener_def inode_zero_def)
  obtain i t where "namei 0x1000 ?s = Inr (Some i, t)" "opened ?s 3 i t"
    using namei_finds [OF so id ic _ rd p0 rt] ex_dir unfolding dr by auto
  then show ?thesis using iv by (auto simp: opened_def)
qed

end
