(* ===== verification/Mix_Switch.thy ===== *)
theory Mix_Switch
  imports Mix_Fork
begin

text \<open>
  The assembly of \<^verbatim>\<open>kernel/swtch.S\<close> and \<^verbatim>\<open>kernel/trapasm.S\<close>: how a process leaves the processor and gets it back, and
  how user mode enters the kernel and returns. With it \<^verbatim>\<open>sched\<close>, \<^verbatim>\<open>uinit\<close> and system calls are followed to
  the next instruction of the user program.
\<close>

section \<open>Registers and the stack\<close>

text \<open>The flags are in the state of the machine already.\<close>

record regs =
  eax :: u32
  ecx :: u32
  edx :: u32
  ebx :: u32
  esp :: u32
  ebp :: u32
  esi :: u32
  edi :: u32
  eip :: u32
  reg_cs :: u16
  reg_ds :: u16
  reg_es :: u16
  reg_fs :: u16
  reg_gs :: u16
  reg_ss :: u16

type_synonym cpu = "regs \<times> memory"

text \<open>A segment register is pushed as a word of which only the lower half is read again.\<close>

definition pushl :: "u32 \<Rightarrow> cpu \<Rightarrow> cpu" where
  "pushl v x = (let a = esp (fst x) - 4 in ((fst x)\<lparr>esp := a\<rparr>, store32 (snd x) a v))"

definition popl :: "cpu \<Rightarrow> u32 \<times> cpu" where
  "popl x = (load32 (snd x) (esp (fst x)), (fst x)\<lparr>esp := esp (fst x) + 4\<rparr>, snd x)"

definition popw :: "cpu \<Rightarrow> u16 \<times> cpu" where
  "popw x = (load16 (snd x) (esp (fst x)), (fst x)\<lparr>esp := esp (fst x) + 4\<rparr>, snd x)"

section \<open>\<open>swtch\<close>\<close>

text \<open>
  \<open>i\<close> is the process whose field \<^verbatim>\<open>context\<close> the first argument points to, \<open>new\<close> the second argument. The
  registers are those at the call, with the return address on the stack; \<^verbatim>\<open>eax\<close> gets the address of the field,
  which the model has no number for, and keeps its value here. The caller uses neither \<^verbatim>\<open>eax\<close> nor \<^verbatim>\<open>edx\<close> again.
\<close>

definition swtch :: "nat \<Rightarrow> u32 \<Rightarrow> regs \<Rightarrow> kernel \<Rightarrow> regs \<times> kernel" where
  "swtch i new r s =
     (let (r', m) = pushl (edi r) (pushl (esi r) (pushl (ebx r) (pushl (ebp r) (r\<lparr>edx := new\<rparr>, mem s))));
          s = s\<lparr>mem := m, procs := upd_at i (\<lambda>p. p\<lparr>pcontext := esp r'\<rparr>) (procs s)\<rparr>;
          (di, x) = popl (r'\<lparr>esp := new\<rparr>, m);
          (si, x) = popl x;
          (bx, x) = popl x;
          (bp, x) = popl x;
          (ip, x) = popl x
      in ((fst x)\<lparr>edi := di, esi := si, ebx := bx, ebp := bp, eip := ip\<rparr>, s))"

text \<open>\<^verbatim>\<open>sched\<close> and \<^verbatim>\<open>uinit\<close> with their last call; \<open>r\<close> are the registers at that call.\<close>

definition sched_swtch :: "regs \<Rightarrow> kernel \<Rightarrow> (regs \<times> kernel) res" where
  "sched_swtch r s =
     bnd (sched_to s) (\<lambda>(n, t). case (n, procp s) of
        (Some j, Some i) \<Rightarrow> Inr (swtch i (pcontext (procs t ! j)) r t)
      | (Some j, None) \<Rightarrow> Inl (Fault ''sched: oldproc'')
      | (None, _) \<Rightarrow> Inr (r, t))"

definition uinit :: "regs \<Rightarrow> kernel \<Rightarrow> (regs \<times> kernel) res" where
  "uinit r s = bnd (uinit_to s) (\<lambda>(n, t). Inr (swtch 0 (pcontext (procs t ! n)) r t))"

section \<open>Entering the kernel\<close>

text \<open>
  What the processor does for a trap through the gate \<open>n\<close>: from user mode it takes the stack of the task
  state segment and saves the user stack on it; an interrupt gate masks interrupts. \<open>err\<close> is the error code, for
  the exceptions that have one.
\<close>

definition enter_gate :: "nat \<Rightarrow> u32 option \<Rightarrow> regs \<Rightarrow> kernel \<Rightarrow> cpu \<times> kernel" where
  "enter_gate n err r s =
     (let g = idt s ! n;
          x = (if reg_cs r AND 3 = 0 then (r, mem s)
               else pushl (esp r) (pushl (ucast (reg_ss r)) (r\<lparr>esp := ts_esp0 (ts s), reg_ss := ts_ss0 (ts s)\<rparr>, mem s)));
          x = pushl (eip r) (pushl (ucast (reg_cs r)) (pushl (eflags s) x));
          x = (case err of None \<Rightarrow> x | Some e \<Rightarrow> pushl e x)
      in (((fst x)\<lparr>reg_cs := gate_cs g, eip := gate_off g\<rparr>, snd x),
          s\<lparr>eflags := if gate_type g = ucast STS_IG32 then eflags s AND NOT FL_IF else eflags s\<rparr>))"

text \<open>The entry \<open>n\<close> of \<^verbatim>\<open>vectors.S\<close>, which pushes 0 where the processor pushes no error code.\<close>

definition vector :: "nat \<Rightarrow> cpu \<Rightarrow> cpu" where
  "vector n x = pushl (of_nat n) (if n \<in> {8, 10, 11, 12, 13, 14, 17} then x else pushl 0 x)"

definition pushal :: "cpu \<Rightarrow> cpu" where
  "pushal x =
     (let r = fst x in
      pushl (edi r) (pushl (esi r) (pushl (ebp r) (pushl (esp r)
        (pushl (ebx r) (pushl (edx r) (pushl (ecx r) (pushl (eax r) x))))))))"

text \<open>\<^verbatim>\<open>alltraps\<close> up to its call of \<^verbatim>\<open>trap\<close>, with the argument on top of the stack.\<close>

definition alltraps :: "cpu \<Rightarrow> cpu" where
  "alltraps x =
     (let r = fst x;
          x = pushl (ucast (reg_gs r)) (pushl (ucast (reg_fs r)) (pushl (ucast (reg_es r)) (pushl (ucast (reg_ds r)) x)));
          x = pushal x;
          r = (fst x)\<lparr>eax := (eax r AND NOT 0xFFFF) OR SEG_KDATA, reg_ds := ucast SEG_KDATA, reg_es := ucast SEG_KDATA\<rparr>
      in pushl (esp r) (r, snd x))"

section \<open>Leaving the kernel\<close>

text \<open>\<^verbatim>\<open>iret\<close> takes the user stack as well when it returns to a lower privilege.\<close>

definition iret :: "cpu \<Rightarrow> kernel \<Rightarrow> regs \<times> kernel" where
  "iret x s =
     (let (ip, x) = popl x;
          (c, x) = popw x;
          (fl, x) = popl x;
          r = (fst x)\<lparr>eip := ip, reg_cs := c\<rparr>;
          s = s\<lparr>eflags := fl\<rparr>
      in if reg_cs (fst x) AND 3 < c AND 3 then
           (let (sp, x) = popl x; (st, x) = popw x in (r\<lparr>esp := sp, reg_ss := st\<rparr>, s))
         else (r, s))"

definition trapret :: "regs \<Rightarrow> kernel \<Rightarrow> regs \<times> kernel" where
  "trapret r s =
     (let (di, x) = popl (r, mem s);
          (si, x) = popl x;
          (bp, x) = popl x;
          (_, x) = popl x;
          (bx, x) = popl x;
          (dx, x) = popl x;
          (cx, x) = popl x;
          (ax, x) = popl x;
          (g, x) = popw x;
          (f, x) = popw x;
          (e, x) = popw x;
          (d, x) = popw x;
          r = (fst x)\<lparr>edi := di, esi := si, ebp := bp, ebx := bx, edx := dx, ecx := cx, eax := ax,
                reg_gs := g, reg_fs := f, reg_es := e, reg_ds := d, esp := esp (fst x) + 8\<rparr>
      in iret (r, snd x) s)"

text \<open>
  A trap from entry to return. What \<^verbatim>\<open>trap\<close> does with the registers does not matter: \<^verbatim>\<open>trapret\<close> loads them
  all. \<^verbatim>\<open>int\<close> is two bytes long, and \<open>eip\<close> is saved behind it.
\<close>

definition through_trap :: "(chan \<Rightarrow> u32) \<Rightarrow> u32 \<Rightarrow> u8 \<Rightarrow> nat \<Rightarrow> u32 option \<Rightarrow> regs \<Rightarrow> kernel \<Rightarrow> (regs \<times> kernel) res" where
  "through_trap addr cr2 scancode n err r s =
     (let (x, s) = enter_gate n err r s;
          (r, m) = alltraps (vector n x);
          s = s\<lparr>mem := m\<rparr>
      in bnd (trap addr cr2 scancode (load32 m (esp r)) s) (\<lambda>s. Inr (trapret (r\<lparr>esp := esp r + 4\<rparr>) s)))"

definition int_syscall :: "regs \<Rightarrow> kernel \<Rightarrow> (regs \<times> kernel) res" where
  "int_syscall r = through_trap (\<lambda>_. 0) 0 0 T_SYSCALL None (r\<lparr>eip := eip r + 2\<rparr>)"

section \<open>Several pushes\<close>

fun store_words :: "u32 \<Rightarrow> u32 list \<Rightarrow> memory \<Rightarrow> memory" where
  "store_words a [] m = m"
| "store_words a (w # ws) m = store32 (store_words (a + 4) ws m) a w"

lemma store_words_outside:
  assumes "4 * length ws \<le> unat (x - a)" and "4 * length ws < 2 ^ 32"
  shows "store_words a ws m x = m x"
  using assms
proof (induction ws arbitrary: a)
  case (Cons w ws)
  have "unat ((x - a) - 4) = unat (x - a) - 4" by (subst unat_sub) (use Cons.prems(1) in \<open>simp_all add: word_le_nat_alt\<close>)
  then have "unat (x - (a + 4)) = unat (x - a) - 4" by (simp add: algebra_simps)
  then have "store_words (a + 4) ws m x = m x" using Cons by simp
  then show ?case using Cons.prems(1) by (simp add: store32_outside)
qed simp

lemma load32_store_words:
  assumes "i < length ws" and "4 * length ws < 2 ^ 32"
  shows "load32 (store_words a ws m) (a + 4 * of_nat i) = ws ! i"
  using assms
proof (induction ws arbitrary: a i)
  case (Cons w ws)
  show ?case
  proof (cases i)
    case 0
    then show ?thesis by simp
  next
    case (Suc j)
    have "load32 (store32 (store_words (a + 4) ws m) a w) (a + 4 * of_nat i) = load32 (store_words (a + 4) ws m) (a + 4 * of_nat i)"
    proof (rule load32_cong)
      fix d :: nat
      assume d: "d < 4"
      have "a + 4 * of_nat i + of_nat d - a = of_nat (4 * i + d)" by simp
      moreover have "4 * i + d < 2 ^ 32" using Cons.prems Suc d by simp
      ultimately have "unat (a + 4 * of_nat i + of_nat d - a) = 4 * i + d" using unat_of_nat32 by metis
      then show "store32 (store_words (a + 4) ws m) a w (a + 4 * of_nat i + of_nat d)
          = store_words (a + 4) ws m (a + 4 * of_nat i + of_nat d)"
        using Suc by (intro store32_outside) simp
    qed
    also have "a + 4 * of_nat i = (a + 4) + 4 * of_nat j" using Suc by (simp add: algebra_simps)
    finally show ?thesis using Cons.IH [of j "a + 4"] Cons.prems Suc by (simp add: add.assoc)
  qed
qed simp

text \<open>Words in the order in which they were pushed, the last one on top.\<close>

lemma pushl_store_words: "pushl v (r\<lparr>esp := a\<rparr>, store_words a ws m) = (r\<lparr>esp := a - 4\<rparr>, store_words (a - 4) (v # ws) m)"
  by (simp add: pushl_def Let_def)

lemma pushl_start: "pushl v (r, m) = (r\<lparr>esp := esp r - 4\<rparr>, store_words (esp r - 4) [v] m)"
  by (simp add: pushl_def Let_def)

lemma store_words_frame:
  assumes "\<And>x. pg_of x \<notin> Q \<Longrightarrow> 4 * length ws \<le> unat (x - a)" and "4 * length ws < 2 ^ 32"
  shows "mem_frame Q m (store_words a ws m)"
  unfolding mem_frame_def using store_words_outside [OF assms(1) assms(2)] by auto

section \<open>Switching\<close>

definition saved :: "regs \<Rightarrow> memory \<Rightarrow> memory" where
  "saved r m = store_words (esp r - 16) [edi r, esi r, ebx r, ebp r] m"

lemma swtch_eq:
  "swtch i new r s =
    (let m = saved r (mem s) in
     (r\<lparr>edx := new, edi := load32 m new, esi := load32 m (new + 4), ebx := load32 m (new + 8), ebp := load32 m (new + 12),
        eip := load32 m (new + 16), esp := new + 20\<rparr>,
      s\<lparr>mem := m, procs := upd_at i (\<lambda>p. p\<lparr>pcontext := esp r - 16\<rparr>) (procs s)\<rparr>))"
  by (cases r) (simp add: swtch_def saved_def Let_def pushl_def popl_def add.commute)

section \<open>The trap frame\<close>

text \<open>The registers of a user program in a trap frame, in the layout of \<^verbatim>\<open>include/x86/trapframe.h\<close>.\<close>

definition frame_regs :: "memory \<Rightarrow> u32 \<Rightarrow> regs" where
  "frame_regs m t =
     \<lparr>eax = load32 m (t + TF_EAX), ecx = load32 m (t + 24), edx = load32 m (t + 20), ebx = load32 m (t + 16),
      esp = load32 m (t + TF_ESP), ebp = load32 m (t + 8), esi = load32 m (t + 4), edi = load32 m t,
      eip = load32 m (t + TF_EIP), reg_cs = load16 m (t + TF_CS), reg_ds = load16 m (t + TF_DS),
      reg_es = load16 m (t + TF_ES), reg_fs = load16 m (t + 36), reg_gs = load16 m (t + 32), reg_ss = load16 m (t + TF_SS)\<rparr>"

lemma pop_at:
  "popl (r\<lparr>esp := a\<rparr>, m) = (load32 m a, r\<lparr>esp := a + 4\<rparr>, m)" "popw (r\<lparr>esp := a\<rparr>, m) = (load16 m a, r\<lparr>esp := a + 4\<rparr>, m)"
  by (simp_all add: popl_def popw_def)

lemma trapret_at:
  assumes "reg_cs r AND 3 < load16 (mem s) (t + 60) AND 3"
  shows "trapret (r\<lparr>esp := t\<rparr>) s = (frame_regs (mem s) t, s\<lparr>eflags := load32 (mem s) (t + TF_EFLAGS)\<rparr>)"
proof -
  have "trapret (r\<lparr>esp := t\<rparr>) s = iret (r\<lparr>edi := load32 (mem s) t, esi := load32 (mem s) (t + 4), ebp := load32 (mem s) (t + 8),
      ebx := load32 (mem s) (t + 16), edx := load32 (mem s) (t + 20), ecx := load32 (mem s) (t + 24), eax := load32 (mem s) (t + 28),
      reg_gs := load16 (mem s) (t + 32), reg_fs := load16 (mem s) (t + 36), reg_es := load16 (mem s) (t + 40),
      reg_ds := load16 (mem s) (t + 44), esp := t + 56\<rparr>, mem s) s"
    by (cases r) (simp add: trapret_def pop_at add.assoc popl_def popw_def)
  then show ?thesis using assms by (cases r) (simp add: iret_def frame_regs_def popl_def popw_def add.assoc)
qed

lemma trapret_user:
  assumes "reg_cs r AND 3 = 0" and "load16 (mem s) (esp r + 60) AND 3 \<noteq> 0"
  shows "trapret r s = (frame_regs (mem s) (esp r), s\<lparr>eflags := load32 (mem s) (esp r + TF_EFLAGS)\<rparr>)"
  using trapret_at [of r s "esp r"] assms by (simp add: word_neq_0_conv)

lemma load16_load32: "load16 m a = ucast (load32 m a)"
proof (rule bit_eqI)
  fix n
  assume "possible_bit TYPE(u16) n"
  then show "bit (load16 m a) n = bit (ucast (load32 m a) :: u16) n"
    unfolding load16_def load32_def le32_def by (cases "n < 8") (auto simp: bit_simps)
qed

definition frame_holds :: "memory \<Rightarrow> u32 \<Rightarrow> u32 \<Rightarrow> regs \<Rightarrow> u32 \<Rightarrow> bool" where
  "frame_holds m t n r fl \<longleftrightarrow> frame_regs m t = r \<and> load32 m (t + TF_TRAPNO) = n \<and> load32 m (t + TF_EFLAGS) = fl"

text \<open>What user mode leaves on the kernel stack, upwards from the argument of \<^verbatim>\<open>trap\<close>.\<close>

definition trap_words :: "u32 \<Rightarrow> nat \<Rightarrow> u32 \<Rightarrow> regs \<Rightarrow> u32 \<Rightarrow> u32 list" where
  "trap_words t n e r fl = [t, edi r, esi r, ebp r, t + 32, ebx r, edx r, ecx r, eax r,
     ucast (reg_gs r), ucast (reg_fs r), ucast (reg_es r), ucast (reg_ds r), of_nat n, e,
     eip r, ucast (reg_cs r), fl, esp r, ucast (reg_ss r)]"

lemma ucast_16_32 [simp]: "ucast (ucast (w :: u16) :: u32) = w"
  by (rule bit_eqI) (auto simp: bit_simps)

lemma trap_words_hold:
  "frame_holds (store_words (t - 4) (trap_words t n e r fl) m) t (of_nat n) r fl"
proof -
  define M where "M = store_words (t - 4) (trap_words t n e r fl) m"
  have w: "load32 M (t + (4 * of_nat i - 4)) = trap_words t n e r fl ! i" if "i < 20" for i
  proof -
    have "t + (4 * of_nat i - 4) = (t - 4) + 4 * of_nat i" by simp
    moreover have "load32 M ((t - 4) + 4 * of_nat i) = trap_words t n e r fl ! i"
      unfolding M_def by (rule load32_store_words) (use that in \<open>simp_all add: trap_words_def\<close>)
    ultimately show ?thesis by (simp only:)
  qed
  have "load32 M t = edi r" "load32 M (t + 4) = esi r" "load32 M (t + 8) = ebp r" "load32 M (t + 16) = ebx r"
    "load32 M (t + 20) = edx r" "load32 M (t + 24) = ecx r" "load32 M (t + 28) = eax r"
    "load32 M (t + 32) = ucast (reg_gs r)" "load32 M (t + 36) = ucast (reg_fs r)" "load32 M (t + 40) = ucast (reg_es r)"
    "load32 M (t + 44) = ucast (reg_ds r)" "load32 M (t + 48) = of_nat n" "load32 M (t + 56) = eip r"
    "load32 M (t + 60) = ucast (reg_cs r)" "load32 M (t + 64) = fl" "load32 M (t + 68) = esp r" "load32 M (t + 72) = ucast (reg_ss r)"
    using w [of 1] w [of 2] w [of 3] w [of 5] w [of 6] w [of 7] w [of 8] w [of 9] w [of 10] w [of 11] w [of 12] w [of 13]
      w [of 15] w [of 16] w [of 17] w [of 18] w [of 19]
    by (simp_all add: trap_words_def)
  then show ?thesis unfolding M_def [symmetric] by (simp add: frame_holds_def frame_regs_def load16_load32)
qed

lemma load32_span:
  assumes "\<And>j. j < n \<Longrightarrow> m (t + of_nat j) = m' (t' + of_nat j)" and "c + 4 \<le> n"
  shows "load32 m (t + of_nat c) = load32 m' (t' + of_nat c)"
proof -
  have "m (t + of_nat c + of_nat i) = m' (t' + of_nat c + of_nat i)" if "i < 4" for i
    using assms(1) [of "c + i"] assms(2) that by (simp add: add.assoc)
  from this [of 0] this [of 1] this [of 2] this [of 3] show ?thesis by (simp add: load32_def)
qed

lemma frame_regs_cong:
  assumes "\<And>j. j < 76 \<Longrightarrow> m (t + of_nat j) = m' (t' + of_nat j)"
  shows "frame_regs m t = frame_regs m' t'" and "load32 m (t + 64) = load32 m' (t' + 64)"
proof -
  have l: "load32 m (t + of_nat c) = load32 m' (t' + of_nat c)" if "c \<le> 72" for c
    by (rule load32_span [where n = 76]) (use assms that in auto)
  show "load32 m (t + 64) = load32 m' (t' + 64)" using l [of 64] by simp
  show "frame_regs m t = frame_regs m' t'"
    using l [of 0] l [of 4] l [of 8] l [of 16] l [of 20] l [of 24] l [of 28] l [of 32] l [of 36] l [of 40] l [of 44]
      l [of 56] l [of 60] l [of 68] l [of 72]
    by (simp add: frame_regs_def load16_load32)
qed

section \<open>Entering the kernel from user mode\<close>

lemma enter_user:
  assumes "reg_cs r AND 3 \<noteq> 0" and "t = ts_esp0 (ts s) - 76"
    and "err = (if n \<in> {8, 10, 11, 12, 13, 14, 17} then Some e else None)" and "n \<notin> {8, 10, 11, 12, 13, 14, 17} \<Longrightarrow> e = 0"
  shows "\<exists>r'. alltraps (vector n (fst (enter_gate n err r s))) = (r', store_words (t - 4) (trap_words t n e r (eflags s)) (mem s))
    \<and> esp r' = t - 4 \<and> reg_cs r' = gate_cs (idt s ! n)"
  using assms
  by (cases "n \<in> {8, 10, 11, 12, 13, 14, 17}")
    (simp_all add: enter_gate_def vector_def alltraps_def pushal_def trap_words_def Let_def pushl_def)

lemma memmove_self: "memmove t t n m = m"
  using memmove_eq [of t t n m] by auto

lemma load32_store32_at:
  assumes "unat a + 4 \<le> unat b \<or> unat b + 4 \<le> unat a" and "unat b + 4 \<le> 2 ^ 32" and "unat a + 4 \<le> 2 ^ 32"
  shows "load32 (store32 m (t + a) v) (t + b) = load32 m (t + b)"
proof (rule load32_cong)
  fix i :: nat
  assume i: "i < 4"
  have "unat (b + of_nat i) = unat b + i" by (rule unat_add_small) (use assms(2) i in simp)
  then have "4 \<le> unat (b + of_nat i - a)" using assms i by (auto simp: unat_sub_if')
  moreover have "t + b + of_nat i - (t + a) = b + of_nat i - a" by simp
  ultimately show "store32 m (t + a) v (t + b + of_nat i) = m (t + b + of_nat i)" by (intro store32_outside) metis
qed

lemma frame_regs_eax:
  "frame_regs (store32 m (t + TF_EAX) v) t = (frame_regs m t)\<lparr>eax := v\<rparr>"
  "load32 (store32 m (t + TF_EAX) v) (t + 60) = load32 m (t + 60)"
  "load32 (store32 m (t + TF_EAX) v) (t + 64) = load32 m (t + 64)"
proof -
  let ?m = "store32 m (t + TF_EAX) v"
  have l: "load32 ?m (t + b) = load32 m (t + b)" if "unat b + 4 \<le> 28 \<or> 32 \<le> unat b" "unat b \<le> 100" for b
    by (rule load32_store32_at) (use that in auto)
  show "load32 ?m (t + 60) = load32 m (t + 60)" "load32 ?m (t + 64) = load32 m (t + 64)" by (rule l; simp)+
  have "load32 ?m t = load32 m t" using l [of 0] by simp
  moreover have "load32 ?m (t + 4) = load32 m (t + 4)" "load32 ?m (t + 8) = load32 m (t + 8)" "load32 ?m (t + 16) = load32 m (t + 16)"
    "load32 ?m (t + 20) = load32 m (t + 20)" "load32 ?m (t + 24) = load32 m (t + 24)" "load32 ?m (t + 32) = load32 m (t + 32)"
    "load32 ?m (t + 36) = load32 m (t + 36)" "load32 ?m (t + 40) = load32 m (t + 40)" "load32 ?m (t + 44) = load32 m (t + 44)"
    "load32 ?m (t + 56) = load32 m (t + 56)" "load32 ?m (t + 60) = load32 m (t + 60)" "load32 ?m (t + 68) = load32 m (t + 68)"
    "load32 ?m (t + 72) = load32 m (t + 72)"
    by (rule l; simp)+
  ultimately show "frame_regs ?m t = (frame_regs m t)\<lparr>eax := v\<rparr>" by (simp add: frame_regs_def load16_load32)
qed

text \<open>The state in which \<^verbatim>\<open>trap\<close> finds the kernel after \<^verbatim>\<open>int $0x40\<close>.\<close>

definition entered :: "nat \<Rightarrow> regs \<Rightarrow> kernel \<Rightarrow> kernel" where
  "entered c r s = s\<lparr>mem := store_words (tf (procs s ! c) - 4)
     (trap_words (tf (procs s ! c)) T_SYSCALL 0 (r\<lparr>eip := eip r + 2\<rparr>) (eflags s)) (mem s)\<rparr>"

definition in_user :: "nat \<Rightarrow> regs \<Rightarrow> kernel \<Rightarrow> bool" where
  "in_user c r s \<longleftrightarrow> procp s = Some c \<and> reg_cs r AND 3 \<noteq> 0 \<and> ts_esp0 (ts s) = tf (procs s ! c) + TF_SIZE
     \<and> gate_type (idt s ! T_SYSCALL) = ucast STS_TG32 \<and> gate_cs (idt s ! T_SYSCALL) = ucast SEG_KCODE"

lemma int_syscall_eq:
  assumes "in_user c r s" and "syscall (eax r) (entered c r s) = Inr (v, u)" and "t = tf (procs s ! c)"
    and "load16 (mem u) (t + TF_CS) AND 3 \<noteq> 0"
  shows "int_syscall r s = Inr ((frame_regs (mem u) t)\<lparr>eax := of_int v\<rparr>,
    u\<lparr>mem := store32 (mem u) (t + TF_EAX) (of_int v), eflags := load32 (mem u) (t + TF_EFLAGS)\<rparr>)"
proof -
  note U = assms(1) [unfolded in_user_def]
  let ?r = "r\<lparr>eip := eip r + 2\<rparr>"
  obtain r' where r': "alltraps (vector T_SYSCALL (fst (enter_gate T_SYSCALL None ?r s))) = (r', mem (entered c r s))"
      "esp r' = t - 4" "reg_cs r' = 8"
    using enter_user [of ?r t s None T_SYSCALL 0] U assms(3) by (auto simp: entered_def)
  have e: "snd (enter_gate T_SYSCALL None ?r s) = s" using U by (simp add: enter_gate_def Let_def)
  have "frame_holds (mem (entered c r s)) t 64 ?r (eflags s)"
    using trap_words_hold [of t 64 0 ?r "eflags s" "mem s"] assms(3) by (simp add: entered_def)
  then have f: "load32 (mem (entered c r s)) (t + 48) = 64" "load32 (mem (entered c r s)) (t + 28) = eax r"
    by (auto simp: frame_holds_def frame_regs_def dest: arg_cong [of _ _ eax])
  have "load32 (mem (entered c r s)) (t - 4 + 4 * of_nat 0) = t"
    using load32_store_words [of 0 "trap_words t 64 0 ?r (eflags s)" "t - 4" "mem s"] assms(3) by (simp add: entered_def trap_words_def)
  then have a: "load32 (mem (entered c r s)) (t - 4) = t" by simp
  let ?e = "entered c r s" and ?u = "u\<lparr>mem := store32 (mem u) (t + TF_EAX) (of_int v)\<rparr>"
  have se: "s\<lparr>mem := mem ?e\<rparr> = ?e" by (simp add: entered_def)
  have "cur ?e = Inr (procs s ! c)" using U by (simp add: cur_def entered_def)
  then have tr: "trap (\<lambda>_. 0) 0 0 t ?e = Inr ?u" using f assms(2,3) by (simp add: trap_def Let_def memmove_self)
  have "load16 (mem ?u) (esp (r'\<lparr>esp := t\<rparr>) + 60) AND 3 \<noteq> 0"
    using assms(4) frame_regs_eax(2) [of "mem u" t "of_int v"] by (simp add: load16_load32)
  then have "trapret (r'\<lparr>esp := t\<rparr>) ?u = (frame_regs (mem ?u) t, ?u\<lparr>eflags := load32 (mem ?u) (t + TF_EFLAGS)\<rparr>)"
    using trapret_user [of "r'\<lparr>esp := t\<rparr>" ?u] r'(3) by simp
  then have "trapret (r'\<lparr>esp := t\<rparr>) ?u = ((frame_regs (mem u) t)\<lparr>eax := of_int v\<rparr>, ?u\<lparr>eflags := load32 (mem u) (t + TF_EFLAGS)\<rparr>)"
    using frame_regs_eax [of "mem u" t "of_int v"] by simp
  moreover have "int_syscall r s = bnd (trap (\<lambda>_. 0) 0 0 (load32 (mem ?e) (esp r')) ?e) (\<lambda>s. Inr (trapret (r'\<lparr>esp := esp r' + 4\<rparr>) s))"
    using r'(1) e se by (simp add: int_syscall_def through_trap_def case_prod_beta Let_def del: T_SYSCALL_def)
  ultimately show ?thesis using tr a r'(2) by simp
qed

lemma entered_frame:
  assumes "t = tf (procs s ! c)"
  shows "frame_regs (mem (entered c r s)) t = r\<lparr>eip := eip r + 2\<rparr>" "load32 (mem (entered c r s)) (t + 64) = eflags s"
  using trap_words_hold [of t 64 0 "r\<lparr>eip := eip r + 2\<rparr>" "eflags s" "mem s"] assms
  by (simp_all add: entered_def frame_holds_def)

lemma syscall_kept:
  assumes "in_user c r s" and "syscall (eax r) (entered c r s) = Inr (v, u)" and "t = tf (procs s ! c)"
    and "\<forall>j < 76. mem u (t + of_nat j) = mem (entered c r s) (t + of_nat j)"
  shows "int_syscall r s = Inr (r\<lparr>eip := eip r + 2, eax := of_int v\<rparr>,
    u\<lparr>mem := store32 (mem u) (t + TF_EAX) (of_int v), eflags := eflags s\<rparr>)"
proof -
  have f: "frame_regs (mem u) t = r\<lparr>eip := eip r + 2\<rparr>" "load32 (mem u) (t + 64) = eflags s"
    using frame_regs_cong [of "mem u" t "mem (entered c r s)" t] entered_frame [OF assms(3)] assms(4) by simp_all
  then have "load16 (mem u) (t + TF_CS) = reg_cs r" by (auto simp: frame_regs_def dest: arg_cong [of _ _ reg_cs])
  then show ?thesis using int_syscall_eq [OF assms(1-3)] assms(1) f by (simp add: in_user_def)
qed

section \<open>Being switched to\<close>

text \<open>The words a switch saves below the stack pointer of \<open>q\<close> do not meet the \<open>n\<close> bytes at \<open>a\<close>.\<close>

definition apart :: "u32 \<Rightarrow> nat \<Rightarrow> regs \<Rightarrow> bool" where
  "apart a n q \<longleftrightarrow> (\<forall>d < n. 16 \<le> unat (a + of_nat d - (esp q - 16)))"

lemma saved_apart: "apart a n q \<Longrightarrow> d < n \<Longrightarrow> saved q m (a + of_nat d) = m (a + of_nat d)"
  unfolding saved_def by (rule store_words_outside) (simp_all add: apart_def)

lemma load32_saved:
  assumes "apart a n q" and "c + 4 \<le> n"
  shows "load32 (saved q m) (a + of_nat c) = load32 m (a + of_nat c)"
  by (rule load32_span [where n = n]) (use saved_apart [OF assms(1)] assms(2) in auto)

lemma swtch_to:
  assumes "apart a 20 q"
  shows "swtch i a q u =
    (q\<lparr>edx := a, edi := load32 (mem u) a, esi := load32 (mem u) (a + 4), ebx := load32 (mem u) (a + 8), ebp := load32 (mem u) (a + 12),
       eip := load32 (mem u) (a + 16), esp := a + 20\<rparr>,
     u\<lparr>mem := saved q (mem u), procs := upd_at i (\<lambda>p. p\<lparr>pcontext := esp q - 16\<rparr>) (procs u)\<rparr>)"
  using load32_saved [OF assms, of 0 "mem u"] load32_saved [OF assms, of 4 "mem u"] load32_saved [OF assms, of 8 "mem u"]
    load32_saved [OF assms, of 12 "mem u"] load32_saved [OF assms, of 16 "mem u"]
  by (simp add: swtch_eq Let_def)

lemma saved_words:
  "load32 (saved r m) (esp r - 16) = edi r" "load32 (saved r m) (esp r - 12) = esi r"
  "load32 (saved r m) (esp r - 8) = ebx r" "load32 (saved r m) (esp r - 4) = ebp r" "load32 (saved r m) (esp r) = load32 m (esp r)"
proof -
  have w: "load32 (saved r m) (esp r - 16 + 4 * of_nat i) = [edi r, esi r, ebx r, ebp r] ! i" if "i < 4" for i
    unfolding saved_def by (rule load32_store_words) (use that in simp_all)
  show "load32 (saved r m) (esp r - 16) = edi r" "load32 (saved r m) (esp r - 12) = esi r"
    "load32 (saved r m) (esp r - 8) = ebx r" "load32 (saved r m) (esp r - 4) = ebp r"
    using w [of 0] w [of 1] w [of 2] w [of 3] by simp_all
  show "load32 (saved r m) (esp r) = load32 m (esp r)"
  proof (rule load32_cong)
    fix i :: nat
    assume "i < 4"
    then have "unat (16 + of_nat i :: u32) = 16 + i" using unat_of_nat32 [of "16 + i"] by simp
    then show "saved r m (esp r + of_nat i) = m (esp r + of_nat i)"
      unfolding saved_def by (intro store_words_outside) (simp_all add: algebra_simps)
  qed
qed

section \<open>Fork\<close>

lemma frame_copied_regs:
  assumes "frame_copied m t m' t'"
  shows "frame_regs m' t' = (frame_regs m t)\<lparr>eax := 0\<rparr>" "load32 m' (t' + 64) = load32 m (t + 64)"
proof -
  have "m' (t' + of_nat j) = store32 m (t + 28) 0 (t + of_nat j)" if "j < 76" for j
  proof -
    have "unat (of_nat j - 28 :: u32) < 4 \<longleftrightarrow> 28 \<le> j \<and> j < 32"
      using that unat_of_nat32 [of j] by (auto simp: unat_sub_if')
    moreover have "t + of_nat j - (t + 28) = of_nat j - 28" by simp
    ultimately show ?thesis using assms that by (simp add: frame_copied_def store32_eq byte_of_def)
  qed
  note C = frame_regs_cong [of m' t' "store32 m (t + 28) 0" t, OF this]
  show "frame_regs m' t' = (frame_regs m t)\<lparr>eax := 0\<rparr>" using C(1) frame_regs_eax(1) [of m t 0] by simp
  show "load32 m' (t' + 64) = load32 m (t + 64)" using C(2) frame_regs_eax(3) [of m t 0] by simp
qed

lemma page_apart:
  assumes "pgal k" and "pg_of x \<noteq> k" and "unat c < 4096"
  shows "4096 - unat c \<le> unat (x - (k + c))"
proof -
  have h: "4096 \<le> unat (x - k)" using pg_of_iff [OF assms(1), of x] assms(2) by (simp add: word_less_nat_alt)
  have "unat ((x - k) - c) = unat (x - k) - unat c" by (rule unat_sub) (use h assms(3) in \<open>simp add: word_le_nat_alt\<close>)
  then show ?thesis using h by (simp add: algebra_simps)
qed

lemma stack_frame:
  assumes "pgal k" and "length ws \<le> 20"
  shows "mem_frame {k} m (store_words (k + 0xFB0) ws m)"
  by (rule store_words_frame) (use page_apart [OF assms(1), where c = "0xFB0"] assms(2) in force)+

lemma page_frame32:
  assumes "pgal k" and "unat d + 4 \<le> 4096"
  shows "mem_frame {k} m (store32 m (k + d) v)"
  unfolding mem_frame_def
proof (intro allI impI)
  fix a
  assume "pg_of a \<notin> {k}"
  then have "4096 - unat d \<le> unat (a - (k + d))" using page_apart [OF assms(1), of a d] assms(2) by simp
  then show "store32 m (k + d) v a = m a" using assms(2) by (intro store32_outside) simp
qed

lemma stack_frame32: "pgal k \<Longrightarrow> mem_frame {k} m (store32 m (k + 0xFD0) v)"
  by (rule page_frame32) simp_all

lemma entered_page:
  assumes "pgal (kstack (procs s ! c))" and "tf (procs s ! c) = kstack (procs s ! c) + 0xFB4"
  shows "mem_frame {kstack (procs s ! c)} (mem s) (mem (entered c r s))"
  using stack_frame [OF assms(1), of "trap_words (tf (procs s ! c)) T_SYSCALL 0 (r\<lparr>eip := eip r + 2\<rparr>) (eflags s)" "mem s"] assms(2)
  by (simp add: entered_def trap_words_def add.commute del: store_words.simps)

lemma entered_sel [simp]:
  "procs (entered c r s) = procs s" "files (entered c r s) = files s" "eflags (entered c r s) = eflags s"
  "nextpid (entered c r s) = nextpid s" "procp (entered c r s) = procp s" "trapret_at (entered c r s) = trapret_at s"
  "cli_room n (entered c r s) = cli_room n s" "kvm_ok (entered c r s) = kvm_ok s"
  by (simp_all add: entered_def cli_room_def cli_ok_def)

text \<open>The kernel stack of \<open>c\<close> is a page of its own, with the trap frame on its top.\<close>

definition stack_page :: "nat \<Rightarrow> u32 list \<Rightarrow> kernel \<Rightarrow> bool" where
  "stack_page c xs s \<longleftrightarrow> (let p = procs s ! c in pgal (kstack p) \<and> tf p = kstack p + 0xFB4
     \<and> kstack p \<notin> set xs \<and> kstack p \<notin> owned (mem s) (pgdir p))"

lemma can_fork_entered:
  assumes "can_fork c k xs s" and "stack_page c (k # xs) s"
  shows "can_fork c k xs (entered c r s)"
proof -
  let ?K = "kstack (procs s ! c)" and ?pg = "pgdir (procs s ! c)"
  note F = assms(1) [unfolded can_fork_def] and S = assms(2) [unfolded stack_page_def Let_def]
  have f: "mem_frame {?K} (mem s) (mem (entered c r s))" using entered_page S by simp
  have "uvm_inv s ?pg (k # xs)" using F by simp
  note W = uvm_write [OF this f] S
  have "entered c r s = s\<lparr>mem := mem (entered c r s)\<rparr>" by (simp add: entered_def)
  then have "uvm_inv (entered c r s) ?pg (k # xs)" using W(1) S by metis
  then show ?thesis using F W(3) S by (simp add: can_fork_def)
qed

lemma stack_address:
  assumes "pgal k" and "j < 96"
  shows "pg_of (k + 0xFA0 + of_nat j) = k"
proof -
  have "unat (k + of_nat (4000 + j)) = unat k + (4000 + j)" using pgal_unat_add [OF assms(1), of "4000 + j"] assms(2) by simp
  then have "unat (k + 0xFA0 + of_nat j) = unat k + (4000 + j)" by (simp add: add.assoc)
  then have "unat (pg_of (k + 0xFA0 + of_nat j)) = unat k"
    using assms by (auto simp: unat_pg_of pgal_def)
  then show ?thesis by (simp add: word_unat_eq_iff)
qed

text \<open>
  \<open>enters n k ret r fl s\<close>: with the kernel stack \<open>k\<close> as it is in \<open>s\<close>, the first switch to \<open>n\<close>, from any process,
  goes to \<open>ret\<close>, and \<^verbatim>\<open>trapret\<close> from there ends in user mode with the registers \<open>r\<close> and the flags \<open>fl\<close>.
\<close>

definition enters :: "nat \<Rightarrow> u32 \<Rightarrow> u32 \<Rightarrow> regs \<Rightarrow> u32 \<Rightarrow> kernel \<Rightarrow> bool" where
  "enters n k ret r fl s \<longleftrightarrow> (\<forall>i q u. pcontext (procs u ! n) = pcontext (procs s ! n) \<and> reg_cs q AND 3 = 0
     \<and> (\<forall>d < 96. mem u (k + 0xFA0 + of_nat d) = mem s (k + 0xFA0 + of_nat d)) \<and> apart (k + 0xFA0) 96 q \<longrightarrow>
     (case swtch i (pcontext (procs u ! n)) q u of (q', u') \<Rightarrow>
        eip q' = ret \<and> trapret q' u' = (r, u'\<lparr>eflags := fl\<rparr>)))"

lemma entersI:
  assumes c: "pcontext (procs s ! n) = k + 0xFA0" and r: "load32 (mem s) (k + 0xFB0) = ret"
    and f: "frame_regs (mem s) (k + 0xFB4) = r" "load32 (mem s) (k + 0xFB4 + 64) = fl" "reg_cs r AND 3 \<noteq> 0"
  shows "enters n k ret r fl s"
  unfolding enters_def
proof (intro allI impI, elim conjE)
  fix i :: nat and q :: regs and u :: kernel
  assume p: "pcontext (procs u ! n) = pcontext (procs s ! n)" "reg_cs q AND 3 = 0"
    and m: "\<forall>d < 96. mem u (k + 0xFA0 + of_nat d) = mem s (k + 0xFA0 + of_nat d)" and a: "apart (k + 0xFA0) 96 q"
  have a20: "apart (k + 0xFA0) 20 q" using a by (simp add: apart_def)
  let ?m = "saved q (mem u)"
  have same: "?m (k + 0xFA0 + of_nat d) = mem s (k + 0xFA0 + of_nat d)" if "d < 96" for d
    using saved_apart [OF a that] m that by simp
  have "?m (k + 0xFB4 + of_nat j) = mem s (k + 0xFB4 + of_nat j)" if "j < 76" for j
    using same [of "20 + j"] that by (simp add: algebra_simps)
  note F = frame_regs_cong [of ?m "k + 0xFB4" "mem s" "k + 0xFB4", OF this]
  have "load32 (mem u) (k + 0xFA0 + of_nat 16) = load32 (mem s) (k + 0xFA0 + of_nat 16)"
    by (rule load32_span [where n = 96]) (use m in auto)
  then have ip: "load32 (mem u) (k + 0xFA0 + 16) = ret" using r by (simp add: add.commute)
  have cs: "load16 ?m (k + 0xFB4 + 60) = reg_cs r" using F(1) f(1) by (auto simp: frame_regs_def dest: arg_cong [of _ _ reg_cs])
  show "case swtch i (pcontext (procs u ! n)) q u of (q', u') \<Rightarrow>
      eip q' = ret \<and> trapret q' u' = (r, u'\<lparr>eflags := fl\<rparr>)"
    unfolding p(1) c swtch_to [OF a20] case_prod_conv
    using ip cs F f p(2) by (subst trapret_user) (simp_all add: add.commute)
qed

text \<open>The new stack page \<open>k\<close> with a copy of the trap frame \<open>t\<close>, still as it is in the memory \<open>m'\<close>.\<close>

lemma child_enters:
  assumes al: "pgal k" and m: "\<And>a. pg_of a = k \<Longrightarrow> mem s a = m' a" and f: "frame_copied m t m' (k + 0xFB4)"
    and l: "load32 m' (k + 0xFB0) = ret" and r: "frame_regs m t = r" "load32 m (t + 64) = fl" "reg_cs r AND 3 \<noteq> 0"
    and c: "pcontext (procs s ! n) = k + 0xFA0"
  shows "enters n k ret (r\<lparr>eax := 0\<rparr>) fl s"
proof (rule entersI [OF c])
  have "mem s (k + 0xFA0 + of_nat d) = m' (k + 0xFA0 + of_nat d)" if "d < 96" for d
    by (rule m [OF stack_address [OF al that]])
  note L = load32_span [of 96 "mem s" "k + 0xFA0" m' "k + 0xFA0", OF this]
  show "load32 (mem s) (k + 0xFB0) = ret" using L [of 16] l by (simp add: add.commute)
  have "mem s (k + 0xFB4 + of_nat j) = m' (k + 0xFB4 + of_nat j)" if "j < 76" for j
    by (rule m [OF frame_address [OF al that]])
  note C = frame_regs_cong [of "mem s" "k + 0xFB4" m' "k + 0xFB4", OF this] and R = frame_copied_regs [OF f]
  show "frame_regs (mem s) (k + 0xFB4) = r\<lparr>eax := 0\<rparr>" using C(1) R(1) r(1) by simp
  show "load32 (mem s) (k + 0xFB4 + 64) = fl" using C(2) R(2) r(2) by simp
  show "reg_cs (r\<lparr>eax := 0\<rparr>) AND 3 \<noteq> 0" using r(3) by simp
qed

section \<open>Properties\<close>

text \<open>
  C3: \<^verbatim>\<open>fork\<close> returns twice. A process executes \<^verbatim>\<open>int $0x40\<close> with the number of \<^verbatim>\<open>fork\<close>: it goes on behind the
  instruction with the number of the child in \<^verbatim>\<open>eax\<close> and every other register, the flags and its memory as
  before. The child is runnable, and the first \<^verbatim>\<open>swtch\<close> to it, whenever it comes and from whatever process, returns
  through \<^verbatim>\<open>trapret\<close> to the same instruction with 0 in \<^verbatim>\<open>eax\<close>, the same other registers and flags, and an
  address space that reads as the parent's did.
\<close>

theorem fork_returns_twice:
  assumes "in_user c r s" and "eax r = SYS_fork" and "can_fork c k xs s" and "stack_page c (k # xs) s"
    and "129 \<le> length xs" and "copy_needed (apages KERNEND (KERNEND + psize (procs s ! c))) \<le> length xs"
    and "find_idx (\<lambda>p. stat p = UNUSED) (procs s) = Some n" and "pg = pgdir (procs s ! c)"
  shows "\<exists>dir s'. int_syscall r s = Inr (r\<lparr>eip := eip r + 2, eax := nextpid s\<rparr>, s') \<and> eflags s' = eflags s
    \<and> procs s' = (procs s)[n := child_proc (procs s ! c) c (nextpid s) k dir]
    \<and> (\<forall>v. pg_of v \<in> upages (mem s) pg \<longrightarrow> vread (mem s') pg v = vread (mem s) pg v)
    \<and> upages (mem s') dir = apages KERNEND (KERNEND + psize (procs s ! c))
    \<and> (\<forall>v. pg_of v \<in> upages (mem s') dir \<longrightarrow> vread (mem s') dir v = vread (mem s) pg v)
    \<and> enters n k (trapret_at s) (r\<lparr>eip := eip r + 2, eax := 0\<rparr>) (eflags s) s'"
proof -
  let ?e = "entered c r s" and ?K = "kstack (procs s ! c)" and ?P = "apages KERNEND (KERNEND + psize (procs s ! c))"
  let ?r = "r\<lparr>eip := eip r + 2\<rparr>"
  note U = assms(1) [unfolded in_user_def] and S = assms(4) [unfolded stack_page_def Let_def]
  note CF = can_fork_entered [OF assms(3,4), of r]
  obtain dir u ys where F: "sys_fork ?e = Inr (sint (nextpid s), u)" "procs u = (procs s)[n := child_proc (procs s ! c) c (nextpid s) k dir]"
      "forked ?e c ?P k dir (mem u)" "uvm_inv u dir ys" "uvm_inv u pg ys" "mem_frame (insert k (set xs)) (mem ?e) (mem u)"
      "owned (mem u) dir \<union> set ys = set xs" "owned (mem u) pg = owned (mem ?e) pg"
      "upages (mem u) pg = upages (mem ?e) pg"
    using fork_succeeds [OF CF _ assms(5)] assms(6-8) by auto
  note K = F(3) [unfolded forked_def]
  have F0: "uvm_inv s pg (k # xs)" using assms(3,8) by (simp add: can_fork_def)
  have "mem_frame {?K} (mem s) (mem ?e)" using entered_page S by simp
  note W = uvm_write [OF F0 this]
  have kk: "mem u (?K + 0xFB4 + of_nat j) = mem ?e (?K + 0xFB4 + of_nat j)" if "j < 76" for j
    by (rule mem_frameD [OF F(6)]) (use frame_address [OF _ that, of ?K] S in auto)
  have sc: "syscall (eax r) ?e = Inr (sint (nextpid s), u)" using assms(2) F(1) by (simp add: syscall_def syscalls_def)
  let ?m = "store32 (mem u) (?K + 0xFD0) (nextpid s)"
  let ?s' = "u\<lparr>mem := ?m, eflags := eflags s\<rparr>"
  have run: "int_syscall r s = Inr (r\<lparr>eip := eip r + 2, eax := nextpid s\<rparr>, ?s')"
    using syscall_kept [OF assms(1) sc refl] kk S by (simp add: add.assoc)
  have f: "mem_frame {?K} (mem u) ?m" using S by (simp add: stack_frame32)
  have Kn: "?K \<notin> owned (mem u) dir" "?K \<notin> set ys" "?K \<notin> owned (mem u) pg" using F(7,8) W(2) S assms(8) by auto
  note D = uvm_write [OF F(4) f Kn(1,2)] and E = uvm_write [OF F(5) f Kn(3,2)]
  have "vread ?m pg v = vread (mem s) pg v" if "pg_of v \<in> upages (mem s) pg" for v
    using E(4) [of v] W(3) W(4) [of v] K F(9) that S assms(8) by simp
  moreover have "?P \<subseteq> upages (mem s) pg" using assms(3,8) by (simp add: can_fork_def)
  then have "vread ?m dir v = vread (mem s) pg v" if "pg_of v \<in> ?P" for v
    using D(4) [of v] W(4) [of v] K that S assms(8) by auto
  moreover have "upages ?m dir = ?P" using D(3) K by simp
  moreover have "enters n k (trapret_at s) (r\<lparr>eip := eip r + 2, eax := 0\<rparr>) (eflags s) ?s'"
  proof -
    have "page_ok s k" using F0 uvm_invD(1) vm_invD(1) by (fastforce simp: kmem_inv_def)
    then have al: "pgal k" by (rule page_ok_pgal)
    have m: "mem ?s' a = mem u a" if "pg_of a = k" for a using mem_frameD [OF f, of a] that S by auto
    have n: "pcontext (procs ?s' ! n) = k + 0xFA0"
      using F(2) find_idx_SomeD [OF assms(7)] by (simp add: child_proc_def new_proc_def)
    have "frame_copied (mem ?e) (tf (procs s ! c)) (mem u) (k + 0xFB4)" "load32 (mem u) (k + 0xFB0) = trapret_at s" using K by simp_all
    from child_enters [OF al m this entered_frame [OF refl] _ n] show ?thesis using U by simp
  qed
  ultimately show ?thesis using run F(2) by (intro exI [of _ dir] exI [of _ ?s']) simp
qed

lemma owned_page_ok: "uvm_inv s pg xs \<Longrightarrow> q \<in> owned (mem s) pg \<Longrightarrow> page_ok s q"
  using uvm_invD(1,3) vm_invD(2,11) by (fastforce simp: owned_def vm_pages_def)

lemma page_ok_high: "page_ok s q \<Longrightarrow> kern_ok s \<Longrightarrow> 0x100000 \<le> q"
  by (simp add: page_ok_def kern_ok_def word_le_nat_alt)

lemma low_page:
  assumes "uvm_inv s pg xs" and "q < 0x100000"
  shows "q \<notin> owned (mem s) pg" "q \<notin> set xs"
proof -
  have k: "kern_ok s" using vm_invD(8) [OF uvm_invD(1) [OF assms(1)]] .
  then show "q \<notin> owned (mem s) pg" using owned_page_ok [OF assms(1)] page_ok_high assms(2) by (meson not_less)
  show "q \<notin> set xs"
    using vm_invD(1) [OF uvm_invD(1) [OF assms(1)]] page_ok_high [OF _ k] assms(2) by (fastforce simp: kmem_inv_def)
qed

text \<open>Process 1, with its kernel stack in the page \<^verbatim>\<open>0x1000\<close>, about to execute \<^verbatim>\<open>int $0x40\<close> for \<^verbatim>\<open>fork\<close>.\<close>

definition ex_regs :: regs where
  "ex_regs = \<lparr>eax = 2, ecx = 11, edx = 12, ebx = 13, esp = 0x40001F00, ebp = 0x40001F40, esi = 14, edi = 15,
     eip = 0x40000100, reg_cs = 0x1B, reg_ds = 0x23, reg_es = 0x23, reg_fs = 0, reg_gs = 0, reg_ss = 0x23\<rparr>"

theorem fork_returns_twice_witness:
  "\<exists>v pg k dir s'. int_syscall ex_regs ((ex_fork v pg)\<lparr>nextpid := 7\<rparr>) = Inr (ex_regs\<lparr>eip := 0x40000102, eax := 7\<rparr>, s')
    \<and> stat (procs s' ! 0) = RUN \<and> pgdir (procs s' ! 0) = dir \<and> vread (mem s') dir 0x40001234 = vread (mem v) pg 0x40001234
    \<and> enters 0 k 0x101234 (ex_regs\<lparr>eip := 0x40000102, eax := 0\<rparr>) 0x202 s'"
proof (rule ex_two_pages)
  fix s0 s1 v :: vm and pg xs
  assume v: "uvm_inv v pg xs" "upages (mem v) pg = ex_pages" "kvm_ok v" "130000 \<le> length xs"
  obtain k ys where xs: "xs = k # ys" "129999 \<le> length ys" using v(4) by (cases xs) auto
  let ?s = "(ex_fork v pg)\<lparr>nextpid := 7\<rparr>"
  have cf: "can_fork 1 k ys ?s"
    using ex_fork_ok [OF v(1) [unfolded xs(1)] v(3,2)] by (simp add: can_fork_def cli_room_def cli_ok_def)
  have eq: "mem ?s = mem v" "procs ?s = proc_zero # ex_forker pg # replicate 62 proc_zero" "nextpid ?s = 7" "eflags ?s = 0x202"
    "trapret_at ?s = 0x101234"
    by (simp_all add: ex_fork_def)
  have p1: "procs ?s ! 1 = ex_forker pg" by (simp add: eq(2))
  have "idt ?s ! 64 = SETGATE True 8 64 3" by (simp add: ex_fork_def idtinit_def Let_def)
  then have u: "in_user 1 ex_regs ?s"
    by (simp add: in_user_def p1) (simp add: ex_fork_def ex_forker_def ex_regs_def SETGATE_def)
  have "0x1000 \<notin> owned (mem v) pg" "0x1000 \<notin> set xs" using low_page [OF v(1), of "0x1000"] by simp_all
  then have sp: "stack_page 1 (k # ys) ?s" unfolding stack_page_def p1 by (simp add: eq(1) xs(1) ex_forker_def pgal_def)
  have "PGROUNDUP 0x40000000 = 0x40000000" using unat_PGROUNDUP [of "0x40000000"] by (simp add: word_unat_eq_iff)
  then have P: "apages KERNEND (KERNEND + psize (ex_forker pg)) = ex_pages" using ex_apages by (simp add: ex_forker_def)
  have "copy_needed ex_pages \<le> 133"
    using ex_needed [of 0 "\<lambda>_. 0"] card_image_le [of ex_pages dx] by (simp add: copy_needed_def ex_pages_def)
  then have n: "copy_needed (apages KERNEND (KERNEND + psize (procs ?s ! 1))) \<le> length ys" using xs(2) by (simp only: P p1)
  have f: "find_idx (\<lambda>p. stat p = UNUSED) (procs ?s) = Some 0" by (simp add: eq(2) proc_zero_def)
  have ax: "eax ex_regs = SYS_fork" "129 \<le> length ys" using xs(2) by (simp_all add: ex_regs_def)
  obtain dir s' where r: "int_syscall ex_regs ?s = Inr (ex_regs\<lparr>eip := eip ex_regs + 2, eax := nextpid ?s\<rparr>, s')"
      "procs s' = (procs ?s)[0 := child_proc (ex_forker pg) 1 (nextpid ?s) k dir]" "upages (mem s') dir = ex_pages"
      "\<forall>v. pg_of v \<in> upages (mem s') dir \<longrightarrow> vread (mem s') dir v = vread (mem ?s) (pgdir (ex_forker pg)) v"
      "enters 0 k (trapret_at ?s) (ex_regs\<lparr>eip := eip ex_regs + 2, eax := 0\<rparr>) (eflags ?s) s'"
    using fork_returns_twice [OF u ax(1) cf sp ax(2) n f refl] unfolding p1 P by blast
  have "pg_of 0x40001234 \<in> ex_pages" by (simp add: pg_of_def PTE_ADDR_def ex_pages_def)
  then have "vread (mem s') dir 0x40001234 = vread (mem v) pg 0x40001234" using r(3,4) by (simp add: eq(1) ex_forker_def)
  moreover have "procs s' ! 0 = child_proc (ex_forker pg) 1 7 k dir" using r(2) by (simp add: eq(2,3))
  moreover have "eip ex_regs + 2 = 0x40000102" by (simp add: ex_regs_def)
  ultimately show ?thesis
    using r(1,5) by (intro exI [of _ v] exI [of _ pg] exI [of _ k] exI [of _ dir] exI [of _ s'])
      (simp add: eq(3-5) child_proc_def)
qed

lemma sched_swtch_cases:
  assumes "sched_swtch r s = Inr (r', s')" and "procp s = Some i" and "procp s' \<noteq> Some i"
  obtains j t where "sched_to s = Inr (Some j, t)" "procs t = procs s" "mem t = mem s" "procp s' = Some j"
    "(r', s') = swtch i (pcontext (procs s ! j)) r t"
proof -
  obtain n t where t: "sched_to s = Inr (n, t)" using assms(1) by (cases "sched_to s") (auto simp: sched_swtch_def)
  show thesis
  proof (cases n)
    case None
    then have "sched s = Inr t" using t by (simp add: sched_def)
    then have "procp t = Some i" using sched_returns assms(2) by metis
    then show thesis using t None assms by (simp add: sched_swtch_def)
  next
    case (Some j)
    note S = sched_to_switch [OF t [unfolded Some]]
    have e: "(r', s') = swtch i (pcontext (procs s ! j)) r t"
      using assms(1,2) t Some S by (simp add: sched_swtch_def)
    then have "procp s' = Some j" using S by (auto simp: swtch_eq Let_def)
    then show thesis using that t Some S e by blast
  qed
qed

text \<open>
  C8: a process that was switched away gets the processor back where it was. When the process \<open>i\<close> has called
  \<^verbatim>\<open>sched\<close> and lost the processor, and later, with the saved words of its kernel stack untouched, a process
  \<open>j\<close> on another stack calls \<^verbatim>\<open>sched\<close> and \<open>i\<close> is chosen, then \<open>i\<close> returns from its \<^verbatim>\<open>swtch\<close>: the return address, the
  stack pointer and the registers that a call must keep are those of its call.
\<close>

theorem sched_resumes:
  assumes "procp s = Some i" and "i < length (procs s)" and "sched_swtch r s = Inr (r1, s1)" and "procp s1 \<noteq> Some i"
    and "procp u = Some j" and "i \<noteq> j" and "sched_swtch q u = Inr (q1, u1)" and "procp u1 = Some i"
    and "pcontext (procs u ! i) = pcontext (procs s1 ! i)"
    and "\<forall>d < 20. mem u (esp r - 16 + of_nat d) = mem s1 (esp r - 16 + of_nat d)" and "apart (esp r - 16) 20 q"
  shows "edi q1 = edi r \<and> esi q1 = esi r \<and> ebx q1 = ebx r \<and> ebp q1 = ebp r \<and> esp q1 = esp r + 4
    \<and> eip q1 = load32 (mem s) (esp r)
    \<and> (\<forall>d < 20. mem u1 (esp r - 16 + of_nat d) = mem s1 (esp r - 16 + of_nat d))"
proof (rule sched_swtch_cases [OF assms(3,1,4)])
  fix n t
  assume t: "sched_to s = Inr (Some n, t)" "procs t = procs s" "mem t = mem s" "(r1, s1) = swtch i (pcontext (procs s ! n)) r t"
  have s1: "mem s1 = saved r (mem s)" "pcontext (procs s1 ! i) = esp r - 16"
    using t assms(2) by (auto simp: swtch_eq Let_def)
  have "procp u1 \<noteq> Some j" using assms(6,8) by simp
  then show ?thesis
  proof (rule sched_swtch_cases [OF assms(7,5)])
    fix n' v
    assume v: "procs v = procs u" "mem v = mem u" "procp u1 = Some n'" "(q1, u1) = swtch j (pcontext (procs u ! n')) q v"
    have w: "load32 (mem u) (esp r - 16 + of_nat c) = load32 (saved r (mem s)) (esp r - 16 + of_nat c)" if "c \<le> 16" for c
      by (rule load32_span [where n = 20]) (use assms(10) s1(1) that in auto)
    have W: "load32 (mem u) (esp r - 16) = edi r" "load32 (mem u) (esp r - 12) = esi r" "load32 (mem u) (esp r - 8) = ebx r"
      "load32 (mem u) (esp r - 4) = ebp r" "load32 (mem u) (esp r) = load32 (mem s) (esp r)"
      using w [of 0] w [of 4] w [of 8] w [of 12] w [of 16] saved_words [of r "mem s"] by simp_all
    have e: "(q1, u1) = swtch j (esp r - 16) q v" using v assms(8,9) s1(2) by simp
    have "mem u1 (esp r - 16 + of_nat d) = mem u (esp r - 16 + of_nat d)" if "d < 20" for d
      using e saved_apart [OF assms(11) that, of "mem u"] v(2) by (simp add: swtch_eq Let_def)
    then show ?thesis using e W assms(10) v(2) by (auto simp: swtch_to [OF assms(11)])
  qed
qed


text \<open>
  C14: the switch is not atomic. \<^verbatim>\<open>sched\<close> makes the new process \<open>j\<close> the current one and then calls \<^verbatim>\<open>popcli\<close>, which lets
  interrupts in again when they were on, before \<^verbatim>\<open>swtch\<close>. A timer interrupt there that calls \<^verbatim>\<open>sched\<close> for a third
  process saves the registers of the old process, on the stack of the old process, as the context of
  \<open>j\<close>: the place where \<open>j\<close> was is lost, and the context of the old process is the outdated one.
\<close>

theorem switch_interrupted:
  assumes "cli_room 2 s" and "interruptible s" and "procp s = Some i" and "i \<noteq> j" and "j < length (procs s)"
    and "sched_to s = Inr (Some j, t)" and "sched_swtch q t = Inr (q1, u)" and "procp u \<noteq> Some j"
  shows "interruptible t \<and> procp t = Some j \<and> pcontext (procs u ! i) = pcontext (procs s ! i)
    \<and> pcontext (procs u ! j) = esp q - 16 \<and> load32 (mem u) (esp q - 16) = edi q"
proof -
  note P = sched_to_on_process [OF assms(6,1), unfolded on_process_def]
  have "procp t = Some j" using P by simp
  then show ?thesis
  proof (rule sched_swtch_cases [OF assms(7) _ assms(8)])
    fix n v
    assume "procs v = procs t" "(q1, u) = swtch j (pcontext (procs t ! n)) q v"
    then show ?thesis using assms(2,4,5) P saved_words(1) [of q "mem v"] by (auto simp: swtch_eq Let_def)
  qed
qed

section \<open>Examples\<close>

text \<open>Process 2 sleeps and has the processor; 1 and 3 can run.\<close>

definition ex_three :: "proc list" where
  "ex_three = proc_zero # (ex_proc RUN 0)\<lparr>pcontext := 0x300FA0, tf := 0x300FB4\<rparr> # ex_proc SLEEP 1
     # (ex_proc RUN 2)\<lparr>pcontext := 0x302FA0, tf := 0x302FB4\<rparr> # replicate 60 proc_zero"

lemma ex_three_scan: "sched_scan RUN [0..<64] ex_three 32 None = (Some 3, 34)" "sched_scan RUN [0..<64] ex_three 34 None = (Some 1, 34)"
  by code_simp+

definition ex_switch :: kernel where
  "ex_switch = boot_state\<lparr>procs := ex_three, procp := Some 2, schedix := 32, idt := idt (idtinit of_nat boot_state),
     mem := store32 (store_words 0x300FB0 (trap_words 0x300FB4 64 0 ex_regs 0x202) (\<lambda>_. 0)) 0x300FB0 0x101234\<rparr>"

definition ex_kregs :: "u32 \<Rightarrow> regs" where
  "ex_kregs sp = ex_regs\<lparr>ebx := 21, esi := 22, edi := 23, ebp := 24, esp := sp, eip := 0x100100, reg_cs := 8, reg_ds := 0x10,
     reg_es := 0x10, reg_ss := 0x10\<rparr>"

lemma ex_switch_sel [simp]:
  "procs ex_switch = ex_three" "procp ex_switch = Some 2" "schedix ex_switch = 32" "eflags ex_switch = 0x202" "cli_room 2 ex_switch"
  "trapret_at ex_switch = 0x101234"
  by (simp_all add: ex_switch_def cli_room_def cli_ok_def)

lemma ex_three_nth [simp]:
  "length ex_three = 64" "ex_three ! 1 = (ex_proc RUN 0)\<lparr>pcontext := 0x300FA0, tf := 0x300FB4\<rparr>" "ex_three ! 2 = ex_proc SLEEP 1"
  "ex_three ! Suc 0 = (ex_proc RUN 0)\<lparr>pcontext := 0x300FA0, tf := 0x300FB4\<rparr>"
  "ex_three ! 3 = (ex_proc RUN 2)\<lparr>pcontext := 0x302FA0, tf := 0x302FB4\<rparr>"
  by (simp_all add: ex_three_def)

lemma sched_picks:
  assumes "sched_scan RUN [0..<64] (procs s) (schedix s) None = (Some j, b)" and "procp s \<noteq> Some j" and "cli_room 2 s"
    and "kstack (procs s ! j) \<noteq> 0" and "pgdir (procs s ! j) \<noteq> 0"
  shows "\<exists>t. sched_to s = Inr (Some j, t) \<and> on_process j s t \<and> schedix t = b"
proof -
  from sched_switch [OF assms(3-5), of b] obtain t where
    "bnd (switchuvm (kstack (procs s ! j)) (pgdir (procs s ! j)) ((pushcli s)\<lparr>schedix := b, procp := Some j\<rparr>))
        (\<lambda>s. bnd (popcli s) (\<lambda>s. Inr (Some j, s))) = Inr (Some j, t)" "on_process j s t" "schedix t = b"
    by blast
  then show ?thesis using assms(1,2) by (auto simp: sched_to_def Let_def pushcli_upd)
qed

theorem switch_interrupted_witness:
  "\<exists>t q u. sched_to ex_switch = Inr (Some 3, t) \<and> sched_swtch (ex_kregs 0x301F00) t = Inr (q, u)
    \<and> procp u = Some 1 \<and> pcontext (procs ex_switch ! 3) = 0x302FA0 \<and> pcontext (procs u ! 3) = 0x301EF0"
proof -
  let ?q = "ex_kregs 0x301F00"
  obtain t where t: "sched_to ex_switch = Inr (Some 3, t)" "on_process 3 ex_switch t" "schedix t = 34"
    using sched_picks [of ex_switch 3 34] ex_three_scan(1) by (auto simp: ex_proc_def)
  have p: "procs t = ex_three" "procp t = Some 3" "cli_room 2 t"
    using t(2) ex_switch_sel(5) by (simp_all add: on_process_def cli_room_def cli_ok_def)
  obtain v where v: "sched_to t = Inr (Some 1, v)" "on_process 1 t v"
    using sched_picks [of t 1 34] ex_three_scan(2) p t(3) by (auto simp: ex_proc_def)
  obtain q u where u: "sched_swtch ?q t = Inr (q, u)" "procp u = Some 1"
    using v p by (auto simp: sched_swtch_def swtch_eq Let_def on_process_def)
  have "procp u \<noteq> Some 3" using u(2) by simp
  from switch_interrupted [OF _ _ _ _ _ t(1) u(1) this, of 2] u t(1) show ?thesis
    by (intro exI [of _ t] exI [of _ q] exI [of _ u]) (simp add: ex_kregs_def)
qed

lemma apart_below: "unat a + n + 16 \<le> unat (esp q) \<Longrightarrow> apart a n q"
  unfolding apart_def
proof (intro allI impI)
  fix d
  assume h: "unat a + n + 16 \<le> unat (esp q)" "d < n"
  have "unat (esp q - 16) = unat (esp q) - 16" by (subst unat_sub) (use h in \<open>simp_all add: word_le_nat_alt\<close>)
  moreover have "unat (a + of_nat d) = unat a + d" by (rule unat_add_small) (use h unat32_lt [of "esp q"] in simp)
  ultimately show "16 \<le> unat (a + of_nat d - (esp q - 16))" using h unat32_lt [of "esp q"] by (simp add: unat_sub_if') arith
qed

text \<open>Later 1 and 3 sleep, and 2 was woken.\<close>

definition ex_later :: "proc list" where
  "ex_later = proc_zero # ex_proc SLEEP 0 # (ex_proc RUN 1)\<lparr>pcontext := 0x301EF0\<rparr> # ex_proc SLEEP 2 # replicate 60 proc_zero"

lemma ex_later_scan: "sched_scan RUN [0..<64] ex_later 34 None = (Some 2, 34)"
  by code_simp

theorem sched_resumes_witness:
  "\<exists>r1 s1 q1 u1. sched_swtch (ex_kregs 0x301F00) ex_switch = Inr (r1, s1) \<and> procp s1 = Some 3
    \<and> sched_swtch (ex_kregs 0x302F00) (s1\<lparr>procs := ex_later\<rparr>) = Inr (q1, u1) \<and> procp u1 = Some 2
    \<and> edi q1 = 23 \<and> esp q1 = 0x301F04"
proof -
  let ?r = "ex_kregs 0x301F00" and ?q = "ex_kregs 0x302F00"
  obtain t where t: "sched_to ex_switch = Inr (Some 3, t)" "on_process 3 ex_switch t" "schedix t = 34"
    using sched_picks [of ex_switch 3 34] ex_three_scan(1) by (auto simp: ex_proc_def)
  obtain r1 s1 where s1: "sched_swtch ?r ex_switch = Inr (r1, s1)" "(r1, s1) = swtch 2 0x302FA0 ?r t"
    using t by (cases "swtch 2 0x302FA0 ?r t") (simp add: sched_swtch_def on_process_def)
  have f: "procp s1 = Some 3" "schedix s1 = 34" "cli_room 2 s1" "pcontext (procs s1 ! 2) = 0x301EF0"
    using s1(2) t(2,3) ex_switch_sel(5)
    by (auto simp: swtch_eq Let_def on_process_def cli_room_def cli_ok_def ex_kregs_def)
  let ?u = "s1\<lparr>procs := ex_later\<rparr>"
  have l: "ex_later ! 2 = (ex_proc RUN 1)\<lparr>pcontext := 0x301EF0\<rparr>" by (simp add: ex_later_def)
  obtain v where v: "sched_to ?u = Inr (Some 2, v)" "on_process 2 ?u v"
    using sched_picks [of ?u 2 34] ex_later_scan f l by (auto simp: ex_proc_def cli_room_def cli_ok_def)
  obtain q1 u1 where u1: "sched_swtch ?q ?u = Inr (q1, u1)" "procp u1 = Some 2"
    using v f(1) by (auto simp: sched_swtch_def swtch_eq Let_def on_process_def)
  have a: "apart (esp ?r - 16) 20 ?q" by (rule apart_below) (simp add: ex_kregs_def)
  have p: "procp s1 \<noteq> Some 2" "procp ?u = Some 3" using f(1) by simp_all
  have "edi q1 = edi ?r \<and> esp q1 = esp ?r + 4"
    using sched_resumes [OF ex_switch_sel(2) _ s1(1) p _ u1 _ _ a] f(4) l by simp
  then show ?thesis using s1(1) f(1) u1
    by (intro exI [of _ r1] exI [of _ s1] exI [of _ q1] exI [of _ u1]) (simp add: ex_kregs_def)
qed


end
