(* ===== verification/Mix_Program.thy ===== *)
theory Mix_Program
  imports Mix_Load
begin

text \<open>
  How \<^verbatim>\<open>sys_execv\<close> builds the address space of a program: the headers of the file are read through the buffer
  cache, a new directory gets the kernel part, and every segment its pages and bytes.
\<close>

section \<open>What building a program changes\<close>

text \<open>Memory, the free list, the buffers, the drive and the header buffer on the kernel stack.\<close>

definition program_only :: "kernel \<Rightarrow> kernel \<Rightarrow> bool" where
  "program_only s t \<longleftrightarrow>
     (\<exists>m r B P L K b. t = s\<lparr>mem := m, coremap := r, blocks := B, pending := P, outlog := L, idelock := K, kbuf := b\<rparr>)"

lemma program_onlyI:
  "t = s\<lparr>mem := m, coremap := r, blocks := B, pending := P, outlog := L, idelock := K, kbuf := b\<rparr> \<Longrightarrow> program_only s t"
  unfolding program_only_def by blast

lemma program_only_loaded: "loaded_only s t \<Longrightarrow> program_only s t"
proof -
  assume "loaded_only s t"
  then obtain m r B P L K where "t = s\<lparr>mem := m, coremap := r, blocks := B, pending := P, outlog := L, idelock := K\<rparr>"
    unfolding loaded_only_def by blast
  then have "t = s\<lparr>mem := m, coremap := r, blocks := B, pending := P, outlog := L, idelock := K, kbuf := kbuf s\<rparr>" by (cases s) simp
  then show ?thesis by (rule program_onlyI)
qed

lemma program_only_kbuf: "disk_only (s\<lparr>kbuf := b\<rparr>) t \<Longrightarrow> program_only s t"
proof -
  assume "disk_only (s\<lparr>kbuf := b\<rparr>) t"
  then obtain B P L K where "t = s\<lparr>kbuf := b\<rparr>\<lparr>blocks := B, pending := P, outlog := L, idelock := K\<rparr>"
    unfolding disk_only_def by blast
  then have "t = s\<lparr>mem := mem s, coremap := coremap s, blocks := B, pending := P, outlog := L, idelock := K, kbuf := b\<rparr>" by (cases s) simp
  then show ?thesis by (rule program_onlyI)
qed

lemma program_only_mem_only: "mem_only s t \<Longrightarrow> program_only s t"
  using loaded_only_mem_only program_only_loaded by blast

lemma program_only_trans: "program_only s t \<Longrightarrow> program_only t u \<Longrightarrow> program_only s u"
proof -
  assume "program_only s t" "program_only t u"
  then obtain m r B P L K b m' r' B' P' L' K' b' where
    "t = s\<lparr>mem := m, coremap := r, blocks := B, pending := P, outlog := L, idelock := K, kbuf := b\<rparr>"
    "u = t\<lparr>mem := m', coremap := r', blocks := B', pending := P', outlog := L', idelock := K', kbuf := b'\<rparr>"
    unfolding program_only_def by blast
  then have "u = s\<lparr>mem := m', coremap := r', blocks := B', pending := P', outlog := L', idelock := K', kbuf := b'\<rparr>" by (cases s) simp
  then show ?thesis by (rule program_onlyI)
qed

lemma program_only_sel:
  assumes "program_only s t"
  shows "inodes t = inodes s \<and> drive t = drive s \<and> procp t = procp s \<and> procs t = procs s \<and> files t = files s
    \<and> cr3 t = cr3 s \<and> kmaps t = kmaps s \<and> con_ok t = con_ok s \<and> readable i t = readable i s \<and> page_ok t = page_ok s
    \<and> kvm_ok t = kvm_ok s \<and> cli_ok t = cli_ok s \<and> eflags t = eflags s \<and> ts t = ts s \<and> idt t = idt s"
proof -
  obtain m r B P L K b where
    "t = s\<lparr>mem := m, coremap := r, blocks := B, pending := P, outlog := L, idelock := K, kbuf := b\<rparr>"
    using assms unfolding program_only_def by blast
  then show ?thesis
    by (simp add: con_ok_def readable_def holding_def lock_of_def page_ok_def kvm_ok_def cli_ok_def fun_eq_iff)
qed

section \<open>An address space under construction\<close>

text \<open>
  \<open>building s0 xs0 dir G P s xs\<close>: from \<open>s0\<close> with the free list \<open>xs0\<close> on, the directory \<open>dir\<close> got the kernel part and
  the user pages \<open>P\<close>, writable and open to user mode but for the guard pages \<open>G\<close>. Every page is accounted for, and only pages of \<open>xs0\<close> were
  written.
\<close>

definition building :: "kernel \<Rightarrow> u32 list \<Rightarrow> u32 \<Rightarrow> u32 set \<Rightarrow> u32 set \<Rightarrow> kernel \<Rightarrow> u32 list \<Rightarrow> bool" where
  "building s0 xs0 dir G P s xs \<longleftrightarrow> mem_frame (set xs0) (mem s0) (mem s) \<and> uvm_inv s dir xs
     \<and> owned (mem s) dir \<union> set xs = set xs0 \<and> upages (mem s) dir = P \<and> pres (mem s) dir = {..<128} \<union> dx ` P
     \<and> length xs0 = copy_needed P + length xs
     \<and> (\<forall>v. pg_of v \<notin> P \<longrightarrow> pte_at (mem s) dir v = kernel_pte s0 v)
     \<and> G \<subseteq> P \<and> (\<forall>p \<in> P. PTE_FLAGS (pte_at (mem s) dir p) = (if p \<in> G then 3 else 7))"

lemma buildingD:
  assumes "building s0 xs0 dir G P s xs"
  shows "mem_frame (set xs0) (mem s0) (mem s)" "uvm_inv s dir xs" "owned (mem s) dir \<union> set xs = set xs0"
    "upages (mem s) dir = P" "pres (mem s) dir = {..<128} \<union> dx ` P" "length xs0 = copy_needed P + length xs"
    "pg_of v \<notin> P \<Longrightarrow> pte_at (mem s) dir v = kernel_pte s0 v" "p \<in> P \<Longrightarrow> PTE_FLAGS (pte_at (mem s) dir p) = (if p \<in> G then 3 else 7)" "finite P"
    "G \<subseteq> P"
  using assms finite_upages [of "mem s" dir] by (simp_all add: building_def)

lemma building_start:
  assumes "kmem_inv s (x # xs)" "kvm_ok s" "128 \<le> length xs"
  obtains s' xs' where "setupkvm s = Inr (x, s')" "building s (x # xs) x {} {} s' xs'" "mem_only s s'"
proof (rule setupkvm_space [OF assms])
  fix s' xs'
  assume "setupkvm s = Inr (x, s')" "uvm_inv s' x xs'" "mem_only s s'" "length xs = length xs' + 128"
    "pres (mem s') x = {..<128}" "upages (mem s') x = {}" "mem_frame (set (x # xs)) (mem s) (mem s')"
    "vm_pages (mem s') x \<union> set xs' = set (x # xs)"
    "\<And>v. pte_at (mem s') x v = (if pg_of v < MEMSIZE then pg_of v OR kflag (kmaps s) (pg_of v) OR PTE_P else 0)"
  then show thesis by (intro that [of s' xs']) (simp_all add: building_def kernel_pte_def owned_def copy_needed_def)
qed

lemma user_dx: "KERNEND \<le> v \<Longrightarrow> 256 \<le> dx v"
  by (simp add: dx_def word_le_nat_alt div_le_mono [of 1073741824 "unat v" 4194304, simplified])

text \<open>How many pages a further part of the program takes.\<close>

lemma building_count:
  assumes "building s0 xs0 dir G P s xs" and "Q \<inter> P = {}" and "finite Q" and "\<And>q. q \<in> Q \<Longrightarrow> KERNEND \<le> q"
  shows "copy_needed (P \<union> Q) = copy_needed P + pages_needed dir (mem s) Q"
proof -
  note B = buildingD [OF assms(1)]
  have "dx ` Q - pres (mem s) dir = dx ` Q - dx ` P" using user_dx assms(4) by (fastforce simp: B(5))
  moreover have "card (P \<union> Q) = card P + card Q" using B(9) assms(2,3) by (intro card_Un_disjoint) auto
  moreover have "card (dx ` (P \<union> Q)) = card (dx ` P) + card (dx ` Q - dx ` P)"
    using card_Un_disjoint [of "dx ` P" "dx ` Q - dx ` P"] B(9) assms(3) by (simp add: image_Un)
  ultimately show ?thesis by (simp add: copy_needed_def pages_needed_def)
qed

lemma building_grow:
  assumes b: "building s0 xs0 dir G P s xs" and g: "grown dir Q {} s xs s' ys" and Q: "Q \<inter> P = {}" "finite Q"
    and i: "inside dir (mem s') (mem t)" "uvm_inv t dir ys"
  shows "building s0 xs0 dir G (P \<union> Q) t ys"
proof -
  note B = buildingD [OF b] and I = insideD [OF i(1)]
  have Gr: "uvm_inv s' dir ys" "upages (mem s') dir = P \<union> Q" "pres (mem s') dir = pres (mem s) dir \<union> dx ` Q"
    "\<And>w. pg_of w \<notin> Q \<Longrightarrow> pte_at (mem s') dir w = pte_at (mem s) dir w"
    "\<And>p. p \<in> Q \<Longrightarrow> PTE_FLAGS (pte_at (mem s') dir p) = 7"
    "frame (mem s') dir ` Q \<union> vm_pages (mem s') dir \<union> set ys = vm_pages (mem s) dir \<union> set xs"
    "length xs = length ys + pages_needed dir (mem s) Q" "mem_frame (vm_pages (mem s) dir \<union> set xs) (mem s) (mem s')"
    using g B(4) by (simp_all add: grown_def pages_needed_def)
  have al: "pg_of p = p \<and> KERNEND \<le> p" if "p \<in> P \<union> Q" for p
    using that upages_pgal [of p "mem s'" dir] by (auto simp: Gr(2) [symmetric] upages_def)
  have old: "pte_at (mem s') dir p = pte_at (mem s) dir p" if "p \<in> P" for p
  proof (rule Gr(4))
    show "pg_of p \<notin> Q" using that Q(1) al [of p] by auto
  qed
  then have "frame (mem s') dir ` P = frame (mem s) dir ` P" by (intro image_cong) (simp_all add: frame_def)
  then have own: "owned (mem s') dir \<union> set ys = set xs0"
    using Gr(6) B(3) unfolding owned_def Gr(2) B(4) by (auto simp: image_Un)
  have "vm_pages (mem s) dir \<union> set xs \<subseteq> set xs0" using B(3) by (auto simp: owned_def)
  then have "mem_frame (set xs0) (mem s0) (mem s')" using B(1) Gr(8) mem_frame_trans mem_frame_mono by blast
  moreover have "mem_frame (set xs0) (mem s') (mem t)" using I(4) own by (rule_tac mem_frame_mono) auto
  ultimately have "mem_frame (set xs0) (mem s0) (mem t)" by (rule mem_frame_trans)
  moreover have "copy_needed (P \<union> Q) = copy_needed P + pages_needed dir (mem s) Q"
    using building_count [OF b Q] al by simp
  ultimately show ?thesis
    using own i(2) Gr B old Q(1) by (auto simp: building_def I image_Un)
qed

lemma building_inside:
  assumes "building s0 xs0 dir G P s xs" and "inside dir (mem s) (mem t)" and "uvm_inv t dir xs"
  shows "building s0 xs0 dir G P t xs"
proof -
  have "grown dir {} {} s xs s xs" using assms(1) by (intro grown_none) (simp add: building_def)
  from building_grow [OF assms(1) this _ _ assms(2,3)] show ?thesis by simp
qed

lemma building_program:
  assumes "building s0 xs0 dir G P s xs" and "mem t = mem s" and "uvm_inv t dir xs"
  shows "building s0 xs0 dir G P t xs"
  by (rule building_inside [OF assms(1) _ assms(3)]) (simp add: assms(2))

section \<open>Headers\<close>

definition elf_header :: "(u32 \<Rightarrow> u8 list) \<Rightarrow> inode \<Rightarrow> elfhdr" where
  "elf_header d ip = elf_of (file_part d ip 0 52)"

definition prog_headers :: "(u32 \<Rightarrow> u8 list) \<Rightarrow> inode \<Rightarrow> nat \<Rightarrow> nat \<Rightarrow> proghdr list" where
  "prog_headers d ip off n = map (\<lambda>j. prog_of (file_part d ip (off + 32 * j) 32)) [0..<n]"

lemma prog_headers_simps:
  "prog_headers d ip off 0 = []"
  "prog_headers d ip off (Suc n) = prog_of (file_part d ip off 32) # prog_headers d ip (off + 32) n"
  by (simp_all add: prog_headers_def map_upt_Suc add.assoc del: upt_Suc)

lemma read_header_reads:
  assumes "solo c (k + j) s" and "readable i s" and "unat off + unat n \<le> unat (isize (inodes s ! i))"
    and "0 < unat n" and "sectors_for (unat off) (unat n) \<le> j"
  shows "\<exists>t. read_header i off n s = Inr (Some (file_part (drive s) (inodes s ! i) (unat off) (unat n)), t)
    \<and> program_only s t \<and> mem t = mem s \<and> solo c k t \<and> (\<forall>pg xs. uvm_inv t pg xs = uvm_inv s pg xs)"
proof -
  note R = assms(2) [unfolded readable_def]
  let ?s = "s\<lparr>kbuf := []\<rparr>" and ?bs = "file_part (drive s) (inodes s ! i) (unat off) (unat n)"
  have so: "solo c (k + j) ?s" using assms(1) by (simp add: solo_def alone_def coherent_def cli_ok_def)
  have n: "unat n = min (unat n) (unat (isize (inodes s ! i)) - unat off)" using assms(3) by simp
  obtain t where t: "readi i HeaderBuf off n ?s = Inr (int (unat n), t)" "solo c (k + j - sectors_for (unat off) (unat n)) t"
      "disk_only (delivered HeaderBuf 0 ?bs ?s) t"
    using readi_reads [OF so, of i off n "unat n" HeaderBuf] R assms(3-5) n
    by (auto simp: holding_def lock_of_def fillable_def)
  have d: "disk_only (s\<lparr>kbuf := ?bs\<rparr>) t" using t(3) by (simp add: delivered_def)
  then have kb: "kbuf t = ?bs" "mem t = mem s" by (auto simp: disk_only_def)
  have "sint n = int (unat n)" using assms(3) R by (intro sint_small) simp
  then have "read_header i off n s = Inr (Some ?bs, t)" using t(1) kb(1) by (simp add: read_header_def)
  moreover have "solo c k t" using t(2) by (rule solo_fewer) (use assms(5) in simp)
  moreover have "uvm_inv t pg xs = uvm_inv s pg xs" for pg xs
    unfolding uvm_inv_disk [OF d]
    by (simp add: uvm_inv_def vm_inv_def kmem_inv_def page_ok_def kern_ok_def cli_ok_def)
  ultimately show ?thesis using program_only_kbuf [OF d] kb(2) by blast
qed

section \<open>All segments\<close>

text \<open>
  The headers of a program, as \<^verbatim>\<open>sys_execv\<close> goes through them with the end of the last segment in \<open>va\<close>: what makes
  them acceptable, where the program ends, its pages, the memory it starts with, and the disk interrupts the
  loading may take.
\<close>

fun loadable_all :: "proghdr list \<Rightarrow> u32 \<Rightarrow> inode \<Rightarrow> bool" where
  "loadable_all [] va ip \<longleftrightarrow> True"
| "loadable_all (ph # phs) va ip \<longleftrightarrow>
     (if ph_type ph \<noteq> ELF_PROG_LOAD then loadable_all phs va ip
      else loadable ph va ip \<and> loadable_all phs (ph_vaddr ph + ph_memsz ph) ip)"

fun prog_end :: "proghdr list \<Rightarrow> u32 \<Rightarrow> u32" where
  "prog_end [] va = va"
| "prog_end (ph # phs) va = prog_end phs (if ph_type ph \<noteq> ELF_PROG_LOAD then va else ph_vaddr ph + ph_memsz ph)"

fun prog_pages :: "proghdr list \<Rightarrow> u32 \<Rightarrow> u32 set" where
  "prog_pages [] va = {}"
| "prog_pages (ph # phs) va =
     (if ph_type ph \<noteq> ELF_PROG_LOAD then prog_pages phs va
      else apages (PGROUNDUP va) (ph_vaddr ph + ph_memsz ph) \<union> prog_pages phs (ph_vaddr ph + ph_memsz ph))"

fun prog_mem :: "(u32 \<Rightarrow> u8 list) \<Rightarrow> inode \<Rightarrow> proghdr list \<Rightarrow> u32 \<Rightarrow> (u32 \<Rightarrow> u8 option) \<Rightarrow> u32 \<Rightarrow> u8 option" where
  "prog_mem d ip [] va f = f"
| "prog_mem d ip (ph # phs) va f =
     (if ph_type ph \<noteq> ELF_PROG_LOAD then prog_mem d ip phs va f
      else prog_mem d ip phs (ph_vaddr ph + ph_memsz ph) (overlay (ph_vaddr ph) (segment_bytes d ip ph)
        (\<lambda>v. if pg_of v \<in> apages (PGROUNDUP va) (ph_vaddr ph + ph_memsz ph) then Some 0 else f v)))"

fun prog_reads :: "proghdr list \<Rightarrow> nat" where
  "prog_reads [] = 0"
| "prog_reads (ph # phs) = 2 + (if ph_type ph \<noteq> ELF_PROG_LOAD then 0 else 9 * file_pages ph) + prog_reads phs"

lemma header_sectors: "sectors_for off 32 \<le> 2"
  using mod_512 [of off] by (auto simp: sectors_for_def intro!: less_Suc_eq_le [THEN iffD1] div_less_iff_less_mult [THEN iffD2])

lemma copy_needed_mono: "P \<subseteq> Q \<Longrightarrow> finite Q \<Longrightarrow> copy_needed P \<le> copy_needed Q"
  unfolding copy_needed_def by (intro add_mono card_mono image_mono order_refl) auto

lemma finite_apages [simp]: "finite (apages a b)"
  by simp

lemma finite_prog_pages [simp]: "finite (prog_pages phs va)"
  by simp

lemma apages_end: "KERNEND \<le> va \<Longrightarrow> unat va \<le> 0xFFFFF000 \<Longrightarrow> q \<in> apages (PGROUNDUP va) fin \<Longrightarrow> va \<le> q \<and> q < fin"
  using PGROUNDUP_le_iff by (auto simp: apages_def)

text \<open>One segment, behind the pages \<open>P\<close>.\<close>

lemma load_segment_builds:
  assumes b: "building s0 xs0 dir G P s xs" and ok: "con_ok s" "readable i s" and P: "\<And>p. p \<in> P \<Longrightarrow> p < va"
    and l: "loadable ph va (inodes s ! i)" and so: "solo c (9 * file_pages ph + k) s"
    and d: "fin = ph_vaddr ph + ph_memsz ph" "Q = apages (PGROUNDUP va) fin" and room: "copy_needed (P \<union> Q) \<le> length xs0"
  obtains t ys where "load_segment dir i ph va s = Inr (Some fin, t)" "building s0 xs0 dir G (P \<union> Q) t ys" "program_only s t" "solo c k t"
    "user_mem (mem t) dir = overlay (ph_vaddr ph) (segment_bytes (drive s) (inodes s ! i) ph)
       (\<lambda>v. if pg_of v \<in> Q then Some 0 else user_mem (mem s) dir v)"
    "KERNEND \<le> fin" "\<And>p. p \<in> P \<union> Q \<Longrightarrow> p < fin"
proof -
  note L = loadableD [OF l d(1)] and inv = buildingD(2) [OF b]
  have "unat va \<le> 0xFFFFF000" using L(2,3) by (simp add: word_less_nat_alt)
  note Q = apages_end [OF L(1) this, of _ fin, folded d(2)]
  have fin: "finite Q" by (simp add: d(2))
  have QP: "Q \<inter> P = {}" using Q P by fastforce
  have R: "{v \<in> upages (mem s) dir. va \<le> v \<and> v < fin} = {}" using P buildingD(4) [OF b] by fastforce
  have "copy_needed (P \<union> Q) = copy_needed P + pages_needed dir (mem s) Q"
    by (rule building_count [OF b QP fin]) (use Q L(1) in fastforce)
  then have room: "pages_needed dir (mem s) Q \<le> length xs" using room buildingD(6) [OF b] by simp
  show thesis
  proof (rule allocuvm_cases [OF inv ok(1) L(1-3) R, folded d(2)])
    fix s2 ys
    assume a: "allocuvm dir va fin s = Inr (fin, s2)" and g: "grown dir Q {} s xs s2 ys"
    obtain t where t: "load_segment dir i ph va s = Inr (Some fin, t)" "uvm_inv t dir ys" "loaded_only s t" "solo c k t"
        "inside dir (mem s2) (mem t)"
        "user_mem (mem t) dir = overlay (ph_vaddr ph) (segment_bytes (drive s) (inodes s ! i) ph)
          (\<lambda>v. if pg_of v \<in> Q then Some 0 else user_mem (mem s) dir v)"
      using load_segment_fills [OF inv ok(2) l so d(1) a g [unfolded d(2)], folded d(2)] by blast
    show thesis
    proof (rule that [OF t(1) building_grow [OF b g QP fin t(5,2)] program_only_loaded [OF t(3)] t(4,6)])
      show "KERNEND \<le> fin" using L(1,2) by simp
      show "p < fin" if "p \<in> P \<union> Q" for p using that P [of p] Q [of p] L(2) by auto
    qed
  qed (use room in simp)
qed

lemma load_segments_builds:
  assumes "building s0 xs0 dir G P s xs" and "con_ok s" and "readable i s" and "KERNEND \<le> va" and "\<And>p. p \<in> P \<Longrightarrow> p < va"
    and "phs = prog_headers (drive s) (inodes s ! i) (unat off) n" and "loadable_all phs va (inodes s ! i)"
    and "unat off + 32 * n \<le> unat (isize (inodes s ! i))" and "solo c (prog_reads phs + k) s"
    and "copy_needed (P \<union> prog_pages phs va) \<le> length xs0"
  shows "\<exists>t ys. load_segments n dir i off va s = Inr (Some (prog_end phs va), t)
    \<and> building s0 xs0 dir G (P \<union> prog_pages phs va) t ys \<and> program_only s t \<and> solo c k t
    \<and> user_mem (mem t) dir = prog_mem (drive s) (inodes s ! i) phs va (user_mem (mem s) dir)"
  using assms
proof (induction n arbitrary: phs off va P s xs)
  case 0
  then show ?case by (intro exI [of _ s] exI [of _ xs]) (simp add: prog_headers_simps program_only_mem_only)
next
  case (Suc n)
  let ?ip = "inodes s ! i"
  let ?bs = "file_part (drive s) ?ip (unat off) 32" and ?phs = "prog_headers (drive s) ?ip (unat off + 32) n"
  let ?ph = "prog_of ?bs"
  have phs: "phs = ?ph # ?phs" using Suc.prems(6) by (simp add: prog_headers_simps)
  note P = Suc.prems(7,10) [unfolded phs]
  have big: "unat (isize ?ip) \<le> 124 * 512" using Suc.prems(3) by (simp add: readable_def)
  have off: "unat (off + PROG_SIZE) = unat off + 32"
    using unat_add_small [of off 32] Suc.prems(8) big by simp
  define k1 where "k1 = (if ph_type ?ph \<noteq> ELF_PROG_LOAD then 0 else 9 * file_pages ?ph) + (prog_reads ?phs + k)"
  have "prog_reads phs + k = k1 + 2" by (simp add: phs k1_def)
  with Suc.prems(9) have so: "solo c (k1 + 2) s" by (simp only:)
  have hd: "unat off + unat PROG_SIZE \<le> unat (isize ?ip)" "0 < unat PROG_SIZE" using Suc.prems(8) by simp_all
  obtain s1 where s1: "read_header i off PROG_SIZE s = Inr (Some ?bs, s1)" "program_only s s1" "mem s1 = mem s" "solo c k1 s1"
      "uvm_inv s1 dir xs"
    using read_header_reads [OF so Suc.prems(3) hd] header_sectors [of "unat off"] buildingD(2) [OF Suc.prems(1)] by auto
  note S1 = program_only_sel [OF s1(2)]
  have b1: "building s0 xs0 dir G P s1 xs" by (rule building_program [OF Suc.prems(1) s1(3,5)])
  have size: "unat (off + PROG_SIZE) + 32 * n \<le> unat (isize ?ip)" unfolding off using Suc.prems(8) by simp
  show ?case
  proof (cases "ph_type ?ph = ELF_PROG_LOAD")
    case False
    have so1: "solo c (prog_reads ?phs + k) s1" using s1(4) False by (simp add: k1_def)
    have "\<exists>t ys. load_segments n dir i (off + PROG_SIZE) va s1 = Inr (Some (prog_end ?phs va), t)
      \<and> building s0 xs0 dir G (P \<union> prog_pages ?phs va) t ys \<and> program_only s1 t \<and> solo c k t
      \<and> user_mem (mem t) dir = prog_mem (drive s1) (inodes s1 ! i) ?phs va (user_mem (mem s1) dir)"
      by (rule Suc.IH [OF b1 _ _ Suc.prems(4,5) _ _ _ so1]) (use Suc.prems(2,3) P size off S1 False in simp_all)
    then obtain t ys where t: "load_segments n dir i (off + PROG_SIZE) va s1 = Inr (Some (prog_end ?phs va), t)"
        "building s0 xs0 dir G (P \<union> prog_pages ?phs va) t ys" "program_only s1 t" "solo c k t"
        "user_mem (mem t) dir = prog_mem (drive s) ?ip ?phs va (user_mem (mem s) dir)"
      using S1 s1(3) by auto
    have "load_segments (Suc n) dir i off va s = load_segments n dir i (off + PROG_SIZE) va s1"
      using s1(1) False by (simp add: load_segment_def)
    with t program_only_trans [OF s1(2) t(3)] False show ?thesis by (intro exI [of _ t] exI [of _ ys]) (simp add: phs)
  next
    case True
    let ?fin = "ph_vaddr ?ph + ph_memsz ?ph"
    let ?Q = "apages (PGROUNDUP va) ?fin"
    have l: "loadable ?ph va ?ip" "loadable_all ?phs ?fin ?ip" using P(1) True by simp_all
    have "copy_needed (P \<union> ?Q) \<le> copy_needed (P \<union> prog_pages phs va)"
      by (rule copy_needed_mono) (use True in \<open>auto simp: phs\<close>)
    then have room: "copy_needed (P \<union> ?Q) \<le> length xs0" using Suc.prems(10) by simp
    have h: "con_ok s1" "readable i s1" "loadable ?ph va (inodes s1 ! i)" "solo c (9 * file_pages ?ph + (prog_reads ?phs + k)) s1"
      using Suc.prems(2,3) S1 l(1) s1(4) True by (simp_all add: k1_def)
    show ?thesis
    proof (rule load_segment_builds [OF b1 h(1,2) Suc.prems(5) h(3,4) refl refl room])
      fix t ys
      assume t: "load_segment dir i ?ph va s1 = Inr (Some ?fin, t)" "building s0 xs0 dir G (P \<union> ?Q) t ys" "program_only s1 t"
          "solo c (prog_reads ?phs + k) t"
          "user_mem (mem t) dir = overlay (ph_vaddr ?ph) (segment_bytes (drive s1) (inodes s1 ! i) ?ph)
            (\<lambda>v. if pg_of v \<in> ?Q then Some 0 else user_mem (mem s1) dir v)"
          "KERNEND \<le> ?fin" "\<And>p. p \<in> P \<union> ?Q \<Longrightarrow> p < ?fin"
      note st = program_only_trans [OF s1(2) t(3)] note T = program_only_sel [OF st]
      have "\<exists>u zs. load_segments n dir i (off + PROG_SIZE) ?fin t = Inr (Some (prog_end ?phs ?fin), u)
        \<and> building s0 xs0 dir G ((P \<union> ?Q) \<union> prog_pages ?phs ?fin) u zs \<and> program_only t u \<and> solo c k u
        \<and> user_mem (mem u) dir = prog_mem (drive t) (inodes t ! i) ?phs ?fin (user_mem (mem t) dir)"
        by (rule Suc.IH [OF t(2) _ _ t(6,7) _ _ _ t(4)])
          (use Suc.prems(2,3) size off T l(2) P(2) True in \<open>simp_all add: Un_assoc\<close>)
      then obtain u zs where u: "load_segments n dir i (off + PROG_SIZE) ?fin t = Inr (Some (prog_end ?phs ?fin), u)"
          "building s0 xs0 dir G ((P \<union> ?Q) \<union> prog_pages ?phs ?fin) u zs" "program_only t u" "solo c k u"
          "user_mem (mem u) dir = prog_mem (drive s) ?ip ?phs ?fin (user_mem (mem t) dir)"
        using T by auto
      have "load_segments (Suc n) dir i off va s = load_segments n dir i (off + PROG_SIZE) ?fin t"
        using s1(1) t(1) by simp
      moreover have "user_mem (mem u) dir = prog_mem (drive s) ?ip phs va (user_mem (mem s) dir)"
        using u(5) t(5) [unfolded s1(3)] True S1 by (simp add: phs)
      ultimately show ?thesis using u True program_only_trans [OF st u(3)]
        by (intro exI [of _ u] exI [of _ zs]) (simp add: phs Un_assoc)
    qed
  qed
qed

section \<open>The stack\<close>

lemma no_user_bit:
  assumes "PTE_FLAGS e = 7"
  shows "PTE_ADDR (e AND NOT 4) = PTE_ADDR e" "PTE_FLAGS (e AND NOT 4) = 3" "present (e AND NOT 4)"
proof -
  show "PTE_ADDR (e AND NOT 4) = PTE_ADDR e" by (simp add: PTE_ADDR_def and.assoc)
  have "PTE_FLAGS (e AND NOT 4) = PTE_FLAGS e AND NOT 4" by (simp only: PTE_FLAGS_def and.assoc and.commute and.left_commute)
  then show f: "PTE_FLAGS (e AND NOT 4) = 3" using assms by simp
  have "PTE_FLAGS (e AND NOT 4) AND 1 = (e AND NOT 4) AND 1" by (simp add: PTE_FLAGS_def and.assoc)
  then show "present (e AND NOT 4)" using f by (simp add: present_def)
qed

text \<open>Closing the page \<open>g\<close> to user mode.\<close>

lemma building_guard:
  assumes b: "building s0 xs0 dir G P s xs" and g: "g \<in> P" "g \<notin> G"
    and m: "m = store32 (mem s) (slot (tbl (mem s) dir (dx g)) (tx g)) (pte_at (mem s) dir g AND NOT 4)"
  shows "building s0 xs0 dir (insert g G) P (s\<lparr>mem := m\<rparr>) xs" "user_mem m dir = user_mem (mem s) dir"
proof -
  note B = buildingD [OF b]
  note U = uvm_invD [OF B(2)]
  have gu: "g \<in> upages (mem s) dir" "pg_of g = g" using g(1) B(4) upages_pgal by auto
  have e7: "PTE_FLAGS (pte_at (mem s) dir g) = 7" using B(8) [OF g(1)] g(2) by simp
  note N = no_user_bit [OF e7]
  note S = set_entry [OF U(1) upages_dx [OF gu(1)] m]
  have pte: "pte_at m dir v = (if pg_of v = g then pte_at (mem s) dir g AND NOT 4 else pte_at (mem s) dir v)" for v
    using S(3) gu(2) by simp
  have pres: "present (pte_at m dir v) = present (pte_at (mem s) dir v)" for v
  proof (cases "pg_of v = g")
    case True
    then have "pte_at (mem s) dir v = pte_at (mem s) dir g" using pte_at_page gu(2) by metis
    then show ?thesis using True N(3) gu(1) by (simp add: pte upages_def)
  qed (simp add: pte)
  then have up: "upages m dir = P" using B(4) by (simp add: upages_def)
  have fr: "frame m dir v = frame (mem s) dir v" if "pg_of v = v" for v using that N(1) by (simp add: frame_def pte)
  have al: "pg_of v = v" if "v \<in> P" for v using that B(4) upages_pgal by blast
  have vp: "vm_pages m dir = vm_pages (mem s) dir"
  proof -
    have "tbl m dir d = tbl (mem s) dir d" if "d \<in> pres (mem s) dir" for d
      using S(4) [of d] that by (simp add: tbl_def pres_def)
    then show ?thesis using S(2) by (simp add: vm_pages_def tables_def)
  qed
  have fP: "frame m dir ` P = frame (mem s) dir ` P" using fr al by (intro image_cong) auto
  have tb: "tbl (mem s) dir (dx g) \<in> vm_pages (mem s) dir"
    using tbl_in_tables [OF upages_dx [OF gu(1)]] by (simp add: vm_pages_def)
  have f: "mem_frame {tbl (mem s) dir (dx g)} (mem s) m" unfolding m by (rule mem_frame_store32) simp_all
  have "vm_inv (s\<lparr>mem := m\<rparr>) dir xs" using vm_growD(2) [OF S(1)] .
  moreover have "inj_on (frame m dir) P" using U(2) fr al by (auto simp: inj_on_def B(4))
  ultimately have inv: "uvm_inv (s\<lparr>mem := m\<rparr>) dir xs"
    using U fr al by (auto simp: uvm_inv_def up vp page_ok_def B(4))
  have own: "owned m dir = owned (mem s) dir" by (simp add: owned_def up vp fP B(4))
  have "mem_frame (set xs0) (mem s) m" by (rule mem_frame_mono [OF f]) (use tb B(3) in \<open>auto simp: owned_def\<close>)
  then have fx: "mem_frame (set xs0) (mem s0) m" using B(1) mem_frame_trans by blast
  have "pte_at m dir v = kernel_pte s0 v" if "pg_of v \<notin> P" for v using that g(1) B(7) by (auto simp: pte)
  moreover have "PTE_FLAGS (pte_at m dir p) = (if p \<in> insert g G then 3 else 7)" if "p \<in> P" for p
    using that al [OF that] N(2) B(8) [OF that] by (simp add: pte)
  ultimately show "building s0 xs0 dir (insert g G) P (s\<lparr>mem := m\<rparr>) xs"
    using fx inv own up B(3,5,6,10) g(1) S(2) by (simp add: building_def)
  show "user_mem m dir = user_mem (mem s) dir"
  proof
    fix v
    show "user_mem m dir v = user_mem (mem s) dir v"
    proof (cases "pg_of v \<in> P")
      case True
      have p: "pgal (frame (mem s) dir (pg_of v))" using U(3) True B(4) page_ok_pgal by blast
      have "frame (mem s) dir (pg_of v) \<noteq> tbl (mem s) dir (dx g)" using U(5) [of "pg_of v"] True B(4) tb by metis
      then have "m (frame (mem s) dir (pg_of v) OR (v AND 0xFFF)) = mem s (frame (mem s) dir (pg_of v) OR (v AND 0xFFF))"
        using mem_frameD [OF f] page_offset(1) [OF p] by simp
      then show ?thesis
        using True vread_page [of "pg_of v" m dir v] vread_page [of "pg_of v" "mem s" dir v] fr [OF al [OF True]]
        by (simp add: user_mem_def up B(4))
    qed (simp add: user_mem_def up B(4))
  qed
qed

lemma stack_pages:
  assumes "pgal va" and "unat va + 0x2000 < 2 ^ 32"
  shows "apages va (va + 0x2000) = {va, va + 0x1000}" "unat (va + 0x2000) = unat va + 0x2000" "unat (va + 0x1000) = unat va + 0x1000"
    "pgal (va + 0x1000)"
proof -
  show u: "unat (va + 0x2000) = unat va + 0x2000" "unat (va + 0x1000) = unat va + 0x1000"
    using unat_add_small [of va "0x2000"] unat_add_small [of va "0x1000"] assms(2) by simp_all
  show p: "pgal (va + 0x1000)" using pgal_add [OF assms(1)] assms(2) by simp
  have e: "va + 0x1000 + 4096 = va + 0x2000" by simp
  have "apages (va + 0x1000) (va + 0x2000) = {va + 0x1000}"
    using apages_step(1) [OF p, of "va + 0x2000"] u assms(2) unfolding e by (simp add: word_less_nat_alt apages_empty)
  then show "apages va (va + 0x2000) = {va, va + 0x1000}"
    using apages_step(1) [OF assms(1), of "va + 0x2000"] u assms(2) by (simp add: word_less_nat_alt)
qed

lemma ustack_builds:
  assumes b: "building s0 xs0 dir {} P s xs" and con: "con_ok s" and P: "\<And>p. p \<in> P \<Longrightarrow> p < start"
    and va: "va = PGROUNDUP start" "KERNEND \<le> start" "unat va + 0x2000 < unat USEREND" "unat start \<le> 0xFFFFF000"
    and room: "copy_needed (P \<union> {va, va + 0x1000}) \<le> length xs0"
  shows "\<exists>t ys. ustack dir start s = Inr (va + 0x2000, t) \<and> building s0 xs0 dir {va} (P \<union> {va, va + 0x1000}) t ys
    \<and> program_only s t \<and> (\<forall>c k. solo c k t = solo c k s)
    \<and> user_mem (mem t) dir = (\<lambda>v. if pg_of v \<in> {va, va + 0x1000} then Some 0 else user_mem (mem s) dir v)"
proof -
  let ?new = "va + 0x2000" and ?Q = "{va, va + 0x1000}"
  have al: "pgal va" by (simp add: va(1))
  have A: "apages va ?new = ?Q" "unat ?new = unat va + 0x2000" "unat (va + 0x1000) = unat va + 0x1000" "pgal (va + 0x1000)"
    using stack_pages [OF al] va(3) by auto
  have up: "PGROUNDUP va = va" using al va(3) unat_PGROUNDUP [of va] by (auto simp: word_unat_eq_iff pgal_def elim!: dvdE)
  have le: "start \<le> va" using unat_PGROUNDUP [OF va(4)] by (simp add: va(1) word_le_nat_alt)
  have r: "KERNEND \<le> va" "va < ?new" "?new < USEREND" "?new \<noteq> 0"
    using va(2,3) le A(2) by (auto simp: word_less_nat_alt word_le_nat_alt)
  have R: "{v \<in> upages (mem s) dir. va \<le> v \<and> v < ?new} = {}" using P le buildingD(4) [OF b] by fastforce
  have q: "va < va + 0x1000" using A(3) by (simp add: word_less_nat_alt)
  have QP: "?Q \<inter> P = {}" using P le q by fastforce
  have "copy_needed (P \<union> ?Q) = copy_needed P + pages_needed dir (mem s) ?Q"
    by (rule building_count [OF b QP]) (use r(1) q in auto)
  then have n: "pages_needed dir (mem s) ?Q \<le> length xs" using room buildingD(6) [OF b] by simp
  show ?thesis
  proof (rule allocuvm_cases [OF buildingD(2) [OF b] con r(1-3) R, unfolded up A(1)])
    fix s1 ys
    assume a: "allocuvm dir va ?new s = Inr (?new, s1)" and g: "grown dir ?Q {} s xs s1 ys"
    have i1: "uvm_inv s1 dir ys" "mem_only s s1" using g by (simp_all add: grown_def)
    have b1: "building s0 xs0 dir {} (P \<union> ?Q) s1 ys" by (rule building_grow [OF b g QP]) (use i1 in simp_all)
    have "present (pte_at (mem s1) dir va)" using buildingD(4) [OF b1] by (auto simp: upages_def)
    note W = walk_slot [OF uvm_invD(1) [OF i1(1)] this]
    let ?m = "store32 (mem s1) (slot (tbl (mem s1) dir (dx va)) (tx va)) (pte_at (mem s1) dir va AND NOT 4)"
    have t: "ustack dir start s = Inr (?new, s1\<lparr>mem := ?m\<rparr>)"
      using a r(4) W(1,3) by (simp add: ustack_def va(1) [symmetric])
    have "building s0 xs0 dir {va} (P \<union> ?Q) (s1\<lparr>mem := ?m\<rparr>) ys" "user_mem ?m dir = user_mem (mem s1) dir"
      using building_guard [OF b1 _ _ refl, of va] by simp_all
    moreover have "program_only s (s1\<lparr>mem := ?m\<rparr>)"
      using program_only_mem_only [OF mem_only_trans [OF i1(2) mem_only_mem]] .
    ultimately show ?thesis
      using t grown_user_mem [OF buildingD(2) [OF b] g] solo_mem_only [OF i1(2)]
      by (intro exI [of _ "s1\<lparr>mem := ?m\<rparr>"] exI [of _ ys]) simp
  next
    fix t ys
    assume "length xs < pages_needed dir (mem s) ?Q"
    with n show ?thesis by simp
  qed
qed

section \<open>Two address spaces\<close>

text \<open>The one that runs and the one that is built, with one free list and no common page.\<close>

definition beside :: "u32 \<Rightarrow> u32 \<Rightarrow> kernel \<Rightarrow> u32 list \<Rightarrow> bool" where
  "beside old dir s xs \<longleftrightarrow> uvm_inv s old xs \<and> uvm_inv s dir xs \<and> owned (mem s) old \<inter> owned (mem s) dir = {}"

lemma user_mem_frame:
  assumes "uvm_inv s pg xs" and "mem_frame Q (mem s) m" and "pte_at m pg = pte_at (mem s) pg" and "Q \<inter> owned (mem s) pg = {}"
  shows "user_mem m pg = user_mem (mem s) pg"
proof
  fix v
  have u: "upages m pg = upages (mem s) pg" using assms(3) by (simp add: upages_def)
  show "user_mem m pg v = user_mem (mem s) pg v"
  proof (cases "pg_of v \<in> upages (mem s) pg")
    case True
    then have "pgal (frame (mem s) pg (pg_of v))" "frame (mem s) pg (pg_of v) \<notin> Q"
      using uvm_invD(3) [OF assms(1)] page_ok_pgal assms(4) by (auto simp: owned_def)
    then show ?thesis using vread_frame [OF assms(2,3) True] by (simp add: user_mem_def u)
  qed (simp add: user_mem_def u)
qed

lemma inside_other:
  assumes "beside old dir s xs" and "inside dir (mem s) m"
  shows "pte_at m old = pte_at (mem s) old" "user_mem m old = user_mem (mem s) old"
proof -
  note B = assms(1) [unfolded beside_def] and I = insideD [OF assms(2)]
  have dj: "owned (mem s) dir \<inter> owned (mem s) old = {}" using B by blast
  then have "owned (mem s) dir \<inter> vm_pages (mem s) old = {}" by (auto simp: owned_def)
  then show p: "pte_at m old = pte_at (mem s) old"
    using vm_view_frame(4) [OF I(4)] vm_invD(5) uvm_invD(1) B by blast
  show "user_mem m old = user_mem (mem s) old" by (rule user_mem_frame [OF _ I(4) p dj]) (use B in blast)
qed

lemma beside_inside:
  assumes b: "beside old dir s xs" and i: "inside dir (mem s) m" "uvm_inv (s\<lparr>mem := m\<rparr>) dir xs"
  shows "beside old dir (s\<lparr>mem := m\<rparr>) xs"
proof -
  note B = b [unfolded beside_def]
  note I = insideD [OF i(1)]
  have dj: "owned (mem s) dir \<inter> owned (mem s) old = {}" "set xs \<inter> owned (mem s) old = {}"
    using B owned_not_free by blast+
  have "kmem_inv (s\<lparr>mem := m\<rparr>) xs" using uvm_invD(1) [OF i(2)] vm_invD(1) by blast
  moreover have "page_ok (s\<lparr>mem := m\<rparr>) = page_ok s" by (simp add: page_ok_def fun_eq_iff)
  ultimately show ?thesis
    using uvm_other [of s old xs "s\<lparr>mem := m\<rparr>" xs "owned (mem s) dir"] B I(3,4) dj i(2) by (simp add: beside_def)
qed

lemma building_beside:
  assumes inv: "uvm_inv s0 old xs0" and b: "building s0 xs0 dir G P s xs" and p: "page_ok s = page_ok s0"
  shows "beside old dir s xs" "user_mem (mem s) old = user_mem (mem s0) old" "owned (mem s) old = owned (mem s0) old"
proof -
  note B = buildingD [OF b]
  have k: "kmem_inv s xs" using uvm_invD(1) [OF B(2)] vm_invD(1) by blast
  have d: "set xs0 \<inter> owned (mem s0) old = {}" using owned_not_free [OF inv] by blast
  then have "set xs \<inter> owned (mem s0) old = {}" using B(3) by blast
  note O = uvm_other [OF inv p k B(1) d this]
  show "owned (mem s) old = owned (mem s0) old" by (rule O(4))
  show "beside old dir s xs" using O(1,4) B(2,3) d by (auto simp: beside_def)
  show "user_mem (mem s) old = user_mem (mem s0) old" by (rule user_mem_frame [OF inv B(1) O(2) d])
qed

end
