(* ===== verification/Mix_Exec.thy ===== *)
theory Mix_Exec
  imports Mix_Program Mix_Path Mix_Switch
begin

text \<open>
  \<^verbatim>\<open>sys_execv\<close> from the call in the old program to the first instruction of the new one: the file is found, its
  segments are loaded, the arguments are copied to the new stack, and the process changes its address space.
\<close>

section \<open>Bytes in user memory\<close>

definition user_bytes :: "memory \<Rightarrow> u32 \<Rightarrow> u32 \<Rightarrow> u8 list \<Rightarrow> bool" where
  "user_bytes m pg a bs \<longleftrightarrow> (\<forall>j < length bs. user_mem m pg (a + of_nat j) = Some (bs ! j))"

lemma user_bytes_append:
  "user_bytes m pg a (xs @ ys) \<longleftrightarrow> user_bytes m pg a xs \<and> user_bytes m pg (a + of_nat (length xs)) ys"
proof
  assume u: "user_bytes m pg a (xs @ ys)"
  have "user_mem m pg (a + of_nat (length xs) + of_nat j) = Some (ys ! j)" if "j < length ys" for j
    using u [unfolded user_bytes_def, rule_format, of "length xs + j"] that by (simp add: add.assoc)
  moreover have "user_mem m pg (a + of_nat j) = Some (xs ! j)" if "j < length xs" for j
    using u [unfolded user_bytes_def, rule_format, of j] that by (simp add: nth_append)
  ultimately show "user_bytes m pg a xs \<and> user_bytes m pg (a + of_nat (length xs)) ys" by (simp add: user_bytes_def)
next
  assume u: "user_bytes m pg a xs \<and> user_bytes m pg (a + of_nat (length xs)) ys"
  show "user_bytes m pg a (xs @ ys)"
    unfolding user_bytes_def
  proof (intro allI impI)
    fix j
    assume j: "j < length (xs @ ys)"
    show "user_mem m pg (a + of_nat j) = Some ((xs @ ys) ! j)"
    proof (cases "j < length xs")
      case True
      then show ?thesis using u by (simp add: user_bytes_def nth_append)
    next
      case False
      then obtain k where "j = length xs + k" using le_Suc_ex not_less by blast
      then show ?thesis using u j by (auto simp: user_bytes_def nth_append add.assoc)
    qed
  qed
qed

lemma overlay_in:
  assumes "unat a + length bs \<le> 2 ^ 32" and "j < length bs"
  shows "overlay a bs f (a + of_nat j) = Some (bs ! j)"
  using unat_of_nat32 [of j] assms by (simp add: overlay_def)

lemma overlay_out:
  assumes "unat a + length bs \<le> 2 ^ 32" and "unat v < unat a \<or> unat a + length bs \<le> unat v"
  shows "overlay a bs f v = f v"
proof -
  have "\<not> unat (v - a) < length bs" using assms by (auto simp: unat_sub_if')
  then show ?thesis by (simp add: overlay_def)
qed

text \<open>The same user memory but for the addresses from \<open>a\<close> up to \<open>b\<close>.\<close>

definition same_outside :: "nat \<Rightarrow> nat \<Rightarrow> u32 \<Rightarrow> memory \<Rightarrow> memory \<Rightarrow> bool" where
  "same_outside a b pg m m' \<longleftrightarrow> (\<forall>v. unat v < a \<or> b \<le> unat v \<longrightarrow> user_mem m' pg v = user_mem m pg v)"

lemma same_outside_trans:
  "same_outside a b pg m m' \<Longrightarrow> same_outside a' b' pg m' m'' \<Longrightarrow> a'' \<le> a \<Longrightarrow> a'' \<le> a' \<Longrightarrow> b \<le> b'' \<Longrightarrow> b' \<le> b''
    \<Longrightarrow> same_outside a'' b'' pg m m''"
  by (auto simp: same_outside_def)

lemma user_bytes_outside:
  assumes "same_outside a b pg m m'" and "user_bytes m pg c bs" and "unat c + length bs \<le> a \<or> b \<le> unat c"
    and "unat c + length bs \<le> 2 ^ 32"
  shows "user_bytes m' pg c bs"
  unfolding user_bytes_def
proof (intro allI impI)
  fix j
  assume j: "j < length bs"
  then have "unat (c + of_nat j) = unat c + j" using assms(4) by (intro unat_add_small) simp
  then show "user_mem m' pg (c + of_nat j) = Some (bs ! j)" using assms(1-3) j by (auto simp: same_outside_def user_bytes_def)
qed

text \<open>Copying to the page \<open>p\<close> of the new space.\<close>

lemma push_bytes:
  assumes b: "building s0 xs0 dir G P s xs" and p: "p \<in> P" "unat p \<le> unat a" "unat a + length data \<le> unat p + 4096"
    and d: "supplies dir src data s" "length data = unat len"
  shows "\<exists>m. copyout dir a src len s = Inr (s\<lparr>mem := m\<rparr>) \<and> building s0 xs0 dir G P (s\<lparr>mem := m\<rparr>) xs
    \<and> inside dir (mem s) m \<and> user_bytes m dir a data \<and> same_outside (unat a) (unat a + length data) dir (mem s) m"
proof -
  note B = buildingD [OF b]
  have pu: "p \<in> upages (mem s) dir" using p(1) B(4) by simp
  then have al: "pgal p" "p < USEREND" by (simp_all add: upages_def)
  then have pe: "unat p + 4096 \<le> 2 ^ 32" by (simp add: word_less_nat_alt)
  have rm: "range_mapped (mem s) dir a (unat len)"
    unfolding range_mapped_def
  proof (intro allI impI)
    fix j
    assume "j < unat len"
    then have u: "unat (a + of_nat j) = unat a + j" "unat a + j < unat p + 4096"
      using unat_add_small [of a j] p(3) d(2) pe by simp_all
    then have "unat (a + of_nat j - p) < 4096" using p(2) by (subst unat_sub) (simp_all add: word_le_nat_alt)
    then have "pg_of (a + of_nat j) = p" using pg_of_iff [OF al(1)] by (simp add: word_less_nat_alt)
    then show "pg_of (a + of_nat j) \<in> upages (mem s) dir" using pu by simp
  qed
  obtain m where m: "copyout dir a src len s = Inr (s\<lparr>mem := m\<rparr>)" "uvm_inv (s\<lparr>mem := m\<rparr>) dir xs" "inside dir (mem s) m"
      "user_mem m dir = overlay a data (user_mem (mem s) dir)"
    using copyout_stores [OF B(2) rm d] by blast
  have "building s0 xs0 dir G P (s\<lparr>mem := m\<rparr>) xs" by (rule building_inside [OF b _ m(2)]) (simp add: m(3))
  moreover have a: "unat a + length data \<le> 2 ^ 32" using p(3) pe by simp
  have "user_bytes m dir a data" unfolding user_bytes_def m(4) using overlay_in [OF a] by blast
  moreover have "same_outside (unat a) (unat a + length data) dir (mem s) m"
    unfolding same_outside_def m(4) using overlay_out [OF a] by blast
  ultimately show ?thesis using m(1,3) by blast
qed

section \<open>The arguments\<close>

lemma uread_user: "user_mem (mem s) (cr3 s) v = Some b \<Longrightarrow> uread v s = Inr b"
  by (auto simp: user_mem_def vread_def uread_def split: if_splits option.splits)

lemma uread_bytes: "user_bytes (mem s) (cr3 s) a bs \<Longrightarrow> j < length bs \<Longrightarrow> uread (a + of_nat j) s = Inr (bs ! j)"
  by (rule uread_user) (simp add: user_bytes_def)

lemma uload_bytes:
  assumes "user_bytes (mem s) (cr3 s) a bs"
  shows "uload (length bs) a s = Inr bs"
  using assms
proof (induction bs arbitrary: a)
  case (Cons b bs)
  then show ?case
    using uread_bytes [OF Cons.prems, of 0] user_bytes_append [of "mem s" "cr3 s" a "[b]" bs] by simp
qed simp

lemma uread32_words:
  assumes "user_bytes (mem s) (cr3 s) a (concat (map put32 ws))" and "j < length ws"
  shows "uread32 (a + 4 * of_nat j) s = Inr (ws ! j)"
  using assms
proof (induction ws arbitrary: a j)
  case (Cons w ws)
  have w: "user_bytes (mem s) (cr3 s) a (put32 w)" "user_bytes (mem s) (cr3 s) (a + 4) (concat (map put32 ws))"
    using Cons.prems(1) by (simp_all add: user_bytes_append)
  show ?case
  proof (cases j)
    case 0
    have "uread (a + of_nat k) s = Inr (put32 w ! k)" if "k < 4" for k using uread_bytes [OF w(1)] that by simp
    from this [of 0] this [of 1] this [of 2] this [of 3] show ?thesis using 0 by (simp add: uread32_def put32_def)
  next
    case (Suc k)
    then show ?thesis using Cons.IH [OF w(2), of k] Cons.prems(2) by (simp add: algebra_simps)
  qed
qed simp

text \<open>A string with the byte behind its end, which \<^verbatim>\<open>sys_execv\<close> copies as well.\<close>

definition arg_at :: "memory \<Rightarrow> u32 \<Rightarrow> u32 \<Rightarrow> u8 list \<Rightarrow> bool" where
  "arg_at m pg a cs \<longleftrightarrow> 0 \<notin> set cs \<and> (\<exists>x. user_bytes m pg a (cs @ [0, x]))"

definition argv_at :: "memory \<Rightarrow> u32 \<Rightarrow> u32 \<Rightarrow> u32 list \<Rightarrow> u8 list list \<Rightarrow> bool" where
  "argv_at m pg argv qs args \<longleftrightarrow> length qs = length args \<and> 0 \<notin> set qs \<and> user_bytes m pg argv (concat (map put32 (qs @ [0])))
     \<and> (\<forall>j < length args. arg_at m pg (qs ! j) (args ! j))"

lemma strlen_arg:
  assumes "user_bytes (mem s) (cr3 s) a (cs @ [0, x])" and "0 \<notin> set cs" and "length cs < 2 ^ 31 - 1"
  shows "strlen (\<lambda>i. uread (a + of_nat i) s) = Inr (length cs + 1)"
proof -
  have u: "uread (a + of_nat j) s = Inr ((cs @ [0, x]) ! j)" if "j < length cs + 2" for j
    using uread_bytes [OF assms(1), of j] that by simp
  show ?thesis
    unfolding strlen_def
  proof (subst strlen_from_eq [of "length cs" _ 0])
    show "\<exists>c. uread (a + of_nat (0 + i)) s = Inr c \<and> c \<noteq> 0" if "i < length cs" for i
    proof -
      have "cs ! i \<noteq> 0" using assms(2) nth_mem [OF that] by metis
      then show ?thesis using u [of i] that by (simp add: nth_append)
    qed
    show "uread (a + of_nat (0 + length cs)) s = Inr 0" using u [of "length cs"] by (simp add: nth_append)
  qed (use assms(3) in simp_all)
qed

lemma supplies_user:
  assumes b: "beside old dir s xs" and c: "cr3 s = old" and u: "user_bytes (mem s) old a bs" and l: "length bs < 2 ^ 32"
  shows "supplies dir (UserSrc a) bs s"
  unfolding supplies_def
proof (intro allI impI)
  fix m and off n :: u32
  assume i: "inside dir (mem s) m" and n: "unat off + unat n \<le> length bs"
  let ?bs = "take (unat n) (drop (unat off) bs)"
  have "bs = take (unat off) bs @ ?bs @ drop (unat n) (drop (unat off) bs)" by (simp only: append_take_drop_id)
  with u have "user_bytes (mem s) old (a + of_nat (length (take (unat off) bs))) ?bs" by (metis user_bytes_append)
  moreover have "length (take (unat off) bs) = unat off" "length ?bs = unat n" using n by simp_all
  moreover have "user_bytes m old = user_bytes (mem s) old"
    unfolding user_bytes_def inside_other(2) [OF b i] by simp
  ultimately show "src_bytes (UserSrc a) off n (s\<lparr>mem := m\<rparr>) = Inr ?bs"
    using uload_bytes [of "s\<lparr>mem := m\<rparr>" "a + off" ?bs] c by (simp add: src_bytes_def)
qed

text \<open>Where the strings go, the stack pointer below them, and the bytes they take.\<close>

definition arg_sp :: "u32 \<Rightarrow> u8 list \<Rightarrow> u32" where
  "arg_sp sp cs = (sp - (of_nat (length cs + 1) + 1)) AND NOT 3"

fun arg_ptrs :: "u32 \<Rightarrow> u8 list list \<Rightarrow> u32 list" where
  "arg_ptrs sp [] = []"
| "arg_ptrs sp (cs # args) = arg_sp sp cs # arg_ptrs (arg_sp sp cs) args"

fun args_sp :: "u32 \<Rightarrow> u8 list list \<Rightarrow> u32" where
  "args_sp sp [] = sp"
| "args_sp sp (cs # args) = args_sp (arg_sp sp cs) args"

definition arg_size :: "u8 list \<Rightarrow> nat" where
  "arg_size cs = (length cs + 5) div 4 * 4"

definition args_size :: "u8 list list \<Rightarrow> nat" where
  "args_size args = sum_list (map arg_size args)"

lemma unat_and_not_3: "unat (x AND NOT 3 :: u32) = unat x div 4 * 4"
proof -
  have m: "(3 :: u32) = mask 2" by (simp add: mask_eq_exp_minus_1)
  have "x AND NOT 3 = push_bit 2 (drop_bit 2 x)"
  proof (rule bit_word_eqI)
    fix n
    assume "n < LENGTH(32)"
    then show "bit (x AND NOT 3) n = bit (push_bit 2 (drop_bit 2 x)) n"
      unfolding m by (cases "2 \<le> n") (auto simp: bit_simps dest: le_Suc_ex)
  qed
  also have "\<dots> = (x div 4) * 4" by (simp add: push_bit_eq_mult drop_bit_eq_div)
  finally show ?thesis using unat32_lt [of x] by (simp add: unat_word_ariths unat_div_distrib)
qed

lemma unat_arg_sp:
  assumes "unat sp mod 4 = 0" and "arg_size cs \<le> unat sp"
  shows "unat (arg_sp sp cs) = unat sp - arg_size cs" "unat (arg_sp sp cs) mod 4 = 0"
    "unat (arg_sp sp cs) + (length cs + 2) \<le> unat sp"
proof -
  obtain q where q: "unat sp = 4 * q" using assms(1) by auto
  have l: "length cs + 2 \<le> unat sp" using assms(2) by (simp add: arg_size_def)
  have "of_nat (length cs + 1) + 1 = (of_nat (length cs + 2) :: u32)" by simp
  moreover have "length cs + 2 < 2 ^ 32" using l unat32_lt [of sp] by simp
  ultimately have "unat (sp - (of_nat (length cs + 1) + 1)) = unat sp - (length cs + 2)"
    using l by (metis unat_sub_of_nat)
  then have u: "unat (arg_sp sp cs) = (unat sp - (length cs + 2)) div 4 * 4" unfolding arg_sp_def by (simp only: unat_and_not_3)
  then show "unat (arg_sp sp cs) mod 4 = 0" by simp
  define a where "a = (length cs + 5) div 4"
  have a: "4 * a \<le> length cs + 5" "length cs + 5 < 4 * a + 4" unfolding a_def by simp_all
  have "(4 * q - (length cs + 2)) div 4 = q - a"
    by (rule div_nat_eqI) (use a l q in simp_all)
  then show "unat (arg_sp sp cs) = unat sp - arg_size cs" unfolding u arg_size_def q a_def [symmetric] by simp
  show "unat (arg_sp sp cs) + (length cs + 2) \<le> unat sp"
    using l div_times_less_eq_dividend [of "unat sp - (length cs + 2)" 4] unfolding u by linarith
qed

lemma argv_at_simps:
  "argv_at m pg a [] [] \<longleftrightarrow> user_bytes m pg a (put32 0)"
  "argv_at m pg a qs (cs # args) \<longleftrightarrow> (\<exists>q rs. qs = q # rs \<and> q \<noteq> 0 \<and> user_bytes m pg a (put32 q) \<and> arg_at m pg q cs
     \<and> argv_at m pg (a + 4) rs args)"
proof -
  show "argv_at m pg a [] [] \<longleftrightarrow> user_bytes m pg a (put32 0)" by (simp add: argv_at_def)
  show "argv_at m pg a qs (cs # args) \<longleftrightarrow> (\<exists>q rs. qs = q # rs \<and> q \<noteq> 0 \<and> user_bytes m pg a (put32 q) \<and> arg_at m pg q cs
     \<and> argv_at m pg (a + 4) rs args)"
    by (cases qs) (auto simp: argv_at_def user_bytes_append nth_Cons split: nat.splits)
qed

lemma args_size_simps [simp]: "args_size [] = 0" "args_size (cs # args) = arg_size cs + args_size args"
  by (simp_all add: args_size_def)

lemma push_args_pushes:
  assumes "building s0 xs0 dir G P s xs" and "beside old dir s xs" and "cr3 s = old"
    and "argv_at (mem s) old (argv + 4 * of_nat (length sps)) qs args" and "length args \<le> k"
    and "p \<in> P" and "unat sp mod 4 = 0" and "unat p + args_size args \<le> unat sp" and "unat sp \<le> unat p + 4096"
  shows "\<exists>m. push_args k dir argv sps sp s = Inr (sps @ arg_ptrs sp args, args_sp sp args, s\<lparr>mem := m\<rparr>)
    \<and> building s0 xs0 dir G P (s\<lparr>mem := m\<rparr>) xs \<and> beside old dir (s\<lparr>mem := m\<rparr>) xs \<and> user_mem m old = user_mem (mem s) old
    \<and> unat (args_sp sp args) + args_size args = unat sp \<and> unat (args_sp sp args) mod 4 = 0
    \<and> same_outside (unat (args_sp sp args)) (unat sp) dir (mem s) m
    \<and> (\<forall>j < length args. user_bytes m dir (arg_ptrs sp args ! j) (args ! j @ [0]))"
  using assms
proof (induction args arbitrary: k sps qs sp s)
  case Nil
  have "qs = []" using Nil.prems(4) by (simp add: argv_at_def)
  then have "uread32 (argv + 4 * of_nat (length sps)) s = Inr 0"
    using uread32_words [of s "argv + 4 * of_nat (length sps)" "[0]" 0] Nil.prems(3,4) by (simp add: argv_at_simps)
  then have "push_args k dir argv sps sp s = Inr (sps, sp, s)" by (cases k) simp_all
  then show ?case using Nil.prems by (intro exI [of _ "mem s"]) (simp add: same_outside_def)
next
  case (Cons cs args)
  obtain q rs where q: "qs = q # rs" "q \<noteq> 0" "user_bytes (mem s) old (argv + 4 * of_nat (length sps)) (put32 q)"
      "arg_at (mem s) old q cs" "argv_at (mem s) old (argv + 4 * of_nat (length sps) + 4) rs args"
    using Cons.prems(4) by (auto simp: argv_at_simps)
  obtain k' where k: "k = Suc k'" "length args \<le> k'" using Cons.prems(5) by (cases k) simp_all
  obtain x where x: "user_bytes (mem s) old q (cs @ [0, x])" "0 \<notin> set cs" using q(4) by (auto simp: arg_at_def)
  let ?sp = "arg_sp sp cs"
  have "arg_size cs \<le> unat sp" using Cons.prems(8) by simp
  note A = unat_arg_sp [OF Cons.prems(7) this]
  have l: "length cs < 2 ^ 31 - 1" using A(1,3) Cons.prems(8,9) by simp
  have r: "uread32 (argv + 4 * of_nat (length sps)) s = Inr q"
    using uread32_words [of s "argv + 4 * of_nat (length sps)" "[q]" 0] Cons.prems(3) q(3) by simp
  have sl: "strlen (\<lambda>i. uread (q + of_nat i) s) = Inr (length cs + 1)"
    using strlen_arg [OF _ x(2) l] x(1) Cons.prems(3) by simp
  let ?n = "of_nat (length cs + 1) + 1 :: u32" and ?bs = "cs @ [0, x]"
  have n: "length ?bs = unat ?n" using unat_of_nat32 [of "length cs + 2"] l by simp
  have in_p: "unat p \<le> unat ?sp" "unat ?sp + length ?bs \<le> unat p + 4096" using A(1,3) Cons.prems(8,9) by simp_all
  have lb: "length ?bs < 2 ^ 32" using l by simp
  obtain m1 where m1: "copyout dir ?sp (UserSrc q) ?n s = Inr (s\<lparr>mem := m1\<rparr>)" "building s0 xs0 dir G P (s\<lparr>mem := m1\<rparr>) xs"
      "inside dir (mem s) m1" "user_bytes m1 dir ?sp ?bs" "same_outside (unat ?sp) (unat ?sp + length ?bs) dir (mem s) m1"
    using push_bytes [OF Cons.prems(1,6) in_p supplies_user [OF Cons.prems(2,3) x(1) lb] n] by blast
  have b1: "beside old dir (s\<lparr>mem := m1\<rparr>) xs" by (rule beside_inside [OF Cons.prems(2) m1(3) buildingD(2) [OF m1(2)]])
  note old1 = inside_other(2) [OF Cons.prems(2) m1(3)]
  have "argv_at m1 old (argv + 4 * of_nat (length sps) + 4) rs args"
    using q(5) unfolding argv_at_def arg_at_def user_bytes_def old1 .
  then have av: "argv_at (mem (s\<lparr>mem := m1\<rparr>)) old (argv + 4 * of_nat (length (sps @ [?sp]))) rs args"
    by (simp add: algebra_simps)
  have pre: "unat p + args_size args \<le> unat ?sp" "unat ?sp \<le> unat p + 4096" "cr3 (s\<lparr>mem := m1\<rparr>) = old"
    using A(1) Cons.prems(3,8,9) by simp_all
  obtain m where m: "push_args k' dir argv (sps @ [?sp]) ?sp (s\<lparr>mem := m1\<rparr>) = Inr ((sps @ [?sp]) @ arg_ptrs ?sp args, args_sp ?sp args, s\<lparr>mem := m\<rparr>)"
      "building s0 xs0 dir G P (s\<lparr>mem := m\<rparr>) xs" "beside old dir (s\<lparr>mem := m\<rparr>) xs" "user_mem m old = user_mem m1 old"
      "unat (args_sp ?sp args) + args_size args = unat ?sp" "unat (args_sp ?sp args) mod 4 = 0"
      "same_outside (unat (args_sp ?sp args)) (unat ?sp) dir m1 m"
      "\<forall>j < length args. user_bytes m dir (arg_ptrs ?sp args ! j) (args ! j @ [0])"
    using Cons.IH [OF m1(2) b1 pre(3) av k(2) Cons.prems(6) A(2) pre(1,2)] by auto
  have "push_args k dir argv sps sp s = push_args k' dir argv (sps @ [?sp]) ?sp (s\<lparr>mem := m1\<rparr>)"
    using r q(2) sl m1(1) by (simp add: k(1) arg_sp_def Let_def)
  moreover have "user_bytes m1 dir ?sp (cs @ [0])"
    using m1(4) user_bytes_append [of m1 dir ?sp "cs @ [0]" "[x]"] by simp
  then have "user_bytes m dir ?sp (cs @ [0])"
    by (rule user_bytes_outside [OF m(7)]) (use A(3) unat32_lt [of sp] in simp_all)
  moreover have "same_outside (unat (args_sp ?sp args)) (unat sp) dir (mem s) m"
    by (rule same_outside_trans [OF m1(5) m(7)]) (use A m(5) in simp_all)
  ultimately show ?case using m A old1 Cons.prems(8)
    by (intro exI [of _ m]) (auto simp: nth_Cons split: nat.splits)
qed

section \<open>The new stack\<close>

lemma length_arg_ptrs [simp]: "length (arg_ptrs sp args) = length args"
  by (induction args arbitrary: sp) simp_all

lemma arg_ptrs_range:
  assumes "unat sp mod 4 = 0" and "args_size args \<le> unat sp" and "j < length args"
  shows "unat (args_sp sp args) \<le> unat (arg_ptrs sp args ! j) \<and> unat (arg_ptrs sp args ! j) + length (args ! j) + 2 \<le> unat sp"
  using assms
proof (induction args arbitrary: sp j)
  case (Cons cs args)
  have "arg_size cs \<le> unat sp" using Cons.prems(2) by simp
  note A = unat_arg_sp [OF Cons.prems(1) this]
  have r: "args_size args \<le> unat (arg_sp sp cs)" using Cons.prems(2) A(1) by simp
  have below: "unat (args_sp (arg_sp sp cs) args) \<le> unat (arg_sp sp cs)"
    using A(2) r
  proof (induction args arbitrary: cs sp)
    case (Cons ds args)
    have "arg_size ds \<le> unat (arg_sp sp cs)" using Cons.prems(2) by simp
    note B = unat_arg_sp [OF Cons.prems(1) this]
    have "args_size args \<le> unat (arg_sp (arg_sp sp cs) ds)" using Cons.prems(2) B(1) by simp
    from Cons.IH [OF B(2) this] B(1) show ?case by simp
  qed simp
  show ?case
  proof (cases j)
    case 0
    then show ?thesis using A(3) below by simp
  next
    case (Suc i)
    then show ?thesis using Cons.IH [OF A(2) r, of i] Cons.prems(3) A(1) by auto
  qed
qed simp

text \<open>
  The stack a program starts with: a return address that leads nowhere, the number of arguments, the address
  of the pointers, the pointers, of which those behind the last are null, and the strings.
\<close>

definition stack_words :: "u32 \<Rightarrow> u32 \<Rightarrow> u8 list list \<Rightarrow> u32 list" where
  "stack_words sp hi args = [0xFFFFFFFF, of_nat (length args), sp + 12] @ arg_ptrs hi args @ replicate (16 - length args) 0"

definition stack_holds :: "memory \<Rightarrow> u32 \<Rightarrow> u32 \<Rightarrow> u32 \<Rightarrow> u8 list list \<Rightarrow> bool" where
  "stack_holds m pg sp hi args \<longleftrightarrow> user_bytes m pg sp (concat (map put32 (stack_words sp hi args)))
     \<and> (\<forall>j < length args. user_bytes m pg (arg_ptrs hi args ! j) (args ! j @ [0]))"

lemma length_words [simp]: "length (concat (map put32 ws)) = 4 * length ws"
  by (induction ws) simp_all

lemma exec_stack:
  assumes b: "building s0 xs0 dir G P s xs" and be: "beside old dir s xs" and c: "cr3 s = old"
    and av: "if argv = 0 then args = [] else argv_at (mem s) old argv qs args" and n: "length args \<le> 16"
    and p: "p \<in> P" "unat va = unat p + 4096" and room: "args_size args + 76 \<le> 4096"
  defines "sp \<equiv> args_sp va args"
  obtains m1 m2 m3 where
    "(if argv \<noteq> 0 then push_args 16 dir argv [] va s else Inr ([], va, s)) = Inr (arg_ptrs va args, sp, s\<lparr>mem := m1\<rparr>)"
    "copyout dir (sp - 64) (Bytes (concat (map put32 (arg_ptrs va args @ replicate (16 - length args) 0)))) 64 (s\<lparr>mem := m1\<rparr>)
      = Inr (s\<lparr>mem := m2\<rparr>)"
    "copyout dir (sp - 64 - 12) (Bytes (concat (map put32 [0xFFFFFFFF, of_nat (length args), sp - 64]))) 12 (s\<lparr>mem := m2\<rparr>)
      = Inr (s\<lparr>mem := m3\<rparr>)"
    "building s0 xs0 dir G P (s\<lparr>mem := m3\<rparr>) xs" "beside old dir (s\<lparr>mem := m3\<rparr>) xs"
    "same_outside (unat p) (unat va) dir (mem s) m3" "stack_holds m3 dir (sp - 76) va args"
proof -
  have "pgal p" using p(1) buildingD(4) [OF b] upages_pgal by blast
  then have al: "unat va mod 4 = 0" using p(2) by (auto simp: pgal_def elim!: dvdE)
  obtain m1 where m1: "(if argv \<noteq> 0 then push_args 16 dir argv [] va s else Inr ([], va, s)) = Inr (arg_ptrs va args, sp, s\<lparr>mem := m1\<rparr>)"
      "building s0 xs0 dir G P (s\<lparr>mem := m1\<rparr>) xs" "beside old dir (s\<lparr>mem := m1\<rparr>) xs" "user_mem m1 old = user_mem (mem s) old"
      "unat sp + args_size args = unat va" "unat sp mod 4 = 0" "same_outside (unat sp) (unat va) dir (mem s) m1"
      "\<forall>j < length args. user_bytes m1 dir (arg_ptrs va args ! j) (args ! j @ [0])"
  proof (cases "argv = 0")
    case True
    then show thesis using that [of "mem s"] av b be al by (simp add: sp_def same_outside_def)
  next
    case False
    then have "argv_at (mem s) old (argv + 4 * of_nat (length ([] :: u32 list))) qs args" using av by simp
    from push_args_pushes [OF b be c this n p(1) al] show thesis
      using that False p(2) room by (auto simp: sp_def)
  qed
  let ?ps = "arg_ptrs va args @ replicate (16 - length args) 0" and ?h = "[0xFFFFFFFF, of_nat (length args), sp - 64] :: u32 list"
  have u: "unat (sp - 64) = unat sp - 64" "unat (sp - 64 - 12) = unat sp - 76" "76 \<le> unat sp"
  proof -
    show s76: "76 \<le> unat sp" using m1(5) p(2) room by simp
    then show "unat (sp - 64) = unat sp - 64" by (subst unat_sub) (simp_all add: word_le_nat_alt)
    then show "unat (sp - 64 - 12) = unat sp - 76" using s76 by (subst unat_sub) (simp_all add: word_le_nat_alt)
  qed
  have bd: "unat p + 76 \<le> unat sp" "unat sp \<le> unat va" using m1(5) p(2) room by linarith+
  define pb hb where "pb = concat (map put32 ?ps)" and "hb = concat (map put32 ?h)"
  have lp: "length pb = unat (64 :: u32)" "length hb = unat (12 :: u32)" unfolding pb_def hb_def length_words using n by simp_all
  have in2: "unat p \<le> unat (sp - 64)" "unat (sp - 64) + length pb \<le> unat p + 4096"
    and in3: "unat p \<le> unat (sp - 64 - 12)" "unat (sp - 64 - 12) + length hb \<le> unat p + 4096"
    unfolding u(1,2) lp using bd p(2) by simp_all
  obtain m2 where m2: "copyout dir (sp - 64) (Bytes pb) 64 (s\<lparr>mem := m1\<rparr>) = Inr (s\<lparr>mem := m2\<rparr>)"
      "building s0 xs0 dir G P (s\<lparr>mem := m2\<rparr>) xs" "inside dir m1 m2" "user_bytes m2 dir (sp - 64) pb"
      "same_outside (unat sp - 64) (unat sp) dir m1 m2"
    using push_bytes [OF m1(2) p(1) in2 supplies_Bytes lp(1)] u lp(1) by auto
  obtain m3 where m3: "copyout dir (sp - 64 - 12) (Bytes hb) 12 (s\<lparr>mem := m2\<rparr>) = Inr (s\<lparr>mem := m3\<rparr>)"
      "building s0 xs0 dir G P (s\<lparr>mem := m3\<rparr>) xs" "inside dir m2 m3" "user_bytes m3 dir (sp - 64 - 12) hb"
      "same_outside (unat sp - 76) (unat sp - 64) dir m2 m3"
    using push_bytes [OF m2(2) p(1) in3 supplies_Bytes lp(2)] u lp(2) by auto
  have b2: "beside old dir (s\<lparr>mem := m2\<rparr>) xs"
    using beside_inside [OF m1(3), of m2] m2(3) buildingD(2) [OF m2(2)] by simp
  have b3: "beside old dir (s\<lparr>mem := m3\<rparr>) xs"
    using beside_inside [OF b2, of m3] m3(3) buildingD(2) [OF m3(2)] by simp
  have e: "sp - 64 - 12 = sp - 76" "sp - 76 + 12 = sp - 64" "sp - 76 + of_nat (length hb) = sp - 64" using lp(2) by simp_all
  have "user_bytes m3 dir (sp - 64) pb"
    by (rule user_bytes_outside [OF m3(5) m2(4)]) (use u lp(1) unat32_lt [of sp] in simp_all)
  then have "user_bytes m3 dir (sp - 76) (hb @ pb)"
    using m3(4) unfolding user_bytes_append e by simp
  moreover have "hb @ pb = concat (map put32 (stack_words (sp - 76) va args))"
    by (simp add: stack_words_def e(2) pb_def hb_def)
  ultimately have w: "user_bytes m3 dir (sp - 76) (concat (map put32 (stack_words (sp - 76) va args)))" by (simp only:)
  have out: "same_outside (unat sp - 76) (unat sp) dir m1 m3"
    by (rule same_outside_trans [OF m2(5) m3(5)]) simp_all
  have "user_bytes m3 dir (arg_ptrs va args ! j) (args ! j @ [0])" if "j < length args" for j
  proof -
    have "args_size args \<le> unat va" using m1(5) by simp
    note r = arg_ptrs_range [OF al this that, folded sp_def]
    show ?thesis
      by (rule user_bytes_outside [OF out]) (use m1(8) that r unat32_lt [of va] in simp_all)
  qed
  with w have "stack_holds m3 dir (sp - 76) va args" by (simp add: stack_holds_def)
  moreover have "same_outside (unat p) (unat va) dir (mem s) m3"
    by (rule same_outside_trans [OF m1(7) out]) (use bd p(2) in simp_all)
  ultimately show thesis by (rule that [OF m1(1) m2(1) [unfolded pb_def] m3(1) [unfolded hb_def] m3(2) b3, rotated])
qed

section \<open>Changing the address space\<close>

lemma uvm_inv_machine [simp]:
  "uvm_inv (s\<lparr>gdt := g, ts := t, tr := r, cr3 := d\<rparr>) pg xs = uvm_inv s pg xs" "cli_ok (s\<lparr>procs := Q\<rparr>) = cli_ok s"
  "cli_ok (s\<lparr>inodes := I\<rparr>) = cli_ok s"
  for s :: kernel
  by (simp_all add: uvm_inv_def vm_inv_def kmem_inv_def page_ok_def kern_ok_def cli_ok_def)

text \<open>The end of \<^verbatim>\<open>sys_execv\<close>, with the stack filled and its pointer in \<open>sp\<close>.\<close>

definition exec_switch :: "u32 \<Rightarrow> u32 \<Rightarrow> u32 \<Rightarrow> u32 \<Rightarrow> kernel \<Rightarrow> (int \<times> kernel) res" where
  "exec_switch dir va sp en s =
     bnd (cur s) (\<lambda>p.
     let old = pgdir p in
     bnd (cur_upd (\<lambda>p. p\<lparr>pgdir := dir\<rparr>) s) (\<lambda>s.
     bnd (switchuvm (kstack p) dir s) (\<lambda>s.
     bnd (freevm old s) (\<lambda>s.
     bnd (cur_upd (\<lambda>p. p\<lparr>psize := va - KERNEND\<rparr>) s) (\<lambda>s.
     let s = s\<lparr>mem := store32 (mem s) (tf p + TF_ESP) sp\<rparr>
     in Inr (0, s\<lparr>mem := store32 (mem s) (tf p + TF_EIP) en\<rparr>))))))"

lemma exec_switches:
  assumes be: "beside old dir s xs" and p: "procp s = Some c" "c < length (procs s)" "pgdir (procs s ! c) = old" "cli_ok s"
    and K: "pgal K" "K \<noteq> 0" "K = kstack (procs s ! c)" "tf (procs s ! c) = K + 0xFB4"
      "K \<notin> set xs" "K \<notin> owned (mem s) old" "K \<notin> owned (mem s) dir"
  shows "\<exists>t ys m. exec_switch dir va sp en s = Inr (0, t) \<and> uvm_inv t dir ys
    \<and> procs t = (procs s)[c := (procs s ! c)\<lparr>pgdir := dir, psize := va - KERNEND\<rparr>] \<and> procp t = Some c \<and> cr3 t = dir
    \<and> ts_esp0 (ts t) = K + 0x1000 \<and> inodes t = inodes s \<and> files t = files s \<and> eflags t = eflags s \<and> idt t = idt s
    \<and> pte_at (mem t) dir = pte_at (mem s) dir \<and> user_mem (mem t) dir = user_mem (mem s) dir
    \<and> owned (mem t) dir = owned (mem s) dir \<and> K \<notin> set ys
    \<and> mem t = store32 (store32 m (K + 0xFB4 + TF_ESP) sp) (K + 0xFB4 + TF_EIP) en \<and> (\<forall>a. pg_of a = K \<longrightarrow> m a = mem s a)"
proof -
  note B = be [unfolded beside_def]
  have d0: "dir \<noteq> 0" using B uvm_invD(1) vm_invD(6) by blast
  let ?P = "(procs s)[c := (procs s ! c)\<lparr>pgdir := dir\<rparr>]"
  let ?s1 = "s\<lparr>procs := ?P\<rparr>"
  obtain g where sw: "switchuvm K dir ?s1 = Inr (?s1\<lparr>gdt := g, ts := (ts s)\<lparr>ts_ss0 := 0x10, ts_esp0 := K + 0x1000, ts_iomb := 0xFFFF\<rparr>,
      tr := 0x28, cr3 := dir\<rparr>)"
    using switchuvm_eq [of ?s1 K dir] p(4) K(2) d0 by auto
  let ?s2 = "?s1\<lparr>gdt := g, ts := (ts s)\<lparr>ts_ss0 := 0x10, ts_esp0 := K + 0x1000, ts_iomb := 0xFFFF\<rparr>, tr := 0x28, cr3 := dir\<rparr>"
  have i2: "uvm_inv ?s2 old xs" "uvm_inv ?s2 dir xs" using B by simp_all
  show ?thesis
  proof (rule freevm_frees [OF i2(1)])
    fix s3 ys
    assume f: "freevm old ?s2 = Inr s3" "kmem_inv s3 (ys @ xs)" "mem_only ?s2 s3"
      "set ys = insert old (frame (mem ?s2) old ` upages (mem ?s2) old \<union> tbl (mem ?s2) old ` (pres (mem ?s2) old \<inter> {256..<1024}))"
      "mem_frame (set ys \<union> vm_pages (mem ?s2) old) (mem ?s2) (mem s3)"
    have ys: "set ys \<subseteq> owned (mem s) old" unfolding f(4) by (auto simp: owned_def vm_pages_def tables_def)
    have dj: "(set ys \<union> vm_pages (mem s) old) \<inter> owned (mem s) dir = {}" "set (ys @ xs) \<inter> owned (mem s) dir = {}"
      using ys B owned_not_free [of s dir xs] by (auto simp: owned_def)
    have fr: "mem_frame (set ys \<union> vm_pages (mem s) old) (mem ?s2) (mem s3)" using f(5) by simp
    have O: "uvm_inv s3 dir (ys @ xs)" "pte_at (mem s3) dir = pte_at (mem s) dir" "owned (mem s3) dir = owned (mem s) dir"
      using uvm_other [OF i2(2) mem_only_sel(7) [OF f(3)] f(2) fr] dj by simp_all
    have um: "user_mem (mem s3) dir = user_mem (mem s) dir"
      using user_mem_frame [OF i2(2) fr] O(2) dj(1) by simp
    have Kx: "K \<notin> owned (mem s3) dir" "K \<notin> set (ys @ xs)" using K(5-7) ys O(3) by auto
    let ?m = "store32 (store32 (mem s3) (K + 0xFF8) sp) (K + 0xFEC) en"
    have fK: "mem_frame {K} (mem s3) ?m"
      by (rule mem_frame_trans [OF page_frame32 [OF K(1)] page_frame32 [OF K(1)]]) simp_all
    note W = uvm_write [OF O(1) fK Kx]
    have pt: "pte_at ?m dir = pte_at (mem s3) dir"
      using uvm_frame(4) [OF O(1) fK] Kx by (auto simp: owned_def)
    have um': "user_mem ?m dir = user_mem (mem s3) dir"
      using user_mem_frame [OF O(1) fK pt] Kx(1) by simp
    let ?Q = "(procs s)[c := (procs s ! c)\<lparr>pgdir := dir, psize := va - KERNEND\<rparr>]"
    let ?t = "s3\<lparr>procs := ?Q, mem := ?m\<rparr>"
    obtain m' r where s3: "s3 = ?s2\<lparr>mem := m', coremap := r\<rparr>" using f(3) by (auto simp: mem_only_def)
    have sel: "procs s3 = ?P" "procp s3 = Some c" "cr3 s3 = dir" "ts_esp0 (ts s3) = K + 0x1000" "inodes s3 = inodes s"
      "files s3 = files s" "eflags s3 = eflags s" "idt s3 = idt s"
      unfolding s3 using p(1) by simp_all
    have "exec_switch dir va sp en s = Inr (0, ?t)"
      using p sw f(1) sel K(3,4) by (simp add: exec_switch_def cur_def cur_upd_def upd_at_def Let_def add.assoc)
    moreover have "?t = s3\<lparr>mem := ?m\<rparr>\<lparr>procs := ?Q\<rparr>" by (cases s3) simp
    then have "uvm_inv ?t dir (ys @ xs)" using W(1) uvm_inv_tables(1) by metis
    moreover have "mem s3 a = mem s a" if "pg_of a = K" for a
      using mem_frameD [OF fr, of a] that K(6) ys by (auto simp: owned_def)
    ultimately show ?thesis
      using O um W um' pt Kx sel by (intro exI [of _ ?t] exI [of _ "ys @ xs"] exI [of _ "mem s3"]) (simp add: add.assoc)
  qed
qed

lemma exec_enters:
  assumes b: "building s0 xs0 dir G P s xs" and o: "uvm_inv s0 old xs0" "page_ok s = page_ok s0"
    and c: "cr3 s = old" "procp s = Some c" "c < length (procs s)" "pgdir (procs s ! c) = old" "cli_ok s"
    and av: "if argv = 0 then args = [] else argv_at (mem s0) old argv qs args" and n: "length args \<le> 16"
    and p: "p \<in> P" "unat va = unat p + 4096" and room: "args_size args + 76 \<le> 4096"
    and K: "pgal K" "K \<noteq> 0" "K = kstack (procs s ! c)" "tf (procs s ! c) = K + 0xFB4" "K \<notin> set xs0" "K \<notin> owned (mem s0) old"
  defines "sp \<equiv> args_sp va args - 76"
  shows "\<exists>t ys m. exec_enter dir argv va en s = Inr (0, t) \<and> uvm_inv t dir ys \<and> K \<notin> set ys \<and> K \<notin> owned (mem t) dir
    \<and> procs t = (procs s)[c := (procs s ! c)\<lparr>pgdir := dir, psize := va - KERNEND\<rparr>] \<and> procp t = Some c \<and> cr3 t = dir
    \<and> ts_esp0 (ts t) = K + 0x1000 \<and> inodes t = inodes s \<and> files t = files s \<and> eflags t = eflags s \<and> idt t = idt s
    \<and> upages (mem t) dir = P \<and> (\<forall>q \<in> P. PTE_FLAGS (pte_at (mem t) dir q) = (if q \<in> G then 3 else 7))
    \<and> same_outside (unat p) (unat va) dir (mem s) (mem t) \<and> stack_holds (mem t) dir sp va args
    \<and> mem t = store32 (store32 m (K + 0xFB4 + TF_ESP) sp) (K + 0xFB4 + TF_EIP) en \<and> (\<forall>a. pg_of a = K \<longrightarrow> m a = mem s0 a)"
proof -
  note O = building_beside [OF o(1) b o(2)]
  have "argv_at (mem s) old argv qs args = argv_at (mem s0) old argv qs args"
    unfolding argv_at_def arg_at_def user_bytes_def O(2) by simp
  then have av: "if argv = 0 then args = [] else argv_at (mem s) old argv qs args" using av by simp
  obtain m1 m2 m3 where m: "(if argv \<noteq> 0 then push_args 16 dir argv [] va s else Inr ([], va, s)) = Inr (arg_ptrs va args, args_sp va args, s\<lparr>mem := m1\<rparr>)"
    "copyout dir (args_sp va args - 64) (Bytes (concat (map put32 (arg_ptrs va args @ replicate (16 - length args) 0)))) 64 (s\<lparr>mem := m1\<rparr>)
      = Inr (s\<lparr>mem := m2\<rparr>)"
    "copyout dir (args_sp va args - 64 - 12) (Bytes (concat (map put32 [0xFFFFFFFF, of_nat (length args), args_sp va args - 64]))) 12 (s\<lparr>mem := m2\<rparr>)
      = Inr (s\<lparr>mem := m3\<rparr>)"
    and b3: "building s0 xs0 dir G P (s\<lparr>mem := m3\<rparr>) xs" and be: "beside old dir (s\<lparr>mem := m3\<rparr>) xs"
    and st: "same_outside (unat p) (unat va) dir (mem s) m3" "stack_holds m3 dir sp va args"
    unfolding sp_def by (rule exec_stack [OF b O(1) c(1) av n p room])
  have pk: "page_ok (s\<lparr>mem := m3\<rparr>) = page_ok s0" using o(2) by (simp add: page_ok_def fun_eq_iff)
  note O3 = building_beside [OF o(1) b3 pk] and B3 = buildingD [OF b3]
  have sub: "set xs \<subseteq> set xs0" "owned m3 dir \<subseteq> set xs0" using B3(3) by auto
  have pr: "procp (s\<lparr>mem := m3\<rparr>) = Some c" "c < length (procs (s\<lparr>mem := m3\<rparr>))" "pgdir (procs (s\<lparr>mem := m3\<rparr>) ! c) = old"
    "cli_ok (s\<lparr>mem := m3\<rparr>)"
    using c by (simp_all add: cli_ok_def)
  have kx: "K = kstack (procs (s\<lparr>mem := m3\<rparr>) ! c)" "tf (procs (s\<lparr>mem := m3\<rparr>) ! c) = K + 0xFB4" "K \<notin> set xs"
    "K \<notin> owned (mem (s\<lparr>mem := m3\<rparr>)) old" "K \<notin> owned (mem (s\<lparr>mem := m3\<rparr>)) dir"
    using K(3-6) O3(3) sub by auto
  have sel: "procs (s\<lparr>mem := m3\<rparr>) = procs s" "inodes (s\<lparr>mem := m3\<rparr>) = inodes s" "files (s\<lparr>mem := m3\<rparr>) = files s"
    "eflags (s\<lparr>mem := m3\<rparr>) = eflags s" "idt (s\<lparr>mem := m3\<rparr>) = idt s" "mem (s\<lparr>mem := m3\<rparr>) = m3"
    by simp_all
  obtain t ys m where t: "exec_switch dir va sp en (s\<lparr>mem := m3\<rparr>) = Inr (0, t)" "uvm_inv t dir ys"
      "procs t = (procs s)[c := (procs s ! c)\<lparr>pgdir := dir, psize := va - KERNEND\<rparr>]" "procp t = Some c" "cr3 t = dir"
      "ts_esp0 (ts t) = K + 0x1000" "inodes t = inodes s" "files t = files s" "eflags t = eflags s" "idt t = idt s"
      "pte_at (mem t) dir = pte_at m3 dir" "user_mem (mem t) dir = user_mem m3 dir" "owned (mem t) dir = owned m3 dir" "K \<notin> set ys"
      "mem t = store32 (store32 m (K + 0xFB4 + TF_ESP) sp) (K + 0xFB4 + TF_EIP) en" "\<forall>a. pg_of a = K \<longrightarrow> m a = m3 a"
    using exec_switches [OF be pr K(1,2) kx, of va sp en] unfolding sel by blast
  have "exec_enter dir argv va en s = exec_switch dir va sp en (s\<lparr>mem := m3\<rparr>)"
    unfolding exec_enter_def m(1) by (simp add: Let_def m(2,3) [simplified] exec_switch_def sp_def)
  moreover have "m a = mem s0 a" if "pg_of a = K" for a
    using t(16) mem_frameD [OF B3(1), of a] that K(5) by simp
  moreover have "upages (mem t) dir = P" using B3(4) t(11) by (simp add: upages_def)
  moreover have "K \<notin> owned (mem t) dir" using sub(2) K(5) t(13) by auto
  moreover have "same_outside (unat p) (unat va) dir (mem s) (mem t)" "stack_holds (mem t) dir sp va args"
    using st by (simp_all add: same_outside_def stack_holds_def user_bytes_def t(12))
  ultimately show ?thesis using t B3(8) by (intro exI [of _ t] exI [of _ ys] exI [of _ m]) simp
qed

section \<open>Executable files\<close>

definition program :: "(u32 \<Rightarrow> u8 list) \<Rightarrow> inode \<Rightarrow> proghdr list" where
  "program d ip = prog_headers d ip (unat (e_phoff (elf_header d ip))) (unat (e_phnum (elf_header d ip)))"

text \<open>A file \<^verbatim>\<open>sys_execv\<close> accepts: an ELF header with program headers that lie within the file.\<close>

definition executable :: "(u32 \<Rightarrow> u8 list) \<Rightarrow> inode \<Rightarrow> bool" where
  "executable d ip \<longleftrightarrow> itype ip \<noteq> T_DEV \<and> sectors_ok d ip \<and> 52 \<le> unat (isize ip) \<and> unat (isize ip) \<le> 124 * 512
     \<and> e_magic (elf_header d ip) = ELF_MAGIC
     \<and> unat (e_phoff (elf_header d ip)) + 32 * unat (e_phnum (elf_header d ip)) \<le> unat (isize ip)
     \<and> loadable_all (program d ip) KERNEND ip"

text \<open>The guard page and the page of the stack behind a program; the pages of the whole.\<close>

definition guard :: "proghdr list \<Rightarrow> u32" where
  "guard phs = PGROUNDUP (prog_end phs KERNEND)"

definition exec_pages :: "proghdr list \<Rightarrow> u32 set" where
  "exec_pages phs = prog_pages phs KERNEND \<union> {guard phs, guard phs + 0x1000}"

text \<open>Everything depends on the size and the sectors of the inode only.\<close>

lemma same_file:
  assumes "isize jp = isize ip" and "iaddr jp = iaddr ip"
  shows "file_part d jp = file_part d ip" "segment_bytes d jp = segment_bytes d ip" "loadable ph va jp = loadable ph va ip"
    "loadable_all phs va jp = loadable_all phs va ip" "prog_mem d jp phs va f = prog_mem d ip phs va f"
    "elf_header d jp = elf_header d ip" "program d jp = program d ip" "sectors_ok d jp = sectors_ok d ip"
proof -
  show f: "file_part d jp = file_part d ip" using assms by (simp add: file_part_def fun_eq_iff)
  show b: "segment_bytes d jp = segment_bytes d ip" using assms by (simp add: segment_bytes_def image_contents_def fun_eq_iff)
  show l: "loadable ph va jp = loadable ph va ip" for ph va using assms by (simp add: loadable_def)
  show "loadable_all phs va jp = loadable_all phs va ip" by (induction phs arbitrary: va) (simp_all add: l)
  show "prog_mem d jp phs va f = prog_mem d ip phs va f" by (induction phs arbitrary: va f) (simp_all add: b)
  show e: "elf_header d jp = elf_header d ip" by (simp add: elf_header_def f)
  show "program d jp = program d ip" by (simp add: program_def prog_headers_def e f)
  show "sectors_ok d jp = sectors_ok d ip" using assms by (simp add: sectors_ok_def)
qed

lemma executable_on_disk:
  assumes "on_disk d ip" and "inum ip = no" and "executable d (load_dinode (d no) inode_zero)"
  shows "executable d ip" "program d ip = program d (load_dinode (d no) inode_zero)"
    "elf_header d ip = elf_header d (load_dinode (d no) inode_zero)"
    "prog_mem d ip phs va f = prog_mem d (load_dinode (d no) inode_zero) phs va f"
proof -
  let ?jp = "load_dinode (d no) inode_zero"
  have e: "ip = load_dinode (d no) ip" using assms(1,2) by (simp add: on_disk_def)
  have "itype (load_dinode (d no) ip) = itype ?jp" "isize (load_dinode (d no) ip) = isize ?jp"
    "iaddr (load_dinode (d no) ip) = iaddr ?jp"
    by (simp_all add: load_dinode_def)
  with e have s: "itype ip = itype ?jp" "isize ip = isize ?jp" "iaddr ip = iaddr ?jp" by simp_all
  note F = same_file [OF s(2,3)]
  show "program d ip = program d ?jp" "elf_header d ip = elf_header d ?jp" "prog_mem d ip phs va f = prog_mem d ?jp phs va f"
    by (rule F(7), rule F(6), rule F(5))
  show "executable d ip" using assms(3) unfolding executable_def by (simp add: F s)
qed

text \<open>The pages of a program lie below its end.\<close>

lemma prog_end_above:
  assumes "loadable_all phs va ip" and "KERNEND \<le> va" and "va < USEREND"
  shows "va \<le> prog_end phs va" "prog_end phs va < USEREND" "p \<in> prog_pages phs va \<Longrightarrow> KERNEND \<le> p \<and> p < prog_end phs va"
proof -
  have "va \<le> prog_end phs va \<and> prog_end phs va < USEREND \<and> (p \<in> prog_pages phs va \<longrightarrow> KERNEND \<le> p \<and> p < prog_end phs va)"
    using assms
  proof (induction phs arbitrary: va)
    case (Cons ph phs)
    show ?case
    proof (cases "ph_type ph = ELF_PROG_LOAD")
      case True
      then have l: "loadable ph va ip" "loadable_all phs (ph_vaddr ph + ph_memsz ph) ip" using Cons.prems(1) by simp_all
      note L = loadableD [OF l(1) refl]
      have "unat va \<le> 0xFFFFF000" using Cons.prems(3) by (simp add: word_less_nat_alt)
      note Q = apages_end [OF Cons.prems(2) this, of p "ph_vaddr ph + ph_memsz ph"]
      have "KERNEND \<le> ph_vaddr ph + ph_memsz ph" using L(1,2) by simp
      from Cons.IH [OF l(2) this L(3)] show ?thesis using True L(1,2) Q by auto
    qed (use Cons in auto)
  qed simp
  then show "va \<le> prog_end phs va" "prog_end phs va < USEREND" "p \<in> prog_pages phs va \<Longrightarrow> KERNEND \<le> p \<and> p < prog_end phs va"
    by blast+
qed

section \<open>\<open>sys_execv\<close>\<close>

lemma on_disk_lock [simp]: "on_disk d (ip\<lparr>ilock := l\<rparr>) = on_disk d ip"
proof -
  have "load_dinode b (ip\<lparr>ilock := l\<rparr>) = (load_dinode b ip)\<lparr>ilock := l\<rparr>" for b by (simp add: load_dinode_def)
  then show ?thesis by (cases ip) (auto simp: on_disk_def load_dinode_def)
qed

lemma outside_page:
  assumes "pgal p" and "pg_of v \<noteq> p" and "unat p + 4096 < 2 ^ 32"
  shows "unat v < unat p \<or> unat p + 4096 \<le> unat v"
proof (rule ccontr)
  assume "\<not> ?thesis"
  then have "p \<le> v" "unat (v - p) < 4096" by (auto simp: word_le_nat_alt unat_sub)
  then have "pg_of v = p" using pg_of_iff [OF assms(1)] by (simp add: word_less_nat_alt)
  then show False using assms(2) by simp
qed

lemma files_only_cpu: "files_only s t \<Longrightarrow> eflags t = eflags s \<and> idt t = idt s \<and> cli_ok t = cli_ok s"
  by (auto simp: files_only_def cli_ok_def)

lemma files_only_uvm: "files_only s t \<Longrightarrow> uvm_inv t pg xs = uvm_inv s pg xs"
proof -
  assume "files_only s t"
  then obtain I B P L K where "t = s\<lparr>inodes := I, blocks := B, pending := P, outlog := L, idelock := K\<rparr>"
    unfolding files_only_def by blast
  then show ?thesis by (simp add: uvm_inv_def vm_inv_def kmem_inv_def page_ok_def kern_ok_def cli_ok_def)
qed

text \<open>
  The process \<open>c\<close> runs in a consistent address space with the free list \<open>xs\<close>; no inode is locked, no buffer is held, and
  the kernel stack is a page of its own.
\<close>

definition can_exec :: "nat \<Rightarrow> u32 list \<Rightarrow> kernel \<Rightarrow> bool" where
  "can_exec c xs s \<longleftrightarrow> kvm_ok s \<and> con_ok s \<and> cr3 s = pgdir (procs s ! c) \<and> uvm_inv s (pgdir (procs s ! c)) xs
     \<and> idle s \<and> icache_ok s \<and> (\<forall>ip \<in> set (inodes s). ilock ip = lock_zero) \<and> stack_page c xs s \<and> kstack (procs s ! c) \<noteq> 0"

text \<open>What the call does not touch before the change of the address space.\<close>

definition same_caller :: "kernel \<Rightarrow> kernel \<Rightarrow> bool" where
  "same_caller s t \<longleftrightarrow> procs t = procs s \<and> procp t = procp s \<and> cr3 t = cr3 s \<and> cli_ok t = cli_ok s \<and> eflags t = eflags s
     \<and> idt t = idt s \<and> files t = files s \<and> drive t = drive s"

text \<open>What \<^verbatim>\<open>sys_execv\<close> does with the locked inode \<open>i\<close>.\<close>

definition exec_image :: "nat \<Rightarrow> u32 \<Rightarrow> kernel \<Rightarrow> (int \<times> kernel) res" where
  "exec_image i argv s =
     bnd (read_header i 0 ELF_SIZE s) (\<lambda>(h, s).
       case h of
         None \<Rightarrow> exec_bad 0 i s
       | Some bs \<Rightarrow>
           if e_magic (elf_of bs) \<noteq> ELF_MAGIC then exec_bad 0 i s
           else
             bnd (setupkvm s) (\<lambda>(dir, s).
               if dir = 0 then exec_bad 0 i s
               else
                 bnd (load_segments (unat (e_phnum (elf_of bs))) dir i (e_phoff (elf_of bs)) KERNEND s) (\<lambda>(r, s).
                   case r of
                     None \<Rightarrow> exec_bad dir i s
                   | Some va \<Rightarrow>
                       bnd (release (LkInode i) s) (\<lambda>s.
                       bnd (ustack dir va s) (\<lambda>(va, s).
                         if va = 0 then exec_bad dir i s
                         else exec_enter dir argv va (e_entry (elf_of bs)) s)))))"

lemma sys_execv_image:
  assumes "argptr 0 s = Inr path" and "argptr 1 s = Inr argv" and "namei path s = Inr (Some i, s1)" and "acquire (LkInode i) s1 = Inr s2"
  shows "sys_execv s = exec_image i argv s2"
  using assms by (simp add: sys_execv_def exec_image_def)

text \<open>From the first header to the last segment.\<close>

lemma exec_loads:
  assumes rd: "readable i s" and ex: "executable (drive s) (inodes s ! i)" and phs: "phs = program (drive s) (inodes s ! i)"
    and ok: "kvm_ok s" "con_ok s" and old: "uvm_inv s old xs" and so: "solo c (1 + prog_reads phs + k) s"
    and room: "copy_needed (exec_pages phs) \<le> length xs"
  obtains bs dir s3 s4 s5 ys where
    "read_header i 0 ELF_SIZE s = Inr (Some bs, s3)" "elf_of bs = elf_header (drive s) (inodes s ! i)" "setupkvm s3 = Inr (dir, s4)" "dir \<noteq> 0"
    "load_segments (unat (e_phnum (elf_of bs))) dir i (e_phoff (elf_of bs)) KERNEND s4 = Inr (Some (prog_end phs KERNEND), s5)"
    "building s3 xs dir {} (prog_pages phs KERNEND) s5 ys" "uvm_inv s3 old xs" "mem s3 = mem s" "program_only s s3" "program_only s s5"
    "solo c k s5" "user_mem (mem s5) dir = prog_mem (drive s) (inodes s ! i) phs KERNEND (\<lambda>_. None)"
proof -
  let ?ip = "inodes s ! i" and ?d = "drive s"
  note E = ex [unfolded executable_def]
  let ?bs = "file_part ?d ?ip 0 52"
  have so: "solo c ((prog_reads phs + k) + 1) s" using so by (simp add: add.commute add.left_commute)
  have h: "unat (0 :: u32) + unat ELF_SIZE \<le> unat (isize ?ip)" "0 < unat ELF_SIZE" "sectors_for (unat (0 :: u32)) (unat ELF_SIZE) \<le> 1"
    using E by (simp_all add: sectors_for_def)
  obtain s3 where s3: "read_header i 0 ELF_SIZE s = Inr (Some ?bs, s3)" "program_only s s3" "mem s3 = mem s" "solo c (prog_reads phs + k) s3"
      "\<And>pg xs. uvm_inv s3 pg xs = uvm_inv s pg xs"
    using read_header_reads [OF so rd h] by auto
  note S3 = program_only_sel [OF s3(2)]
  have eh: "elf_of ?bs = elf_header ?d ?ip" by (simp add: elf_header_def)
  have i3: "uvm_inv s3 old xs" using old s3(5) by simp
  have k3: "kmem_inv s3 xs" using i3 uvm_invD(1) vm_invD(1) by blast
  have "129 \<le> copy_needed (exec_pages phs)" by (simp add: copy_needed_def)
  with room obtain x xs' where x: "xs = x # xs'" "128 \<le> length xs'" by (cases xs) auto
  have kv: "kvm_ok s3" using ok(1) S3 by simp
  obtain s4 ys4 where s4: "setupkvm s3 = Inr (x, s4)" "building s3 (x # xs') x {} {} s4 ys4" "mem_only s3 s4"
    by (rule building_start [OF k3 [unfolded x(1)] kv x(2)])
  have x0: "x \<noteq> 0" using buildingD(2) [OF s4(2)] uvm_invD(1) vm_invD(6) by blast
  note o4 = program_only_trans [OF s3(2) program_only_mem_only [OF s4(3)]]
  note S4 = program_only_sel [OF o4]
  have so4: "solo c (prog_reads phs + k) s4" using s3(4) solo_mem_only [OF s4(3)] by simp
  have um4: "user_mem (mem s4) x = (\<lambda>_. None)" using buildingD(4) [OF s4(2)] by (simp add: user_mem_def fun_eq_iff)
  let ?off = "e_phoff (elf_header ?d ?ip)" and ?n = "unat (e_phnum (elf_header ?d ?ip))"
  have sub: "prog_pages phs KERNEND \<subseteq> exec_pages phs" "finite (exec_pages phs)" by (auto simp: exec_pages_def)
  have "\<exists>t ys. load_segments ?n x i ?off KERNEND s4 = Inr (Some (prog_end phs KERNEND), t)
    \<and> building s3 (x # xs') x {} ({} \<union> prog_pages phs KERNEND) t ys \<and> program_only s4 t \<and> solo c k t
    \<and> user_mem (mem t) x = prog_mem (drive s4) (inodes s4 ! i) phs KERNEND (user_mem (mem s4) x)"
  proof (rule load_segments_builds [OF s4(2) _ _ _ _ _ _ _ so4])
    show "copy_needed ({} \<union> prog_pages phs KERNEND) \<le> length (x # xs')" using copy_needed_mono [OF sub] room by (simp add: x(1))
  qed (use ok(2) rd S4 E phs in \<open>simp_all add: program_def\<close>)
  then obtain s5 ys where s5: "load_segments ?n x i ?off KERNEND s4 = Inr (Some (prog_end phs KERNEND), s5)"
      "building s3 xs x {} (prog_pages phs KERNEND) s5 ys" "program_only s4 s5" "solo c k s5"
      "user_mem (mem s5) x = prog_mem ?d ?ip phs KERNEND (\<lambda>_. None)"
    using S4 um4 by (auto simp: x(1))
  note o5 = program_only_trans [OF o4 s5(3)]
  show thesis by (rule that [OF s3(1) eh s4(1) x0 s5(1) [folded eh] s5(2) i3 s3(3,2) o5 s5(4,5)])
qed

text \<open>From the first header to the stack.\<close>

lemma exec_builds:
  assumes rd: "holding (LkInode i) s" and ex: "executable (drive s) (inodes s ! i)" and phs: "phs = program (drive s) (inodes s ! i)"
    and ok: "kvm_ok s" "con_ok s" and old: "uvm_inv s old xs" and so: "solo c (1 + prog_reads phs + k) s"
    and va: "unat (guard phs) + 0x2000 < unat USEREND" and room: "copy_needed (exec_pages phs) \<le> length xs"
  obtains dir s3 s7 ys where
    "exec_image i argv s = exec_enter dir argv (guard phs + 0x2000) (e_entry (elf_header (drive s) (inodes s ! i))) s7"
    "building s3 xs dir {guard phs} (exec_pages phs) s7 ys" "uvm_inv s3 old xs" "page_ok s7 = page_ok s3" "mem s3 = mem s"
    "same_caller s s7" "inodes s7 = upd_at i (\<lambda>ip. ip\<lparr>ilock := lock_zero\<rparr>) (inodes s)"
    "\<And>v. user_mem (mem s7) dir v = (if pg_of v \<in> {guard phs, guard phs + 0x1000} then Some 0
       else prog_mem (drive s) (inodes s ! i) phs KERNEND (\<lambda>_. None) v)"
proof -
  let ?ip = "inodes s ! i"
  note E = ex [unfolded executable_def]
  have rd: "readable i s" using rd E by (simp add: readable_def)
  show thesis
  proof (rule exec_loads [OF rd ex phs ok old so room])
    fix bs x s3 s4 s5 ys5
    assume e: "read_header i 0 ELF_SIZE s = Inr (Some bs, s3)" "elf_of bs = elf_header (drive s) ?ip" "setupkvm s3 = Inr (x, s4)" "x \<noteq> 0"
        "load_segments (unat (e_phnum (elf_of bs))) x i (e_phoff (elf_of bs)) KERNEND s4 = Inr (Some (prog_end phs KERNEND), s5)"
      and b5: "building s3 xs x {} (prog_pages phs KERNEND) s5 ys5" and i3: "uvm_inv s3 old xs" "mem s3 = mem s"
      and o: "program_only s s3" "program_only s s5" and so5: "solo c k s5"
      and um: "user_mem (mem s5) x = prog_mem (drive s) ?ip phs KERNEND (\<lambda>_. None)"
    note S3 = program_only_sel [OF o(1)] and S5 = program_only_sel [OF o(2)]
    let ?s6 = "set_lock (LkInode i) lock_zero s5"
    have rel: "release (LkInode i) s5 = Inr ?s6"
      using release_alone [of s5 "LkInode i"] so5 by (simp add: solo_def alone_def lock_zero_def)
    have e6: "?s6 = s5\<lparr>inodes := upd_at i (\<lambda>ip. ip\<lparr>ilock := lock_zero\<rparr>) (inodes s)\<rparr>" using S5 by (simp add: set_lock_def)
    have b6: "building s3 xs x {} (prog_pages phs KERNEND) ?s6 ys5"
      by (rule building_program [OF b5]) (use buildingD(2) [OF b5] in \<open>simp_all add: e6 uvm_inv_tables\<close>)
    have pe: "KERNEND \<le> prog_end phs KERNEND" "prog_end phs KERNEND < USEREND" "p \<in> prog_pages phs KERNEND \<Longrightarrow> p < prog_end phs KERNEND" for p
      using prog_end_above [of phs KERNEND ?ip] E phs by simp_all
    have hi: "unat (prog_end phs KERNEND) \<le> 0xFFFFF000" using pe(2) by (simp add: word_less_nat_alt)
    have con6: "con_ok ?s6" using ok(2) S5 by (simp add: e6 con_ok_def)
    obtain s7 ys where s7: "ustack x (prog_end phs KERNEND) ?s6 = Inr (guard phs + 0x2000, s7)"
        "building s3 xs x {guard phs} (exec_pages phs) s7 ys" "program_only ?s6 s7"
        "user_mem (mem s7) x = (\<lambda>v. if pg_of v \<in> {guard phs, guard phs + 0x1000} then Some 0 else user_mem (mem ?s6) x v)"
      using ustack_builds [OF b6 con6 pe(3) guard_def pe(1) va hi] room unfolding exec_pages_def by blast
    note S7 = program_only_sel [OF s7(3)]
    have "guard phs + 0x2000 \<noteq> 0" using va unat_add_word [of "guard phs" "0x2000"] by (auto simp: unat_eq_zero)
    then have img: "exec_image i argv s = exec_enter x argv (guard phs + 0x2000) (e_entry (elf_header (drive s) ?ip)) s7"
      unfolding exec_image_def using e E rel s7(1) by (simp del: ELF_SIZE_def)
    show thesis
    proof (rule that [OF img s7(2) i3(1) _ i3(2)])
      have "page_ok ?s6 = page_ok s5" by (simp add: e6 page_ok_def fun_eq_iff)
      then show "page_ok s7 = page_ok s3" using S7 S5 S3 by simp
    qed (use S7 S5 s7(4) um in \<open>simp_all add: e6 same_caller_def\<close>)
  qed
qed

text \<open>
  The file named by the string \<open>p\<close> in the root directory, and its number; the disk interrupts a call may take.
\<close>

definition names :: "kernel \<Rightarrow> u32 \<Rightarrow> u32 \<Rightarrow> bool" where
  "names s path no \<longleftrightarrow> (\<exists>p e. path \<noteq> 0 \<and> (\<forall>i \<le> length (cstr 28 p). user_mem (mem s) (cr3 s) (path + of_nat i) = Some (p i)) \<and> p 0 \<noteq> 47
     \<and> rootdir (sysfs_of s) \<noteq> 0 \<and> rootdir (sysfs_of s) < NSECTOR
     \<and> iaddr (load_dinode (drive s (rootdir (sysfs_of s))) inode_zero) ! 0 < NSECTOR
     \<and> entry (root_dir (drive s) (rootdir (sysfs_of s))) p = Some e \<and> no = dir_ino (root_dir (drive s) (rootdir (sysfs_of s))) e
     \<and> no \<noteq> 0 \<and> no < NSECTOR)"

lemma namei_names:
  assumes "solo c (3 + k) s" and "idle s" and "icache_ok s" and "names s path no"
  obtains i t where "namei path s = Inr (Some i, t)" "files_only s t" "opened s no i t" "solo c k t"
proof -
  obtain p e where n: "path \<noteq> 0" "\<forall>i \<le> length (cstr 28 p). user_mem (mem s) (cr3 s) (path + of_nat i) = Some (p i)" "p 0 \<noteq> 47"
    "rootdir (sysfs_of s) \<noteq> 0" "rootdir (sysfs_of s) < NSECTOR" "iaddr (load_dinode (drive s (rootdir (sysfs_of s))) inode_zero) ! 0 < NSECTOR"
    "entry (root_dir (drive s) (rootdir (sysfs_of s))) p = Some e" "no = dir_ino (root_dir (drive s) (rootdir (sysfs_of s))) e"
    "no \<noteq> 0" "no < NSECTOR"
    using assms(4) unfolding names_def by blast
  have en: "\<forall>e. entry (root_dir (drive s) (rootdir (sysfs_of s))) p = Some e \<longrightarrow>
      dir_ino (root_dir (drive s) (rootdir (sysfs_of s))) e \<noteq> 0 \<and> dir_ino (root_dir (drive s) (rootdir (sysfs_of s))) e < NSECTOR"
    using n(7-10) by simp
  have "\<forall>i \<le> length (cstr 28 p). uread (path + of_nat i) s = Inr (p i)" using n(2) uread_user by blast
  from namei_cases [OF assms(1-3) n(1) this n(3) refl n(4-6) en] show thesis using that n(7,8) by auto
qed

text \<open>What a process finds when its program has been replaced.\<close>

definition replaced :: "kernel \<Rightarrow> nat \<Rightarrow> inode \<Rightarrow> u8 list list \<Rightarrow> u32 \<Rightarrow> kernel \<Rightarrow> bool" where
  "replaced s c ip args dir t \<longleftrightarrow> (let phs = program (drive s) ip; g = guard phs; sp = args_sp (g + 0x2000) args - 76 in
     procs t = (procs s)[c := (procs s ! c)\<lparr>pgdir := dir, psize := g + 0x2000 - KERNEND\<rparr>] \<and> procp t = Some c \<and> cr3 t = dir
     \<and> (\<exists>ys. uvm_inv t dir ys) \<and> upages (mem t) dir = exec_pages phs
     \<and> (\<forall>q \<in> exec_pages phs. PTE_FLAGS (pte_at (mem t) dir q) = (if q = g then 3 else 7))
     \<and> (\<forall>v. pg_of v \<noteq> g + 0x1000 \<longrightarrow>
          user_mem (mem t) dir v = (if pg_of v = g then Some 0 else prog_mem (drive s) ip phs KERNEND (\<lambda>_. None) v))
     \<and> stack_holds (mem t) dir sp (g + 0x2000) args)"

lemma exec_opens:
  assumes ce: "can_exec c xs s" and nm: "names s path no" and so: "solo c (3 + k) s"
    and ip: "ip = load_dinode (drive s no) inode_zero" and ex: "executable (drive s) ip"
  obtains i s1 s2 where "namei path s = Inr (Some i, s1)" "acquire (LkInode i) s1 = Inr s2" "holding (LkInode i) s2" "opened s no i s1"
    "executable (drive s2) (inodes s2 ! i)" "upd_at i (\<lambda>ip. ip\<lparr>ilock := lock_zero\<rparr>) (inodes s2) = inodes s1"
    "kvm_ok s2" "con_ok s2" "uvm_inv s2 (pgdir (procs s ! c)) xs" "solo c k s2" "mem s2 = mem s" "same_caller s s2"
    "program (drive s2) (inodes s2 ! i) = program (drive s) ip"
    "elf_header (drive s2) (inodes s2 ! i) = elf_header (drive s) ip"
    "prog_mem (drive s2) (inodes s2 ! i) = prog_mem (drive s) ip"
proof -
  note C = ce [unfolded can_exec_def] and A = so [unfolded solo_def alone_def]
  obtain i s1 where s1: "namei path s = Inr (Some i, s1)" "files_only s s1" "opened s no i s1" "solo c k s1"
    by (rule namei_names [OF so _ _ nm]) (use C in simp_all)
  note F = files_only_sel [OF s1(2)] files_only_cpu [OF s1(2)]
  have i1: "i < length (inodes s1)" "on_disk (drive s1) (inodes s1 ! i)" "inum (inodes s1 ! i) = no" using s1(3) F by (simp_all add: opened_def)
  have l: "i < length (inodes s)" "i < length (inodes s1)" "map ilock (inodes s1) = map ilock (inodes s)"
    using s1(3) by (simp_all add: opened_def)
  then have "ilock (inodes s1 ! i) = ilock (inodes s ! i)" by (metis nth_map)
  then have lk: "ilock (inodes s1 ! i) = lock_zero" using C l(1) by simp
  let ?s2 = "s1\<lparr>inodes := (inodes s1)[i := (inodes s1 ! i)\<lparr>ilock := \<lparr>locked = 1, owner = Some c\<rparr>\<rparr>]\<rparr>"
  have acq: "acquire (LkInode i) s1 = Inr ?s2"
    using acquire_free [of "LkInode i" s1] i1 lk A F by (simp add: lock_of_def set_lock_def upd_at_def lock_zero_def)
  have dr: "drive ?s2 = drive s" using F by simp
  have od: "on_disk (drive ?s2) (inodes ?s2 ! i)" "inum (inodes ?s2 ! i) = no" using i1 by simp_all
  note X = executable_on_disk [OF od, unfolded dr, folded ip, OF ex]
  have X2: "executable (drive ?s2) (inodes ?s2 ! i)" "program (drive ?s2) (inodes ?s2 ! i) = program (drive s) ip"
      "elf_header (drive ?s2) (inodes ?s2 ! i) = elf_header (drive s) ip"
    unfolding dr by (rule X)+
  have pm: "prog_mem (drive ?s2) (inodes ?s2 ! i) = prog_mem (drive s) ip" unfolding dr by (intro ext, rule fun_cong [OF X(4)])
  have "(inodes s1 ! i)\<lparr>ilock := lock_zero\<rparr> = inodes s1 ! i" using lk by (cases "inodes s1 ! i") simp
  then have un: "upd_at i (\<lambda>ip. ip\<lparr>ilock := lock_zero\<rparr>) (inodes ?s2) = inodes s1" using i1(1) by (simp add: upd_at_def)
  have "holding (LkInode i) ?s2" using i1(1) A F by (simp add: holding_def lock_of_def)
  moreover have "kvm_ok ?s2" "con_ok ?s2" using C s1(2) by (auto simp: files_only_def kvm_ok_def con_ok_def)
  moreover have "uvm_inv ?s2 (pgdir (procs s ! c)) xs" using C files_only_uvm [OF s1(2)] by (simp add: uvm_inv_tables)
  moreover have "same_caller s ?s2" using F by (simp add: same_caller_def)
  moreover have "mem ?s2 = mem s" "solo c k ?s2" using F s1(4) by simp_all
  ultimately show thesis using X2 pm by (intro that [OF s1(1) acq _ s1(3) _ un]) assumption+
qed

lemma execv_succeeds:
  assumes ce: "can_exec c xs s" and ap: "argptr 0 s = Inr path" "argptr 1 s = Inr argv" and nm: "names s path no"
    and ip: "ip = load_dinode (drive s no) inode_zero" and ex: "executable (drive s) ip" and phs: "phs = program (drive s) ip"
    and so: "solo c (4 + prog_reads phs) s"
    and av: "if argv = 0 then args = [] else argv_at (mem s) (cr3 s) argv qs args" and n: "length args \<le> 16" "args_size args + 76 \<le> 4096"
    and va: "unat (guard phs) + 0x2000 < unat USEREND" and room: "copy_needed (exec_pages phs) \<le> length xs"
  shows "\<exists>dir t i m. sys_execv s = Inr (0, t) \<and> replaced s c ip args dir t \<and> opened s no i t
    \<and> ts_esp0 (ts t) = kstack (procs s ! c) + 0x1000 \<and> files t = files s \<and> eflags t = eflags s \<and> idt t = idt s
    \<and> (\<exists>ys. uvm_inv t dir ys \<and> kstack (procs s ! c) \<notin> set ys) \<and> kstack (procs s ! c) \<notin> owned (mem t) dir
    \<and> mem t = store32 (store32 m (tf (procs s ! c) + TF_ESP) (args_sp (guard phs + 0x2000) args - 76)) (tf (procs s ! c) + TF_EIP)
        (e_entry (elf_header (drive s) ip))
    \<and> (\<forall>a. pg_of a = kstack (procs s ! c) \<longrightarrow> m a = mem s a)"
proof -
  let ?p = "procs s ! c"
  note C = ce [unfolded can_exec_def] and A = so [unfolded solo_def alone_def]
  note K = C [THEN conjunct2, unfolded stack_page_def Let_def]
  have so3: "solo c (3 + (1 + prog_reads phs)) s" using so by (simp add: numeral_eq_Suc)
  obtain i s1 s2 where o: "namei path s = Inr (Some i, s1)" "acquire (LkInode i) s1 = Inr s2" "holding (LkInode i) s2" "opened s no i s1"
      "executable (drive s2) (inodes s2 ! i)" "upd_at i (\<lambda>ip. ip\<lparr>ilock := lock_zero\<rparr>) (inodes s2) = inodes s1"
      "kvm_ok s2" "con_ok s2" "uvm_inv s2 (pgdir ?p) xs" "solo c (1 + prog_reads phs) s2" "mem s2 = mem s" "same_caller s s2"
      "program (drive s2) (inodes s2 ! i) = program (drive s) ip" "elf_header (drive s2) (inodes s2 ! i) = elf_header (drive s) ip"
      "prog_mem (drive s2) (inodes s2 ! i) = prog_mem (drive s) ip"
    by (rule exec_opens [OF ce nm so3 ip ex])
  note S2 = o(12) [unfolded same_caller_def]
  have so2: "solo c (1 + prog_reads phs + 0) s2" using o(10) by simp
  show ?thesis
  proof (rule exec_builds [OF o(3,5) _ o(7-9) so2 va room])
    show "phs = program (drive s2) (inodes s2 ! i)" using o(13) phs by simp
  next
    fix dir s3 s7 ys
    let ?K = "kstack ?p" and ?va = "guard phs + 0x2000" and ?en = "e_entry (elf_header (drive s2) (inodes s2 ! i))"
    assume e: "exec_image i argv s2 = exec_enter dir argv ?va ?en s7"
      and b: "building s3 xs dir {guard phs} (exec_pages phs) s7 ys" "uvm_inv s3 (pgdir ?p) xs" "page_ok s7 = page_ok s3" "mem s3 = mem s2"
      and f: "same_caller s2 s7" "inodes s7 = upd_at i (\<lambda>ip. ip\<lparr>ilock := lock_zero\<rparr>) (inodes s2)"
      and um: "\<And>v. user_mem (mem s7) dir v = (if pg_of v \<in> {guard phs, guard phs + 0x1000} then Some 0
         else prog_mem (drive s2) (inodes s2 ! i) phs KERNEND (\<lambda>_. None) v)"
    note F = f(1) [unfolded same_caller_def]
    have m3: "mem s3 = mem s" using b(4) o(11) by simp
    have in7: "inodes s7 = inodes s1" using f(2) o(6) by simp
    have c7: "cr3 s7 = pgdir ?p" "procp s7 = Some c" "c < length (procs s7)" "pgdir (procs s7 ! c) = pgdir ?p" "cli_ok s7"
      using C A F S2 by simp_all
    have av7: "if argv = 0 then args = [] else argv_at (mem s3) (pgdir ?p) argv qs args" using av C m3 by metis
    have gp: "guard phs + 0x1000 \<in> exec_pages phs" "unat ?va = unat (guard phs + 0x1000) + 4096"
      using va by (simp_all add: exec_pages_def unat_add_word)
    have k7: "pgal ?K" "?K \<noteq> 0" "?K = kstack (procs s7 ! c)" "tf (procs s7 ! c) = ?K + 0xFB4" "?K \<notin> set xs"
        "?K \<notin> owned (mem s3) (pgdir ?p)"
      using K C F S2 unfolding m3 by simp_all
    obtain t ys m where t: "exec_enter dir argv ?va ?en s7 = Inr (0, t)" "uvm_inv t dir ys" "?K \<notin> set ys" "?K \<notin> owned (mem t) dir"
        "procs t = (procs s7)[c := (procs s7 ! c)\<lparr>pgdir := dir, psize := ?va - KERNEND\<rparr>]" "procp t = Some c" "cr3 t = dir"
        "ts_esp0 (ts t) = ?K + 0x1000" "inodes t = inodes s7" "files t = files s7" "eflags t = eflags s7" "idt t = idt s7"
        "upages (mem t) dir = exec_pages phs"
        "\<forall>q \<in> exec_pages phs. PTE_FLAGS (pte_at (mem t) dir q) = (if q \<in> {guard phs} then 3 else 7)"
        "same_outside (unat (guard phs + 0x1000)) (unat ?va) dir (mem s7) (mem t)" "stack_holds (mem t) dir (args_sp ?va args - 76) ?va args"
        "mem t = store32 (store32 m (?K + 0xFB4 + TF_ESP) (args_sp ?va args - 76)) (?K + 0xFB4 + TF_EIP) ?en"
        "\<forall>a. pg_of a = ?K \<longrightarrow> m a = mem s3 a"
      using exec_enters [OF b(1,2,3) c7 av7 n(1) gp n(2) k7, of ?en] by blast
    have so_um: "user_mem (mem t) dir v = (if pg_of v = guard phs then Some 0 else prog_mem (drive s) ip phs KERNEND (\<lambda>_. None) v)"
      if "pg_of v \<noteq> guard phs + 0x1000" for v
    proof -
      have "pgal (guard phs + 0x1000)" using gp(1) t(13) upages_pgal by blast
      then have "unat v < unat (guard phs + 0x1000) \<or> unat ?va \<le> unat v" 
        using outside_page [of "guard phs + 0x1000" v] that gp(2) unat32_lt [of ?va] by simp
      then have "user_mem (mem t) dir v = user_mem (mem s7) dir v" using t(15) by (auto simp: same_outside_def)
      then show ?thesis using um [of v] that o(15) by simp
    qed
    have "sys_execv s = Inr (0, t)" using sys_execv_image [OF ap o(1,2)] e t(1) by simp
    moreover have "replaced s c ip args dir t"
      unfolding replaced_def Let_def phs [symmetric] using t(2,5-7,13,14,16) F S2 so_um by auto
    moreover have "opened s no i t" using o(4) t(9) in7 unfolding opened_def by simp
    ultimately show ?thesis using t(2-4,8-12) F S2 K m3 o(14) t(17,18) by auto
  qed
qed

section \<open>Through the gate\<close>

lemma entered_exec:
  assumes "can_exec c xs s"
  shows "can_exec c xs (entered c r s)" "user_mem (mem (entered c r s)) (cr3 s) = user_mem (mem s) (cr3 s)"
proof -
  let ?K = "kstack (procs s ! c)" and ?pg = "pgdir (procs s ! c)" and ?e = "entered c r s"
  note C = assms [unfolded can_exec_def] and S = assms [unfolded can_exec_def stack_page_def Let_def]
  have f: "mem_frame {?K} (mem s) (mem ?e)" using entered_page S by simp
  have inv: "uvm_inv s ?pg xs" using C by simp
  have k: "?K \<notin> owned (mem s) ?pg" "?K \<notin> set xs" using S by simp_all
  note W = uvm_write [OF inv f k]
  have e: "?e = s\<lparr>mem := mem ?e\<rparr>" by (simp add: entered_def)
  have sel: "cr3 ?e = cr3 s" "con_ok ?e = con_ok s" "blocks ?e = blocks s" "inodes ?e = inodes s" "drive ?e = drive s"
    by (simp_all add: entered_def con_ok_def)
  have "uvm_inv ?e ?pg xs" using W(1) e by metis
  then show "can_exec c xs ?e" using C W(2) by (simp add: can_exec_def sel idle_def icache_ok_def stack_page_def Let_def)
  have "pte_at (mem ?e) ?pg = pte_at (mem s) ?pg" using uvm_frame(4) [OF inv f] k by (auto simp: owned_def)
  then show "user_mem (mem ?e) (cr3 s) = user_mem (mem s) (cr3 s)" using user_mem_frame [OF inv f] k C by simp
qed

lemma entered_names: "can_exec c xs s \<Longrightarrow> names s path no \<Longrightarrow> names (entered c r s) path no"
  using entered_exec(2) [of c xs s r] by (simp add: names_def entered_def)

lemma entered_solo: "solo c k s \<Longrightarrow> solo c k (entered c r s)"
  by (simp add: solo_def alone_def coherent_def entered_def cli_ok_def)

text \<open>The two arguments, above the return address on the user stack.\<close>

lemma argptr_word:
  assumes "procp s = Some c" and "load32 (mem s) (tf (procs s ! c) + TF_ESP) = sp"
    and "user_bytes (mem s) (cr3 s) (sp + 4) (concat (map put32 ws))" and "n < length ws"
    and "ws ! n = 0 \<or> sint KERNEND < sint (ws ! n)"
  shows "argptr n s = Inr (ws ! n)"
proof -
  have "uread32 (sp + 4 + 4 * of_nat n) s = Inr (ws ! n)" by (rule uread32_words [OF assms(3,4)])
  moreover have "sp + 4 * (of_nat n + 1) = sp + 4 + 4 * of_nat n" by (simp add: algebra_simps)
  ultimately have "argint n s = Inr (ws ! n)" using assms(1) by (simp only: argint_def cur_def assms(2) option.case bnd_Inr)
  then show ?thesis using assms(5) by (auto simp: argptr_def)
qed

lemma frame_regs_entry:
  assumes "m' = store32 (store32 m (t + TF_ESP) sp) (t + TF_EIP) en"
  shows "frame_regs m' t = (frame_regs m t)\<lparr>esp := sp, eip := en\<rparr>" "load32 m' (t + 64) = load32 m (t + 64)"
proof -
  have l: "load32 m' (t + b) = load32 m (t + b)"
    if "unat b + 4 \<le> 56 \<or> 60 \<le> unat b" "unat b + 4 \<le> 68 \<or> 72 \<le> unat b" "unat b \<le> 100" for b
    unfolding assms using load32_store32_at [of 68 b m t sp] load32_store32_at [of 56 b _ t en] that by auto
  have "load32 m' (t + 68) = sp" unfolding assms using load32_store32_at [of 56 68 _ t en] by (auto simp: load32_store32)
  moreover have "load32 m' (t + 56) = en" unfolding assms by (simp add: load32_store32)
  moreover note l [of 0] l [of 4] l [of 8] l [of 16] l [of 20] l [of 24] l [of 28] l [of 32] l [of 36] l [of 40] l [of 44]
    l [of 60] l [of 72]
  ultimately show "frame_regs m' t = (frame_regs m t)\<lparr>esp := sp, eip := en\<rparr>" by (simp add: frame_regs_def load16_load32)
  show "load32 m' (t + 64) = load32 m (t + 64)" using l [of 64] by simp
qed

lemma replaced_frame:
  assumes "replaced s c ip args dir t" and "uvm_inv t dir ys" and "mem_frame {k} (mem t) m" and "k \<notin> owned (mem t) dir" "k \<notin> set ys"
    and "eflags t = f"
  shows "replaced s c ip args dir (t\<lparr>mem := m, eflags := f\<rparr>)"
proof -
  note W = uvm_write [OF assms(2-5)]
  have pt: "pte_at m dir = pte_at (mem t) dir" using uvm_frame(4) [OF assms(2,3)] assms(4,5) by (auto simp: owned_def)
  have um: "user_mem m dir = user_mem (mem t) dir" using user_mem_frame [OF assms(2,3) pt] assms(4) by simp
  have "uvm_inv (t\<lparr>mem := m, eflags := f\<rparr>) dir ys" 
    using W(1) assms(6) by (simp add: uvm_inv_def vm_inv_def kmem_inv_def page_ok_def kern_ok_def cli_ok_def)
  then show ?thesis
    using assms(1) W(3) unfolding replaced_def Let_def by (auto simp: pt um stack_holds_def user_bytes_def)
qed

section \<open>Properties\<close>

text \<open>
  C2: \<^verbatim>\<open>execv\<close> enters the new program. A process alone on the machine executes \<^verbatim>\<open>int $0x40\<close> with the number of \<^verbatim>\<open>execv\<close>, a
  pointer to the name of an executable file of the root directory and a null-terminated array of at most 16 arguments, and
  there is memory for the pages of the program. It goes on at the entry point of the file, in a new address space that holds the
  segments of the program and nothing else but a guard page, closed to the user, and the page of the stack. On the stack lie the
  arguments: an invalid return address, their number, the address of the pointers, the pointers, and the strings themselves. Its
  other registers and its flags are those of the call, its open files are its own still, the next trap finds its kernel
  stack. The inode of the file keeps the reference that \<^verbatim>\<open>namei\<close> took.
\<close>

theorem execv_enters_program:
  assumes "in_user c r s" and "eax r = SYS_execv" and "can_exec c xs s"
    and "user_bytes (mem s) (cr3 s) (esp r + 4) (concat (map put32 [path, argv]))" and "sint KERNEND < sint path"
    and "argv = 0 \<or> sint KERNEND < sint argv" and "names s path no" and "ip = load_dinode (drive s no) inode_zero"
    and "executable (drive s) ip" and "phs = program (drive s) ip" and "solo c (4 + prog_reads phs) s"
    and "if argv = 0 then args = [] else argv_at (mem s) (cr3 s) argv qs args" and "length args \<le> 16" and "args_size args + 76 \<le> 4096"
    and "unat (guard phs) + 0x2000 < unat USEREND" and "copy_needed (exec_pages phs) \<le> length xs"
    and "r' = r\<lparr>eax := 0, eip := e_entry (elf_header (drive s) ip), esp := args_sp (guard phs + 0x2000) args - 76\<rparr>"
  shows "\<exists>dir t i. int_syscall r s = Inr (r', t) \<and> replaced s c ip args dir t \<and> opened s no i t \<and> files t = files s
    \<and> eflags t = eflags s \<and> in_user c r' t"
proof -
  let ?e = "entered c r s" and ?p = "procs s ! c"
  note U = assms(1) [unfolded in_user_def] and S = assms(3) [unfolded can_exec_def stack_page_def Let_def]
  note E = entered_exec [OF assms(3), of r] and F = entered_frame [of "tf ?p" s c r, OF refl]
  have sel: "cr3 ?e = cr3 s" "drive ?e = drive s" "inodes ?e = inodes s" "idt ?e = idt s" by (simp_all add: entered_def)
  have sp: "load32 (mem ?e) (tf (procs ?e ! c) + TF_ESP) = esp r" using F(1) by (auto simp: frame_regs_def dest: arg_cong [of _ _ esp])
  have ub: "user_bytes (mem ?e) (cr3 ?e) (esp r + 4) (concat (map put32 [path, argv]))"
    using assms(4) unfolding user_bytes_def sel E(2) .
  have ap: "argptr 0 ?e = Inr path" "argptr 1 ?e = Inr argv"
    using argptr_word [OF _ sp ub, of 0] argptr_word [OF _ sp ub, of 1] U assms(5,6) by auto
  have av: "if argv = 0 then args = [] else argv_at (mem ?e) (cr3 ?e) argv qs args"
    using assms(12) unfolding argv_at_def arg_at_def user_bytes_def sel E(2) .
  obtain dir t i m ys where t: "sys_execv ?e = Inr (0, t)" "replaced ?e c ip args dir t" "opened ?e no i t"
      "ts_esp0 (ts t) = kstack ?p + 0x1000" "files t = files s" "eflags t = eflags s" "idt t = idt s"
      "uvm_inv t dir ys" "kstack ?p \<notin> set ys" "kstack ?p \<notin> owned (mem t) dir"
      "mem t = store32 (store32 m (tf ?p + TF_ESP) (args_sp (guard phs + 0x2000) args - 76)) (tf ?p + TF_EIP)
        (e_entry (elf_header (drive s) ip))"
      "\<forall>a. pg_of a = kstack ?p \<longrightarrow> m a = mem ?e a"
    using execv_succeeds [OF E(1) ap entered_names [OF assms(3,7)], unfolded sel, OF assms(8-10) entered_solo [OF assms(11)]
        av [unfolded sel] assms(13-16)] sel by auto
  have "m (tf ?p + of_nat j) = mem ?e (tf ?p + of_nat j)" if "j < 76" for j
    using t(12) frame_address [OF _ that, of "kstack ?p"] S by simp
  note M = frame_regs_cong [of m "tf ?p" "mem ?e" "tf ?p", OF this] and R = frame_regs_entry [OF t(11)]
  have fr: "(frame_regs (mem t) (tf ?p))\<lparr>eax := of_int 0\<rparr> = r'" "load32 (mem t) (tf ?p + TF_EFLAGS) = eflags s"
    using M R F assms(17) by simp_all
  then have cs: "load16 (mem t) (tf ?p + TF_CS) = reg_cs r" using assms(17)
    by (auto simp: frame_regs_def dest: arg_cong [of _ _ reg_cs])
  have sc: "syscall (eax r) ?e = Inr (0, t)" using assms(2) t(1) by (simp add: syscall_def syscalls_def)
  let ?m = "store32 (mem t) (tf ?p + TF_EAX) (of_int 0)"
  let ?t = "t\<lparr>mem := ?m, eflags := eflags s\<rparr>"
  have run: "int_syscall r s = Inr (r', ?t)" using int_syscall_eq [OF assms(1) sc refl] cs U fr by simp
  have "mem_frame {kstack ?p} (mem t) ?m" using stack_frame32 [of "kstack ?p" "mem t" 0] S by (simp add: add.assoc)
  from replaced_frame [OF t(2,8) this t(10,9,6)] have rp: "replaced s c ip args dir ?t"
    unfolding replaced_def Let_def sel by (simp add: sel)
  then have pr: "procp t = Some c" "procs t = (procs s)[c := ?p\<lparr>pgdir := dir, psize := guard phs + 0x2000 - KERNEND\<rparr>]"
    by (simp_all add: replaced_def Let_def assms(10))
  have "c < length (procs s)" using assms(11) by (simp add: solo_def alone_def)
  then have "in_user c r' ?t" using U pr t(4,7) S assms(17) by (simp add: in_user_def)
  moreover have "opened s no i ?t" using t(3) by (simp add: opened_def sel)
  ultimately show ?thesis using run rp t(5) by (intro exI [of _ dir] exI [of _ ?t] exI [of _ i]) simp
qed

text \<open>
  The drive of the example of \<^verbatim>\<open>namei\<close>, where \<^verbatim>\<open>sh\<close> is a file of 88 bytes in sector 2050: an ELF header, one
  program header for the page at \<^verbatim>\<open>0x40000000\<close>, and \<^verbatim>\<open>int $0x40\<close> at the entry point behind them.
\<close>

definition ex_elf :: "u8 list" where
  "ex_elf = (replicate 512 0)[0 := 0x7F, 1 := 0x45, 2 := 0x4C, 3 := 0x46, 24 := 0x54, 27 := 0x40, 28 := 52, 44 := 1,
     52 := 1, 63 := 0x40, 68 := 88, 73 := 0x10, 84 := 0xCD, 85 := 0x40]"

definition ex_elf_drive :: "u32 \<Rightarrow> u8 list" where
  "ex_elf_drive = ex_drive(3 := (replicate 512 0)[12 := 88, 16 := 2, 17 := 8], 2050 := ex_elf)"

definition ex_elf_inode :: inode where
  "ex_elf_inode = load_dinode (ex_elf_drive 3) inode_zero"

lemma ex_elf_inode:
  "isize ex_elf_inode = 88" "iaddr ex_elf_inode ! 0 = 2050" "itype ex_elf_inode = 0" "sectors_ok ex_elf_drive ex_elf_inode"
proof -
  have b: "ex_elf_drive 3 = (replicate 512 0)[12 := 88, 16 := 2, 17 := 8]" by (simp add: ex_elf_drive_def)
  show "isize ex_elf_inode = 88" "itype ex_elf_inode = 0"
    by (simp_all add: ex_elf_inode_def load_dinode_def b get32_def get16_def le32_def)
  have a: "iaddr ex_elf_inode ! j = (if j = 0 then 2050 else 0)" if "j < 124" for j
  proof (cases j)
    case 0
    then show ?thesis by (simp add: ex_elf_inode_def load_dinode_def b get32_def le32_def del: upt_rec_numeral)
  next
    case (Suc k)
    then show ?thesis using that
      by (simp add: ex_elf_inode_def load_dinode_def b get32_def le32_def nth_list_update del: upt_rec_numeral)
  qed
  from a [of 0] show "iaddr ex_elf_inode ! 0 = 2050" by simp
  have l: "length (iaddr ex_elf_inode) = 124" by (simp add: ex_elf_inode_def load_dinode_def)
  moreover have "no < NSECTOR" if "no \<in> set (iaddr ex_elf_inode)" for no
    using that a l by (auto simp: in_set_conv_nth split: if_splits)
  moreover have "length (ex_elf_drive n) = 512" for n by (simp add: ex_elf_drive_def ex_drive_def ex_elf_def)
  ultimately show "sectors_ok ex_elf_drive ex_elf_inode" by (simp add: sectors_ok_def)
qed

lemma ex_elf_nth:
  "k < 512 \<Longrightarrow> ex_elf ! k = (if k = 0 then 0x7F else if k = 1 then 0x45 else if k = 2 then 0x4C else if k = 3 then 0x46
     else if k = 24 then 0x54 else if k = 27 then 0x40 else if k = 28 then 52 else if k = 44 then 1 else if k = 52 then 1
     else if k = 63 then 0x40 else if k = 68 then 88 else if k = 73 then 0x10 else if k = 84 then 0xCD else if k = 85 then 0x40 else 0)"
  "length ex_elf = 512"
  by (simp_all add: ex_elf_def nth_list_update)

lemma ex_elf_part: "off + n \<le> 512 \<Longrightarrow> file_part ex_elf_drive ex_elf_inode off n = take n (drop off ex_elf)"
proof (rule nth_equalityI)
  fix j
  assume "off + n \<le> 512" "j < length (file_part ex_elf_drive ex_elf_inode off n)"
  then have j: "j < n" "off + j < 512" by (simp_all add: file_part_def)
  then show "file_part ex_elf_drive ex_elf_inode off n ! j = take n (drop off ex_elf) ! j"
    by (simp add: file_part_def ex_elf_inode ex_elf_drive_def ex_elf_def)
qed (simp add: file_part_def ex_elf_def)

definition ex_prog :: proghdr where
  "ex_prog = \<lparr>ph_type = 1, ph_off = 0, ph_vaddr = 0x40000000, ph_filesz = 88, ph_memsz = 0x1000\<rparr>"

lemma ex_elf_program:
  "elf_header ex_elf_drive ex_elf_inode = \<lparr>e_magic = 0x464C457F, e_entry = 0x40000054, e_phoff = 52, e_phnum = 1\<rparr>"
  "program ex_elf_drive ex_elf_inode = [ex_prog]"
proof -
  show h: "elf_header ex_elf_drive ex_elf_inode = \<lparr>e_magic = 0x464C457F, e_entry = 0x40000054, e_phoff = 52, e_phnum = 1\<rparr>"
    by (simp add: elf_header_def ex_elf_part elf_of_def ex_elf_nth get32_def get16_def le32_def)
  have "program ex_elf_drive ex_elf_inode = prog_headers ex_elf_drive ex_elf_inode 52 (Suc 0)" by (simp add: program_def h)
  also have "\<dots> = [prog_of (take 32 (drop 52 ex_elf))]" by (simp only: prog_headers_simps) (simp add: ex_elf_part)
  also have "\<dots> = [ex_prog]" by (simp add: prog_of_def ex_prog_def ex_elf_nth get32_def le32_def)
  finally show "program ex_elf_drive ex_elf_inode = [ex_prog]" .
qed

lemma ex_elf_executable: "executable ex_elf_drive ex_elf_inode"
  by (simp add: executable_def ex_elf_inode ex_elf_program loadable_def ex_prog_def pgal_def)

lemma ex_elf_pages:
  "guard [ex_prog] = 0x40001000" "exec_pages [ex_prog] = {0x40000000, 0x40001000, 0x40002000}" "prog_reads [ex_prog] = 11"
  "copy_needed (exec_pages [ex_prog]) \<le> 135"
proof -
  have r: "PGROUNDUP 0x40000000 = 0x40000000" "PGROUNDUP 0x40001000 = 0x40001000"
    using unat_PGROUNDUP [of "0x40000000"] unat_PGROUNDUP [of "0x40001000"] by (simp_all add: word_unat_eq_iff)
  show g: "guard [ex_prog] = 0x40001000" by (simp add: guard_def ex_prog_def r)
  have "apages 0x40000000 0x40001000 = {0x40000000}"
    using apages_step [of "0x40000000" "0x40001000"] by (simp add: pgal_def apages_empty)
  then show p: "exec_pages [ex_prog] = {0x40000000, 0x40001000, 0x40002000}" 
    unfolding exec_pages_def g by (simp add: ex_prog_def r insert_commute)
  show "prog_reads [ex_prog] = 11" by (simp add: ex_prog_def file_pages_def)
  have "card (exec_pages [ex_prog]) \<le> 3" "card (dx ` exec_pages [ex_prog]) \<le> 3"
    by (simp_all add: p card_insert_if)
  then show "copy_needed (exec_pages [ex_prog]) \<le> 135" by (simp add: copy_needed_def)
qed

text \<open>
  The user memory of the caller from \<^verbatim>\<open>0x40001000\<close>: the return address, the two arguments, and at \<^verbatim>\<open>0x40001010\<close> the name and
  behind it the array with the name as the only argument.
\<close>

definition ex_words :: "u32 list" where
  "ex_words = [0x40000102, 0x40001010, 0x40001018, 0, 0x6873, 0, 0x40001010, 0]"

definition ex_exec :: "vm \<Rightarrow> u32 \<Rightarrow> memory \<Rightarrow> kernel" where
  "ex_exec v pg m = (ex_fork v pg)\<lparr>mem := m, cr3 := pg, drive := ex_elf_drive, pending := replicate 15 IrqIde,
     sysfs_of := (sysfs_of boot_state)\<lparr>rootdir := 2\<rparr>\<rparr>"

definition ex_exec_regs :: regs where
  "ex_exec_regs = ex_regs\<lparr>eax := 11, esp := 0x40001000\<rparr>"

lemma ex_exec_memory:
  obtains v pg m xs where "uvm_inv ((ex_fork v pg)\<lparr>mem := m\<rparr>) pg xs" "kvm_ok (ex_fork v pg)" "129999 \<le> length xs"
    "user_bytes m pg 0x40001000 (concat (map put32 ex_words))"
proof (rule ex_two_pages)
  fix s0 s1 v :: vm and pg xs
  assume v: "uvm_inv v pg xs" "upages (mem v) pg = ex_pages" "kvm_ok v" "130000 \<le> length xs"
  obtain k ys where xs: "xs = k # ys" "129999 \<le> length ys" using v(4) by (cases xs) auto
  let ?s = "ex_fork v pg" and ?bs = "concat (map put32 ex_words)"
  have "can_fork 1 k ys ?s" by (rule ex_fork_ok [OF v(1) [unfolded xs(1)] v(3,2)])
  then have s: "uvm_inv ?s pg xs" "kvm_ok ?s" by (simp_all add: can_fork_def ex_fork_def ex_forker_def xs(1))
  have m: "mem ?s = mem v" by (simp add: ex_fork_def)
  have l: "length ?bs = unat (32 :: u32)" by (simp add: ex_words_def)
  have "range_mapped (mem ?s) pg 0x40001000 (unat (32 :: u32))"
    unfolding range_mapped_def
  proof (intro allI impI)
    fix j
    assume "j < unat (32 :: u32)"
    then have "unat (0x40001000 + of_nat j - 0x40001000 :: u32) < 4096" using unat_of_nat32 [of j] by simp
    then have "pg_of (0x40001000 + of_nat j) = 0x40001000"
      using pg_of_iff [of "0x40001000" "0x40001000 + of_nat j"] by (simp add: pgal_def word_less_nat_alt)
    then show "pg_of (0x40001000 + of_nat j) \<in> upages (mem ?s) pg" using v(2) m by (simp add: ex_pages_def)
  qed
  from copyout_stores [OF s(1) this supplies_Bytes l] obtain m where m: "uvm_inv (?s\<lparr>mem := m\<rparr>) pg xs"
      "user_mem m pg = overlay 0x40001000 ?bs (user_mem (mem ?s) pg)"
    by blast
  have "user_bytes m pg 0x40001000 ?bs" unfolding user_bytes_def m(2) using overlay_in [of "0x40001000" ?bs] l by simp
  then show thesis using that [OF m(1) s(2)] xs by simp
qed

lemma ex_exec_ok:
  assumes "uvm_inv ((ex_fork v pg)\<lparr>mem := m\<rparr>) pg xs" and "kvm_ok (ex_fork v pg)"
  shows "can_exec 1 xs (ex_exec v pg m)" "in_user 1 ex_exec_regs (ex_exec v pg m)" "solo 1 15 (ex_exec v pg m)"
proof -
  let ?s = "ex_exec v pg m" and ?f = "(ex_fork v pg)\<lparr>mem := m\<rparr>"
  have p: "procs ?s = proc_zero # ex_forker pg # replicate 62 proc_zero" "procp ?s = Some 1" "mem ?s = m" "cr3 ?s = pg"
    by (simp_all add: ex_exec_def ex_fork_def)
  have u: "uvm_inv ?s pg xs"
    using assms(1) by (simp add: ex_exec_def uvm_inv_def vm_inv_def kmem_inv_def page_ok_def kern_ok_def cli_ok_def)
  have "0x1000 \<notin> owned m pg" "0x1000 \<notin> set xs" using low_page [OF u, of "0x1000"] p(3) by simp_all
  then have sp: "stack_page 1 xs ?s" by (simp add: stack_page_def p ex_forker_def pgal_def)
  have r: "inodes ?s = replicate 64 inode_zero" "blocks ?s = replicate 256 block_zero" "idelock ?s = lock_zero"
    "drive ?s = ex_elf_drive" "pending ?s = replicate 15 IrqIde" "cursor ?s = 0" "eflags ?s = 0x202" "ncli ?s = 0" "intena ?s = 0"
    "ide_status ?s = 0x40"
    by (simp_all add: ex_exec_def ex_fork_def)
  have "kvm_ok ?s" using assms(2) by (simp add: ex_exec_def kvm_ok_def)
  then show "can_exec 1 xs ?s"
    using u sp by (simp add: can_exec_def p ex_forker_def con_ok_def idle_def icache_ok_def r block_zero_def inode_zero_def)
  have "idt ?s ! 64 = SETGATE True 8 64 3" by (simp add: ex_exec_def ex_fork_def idtinit_def Let_def)
  then show "in_user 1 ex_exec_regs ?s"
    by (simp add: in_user_def p) (simp add: ex_exec_def ex_fork_def ex_forker_def ex_exec_regs_def ex_regs_def SETGATE_def)
  have "alone 1 ?s"
    by (auto simp: alone_def p r ex_forker_def proc_zero_def lock_zero_def cli_ok_def nth_Cons')
  moreover have "coherent ?s" "length (blocks ?s) = 256" "pending ?s = replicate 15 IrqIde @ []"
    by (simp_all add: coherent_def sound_def r block_zero_def)
  ultimately show "solo 1 15 ?s" unfolding solo_def by blast
qed

lemma user_words:
  assumes "user_bytes m pg a (concat (map put32 (us @ vs @ ws)))"
  shows "user_bytes m pg (a + 4 * of_nat (length us)) (concat (map put32 vs))"
  using assms by (simp add: user_bytes_append)

theorem execv_enters_program_witness:
  "\<exists>s t. int_syscall ex_exec_regs s = Inr (ex_exec_regs\<lparr>eax := 0, eip := 0x40000054, esp := 0x40002FB0\<rparr>, t)
    \<and> user_mem (mem t) (cr3 t) 0x40000054 = Some 0xCD \<and> user_bytes (mem t) (cr3 t) 0x40002FB4 (put32 1)
    \<and> user_bytes (mem t) (cr3 t) 0x40002FFC [115, 104, 0]"
proof (rule ex_exec_memory)
  fix v pg m xs
  assume v: "uvm_inv ((ex_fork v pg)\<lparr>mem := m\<rparr>) pg xs" "kvm_ok (ex_fork v pg)" "129999 \<le> length xs"
    and ub: "user_bytes m pg 0x40001000 (concat (map put32 ex_words))"
  let ?s = "ex_exec v pg m" and ?r = ex_exec_regs
  note E = ex_exec_ok [OF v(1,2)]
  have sel: "mem ?s = m" "cr3 ?s = pg" "drive ?s = ex_elf_drive" "rootdir (sysfs_of ?s) = 2" "esp ?r = 0x40001000" "eax ?r = SYS_execv"
    by (simp_all add: ex_exec_def ex_exec_regs_def)
  have w: "user_bytes m pg 0x40001004 (concat (map put32 [0x40001010, 0x40001018]))" "user_bytes m pg 0x40001010 (put32 0x6873)"
    "user_bytes m pg 0x40001018 (concat (map put32 [0x40001010, 0]))"
    using user_words [of m pg "0x40001000" "take 1 ex_words" "[0x40001010, 0x40001018]" "drop 3 ex_words"]
      user_words [of m pg "0x40001000" "take 4 ex_words" "[0x6873]" "drop 5 ex_words"]
      user_words [of m pg "0x40001000" "take 6 ex_words" "[0x40001010, 0]" "[]"] ub
    by (simp_all add: ex_words_def)
  have nm: "put32 0x6873 = [115, 104, 0, 0]" by (simp add: put32_def byte_of_def)
  have "user_mem m pg (0x40001010 + of_nat i) = Some (ex_name i)" if "i \<le> 2" for i
    using w(2) [unfolded nm user_bytes_def, rule_format, of i] that by (auto simp: ex_name_def nth_Cons')
  then have nms: "names ?s 0x40001010 3"
    unfolding names_def sel using ex_dir
    by (intro exI [of _ ex_name] exI [of _ 1]) (simp add: ex_elf_drive_def root_dir_def ex_name_cstr ex_name_def)
  have av: "argv_at m pg 0x40001018 [0x40001010] [[115, 104]]"
    using w(2,3) unfolding nm argv_at_def arg_at_def by (auto intro: exI [of _ 0])
  have sp: "args_sp 0x40003000 [[115, 104]] = 0x40002FFC" "args_size [[115, 104]] = 4" by (simp_all add: arg_sp_def arg_size_def)
  have sg: "sint KERNEND < sint (0x40001010 :: u32)" "sint KERNEND < sint (0x40001018 :: u32)" by simp_all
  let ?r' = "?r\<lparr>eax := 0, eip := 0x40000054, esp := 0x40002FB0\<rparr>"
  have h: "user_bytes (mem ?s) (cr3 ?s) (esp ?r + 4) (concat (map put32 [0x40001010, 0x40001018]))"
      "ex_elf_inode = load_dinode (drive ?s 3) inode_zero" "executable (drive ?s) ex_elf_inode" "[ex_prog] = program (drive ?s) ex_elf_inode"
    using w(1) ex_elf_executable by (simp_all add: sel ex_elf_inode_def [symmetric] ex_elf_program)
  have so: "solo 1 (4 + prog_reads [ex_prog]) ?s" unfolding ex_elf_pages(3) using E(3) by simp
  have ar: "if (0x40001018 :: u32) = 0 then [[115, 104]] = [] else argv_at (mem ?s) (cr3 ?s) 0x40001018 [0x40001010] [[115, 104]]"
    using av sel by simp
  have sz: "length [[115, 104 :: u8]] \<le> 16" "args_size [[115, 104]] + 76 \<le> 4096" "unat (guard [ex_prog]) + 0x2000 < unat USEREND"
      "copy_needed (exec_pages [ex_prog]) \<le> length xs"
    using sp(2) v(3) ex_elf_pages(1,4) by simp_all
  have r': "?r' = ?r\<lparr>eax := 0, eip := e_entry (elf_header (drive ?s) ex_elf_inode), esp := args_sp (guard [ex_prog] + 0x2000) [[115, 104]] - 76\<rparr>"
    using sp(1) by (simp add: sel ex_elf_program ex_elf_pages)
  obtain dir t where t: "int_syscall ?r ?s = Inr (?r', t)" "replaced ?s 1 ex_elf_inode [[115, 104]] dir t"
    using execv_enters_program [OF E(2) sel(6) E(1) h(1) sg(1) _ nms h(2-4) so ar sz r'] sg(2) by blast
  note R = t(2) [unfolded replaced_def Let_def sel ex_elf_program ex_elf_pages]
  have c: "cr3 t = dir" using R by simp
  have "stack_holds (mem t) dir 0x40002FB0 0x40003000 [[115, 104]]" using R sp by simp
  then have "user_bytes (mem t) dir 0x40002FB0 (concat (map put32 ([0xFFFFFFFF] @ [1] @ [0x40002FBC, 0x40002FFC] @ replicate 15 0)))"
      "user_bytes (mem t) dir 0x40002FFC [115, 104, 0]"
    by (simp_all add: stack_holds_def stack_words_def arg_sp_def)
  then have st: "user_bytes (mem t) dir 0x40002FB4 (put32 1)" "user_bytes (mem t) dir 0x40002FFC [115, 104, 0]"
    using user_words [of "mem t" dir "0x40002FB0" "[0xFFFFFFFF]" "[1]" "[0x40002FBC, 0x40002FFC] @ replicate 15 0"] by simp_all
  have "user_mem (mem t) dir 0x40000054 = prog_mem ex_elf_drive ex_elf_inode [ex_prog] KERNEND (\<lambda>_. None) 0x40000054"
    using R by (simp add: pg_of_def PTE_ADDR_def)
  also have "\<dots> = Some (segment_bytes ex_elf_drive ex_elf_inode ex_prog ! 84)"
    by (simp add: overlay_def segment_bytes_def image_contents_def ex_prog_def ex_elf_inode)
  also have "\<dots> = Some 0xCD"
    by (simp add: segment_bytes_def image_contents_def ex_prog_def ex_elf_inode nth_append ex_elf_drive_def ex_elf_nth del: upt_rec_numeral)
  finally show ?thesis using t(1) st c by blast
qed

end
