(* ===== verification/Spec2Isabelle.thy ===== *)
theory Spec2Isabelle
  imports Mix_Prelude Mix_Memory Mix_Layout Mix_Cpu Mix_Format Mix_Console Mix_Kalloc Mix_Vm
    Mix_VmView Mix_VmMap Mix_VmKernel Mix_VmUser Mix_VmAlloc
    Mix_Segments Mix_Kernel Mix_Proc Mix_Intr Mix_Disk Mix_Inode Mix_Syscall
    Mix_Tables Mix_Frames Mix_Sched Mix_Process Mix_Invariant Mix_Boot Mix_Mkfs Mix_UserLib Mix_UserProgs
    Mix_Input Mix_Cache Mix_VmCopy Mix_Fork Mix_Locks Mix_Load Mix_Path Mix_Switch
    Mix_Program Mix_Exec
begin

text \<open>
  A verification library for mixv6, a small 32-bit x86 kernel in the style of xv6, with its boot
  loader, its disk image builder and its user programs. The definitions are translations of the C
  code under \<^verbatim>\<open>src/\<close>, one per function, executable, with the code's names; the theorems say what the
  functions do, which of their states are reachable, and where they fail.

  \<^bold>\<open>The program.\<close> The boot loader (\<^verbatim>\<open>boot/bootmain.c\<close>) reads the kernel from the sectors \<^verbatim>\<open>mkfs.c\<close>
  put it in. \<^verbatim>\<open>kernel/main.c\<close> then fills the free list of pages (\<^verbatim>\<open>kernel/mm/kalloc.c\<close>), loads the segments
  (\<^verbatim>\<open>kernel/mm/vm.c\<close>) and the gates (\<^verbatim>\<open>kernel/trap.c\<close>), opens the console (\<^verbatim>\<open>dev/console.c\<close>) and the file
  system (\<^verbatim>\<open>fs/file.c\<close>), and makes the first process (\<^verbatim>\<open>kernel/proc.c\<close>). From there on the kernel runs in
  traps: a system call (\<^verbatim>\<open>kernel/syscall/\<close>) works on the current process, its address space, the open files
  and the inodes; it reads the disk through the buffer cache (\<^verbatim>\<open>fs/bio.c\<close>, \<^verbatim>\<open>dev/ide.c\<close>) and the keyboard
  through the input buffer, and sleeps until an interrupt wakes it; the timer calls the scheduler.

  \<^bold>\<open>State and results.\<close> There is one kernel state. Each layer adds its static variables to the record of
  the layer below: \<open>machine\<close> (flags, memory, ports, the nesting of critical sections), \<open>console\<close>,
  \<open>kmem\<close>, \<open>vm\<close>, \<open>segs\<close>, \<open>kernel\<close>. An operation takes the state and returns it updated; it is polymorphic
  in the layers above it. Memory is a function from 32-bit addresses to bytes, so page tables, free pages,
  the screen and trap frames are words in memory, as in the code; the tables of C structures (processes,
  files, inodes, buffers) are lists of records, and a pointer into one is an index. Integers have their
  width and wrap. An operation that can stop returns \<open>Inl\<close> of a \<open>halt\<close>: \<open>Panic\<close> with the message of
  \<^verbatim>\<open>panic\<close>, \<open>Fault\<close> where the C code has no defined result (an index out of its array, a null pointer, a
  page that is not there), \<open>Blocked\<close> for a wait that nothing will end, \<open>Switched n\<close> when the path goes on
  in the process \<open>n\<close>.

  \<^bold>\<open>Theories.\<close>
  \<^item> \<open>Mix_Prelude\<close>, \<open>Mix_Memory\<close>, \<open>Mix_Layout\<close>: results, lists, words; bytes and words in memory, the string
    routines of \<^verbatim>\<open>lib/string.c\<close> on the string instructions; the memory map and the paging macros.
  \<^item> \<open>Mix_Cpu\<close>: \<^verbatim>\<open>pushcli\<close> and \<^verbatim>\<open>popcli\<close>. The interface \<open>nesting\<close> states the contract of a nested critical
    section; every operation that runs in one is reduced with its lemmas.
  \<^item> \<open>Mix_Format\<close>, \<open>Mix_Console\<close>: \<^verbatim>\<open>putchar\<close> refines a terminal of rows and columns, and \<^verbatim>\<open>printf\<close> prints
    the text its format means. The interface \<open>number_printer\<close> is shared with the \<^verbatim>\<open>printf\<close> of the user library.
  \<^item> \<open>Mix_Kalloc\<close>: the free list inside the free pages; \<open>page_allocator\<close> is its contract, a stack of
    distinct pages.
  \<^item> \<open>Mix_Vm\<close> has all of \<^verbatim>\<open>kernel/mm/vm.c\<close> but the segments. \<open>Mix_VmView\<close> looks at a page as 1024 entries,
    \<open>Mix_VmMap\<close> has the invariant of a directory and its tables, \<open>Mix_VmKernel\<close> the kernel part,
    \<open>Mix_VmUser\<close> the user part and its freeing, \<open>Mix_VmAlloc\<close> growing, \<open>Mix_VmCopy\<close> copying,
    \<open>Mix_Load\<close> loading a segment from a file, \<open>Mix_Program\<close> all segments of a program and its stack. Each lemma accounts for every page: it is free, a table or
    a frame.
  \<^item> \<open>Mix_Segments\<close>: descriptors, gates, the task state, \<^verbatim>\<open>switchuvm\<close>; what the processor reads back.
  \<^item> \<open>Mix_Kernel\<close>, \<open>Mix_Proc\<close>, \<open>Mix_Intr\<close>, \<open>Mix_Disk\<close>, \<open>Mix_Inode\<close>, \<open>Mix_Syscall\<close>: the tables and the operations
    of \<^verbatim>\<open>fs/file.c\<close>, \<^verbatim>\<open>kernel/proc.c\<close>, \<^verbatim>\<open>kernel/lock.c\<close>, \<^verbatim>\<open>dev/\<close>, \<^verbatim>\<open>fs/\<close>, \<^verbatim>\<open>kernel/syscall/\<close>, \<^verbatim>\<open>kernel/trap.c\<close> and
    \<^verbatim>\<open>kernel/main.c\<close>, in the order in which they call each other.
  \<^item> \<open>Mix_Tables\<close>: the same operations without their critical sections, and the interface \<open>refcounts\<close>, by
    which a table implements a multiset of references; interpreted for open files and for inodes.
  \<^item> \<open>Mix_Sched\<close>, \<open>Mix_Process\<close>, \<open>Mix_Fork\<close>: whom \<^verbatim>\<open>sched\<close> chooses, the life of a process, \<^verbatim>\<open>fork\<close>.
    \<open>Mix_Switch\<close> has the assembly of \<^verbatim>\<open>swtch.S\<close>, \<^verbatim>\<open>trapasm.S\<close> and the vectors: from the \<^verbatim>\<open>int\<close> of a user program to
    the instruction behind it, and from one process to the other, with \<open>Mix_Fork\<close> for both returns of \<^verbatim>\<open>fork\<close>.
    \<open>Mix_Locks\<close> interleaves several processes statement by statement in \<^verbatim>\<open>acquire\<close> and \<^verbatim>\<open>release\<close>, as an
    inductive relation with and without preemption.
  \<^item> \<open>Mix_Frames\<close>, \<open>Mix_Invariant\<close>: what operations leave alone, and the invariant of all tables that every
    system call, trap and interrupt keeps.
  \<^item> \<open>Mix_Cache\<close>, \<open>Mix_Path\<close>, \<open>Mix_Input\<close>: reading a file through the cache, with the sleeps and the interrupts
    on the way; finding it by its name; the line editor that the keyboard drives.
  \<^item> \<open>Mix_Exec\<close>: \<^verbatim>\<open>execv\<close> as a whole, from the \<^verbatim>\<open>int\<close> in the old program to the first instruction of the new one: the file is
    found (\<open>Mix_Path\<close>), read (\<open>Mix_Cache\<close>) and loaded (\<open>Mix_Program\<close>), the arguments are copied to the new stack, the old
    address space is freed, and the trap frame leads to the entry point (\<open>Mix_Switch\<close>).
  \<^item> \<open>Mix_Boot\<close>, \<open>Mix_Mkfs\<close>: the boot loader and the image builder; the image decodes to what it was given.
  \<^item> \<open>Mix_UserLib\<close>, \<open>Mix_UserProgs\<close>: the user library, shell, \<^verbatim>\<open>ls\<close>, \<^verbatim>\<open>cat\<close>, \<^verbatim>\<open>argtest\<close> and \<^verbatim>\<open>calc\<close>.

  \<^bold>\<open>Loops and fuel.\<close> A loop over a table or a list is structural. The loops of \<^verbatim>\<open>vm.c\<close> over an address
  range step by pages and get \<open>n_pages + 1\<close> rounds, one more than there are pages in 32 bits; \<^verbatim>\<open>copyout\<close>,
  \<^verbatim>\<open>readi\<close> and \<^verbatim>\<open>writei\<close> move at least one byte per round and get the size plus one; \<^verbatim>\<open>acquire\<close>, \<^verbatim>\<open>sleep\<close> and
  \<^verbatim>\<open>iderw\<close> get one round more than there are interrupts to come, after which nothing can end the wait. Running out is a
  \<open>Fault\<close> (or \<open>Blocked\<close> for a wait), which the functional theorems exclude by giving the result. The inner
  loop of \<^verbatim>\<open>calc\<close> is a partial function, and its theorem proves that it returns.

  \<^bold>\<open>Parameters.\<close> The symbols of the linker (\<^verbatim>\<open>kernel_end\<close>, \<^verbatim>\<open>rodata_end\<close>, the addresses of the static tables and of
  \<^verbatim>\<open>trapret\<close>) are fields that no operation writes. The drive is a map from sectors to bytes with a status
  byte; the interrupts that arrive during a wait are the list \<open>pending\<close>. The entry points of the vectors,
  the value of \<^verbatim>\<open>cr2\<close> and the scan code are arguments of \<open>idtinit\<close> and \<open>trap\<close>. The files that \<^verbatim>\<open>mkfs\<close> opens
  and the system calls of the user programs are arguments.

  \<^bold>\<open>Not modelled.\<close> The real-mode assembly of \<^verbatim>\<open>bootasm.S\<close> (but for \<^verbatim>\<open>readseg\<close> and \<^verbatim>\<open>memclr\<close>), the script that generates the
  vectors, and the system call stubs of \<^verbatim>\<open>usys.S\<close>, which load a number and execute \<^verbatim>\<open>int\<close>. What the compiler puts
  on a kernel stack is not modelled: an operation of the C code keeps the stacks, and \<open>swtch\<close> and the trap entry
  are given the registers at their call. A system call that reaches a switch ends the path of its process with
  \<open>Switched\<close>; \<open>sched_swtch\<close> follows it into the other process. Enabling paging is no change of state, since memory
  is mapped to itself. Interrupts arrive in the model only where the code waits; a switch at any other point
  is studied for the locks in \<open>Mix_Locks\<close> and for \<^verbatim>\<open>sched\<close> itself in \<open>Mix_Switch\<close>. Timing, the registers of the drive
  other than its status, and the instructions of user programs other than \<^verbatim>\<open>int\<close> are left out.

  \<^bold>\<open>What the theorems found.\<close> A program header can make \<^verbatim>\<open>execv\<close> write over the kernel (\<open>Mix_Load\<close>); a
  freed address space loses 128 pages (\<open>Mix_VmUser\<close>, \<open>Mix_VmCopy\<close>); a double \<^verbatim>\<open>kfree\<close> and an unmatched \<^verbatim>\<open>popcli\<close>
  go unnoticed (\<open>Mix_Kalloc\<close>, \<open>Mix_Cpu\<close>); \<^verbatim>\<open>sched\<close> starves a process (\<open>Mix_Sched\<close>) and can
  be interrupted before it has switched (\<open>Mix_Switch\<close>); \<^verbatim>\<open>wait\<close> after the exit of the
  child sleeps for ever (\<open>Mix_Process\<close>); two processes can get one lock, or one can sleep on a free one
  (\<open>Mix_Locks\<close>); \<^verbatim>\<open>fork\<close> leaks references to the console files (\<open>Mix_Fork\<close>) and \<^verbatim>\<open>execv\<close> one to the inode
  of the program (\<open>Mix_Exec\<close>); the console can become deaf
  (\<open>Mix_Input\<close>); the boot loader truncates a sector count (\<open>Mix_Boot\<close>); the shell and the user \<^verbatim>\<open>printf\<close> have one
  bug each (\<open>Mix_UserProgs\<close>, \<open>Mix_UserLib\<close>).
\<close>

end
